(* ===== verification/Prelude.thy ===== *)
theory Prelude
  imports Main "HOL-Library.Word" "HOL-Library.Signed_Division"
begin

text \<open>
  What every component of the firmware model shares: the names of the C integer types, the
  conversions between them (\<open>i16\<close> samples read as integers, 32-bit wrap-around, arithmetic
  shifts), C byte copies and string comparisons, little-endian fields, and the generic list and
  word lemmas the component proofs use.
\<close>

section \<open>Types and collections\<close>

type_synonym u8 = "8 word"
type_synonym u16 = "16 word"
type_synonym u32 = "32 word"
type_synonym i16 = "16 word"

named_theorems config_simps "the values of the constants of config.h"
named_theorems cnum "C integer conversions that are exact on the values that occur"

text \<open>\<open>esp_err_t\<close>: the codes the firmware tests or returns, and any other.\<close>

datatype esp_err = ESP_OK | ESP_FAIL | ESP_ERR_NO_MEM | ESP_ERR_INVALID_ARG
  | ESP_ERR_INVALID_STATE | ESP_ERR_INVALID_SIZE | ESP_ERR_NVS_NOT_FOUND
  | ESP_ERR_NVS_NO_FREE_PAGES | ESP_ERR_NVS_NEW_VERSION_FOUND | ESP_ERR_OTHER

section \<open>C integers\<close>

text \<open>
  A signed 32-bit (64-bit) computation is done on \<open>int\<close> and brought back to its width by
  \<open>i32\<close> (\<open>i64\<close>), two's complement as the target does it. A right shift of a negative value
  is arithmetic on this target (gcc), so it rounds towards minus infinity.
\<close>

definition i32 :: "int \<Rightarrow> int" where
  "i32 v = signed_take_bit 31 v"

definition s16 :: "int \<Rightarrow> int" where
  "s16 v = signed_take_bit 15 v"

definition i64 :: "int \<Rightarrow> int" where
  "i64 v = signed_take_bit 63 v"

definition asr :: "int \<Rightarrow> nat \<Rightarrow> int" where
  "asr v n = v div 2 ^ n"

lemma i32_id: "- 2147483648 \<le> v \<Longrightarrow> v < 2147483648 \<Longrightarrow> i32 v = v"
  by (simp add: i32_def signed_take_bit_int_eq_self)

lemma s16_id: "- 32768 \<le> v \<Longrightarrow> v \<le> 32767 \<Longrightarrow> s16 v = v"
  by (simp add: s16_def signed_take_bit_int_eq_self)

lemma i64_id: "- 9223372036854775808 \<le> v \<Longrightarrow> v < 9223372036854775808 \<Longrightarrow> i64 v = v"
  by (simp add: i64_def signed_take_bit_int_eq_self)

lemma i32_add: "i32 (i32 a + i32 b) = i32 (a + b)" "i32 (i32 a + b) = i32 (a + b)"
  "i32 (a + i32 b) = i32 (a + b)"
proof -
  show add: "i32 (i32 a + i32 b) = i32 (a + b)" for a b by (simp add: i32_def signed_take_bit_add)
  have idem: "i32 (i32 a) = i32 a" for a by (simp add: i32_def)
  show "i32 (i32 a + b) = i32 (a + b)" by (metis add idem)
  show "i32 (a + i32 b) = i32 (a + b)" by (metis add idem)
qed

lemma i32_range: "- 2147483648 \<le> i32 v" "i32 v < 2147483648"
  using signed_take_bit_int_greater_eq_minus_exp [of 31 v]
    signed_take_bit_int_less_exp [of 31 v]
  by (simp_all add: i32_def)

lemma sint16_range: "- 32768 \<le> sint (x :: i16)" "sint (x :: i16) \<le> 32767"
  using sint_ge [of x] sint_lt [of x] by simp_all

lemma sint16_of_int [cnum]:
  "- 32768 \<le> v \<Longrightarrow> v \<le> 32767 \<Longrightarrow> sint (word_of_int v :: i16) = v"
  by (simp add: sint_sbintrunc' signed_take_bit_int_eq_self)

lemma unat_u8_less [simp]: "unat (x :: u8) < 256"
  using unsigned_less [of x] by simp

lemma unat_u8_le [simp]: "unat (x :: u8) \<le> 255"
  using unat_u8_less [of x] by linarith

lemma unat_u32_less: "unat (x :: u32) < 4294967296"
  using unsigned_less [of x] by simp

lemma unat_u16_less: "unat (x :: u16) < 65536"
  using unsigned_less [of x] by simp

lemma unat_of_nat_u8 [cnum]: "n < 256 \<Longrightarrow> unat (of_nat n :: u8) = n"
  by (simp add: unat_of_nat)

lemma unat_of_nat_u32 [cnum]: "n < 4294967296 \<Longrightarrow> unat (of_nat n :: u32) = n"
  by (simp add: unat_of_nat)

lemma u32_of_nat_unat [simp]: "of_nat (unat (x :: u32)) = x"
  by simp

lemma unat_u32_inject: "unat (x :: u32) = unat y \<longleftrightarrow> x = y"
  by (metis u32_of_nat_unat)

lemma u32_less_of_nat [cnum]:
  "a < 4294967296 \<Longrightarrow> b < 4294967296 \<Longrightarrow> (of_nat a < (of_nat b :: u32)) = (a < b)"
  by (simp add: word_less_nat_alt cnum)

lemma u32_cap [cnum]:
  "a < 4294967296 \<Longrightarrow> b < 4294967296 \<Longrightarrow>
   (if (of_nat b :: u32) < of_nat a then of_nat b else of_nat a) = (of_nat (min a b) :: u32)"
  by (simp add: u32_less_of_nat min_def)

lemma u32_mult_of_nat:
  "unat x * k < 4294967296 \<Longrightarrow> x * of_nat k = (of_nat (unat x * k) :: u32)"
  by simp

text \<open>The saturation to int16 that gain.c, dc_blocker.c, hpf.c and mic_dsp.c each declare.\<close>

definition sat_int16 :: "int \<Rightarrow> i16" where
  "sat_int16 v =
     (if v > 32767 then word_of_int 32767
      else if v < - 32768 then word_of_int (- 32768)
      else word_of_int v)"

lemma sint_sat_int16: "sint (sat_int16 v) = max (- 32768) (min 32767 v)"
  by (simp only: sat_int16_def split: if_split) (simp add: cnum)

lemma sat_int16_id: "- 32768 \<le> v \<Longrightarrow> v \<le> 32767 \<Longrightarrow> sint (sat_int16 v) = v"
  by (simp add: sint_sat_int16)

lemma sat_int16_sint [simp]: "sat_int16 (sint x) = x"
  using sint16_range [of x] by (simp add: sat_int16_def)

lemma i32_sint16 [simp]: "i32 (sint (x :: i16)) = sint x"
  using sint16_range [of x] by (simp add: i32_id)

section \<open>Bytes and strings\<close>

text \<open>\<open>memcpy(dst, src, n)\<close> over arrays as lists: the first \<open>n\<close> bytes are replaced.\<close>

definition memcpy :: "'a list \<Rightarrow> 'a list \<Rightarrow> nat \<Rightarrow> 'a list" where
  "memcpy dst src n = take n src @ drop n dst"

lemma length_memcpy:
  "n \<le> length src \<Longrightarrow> n \<le> length dst \<Longrightarrow> length (memcpy dst src n) = length dst"
  by (simp add: memcpy_def)

lemma take_memcpy: "n \<le> length src \<Longrightarrow> take n (memcpy dst src n) = take n src"
  by (simp add: memcpy_def)

text \<open>
  A C string is its characters before the terminating NUL. \<open>strncmp(a, b, n) == 0\<close> on two
  such strings compares at most \<open>n\<close> characters, the terminator included.
\<close>

definition strncmp_eq :: "string \<Rightarrow> string \<Rightarrow> nat \<Rightarrow> bool" where
  "strncmp_eq a b n = (take n a = take n b)"

lemma strncmp_eq_short:
  "length a < n \<Longrightarrow> length b < n \<Longrightarrow> strncmp_eq a b n = (a = b)"
  by (simp add: strncmp_eq_def)

text \<open>A 32-bit value as the target stores it: four bytes, least significant first.\<close>

definition le32 :: "u32 \<Rightarrow> u8 list" where
  "le32 w = [ucast w, ucast (drop_bit 8 w), ucast (drop_bit 16 w), ucast (drop_bit 24 w)]"

definition un_le32 :: "u8 \<Rightarrow> u8 \<Rightarrow> u8 \<Rightarrow> u8 \<Rightarrow> nat" where
  "un_le32 a b c d = unat a + 256 * unat b + 65536 * unat c + 16777216 * unat d"

lemma length_le32 [simp]: "length (le32 w) = 4"
  by (simp add: le32_def)

lemma nat_bytes_sum:
  fixes n :: nat
  shows "n mod 256 + n div 256 mod 256 * 256 + n div 65536 mod 256 * 65536
     + n div 16777216 * 16777216 = n"
proof -
  have "n = n mod 256 + n div 256 * 256" by simp
  moreover have "n div 256 = n div 256 mod 256 + n div 65536 * 256"
    using mod_mult_div_eq [of "n div 256" 256] by (simp add: div_mult2_eq [symmetric])
  moreover have "n div 65536 = n div 65536 mod 256 + n div 16777216 * 256"
    using mod_mult_div_eq [of "n div 65536" 256] by (simp add: div_mult2_eq [symmetric])
  ultimately show ?thesis by linarith
qed

lemma un_le32_le32:
  "un_le32 (ucast w) (ucast (drop_bit 8 w)) (ucast (drop_bit 16 w)) (ucast (drop_bit 24 w))
     = unat (w :: u32)"
proof -
  have "unat w div 16777216 < 256"
    using unat_u32_less [of w] by (simp add: less_mult_imp_div_less)
  moreover have "unat (ucast x :: u8) = unat x mod 256" for x :: u32
    by (simp add: unsigned_ucast_eq take_bit_eq_mod)
  moreover have "unat (drop_bit n x) = unat x div 2 ^ n" for x :: u32 and n
    by (simp only: unat_drop_bit_eq) (simp only: drop_bit_eq_div)
  ultimately show ?thesis
    unfolding un_le32_def using nat_bytes_sum [of "unat w"]
    by (simp add: mult.commute)
qed

end
