(* ===== verification/Config.thy ===== *)
theory Config
  imports Prelude
begin

text \<open>
  The constants of \<open>main/config.h\<close>, one definition per macro, in the file's order. Counts and
  limits are \<open>nat\<close>, filter coefficients and GPIO numbers \<open>int\<close>, packet fields bytes. Every
  equation is in \<open>config_simps\<close>; the lemmas at the end give the derived values and the pin map.
\<close>

section \<open>Audio\<close>

definition SAMPLE_RATE :: nat where [config_simps]:
  "SAMPLE_RATE = 16000"

definition CHANNELS :: nat where [config_simps]:
  "CHANNELS = 1"

definition FRAME_MS :: nat where [config_simps]:
  "FRAME_MS = 20"

definition FRAME_SAMPLES :: nat where [config_simps]:
  "FRAME_SAMPLES = SAMPLE_RATE * FRAME_MS div 1000"

definition FRAME_BYTES :: nat where [config_simps]:
  "FRAME_BYTES = FRAME_SAMPLES * 2"

definition OPUS_BITRATE :: nat where [config_simps]:
  "OPUS_BITRATE = 32000"

definition OPUS_COMPLEXITY :: nat where [config_simps]:
  "OPUS_COMPLEXITY = 2"

definition MAX_OPUS_BYTES :: nat where [config_simps]:
  "MAX_OPUS_BYTES = 256"

section \<open>Ring buffer\<close>

definition RING_SECONDS :: nat where [config_simps]:
  "RING_SECONDS = 60"

definition RING_FRAMES :: nat where [config_simps]:
  "RING_FRAMES = RING_SECONDS * 1000 div FRAME_MS"

section \<open>Voice activity detection\<close>

definition VAD_HANGOVER_MS :: nat where [config_simps]:
  "VAD_HANGOVER_MS = 600"

definition VAD_HANGOVER_FRAMES :: nat where [config_simps]:
  "VAD_HANGOVER_FRAMES = VAD_HANGOVER_MS div FRAME_MS"

definition VAD_PREROLL_MS :: nat where [config_simps]:
  "VAD_PREROLL_MS = 300"

definition VAD_PREROLL_FRAMES :: nat where [config_simps]:
  "VAD_PREROLL_FRAMES = VAD_PREROLL_MS div FRAME_MS"

definition VAD_ENERGY_THRESHOLD :: nat where [config_simps]:
  "VAD_ENERGY_THRESHOLD = 50000"

definition VAD_RATIO_THRESHOLD :: nat where [config_simps]:
  "VAD_RATIO_THRESHOLD = 4"

definition VAD_ENERGY_THRESHOLD_FLOOR :: nat where [config_simps]:
  "VAD_ENERGY_THRESHOLD_FLOOR = 10000"

definition VAD_NOISE_MULTIPLIER :: nat where [config_simps]:
  "VAD_NOISE_MULTIPLIER = 3"

definition VAD_NOISE_ALPHA_DOWN_Q16 :: int where [config_simps]:
  "VAD_NOISE_ALPHA_DOWN_Q16 = 1311"

definition VAD_NOISE_ALPHA_UP_Q16 :: int where [config_simps]:
  "VAD_NOISE_ALPHA_UP_Q16 = 131"

section \<open>Gain and high-pass\<close>

definition INPUT_GAIN_Q8 :: nat where [config_simps]:
  "INPUT_GAIN_Q8 = 1024"

definition HPF_B0_Q14 :: int where [config_simps]:
  "HPF_B0_Q14 = 15585"

definition HPF_B1_Q14 :: int where [config_simps]:
  "HPF_B1_Q14 = - 31170"

definition HPF_B2_Q14 :: int where [config_simps]:
  "HPF_B2_Q14 = 15585"

definition HPF_A1_Q14 :: int where [config_simps]:
  "HPF_A1_Q14 = - 31131"

definition HPF_A2_Q14 :: int where [config_simps]:
  "HPF_A2_Q14 = 14825"

section \<open>Button\<close>

definition BUTTON_GPIO :: int where [config_simps]:
  "BUTTON_GPIO = 2"

definition BUTTON_DEBOUNCE_MS :: nat where [config_simps]:
  "BUTTON_DEBOUNCE_MS = 20"

definition BUTTON_DOUBLE_GAP_MS :: nat where [config_simps]:
  "BUTTON_DOUBLE_GAP_MS = 400"

definition BUTTON_LONG_MS :: nat where [config_simps]:
  "BUTTON_LONG_MS = 1000"

definition BUTTON_VERY_LONG_MS :: nat where [config_simps]:
  "BUTTON_VERY_LONG_MS = 6000"

section \<open>Battery\<close>

definition VBAT_GPIO :: int where [config_simps]:
  "VBAT_GPIO = 1"

definition VBAT_MIN_MV :: nat where [config_simps]:
  "VBAT_MIN_MV = 3000"

definition VBAT_FULL_MV :: nat where [config_simps]:
  "VBAT_FULL_MV = 4100"

definition VBAT_MAX_MV :: nat where [config_simps]:
  "VBAT_MAX_MV = 4250"

definition BATTERY_SAMPLE_INTERVAL_S :: nat where [config_simps]:
  "BATTERY_SAMPLE_INTERVAL_S = 30"

definition BATTERY_OVERSAMPLE :: nat where [config_simps]:
  "BATTERY_OVERSAMPLE = 64"

section \<open>BLE power\<close>

definition BLE_CONN_PARAM_REQUEST_ENABLED :: nat where [config_simps]:
  "BLE_CONN_PARAM_REQUEST_ENABLED = 0"

definition BLE_CONN_ITVL_MIN_UNITS :: nat where [config_simps]:
  "BLE_CONN_ITVL_MIN_UNITS = 60"

definition BLE_CONN_ITVL_MAX_UNITS :: nat where [config_simps]:
  "BLE_CONN_ITVL_MAX_UNITS = 120"

definition BLE_CONN_LATENCY :: nat where [config_simps]:
  "BLE_CONN_LATENCY = 4"

definition BLE_CONN_SUP_TIMEOUT_UNITS :: nat where [config_simps]:
  "BLE_CONN_SUP_TIMEOUT_UNITS = 600"

definition BLE_ADV_FAST_ITVL_MIN_UNITS :: nat where [config_simps]:
  "BLE_ADV_FAST_ITVL_MIN_UNITS = 48"

definition BLE_ADV_FAST_ITVL_MAX_UNITS :: nat where [config_simps]:
  "BLE_ADV_FAST_ITVL_MAX_UNITS = 96"

definition BLE_ADV_FAST_WINDOW_MS :: nat where [config_simps]:
  "BLE_ADV_FAST_WINDOW_MS = 30000"

definition BLE_ADV_ITVL_MIN_UNITS :: nat where [config_simps]:
  "BLE_ADV_ITVL_MIN_UNITS = 1280"

definition BLE_ADV_ITVL_MAX_UNITS :: nat where [config_simps]:
  "BLE_ADV_ITVL_MAX_UNITS = 1600"

section \<open>Dual-microphone canceller\<close>

definition DSP_NLMS_TAPS :: nat where [config_simps]:
  "DSP_NLMS_TAPS = 32"

definition DSP_NLMS_STEP_Q15 :: int where [config_simps]:
  "DSP_NLMS_STEP_Q15 = 6553"

definition DSP_NLMS_LEAK_Q15 :: int where [config_simps]:
  "DSP_NLMS_LEAK_Q15 = 1"

definition DSP_NLMS_EPS :: int where [config_simps]:
  "DSP_NLMS_EPS = 512"

section \<open>Audio packet wire format\<close>

definition C6_VERSION :: nat where [config_simps]:
  "C6_VERSION = 1"

definition C6_HEADER_LEN :: nat where [config_simps]:
  "C6_HEADER_LEN = 12"

definition C6_FLAG_HISTORICAL :: u8 where [config_simps]:
  "C6_FLAG_HISTORICAL = 1"

definition C6_FLAG_LAST_OF_REQ :: u8 where [config_simps]:
  "C6_FLAG_LAST_OF_REQ = 2"

definition C6_FRAMES_PER_CHUNK :: nat where [config_simps]:
  "C6_FRAMES_PER_CHUNK = 10"

text \<open>\<open>enum c6_packet_type\<close> and \<open>enum c6_vad_state\<close>, at the width of the packet's fields.\<close>

definition C6_LIVE :: u8 where [config_simps]:
  "C6_LIVE = 0"

definition C6_MEMORY_CHUNK :: u8 where [config_simps]:
  "C6_MEMORY_CHUNK = 1"

definition C6_HISTORICAL :: u8 where [config_simps]:
  "C6_HISTORICAL = 2"

definition C6_GAP_MARKER :: u8 where [config_simps]:
  "C6_GAP_MARKER = 0"

definition C6_SPEECH :: u8 where [config_simps]:
  "C6_SPEECH = 1"

definition C6_PREROLL :: u8 where [config_simps]:
  "C6_PREROLL = 2"

definition C6_HANGOVER :: u8 where [config_simps]:
  "C6_HANGOVER = 3"

section \<open>GATT services and provisioning\<close>

definition OPENRECALL_SERVICE_UUID :: string where [config_simps]:
  "OPENRECALL_SERVICE_UUID = ''6e9d0001-b5a3-4f6e-9b1a-7c2d5e8f0a10''"

definition OPENRECALL_AUDIO_CHAR_UUID :: string where [config_simps]:
  "OPENRECALL_AUDIO_CHAR_UUID = ''6e9d0002-b5a3-4f6e-9b1a-7c2d5e8f0a10''"

definition OPENRECALL_COMMAND_CHAR_UUID :: string where [config_simps]:
  "OPENRECALL_COMMAND_CHAR_UUID = ''6e9d0003-b5a3-4f6e-9b1a-7c2d5e8f0a10''"

definition OPENRECALL_ACK_CHAR_UUID :: string where [config_simps]:
  "OPENRECALL_ACK_CHAR_UUID = ''6e9d0004-b5a3-4f6e-9b1a-7c2d5e8f0a10''"

definition PROV_SERVICE_UUID :: string where [config_simps]:
  "PROV_SERVICE_UUID = ''6e9d0010-b5a3-4f6e-9b1a-7c2d5e8f0a10''"

definition PROV_STATE_CHAR_UUID :: string where [config_simps]:
  "PROV_STATE_CHAR_UUID = ''6e9d0011-b5a3-4f6e-9b1a-7c2d5e8f0a10''"

definition PROV_KEY_CHAR_UUID :: string where [config_simps]:
  "PROV_KEY_CHAR_UUID = ''6e9d0012-b5a3-4f6e-9b1a-7c2d5e8f0a10''"

definition PROV_RESET_CHAR_UUID :: string where [config_simps]:
  "PROV_RESET_CHAR_UUID = ''6e9d0013-b5a3-4f6e-9b1a-7c2d5e8f0a10''"

definition PROV_NVS_NAMESPACE :: string where [config_simps]:
  "PROV_NVS_NAMESPACE = ''sense_prov''"

definition PROV_NVS_KEY :: string where [config_simps]:
  "PROV_NVS_KEY = ''srvkey''"

definition PROV_NVS_PROVISIONED :: string where [config_simps]:
  "PROV_NVS_PROVISIONED = ''provd''"

definition PROV_FACTORY_RESET_MAGIC :: nat where [config_simps]:
  "PROV_FACTORY_RESET_MAGIC = 2779096485"

section \<open>microSD and microphones\<close>

definition SD_PIN_SCK :: int where [config_simps]:
  "SD_PIN_SCK = 7"

definition SD_PIN_MISO :: int where [config_simps]:
  "SD_PIN_MISO = 8"

definition SD_PIN_MOSI :: int where [config_simps]:
  "SD_PIN_MOSI = 9"

definition SD_PIN_CS :: int where [config_simps]:
  "SD_PIN_CS = 21"

definition SD_SPI_HZ :: nat where [config_simps]:
  "SD_SPI_HZ = 20000000"

definition I2S_BCK_GPIO :: int where [config_simps]:
  "I2S_BCK_GPIO = 5"

definition I2S_WS_GPIO :: int where [config_simps]:
  "I2S_WS_GPIO = 6"

definition I2S_DATA_GPIO :: int where [config_simps]:
  "I2S_DATA_GPIO = 4"

definition PRIMARY_CHANNEL :: nat where [config_simps]:
  "PRIMARY_CHANNEL = 0"

definition SERVER_ED25519_PUBKEY :: "u8 list" where [config_simps]:
  "SERVER_ED25519_PUBKEY = replicate 32 0"

section \<open>Command executors\<close>

definition EXECUTOR_TASK_STACK :: nat where [config_simps]:
  "EXECUTOR_TASK_STACK = 4096"

definition EXECUTOR_TASK_PRIO :: nat where [config_simps]:
  "EXECUTOR_TASK_PRIO = 5"

definition EXECUTOR_TASK_CORE :: nat where [config_simps]:
  "EXECUTOR_TASK_CORE = 0"

definition EXECUTOR_QUEUE_DEPTH :: nat where [config_simps]:
  "EXECUTOR_QUEUE_DEPTH = 8"

definition REQ_BUFFER_MIN_SECONDS :: nat where [config_simps]:
  "REQ_BUFFER_MIN_SECONDS = 1"

definition REQ_BUFFER_MAX_SECONDS :: nat where [config_simps]:
  "REQ_BUFFER_MAX_SECONDS = 60"

definition DRAIN_REPLAY_QUEUE_DEPTH :: nat where [config_simps]:
  "DRAIN_REPLAY_QUEUE_DEPTH = 4"

section \<open>Camera and video\<close>

definition CAM_PIN_XCLK :: int where [config_simps]:
  "CAM_PIN_XCLK = 10"

definition CAM_PIN_SIOD :: int where [config_simps]:
  "CAM_PIN_SIOD = 40"

definition CAM_PIN_SIOC :: int where [config_simps]:
  "CAM_PIN_SIOC = 39"

definition CAM_PIN_D7 :: int where [config_simps]:
  "CAM_PIN_D7 = 48"

definition CAM_PIN_D6 :: int where [config_simps]:
  "CAM_PIN_D6 = 11"

definition CAM_PIN_D5 :: int where [config_simps]:
  "CAM_PIN_D5 = 12"

definition CAM_PIN_D4 :: int where [config_simps]:
  "CAM_PIN_D4 = 14"

definition CAM_PIN_D3 :: int where [config_simps]:
  "CAM_PIN_D3 = 16"

definition CAM_PIN_D2 :: int where [config_simps]:
  "CAM_PIN_D2 = 18"

definition CAM_PIN_D1 :: int where [config_simps]:
  "CAM_PIN_D1 = 17"

definition CAM_PIN_D0 :: int where [config_simps]:
  "CAM_PIN_D0 = 15"

definition CAM_PIN_VSYNC :: int where [config_simps]:
  "CAM_PIN_VSYNC = 38"

definition CAM_PIN_HREF :: int where [config_simps]:
  "CAM_PIN_HREF = 47"

definition CAM_PIN_PCLK :: int where [config_simps]:
  "CAM_PIN_PCLK = 13"

definition CAM_PIN_PWDN :: int where [config_simps]:
  "CAM_PIN_PWDN = - 1"

definition CAM_PIN_RESET :: int where [config_simps]:
  "CAM_PIN_RESET = - 1"

definition CAM_PIN_LED :: int where [config_simps]:
  "CAM_PIN_LED = - 1"

definition CAM_XCLK_FREQ_HZ :: nat where [config_simps]:
  "CAM_XCLK_FREQ_HZ = 20000000"

definition VIDEO_WIDTH :: nat where [config_simps]:
  "VIDEO_WIDTH = 640"

definition VIDEO_HEIGHT :: nat where [config_simps]:
  "VIDEO_HEIGHT = 480"

definition VIDEO_FPS :: nat where [config_simps]:
  "VIDEO_FPS = 10"

definition VIDEO_JPEG_QUALITY :: nat where [config_simps]:
  "VIDEO_JPEG_QUALITY = 12"

section \<open>Snapshots and transfer\<close>

definition SNAPSHOT_INTERVAL_S :: nat where [config_simps]:
  "SNAPSHOT_INTERVAL_S = 0"

definition SNAPSHOT_INTERVAL_MIN :: nat where [config_simps]:
  "SNAPSHOT_INTERVAL_MIN = 0"

definition SNAPSHOT_INTERVAL_MAX :: nat where [config_simps]:
  "SNAPSHOT_INTERVAL_MAX = 600"

definition WIFI_TRANSFER_WINDOW_S :: nat where [config_simps]:
  "WIFI_TRANSFER_WINDOW_S = 600"

definition SOFTAP_SSID_PREFIX :: string where [config_simps]:
  "SOFTAP_SSID_PREFIX = ''OpenRecall-''"

definition SOFTAP_CHANNEL :: nat where [config_simps]:
  "SOFTAP_CHANNEL = 1"

definition TRANSFER_HTTP_PORT :: nat where [config_simps]:
  "TRANSFER_HTTP_PORT = 80"

definition TRANSFER_TASK_STACK :: nat where [config_simps]:
  "TRANSFER_TASK_STACK = 6144"

definition TRANSFER_TASK_PRIO :: nat where [config_simps]:
  "TRANSFER_TASK_PRIO = 4"

section \<open>Boot id and SD layout\<close>

definition BOOT_NVS_NAMESPACE :: string where [config_simps]:
  "BOOT_NVS_NAMESPACE = ''sense_boot''"

definition BOOT_NVS_KEY :: string where [config_simps]:
  "BOOT_NVS_KEY = ''boot_id''"

definition SD_MOUNT_POINT :: string where [config_simps]:
  "SD_MOUNT_POINT = ''/sdcard''"

definition SD_SNAPSHOT_DIR :: string where [config_simps]:
  "SD_SNAPSHOT_DIR = ''/sdcard/snapshots''"

definition SD_VIDEO_DIR :: string where [config_simps]:
  "SD_VIDEO_DIR = ''/sdcard/video''"

definition SD_MANIFEST :: string where [config_simps]:
  "SD_MANIFEST = ''/sdcard/manifest.txt''"

section \<open>Derived values\<close>

lemma FRAME_SAMPLES_val: "FRAME_SAMPLES = 320"
  by (simp add: config_simps)

lemma RING_FRAMES_val: "RING_FRAMES = 3000"
  by (simp add: config_simps)

lemma VAD_PREROLL_FRAMES_val: "VAD_PREROLL_FRAMES = 15"
  by (simp add: config_simps)

lemma VAD_HANGOVER_FRAMES_val: "VAD_HANGOVER_FRAMES = 30"
  by (simp add: config_simps)

lemmas config_vals =
  FRAME_SAMPLES_val RING_FRAMES_val VAD_PREROLL_FRAMES_val VAD_HANGOVER_FRAMES_val

text \<open>
  Every GPIO the firmware drives, in the order of config.h; \<open>-1\<close> entries (unused camera pins)
  are left out.
\<close>

definition used_gpios :: "int list" where
  "used_gpios =
     filter (\<lambda>p. p \<noteq> - 1)
       [BUTTON_GPIO, VBAT_GPIO, SD_PIN_SCK, SD_PIN_MISO, SD_PIN_MOSI, SD_PIN_CS,
        I2S_BCK_GPIO, I2S_WS_GPIO, I2S_DATA_GPIO,
        CAM_PIN_XCLK, CAM_PIN_SIOD, CAM_PIN_SIOC, CAM_PIN_D7, CAM_PIN_D6, CAM_PIN_D5,
        CAM_PIN_D4, CAM_PIN_D3, CAM_PIN_D2, CAM_PIN_D1, CAM_PIN_D0, CAM_PIN_VSYNC,
        CAM_PIN_HREF, CAM_PIN_PCLK, CAM_PIN_PWDN, CAM_PIN_RESET, CAM_PIN_LED]"

definition strapping_gpios :: "int list" where
  "strapping_gpios = [0, 3, 45, 46]"

end
