(* ===== verification/C6_Packet.thy ===== *)
theory C6_Packet
  imports Config
begin

text \<open>
  The audio packet of section C.6: the firmware's writer \<open>main/c6_packet.c\<close>, and the server's
  encoder and strict parser \<open>ingest/audio_packet.py\<close> it must agree with.
\<close>

unbundle bit_operations_syntax

section \<open>The writer (c6_packet.c)\<close>

record c6_frame =
  cf_data :: "u8 list"
  cf_len :: u8

definition c6_frame_bytes :: "c6_frame \<Rightarrow> u8 list" where
  "c6_frame_bytes f = take (unat (cf_len f)) (cf_data f)"

text \<open>The array behind the frame's pointer holds at least \<open>len\<close> bytes.\<close>

definition c6_frame_ok :: "c6_frame \<Rightarrow> bool" where
  "c6_frame_ok f = (unat (cf_len f) \<le> length (cf_data f))"

text \<open>
  The bytes written to \<open>out\<close>; the C function returns their number, so the refusals (more than
  255 frames, total above \<open>cap\<close>) are the empty list.
\<close>

definition c6_total :: "c6_frame list \<Rightarrow> nat" where
  "c6_total frames = C6_HEADER_LEN + (\<Sum>f\<leftarrow>frames. 1 + unat (cf_len f))"

definition c6_header :: "u8 \<Rightarrow> u32 \<Rightarrow> u32 \<Rightarrow> u8 \<Rightarrow> u8 \<Rightarrow> nat \<Rightarrow> u8 list" where
  "c6_header ptype chunk_seq rel_ts_ms vad_state flags frame_count =
     [push_bit 4 (of_nat C6_VERSION AND 15) OR (ptype AND 15)]
     @ le32 chunk_seq @ le32 rel_ts_ms @ [vad_state, of_nat frame_count, flags]"

definition c6_body :: "c6_frame list \<Rightarrow> u8 list" where
  "c6_body frames = concat (map (\<lambda>f. cf_len f # c6_frame_bytes f) frames)"

definition c6_write_packet ::
  "nat \<Rightarrow> u8 \<Rightarrow> u32 \<Rightarrow> u32 \<Rightarrow> u8 \<Rightarrow> u8 \<Rightarrow> c6_frame list \<Rightarrow> u8 list" where
  "c6_write_packet cap ptype chunk_seq rel_ts_ms vad_state flags frames =
     (if length frames > 255 then []
      else if c6_total frames > cap then []
      else c6_header ptype chunk_seq rel_ts_ms vad_state flags (length frames)
             @ c6_body frames)"

lemma length_c6_header [simp]: "length (c6_header pt sq ts vs fl n) = 12"
  by (simp add: c6_header_def)

lemma length_c6_frame_bytes [simp]:
  "c6_frame_ok f \<Longrightarrow> length (c6_frame_bytes f) = unat (cf_len f)"
  by (simp add: c6_frame_bytes_def c6_frame_ok_def)

lemma c6_body_simps [simp]:
  "c6_body [] = []"
  "c6_body (f # fs) = cf_len f # c6_frame_bytes f @ c6_body fs"
  "c6_body (xs @ ys) = c6_body xs @ c6_body ys"
  by (simp_all add: c6_body_def)

lemma length_c6_body:
  "list_all c6_frame_ok fs \<Longrightarrow> length (c6_body fs) = (\<Sum>f\<leftarrow>fs. 1 + unat (cf_len f))"
  by (induction fs) simp_all

lemma length_c6_write_packet:
  assumes "list_all c6_frame_ok fs" and "c6_write_packet cap pt sq ts vs fl fs \<noteq> []"
  shows "length (c6_write_packet cap pt sq ts vs fl fs) = c6_total fs"
    and "c6_total fs \<le> cap" and "length fs \<le> 255"
  using assms
  by (auto simp: c6_write_packet_def c6_total_def length_c6_body config_simps split: if_splits)

lemma c6_write_packet_fits:
  "length fs \<le> 255 \<Longrightarrow> c6_total fs \<le> cap \<Longrightarrow>
   c6_write_packet cap pt sq ts vs fl fs = c6_header pt sq ts vs fl (length fs) @ c6_body fs"
  by (simp add: c6_write_packet_def)

section \<open>The server's packet (audio_packet.py)\<close>

datatype py_ptype = LIVE | MEMORY_CHUNK | HISTORICAL
datatype py_vad = GAP_MARKER | SPEECH | PREROLL | HANGOVER

primrec ptype_int :: "py_ptype \<Rightarrow> int" where
  "ptype_int LIVE = 0"
| "ptype_int MEMORY_CHUNK = 1"
| "ptype_int HISTORICAL = 2"

primrec vad_int :: "py_vad \<Rightarrow> int" where
  "vad_int GAP_MARKER = 0"
| "vad_int SPEECH = 1"
| "vad_int PREROLL = 2"
| "vad_int HANGOVER = 3"

text \<open>\<open>PacketType(v)\<close> and \<open>VadState(v)\<close>; \<open>None\<close> is the ValueError.\<close>

definition ptype_of :: "nat \<Rightarrow> py_ptype option" where
  "ptype_of v = (if v = 0 then Some LIVE else if v = 1 then Some MEMORY_CHUNK
     else if v = 2 then Some HISTORICAL else None)"

definition vad_of :: "nat \<Rightarrow> py_vad option" where
  "vad_of v = (if v = 0 then Some GAP_MARKER else if v = 1 then Some SPEECH
     else if v = 2 then Some PREROLL else if v = 3 then Some HANGOVER else None)"

record audio_packet =
  ap_version :: int
  ap_ptype :: py_ptype
  ap_chunk_seq :: int
  ap_rel_ts_ms :: int
  ap_vad_state :: py_vad
  ap_flags :: int
  ap_frames :: "u8 list list"

definition is_silence_gap :: "audio_packet \<Rightarrow> bool" where
  "is_silence_gap p = (ap_vad_state p = GAP_MARKER)"

definition is_last_of_request :: "audio_packet \<Rightarrow> bool" where
  "is_last_of_request p = (ap_flags p AND 2 \<noteq> 0)"

datatype packet_error =
    TooManyFrames nat | StructError | FrameTooLong nat
  | TooShort nat | UnknownPtype nat | UnknownVad nat | RanOut nat | Truncated nat

text \<open>\<open>encode\<close>: count check, \<open>struct.pack\<close> (which refuses values outside the fields), frames.\<close>

fun encode_body :: "nat \<Rightarrow> u8 list list \<Rightarrow> packet_error + u8 list" where
  "encode_body i [] = Inr []"
| "encode_body i (f # fs) =
     (if length f > 255 then Inl (FrameTooLong i)
      else case encode_body (Suc i) fs of
        Inl e \<Rightarrow> Inl e
      | Inr bs \<Rightarrow> Inr (of_nat (length f) # f @ bs))"

definition encode :: "audio_packet \<Rightarrow> packet_error + u8 list" where
  "encode p =
     (let n = length (ap_frames p) in
      if n > 255 then Inl (TooManyFrames n)
      else if ap_chunk_seq p < 0 \<or> ap_chunk_seq p \<ge> 4294967296
            \<or> ap_rel_ts_ms p < 0 \<or> ap_rel_ts_ms p \<ge> 4294967296
            \<or> ap_flags p < 0 \<or> ap_flags p \<ge> 256
        then Inl StructError
      else case encode_body 0 (ap_frames p) of
        Inl e \<Rightarrow> Inl e
      | Inr body \<Rightarrow>
          Inr ([word_of_int (push_bit 4 (ap_version p AND 15) OR (ptype_int (ap_ptype p) AND 15))]
               @ le32 (word_of_int (ap_chunk_seq p)) @ le32 (word_of_int (ap_rel_ts_ms p))
               @ [word_of_int (vad_int (ap_vad_state p)), of_nat n, word_of_int (ap_flags p)]
               @ body))"

text \<open>\<open>parse\<close>: the frame loop keeps the frame index \<open>i\<close> for its messages.\<close>

fun parse_frames :: "u8 list \<Rightarrow> nat \<Rightarrow> nat \<Rightarrow> nat \<Rightarrow> packet_error + u8 list list" where
  "parse_frames data 0 i offset = Inr []"
| "parse_frames data (Suc k) i offset =
     (if offset \<ge> length data then Inl (RanOut i)
      else let frame_len = unat (data ! offset);
               stop = offset + 1 + frame_len in
        if stop > length data then Inl (Truncated i)
        else case parse_frames data k (Suc i) stop of
          Inl e \<Rightarrow> Inl e
        | Inr fs \<Rightarrow> Inr (take frame_len (drop (offset + 1) data) # fs))"

definition parse :: "u8 list \<Rightarrow> packet_error + audio_packet" where
  "parse data =
     (if length data < 12 then Inl (TooShort (length data))
      else let ver_ptype = unat (data ! 0);
               ptype_raw = ver_ptype mod 16;
               vad = unat (data ! 9) in
        case ptype_of ptype_raw of
          None \<Rightarrow> Inl (UnknownPtype ptype_raw)
        | Some ptype \<Rightarrow>
           (case vad_of vad of
              None \<Rightarrow> Inl (UnknownVad vad)
            | Some vad_state \<Rightarrow>
               (case parse_frames data (unat (data ! 10)) 0 12 of
                  Inl e \<Rightarrow> Inl e
                | Inr fs \<Rightarrow> Inr \<lparr>
                    ap_version = int (ver_ptype div 16 mod 16),
                    ap_ptype = ptype,
                    ap_chunk_seq = int (un_le32 (data ! 1) (data ! 2) (data ! 3) (data ! 4)),
                    ap_rel_ts_ms = int (un_le32 (data ! 5) (data ! 6) (data ! 7) (data ! 8)),
                    ap_vad_state = vad_state,
                    ap_flags = int (unat (data ! 11)),
                    ap_frames = fs\<rparr>)))"

section \<open>The two sides agree\<close>

lemma parse_frames_body:
  assumes "list_all c6_frame_ok fs"
  shows "parse_frames (pre @ c6_body fs) (length fs) i (length pre)
           = Inr (map c6_frame_bytes fs)"
  using assms
proof (induction fs arbitrary: pre i)
  case Nil
  then show ?case by simp
next
  case (Cons f fs)
  let ?pre = "pre @ cf_len f # c6_frame_bytes f"
  have "parse_frames (?pre @ c6_body fs) (length fs) (Suc i) (length ?pre)
      = Inr (map c6_frame_bytes fs)"
    using Cons.prems by (intro Cons.IH) simp
  with Cons.prems show ?case
    by (simp add: nth_append)
qed

lemma encode_body_c6_body:
  assumes "list_all c6_frame_ok fs"
  shows "encode_body i (map c6_frame_bytes fs) = Inr (c6_body fs)"
  using assms by (induction fs arbitrary: i) (simp_all add: not_less)

text \<open>A packet type and a VAD state of the firmware's enums as the server reads them.\<close>

definition packet_of ::
  "py_ptype \<Rightarrow> u32 \<Rightarrow> u32 \<Rightarrow> py_vad \<Rightarrow> u8 \<Rightarrow> c6_frame list \<Rightarrow> audio_packet" where
  "packet_of ptype chunk_seq rel_ts_ms vad flags frames = \<lparr>
     ap_version = 1, ap_ptype = ptype, ap_chunk_seq = uint chunk_seq,
     ap_rel_ts_ms = uint rel_ts_ms, ap_vad_state = vad, ap_flags = uint flags,
     ap_frames = map c6_frame_bytes frames\<rparr>"

lemma ver_ptype_byte:
  "push_bit 4 (of_nat C6_VERSION AND 15) OR (word_of_int (ptype_int pt) AND 15)
     = (word_of_int (16 + ptype_int pt) :: u8)"
  by (cases pt) (simp_all add: config_simps)

lemma uint_int_unat: "int (unat w) = uint w"
  by simp

lemma parse_header:
  "parse (c6_header (word_of_int (ptype_int pt)) sq ts (word_of_int (vad_int vs)) fl n @ body)
     = (case parse_frames
          (c6_header (word_of_int (ptype_int pt)) sq ts (word_of_int (vad_int vs)) fl n @ body)
          (unat (of_nat n :: u8)) 0 12 of
        Inl e \<Rightarrow> Inl e
      | Inr fs \<Rightarrow> Inr \<lparr>ap_version = 1, ap_ptype = pt, ap_chunk_seq = uint sq,
          ap_rel_ts_ms = uint ts, ap_vad_state = vs, ap_flags = uint fl, ap_frames = fs\<rparr>)"
proof -
  let ?d = "c6_header (word_of_int (ptype_int pt)) sq ts (word_of_int (vad_int vs)) fl n @ body"
  have nths: "?d ! 0 = word_of_int (16 + ptype_int pt)"
    "?d ! 9 = word_of_int (vad_int vs)" "?d ! 10 = of_nat n" "?d ! 11 = fl"
    "un_le32 (?d ! 1) (?d ! 2) (?d ! 3) (?d ! 4) = unat sq"
    "un_le32 (?d ! 5) (?d ! 6) (?d ! 7) (?d ! 8) = unat ts"
    unfolding c6_header_def ver_ptype_byte by (simp_all add: le32_def un_le32_le32)
  have byte: "unat (word_of_int (16 + ptype_int pt) :: u8) = nat (16 + ptype_int pt)"
    "unat (word_of_int (vad_int vs) :: u8) = nat (vad_int vs)"
    by (induct pt; simp) (induct vs; simp)
  have pt: "ptype_of (nat (16 + ptype_int pt) mod 16) = Some pt"
    "int (nat (16 + ptype_int pt) div 16 mod 16) = 1"
    by (induct pt; simp add: ptype_of_def) (induct pt; simp)
  have vs: "vad_of (nat (vad_int vs)) = Some vs"
    by (cases vs) (simp_all add: vad_of_def)
  have len: "\<not> length ?d < 12" by simp
  show ?thesis
    unfolding parse_def Let_def nths byte pt vs
    using len by (simp only: if_False option.case uint_int_unat)
qed

lemma parse_c6_packet:
  assumes "list_all c6_frame_ok fs" and "length fs \<le> 255"
  shows "parse (c6_header (word_of_int (ptype_int pt)) sq ts (word_of_int (vad_int vs)) fl
            (length fs) @ c6_body fs) = Inr (packet_of pt sq ts vs fl fs)"
proof -
  let ?h = "c6_header (word_of_int (ptype_int pt)) sq ts (word_of_int (vad_int vs)) fl (length fs)"
  have "parse_frames (?h @ c6_body fs) (length fs) 0 12 = Inr (map c6_frame_bytes fs)"
    using parse_frames_body [OF assms(1), of ?h 0] by simp
  with assms(2) show ?thesis
    by (simp add: parse_header cnum packet_of_def)
qed

lemma parse_frames_truncated:
  assumes "list_all c6_frame_ok fs" and "m < length (c6_body fs)"
  shows "\<exists>e. parse_frames (pre @ take m (c6_body fs)) (length fs) i (length pre) = Inl e"
  using assms
proof (induction fs arbitrary: pre i m)
  case Nil
  then show ?case by simp
next
  case (Cons f fs)
  let ?l = "unat (cf_len f)"
  have len: "length (c6_frame_bytes f) = ?l"
    using Cons.prems(1) by simp
  show ?case
  proof (cases "m \<le> ?l")
    case True
    then show ?thesis
      using len by (cases m) (auto simp: nth_append)
  next
    case False
    then have m: "take m (c6_body (f # fs))
        = cf_len f # c6_frame_bytes f @ take (m - 1 - ?l) (c6_body fs)"
      using len by (cases m) auto
    let ?pre = "pre @ cf_len f # c6_frame_bytes f"
    have "\<exists>e. parse_frames (?pre @ take (m - 1 - ?l) (c6_body fs)) (length fs) (Suc i)
        (length ?pre) = Inl e"
      using Cons.prems False len by (intro Cons.IH) auto
    then show ?thesis
      unfolding m using len by (auto simp: nth_append)
  qed
qed

section \<open>Properties\<close>

text \<open>
  C2: What the firmware puts on the air is what the server reads: whenever the writer accepts a
  packet, the server's strict parser accepts the bytes and returns the same type, sequence number,
  time stamp, VAD state, flags and frames, in order.
\<close>

theorem c6_packet_roundtrip:
  assumes "list_all c6_frame_ok fs"
    and "c6_write_packet cap (word_of_int (ptype_int pt)) sq ts (word_of_int (vad_int vs)) fl fs
           = bs"
    and "bs \<noteq> []"
  shows "parse bs = Inr (packet_of pt sq ts vs fl fs)"
  using assms parse_c6_packet [of fs pt sq ts vs fl]
  by (auto simp: c6_write_packet_def split: if_splits)

theorem c6_packet_roundtrip_witness:
  "parse (c6_write_packet 64 1 412 184213 1 0
      [\<lparr>cf_data = [1, 2, 3], cf_len = 3\<rparr>, \<lparr>cf_data = [4, 5, 6, 7], cf_len = 4\<rparr>])
   = Inr (packet_of MEMORY_CHUNK 412 184213 SPEECH 0
      [\<lparr>cf_data = [1, 2, 3], cf_len = 3\<rparr>, \<lparr>cf_data = [4, 5, 6, 7], cf_len = 4\<rparr>])"
  using c6_packet_roundtrip [of "[\<lparr>cf_data = [1, 2, 3], cf_len = 3\<rparr>,
      \<lparr>cf_data = [4, 5, 6, 7], cf_len = 4\<rparr>]" 64 MEMORY_CHUNK 412 184213 SPEECH 0, OF _ refl]
  by (simp add: c6_frame_ok_def c6_write_packet_def c6_total_def c6_header_def config_simps)

text \<open>
  C35: The firmware's writer and the server's reference encoder produce the same bytes for every
  packet of the protocol's version whose frames fit the buffer.
\<close>

theorem c6_writer_equals_encoder:
  assumes "list_all c6_frame_ok fs" and "length fs \<le> 255" and "c6_total fs \<le> cap"
  shows "encode (packet_of pt sq ts vs fl fs)
           = Inr (c6_write_packet cap (word_of_int (ptype_int pt)) sq ts
                    (word_of_int (vad_int vs)) fl fs)"
proof -
  have u: "0 \<le> uint w" "uint w < 4294967296" for w :: u32
    using unsigned_less [of w, where ?'a = int] by simp_all
  have f: "uint fl < 256" "0 \<le> uint fl"
    using unsigned_less [of fl, where ?'a = int] by simp_all
  have ver: "(word_of_int (16 OR ptype_int pt AND 15) :: u8) = 16 + word_of_int (ptype_int pt)"
    by (cases pt) simp_all
  show ?thesis
    unfolding c6_write_packet_fits [OF assms(2,3)] c6_header_def ver_ptype_byte
    using u [of sq] u [of ts] f assms
    by (simp add: encode_def packet_of_def Let_def encode_body_c6_body ver not_less)
qed

theorem c6_writer_equals_encoder_witness:
  "encode (packet_of LIVE 7 140 HANGOVER 0 [\<lparr>cf_data = [9, 8], cf_len = 2\<rparr>])
     = Inr (c6_write_packet 15 0 7 140 3 0 [\<lparr>cf_data = [9, 8], cf_len = 2\<rparr>])"
  using c6_writer_equals_encoder [of "[\<lparr>cf_data = [9, 8], cf_len = 2\<rparr>]" 15 LIVE 7 140 HANGOVER 0]
  by (simp add: c6_frame_ok_def c6_total_def config_simps)

text \<open>
  The writer never writes past the buffer: it refuses exactly the packets with more than 255
  frames or more bytes than the capacity, and otherwise writes \<open>12 + \<Sum>(1 + len)\<close> bytes.
\<close>

theorem c6_write_packet_bounds:
  assumes "list_all c6_frame_ok fs"
  shows "length (c6_write_packet cap pt sq ts vs fl fs)
     = (if length fs > 255 \<or> c6_total fs > cap then 0 else c6_total fs)"
  using assms
  by (simp add: c6_write_packet_def c6_total_def length_c6_body config_simps)

theorem c6_write_packet_bounds_witness:
  "length (c6_write_packet 14 0 7 140 3 0 [\<lparr>cf_data = [9, 8], cf_len = 2\<rparr>]) = 0"
  using c6_write_packet_bounds [of "[\<lparr>cf_data = [9, 8], cf_len = 2\<rparr>]" 14 0 7 140 3 0]
  by (simp add: c6_frame_ok_def c6_total_def config_simps)

text \<open>
  A packet cut short on the air is rejected, never partially accepted: the server's parser
  fails on every proper prefix of what the writer produced.
\<close>

theorem c6_truncated_rejected:
  assumes "list_all c6_frame_ok fs"
    and "c6_write_packet cap (word_of_int (ptype_int pt)) sq ts (word_of_int (vad_int vs)) fl fs
           = bs"
    and "n < length bs"
  shows "\<exists>e. parse (take n bs) = Inl e"
proof (cases "n < 12")
  case True
  with assms(3) show ?thesis by (simp add: parse_def)
next
  case False
  let ?h = "c6_header (word_of_int (ptype_int pt)) sq ts (word_of_int (vad_int vs)) fl (length fs)"
  from assms(2,3) have bs: "bs = ?h @ c6_body fs" and fs: "length fs \<le> 255"
    by (auto simp: c6_write_packet_def split: if_splits)
  have "\<exists>e. parse_frames (?h @ take (n - 12) (c6_body fs)) (length fs) 0 (length ?h) = Inl e"
    using assms(1,3) False bs by (intro parse_frames_truncated) auto
  then show ?thesis
    using False fs by (auto simp: bs parse_header cnum)
qed

theorem c6_truncated_rejected_witness:
  "\<exists>e. parse (take 14 (c6_write_packet 64 0 7 140 3 0 [\<lparr>cf_data = [9, 8], cf_len = 2\<rparr>])) = Inl e"
  using c6_truncated_rejected [of "[\<lparr>cf_data = [9, 8], cf_len = 2\<rparr>]" 64 LIVE 7 140 HANGOVER 0
      _ 14, OF _ refl]
  by (simp add: c6_frame_ok_def c6_write_packet_def c6_total_def c6_header_def config_simps)

end
