(* ===== verification/Ring_Buffer.thy ===== *)
theory Ring_Buffer
  imports Config
begin

text \<open>
  The encoded-audio ring buffer (\<open>main/ring_buffer.c\<close>): a circular array of 3000 fixed slots and
  a 32-bit count of frames ever written. The abstract contract is the list of all frames pushed so
  far (\<open>ring_rel\<close>); the readers' interface is the locale \<open>frame_ring\<close>, which the drainer's lemmas
  use and which the ring's own operations provide.
\<close>

section \<open>State and operations\<close>

record ring_slot =
  slot_rel_ts_ms :: u32
  slot_vad_state :: u8
  slot_len :: u8
  slot_data :: "u8 list"

record ring =
  s_slots :: "ring_slot list"
  s_write_index :: u32

text \<open>
  What a reader gets; \<open>data\<close> points to the slot's (or the copy's) bytes, of which \<open>len\<close> are
  valid.
\<close>

record ring_frame =
  rf_vad_state :: u8
  rf_rel_ts_ms :: u32
  rf_len :: u8
  rf_data :: "u8 list"

text \<open>\<open>heap_caps_calloc\<close> zeroes the slots; its failure is \<open>ESP_ERR_NO_MEM\<close>, here \<open>None\<close>.\<close>

definition zero_slot :: ring_slot where
  "zero_slot = \<lparr>slot_rel_ts_ms = 0, slot_vad_state = 0, slot_len = 0,
     slot_data = replicate MAX_OPUS_BYTES 0\<rparr>"

definition ring_buffer_init :: "bool \<Rightarrow> ring option" where
  "ring_buffer_init alloc_ok =
     (if \<not> alloc_ok then None
      else Some \<lparr>s_slots = replicate RING_FRAMES zero_slot, s_write_index = 0\<rparr>)"

definition ring_buffer_push :: "u8 \<Rightarrow> u32 \<Rightarrow> u8 list option \<Rightarrow> u8 \<Rightarrow> ring \<Rightarrow> ring" where
  "ring_buffer_push vad_state rel_ts_ms data len r =
     (let i = unat (s_write_index r mod of_nat RING_FRAMES);
          slot = s_slots r ! i;
          bytes = (case data of
              None \<Rightarrow> slot_data slot
            | Some d \<Rightarrow> if len > 0 then memcpy (slot_data slot) d (unat len)
                        else slot_data slot)
      in r\<lparr>s_slots := (s_slots r)[i := slot\<lparr>slot_rel_ts_ms := rel_ts_ms,
               slot_vad_state := vad_state, slot_len := len, slot_data := bytes\<rparr>],
           s_write_index := s_write_index r + 1\<rparr>)"

definition ring_buffer_write_index :: "ring \<Rightarrow> u32" where
  "ring_buffer_write_index r = s_write_index r"

definition in_window :: "u32 \<Rightarrow> u32 \<Rightarrow> bool" where
  "in_window index w = (index < w \<and> w - index \<le> of_nat RING_FRAMES)"

definition ring_buffer_get :: "u32 \<Rightarrow> ring \<Rightarrow> ring_frame option" where
  "ring_buffer_get index r =
     (let w = s_write_index r in
      if in_window index w then
        (let slot = s_slots r ! unat (index mod of_nat RING_FRAMES) in
         Some \<lparr>rf_vad_state = slot_vad_state slot, rf_rel_ts_ms = slot_rel_ts_ms slot,
               rf_len = slot_len slot, rf_data = slot_data slot\<rparr>)
      else None)"

text \<open>
  The copy variant also writes the slot's \<open>len\<close> bytes into \<open>data_buf\<close>; the result is the frame
  (whose \<open>data\<close> is \<open>data_buf\<close>) and those bytes, to be stored by the caller.
\<close>

definition ring_buffer_get_copy :: "u32 \<Rightarrow> ring \<Rightarrow> (ring_frame \<times> u8 list) option" where
  "ring_buffer_get_copy index r =
     (let w = s_write_index r in
      if in_window index w then
        (let slot = s_slots r ! unat (index mod of_nat RING_FRAMES);
             copied = (if slot_len slot > 0 then take (unat (slot_len slot)) (slot_data slot)
                       else []) in
         Some (\<lparr>rf_vad_state = slot_vad_state slot, rf_rel_ts_ms = slot_rel_ts_ms slot,
               rf_len = slot_len slot, rf_data = copied\<rparr>, copied))
      else None)"

section \<open>The abstract contract: the history of pushed frames\<close>

text \<open>A frame as pushed: VAD state, time stamp and the \<open>len\<close> valid bytes.\<close>

record frame =
  fr_vad :: u8
  fr_ts :: u32
  fr_bytes :: "u8 list"

definition frame_of :: "ring_frame \<Rightarrow> frame" where
  "frame_of f = \<lparr>fr_vad = rf_vad_state f, fr_ts = rf_rel_ts_ms f,
     fr_bytes = take (unat (rf_len f)) (rf_data f)\<rparr>"

lemma frame_of_sel [simp]:
  "fr_vad (frame_of f) = rf_vad_state f" "fr_ts (frame_of f) = rf_rel_ts_ms f"
  "fr_bytes (frame_of f) = take (unat (rf_len f)) (rf_data f)"
  by (simp_all add: frame_of_def)

definition slot_frame :: "ring_slot \<Rightarrow> frame" where
  "slot_frame s = \<lparr>fr_vad = slot_vad_state s, fr_ts = slot_rel_ts_ms s,
     fr_bytes = take (unat (slot_len s)) (slot_data s)\<rparr>"

text \<open>
  A ring represents the history \<open>hs\<close> when it has its 3000 slots of 256 bytes, its counter is the
  number of frames pushed (which has not wrapped), and each of the last 3000 frames is in its slot.
\<close>

definition ring_ok :: "ring \<Rightarrow> bool" where
  "ring_ok r = (length (s_slots r) = RING_FRAMES
     \<and> list_all (\<lambda>s. length (slot_data s) = MAX_OPUS_BYTES) (s_slots r))"

definition ring_rel :: "ring \<Rightarrow> frame list \<Rightarrow> bool" where
  "ring_rel r hs = (ring_ok r \<and> length hs < 4294967296
     \<and> s_write_index r = of_nat (length hs)
     \<and> (\<forall>i < length hs. length hs \<le> i + RING_FRAMES \<longrightarrow>
          slot_frame (s_slots r ! (i mod RING_FRAMES)) = hs ! i
          \<and> slot_len (s_slots r ! (i mod RING_FRAMES)) = of_nat (length (fr_bytes (hs ! i)))))"

lemma RING_FRAMES_pos: "0 < RING_FRAMES" "of_nat RING_FRAMES = (3000 :: u32)"
  by (simp_all add: config_simps)

lemma unat_mod_ring: "unat (w mod of_nat RING_FRAMES :: u32) = unat w mod RING_FRAMES"
  by (simp add: unat_mod_distrib RING_FRAMES_pos RING_FRAMES_val)

lemma in_window_iff:
  assumes "n < 4294967296" and "i < 4294967296"
  shows "in_window (of_nat i) (of_nat n) \<longleftrightarrow> i < n \<and> n \<le> i + RING_FRAMES"
proof (cases "i < n")
  case True
  with assms have "unat (of_nat n - of_nat i :: u32) = n - i"
    by (simp add: cnum flip: of_nat_diff)
  with True assms show ?thesis
    by (simp only: in_window_def word_less_nat_alt word_le_nat_alt cnum RING_FRAMES_pos
        RING_FRAMES_val) (simp add: le_diff_conv add.commute)
next
  case False
  with assms show ?thesis
    by (simp add: in_window_def word_less_nat_alt cnum)
qed

lemma ring_buffer_get_in:
  assumes "ring_rel r hs" and "i < length hs" and "length hs \<le> i + RING_FRAMES"
  shows "\<exists>f. ring_buffer_get (of_nat i) r = Some f \<and> frame_of f = hs ! i
           \<and> rf_len f = of_nat (length (fr_bytes (hs ! i)))"
proof -
  have lt: "length hs < 4294967296" and "s_write_index r = of_nat (length hs)"
    and slot: "slot_frame (s_slots r ! (i mod RING_FRAMES)) = hs ! i"
      "slot_len (s_slots r ! (i mod RING_FRAMES)) = of_nat (length (fr_bytes (hs ! i)))"
    using assms by (simp_all add: ring_rel_def)
  moreover have "unat (of_nat i mod of_nat RING_FRAMES :: u32) = i mod RING_FRAMES"
    using assms(2) lt by (simp only: unat_mod_ring cnum)
  ultimately show ?thesis
    using assms by (simp add: ring_buffer_get_def Let_def in_window_iff frame_of_def slot_frame_def)
qed

lemma ring_buffer_get_out:
  assumes "ring_rel r hs" and "i < 4294967296"
    and "\<not> (i < length hs \<and> length hs \<le> i + RING_FRAMES)"
  shows "ring_buffer_get (of_nat i) r = None"
  using assms by (auto simp: ring_buffer_get_def Let_def ring_rel_def in_window_iff)

lemma ring_buffer_get_copy_eq:
  "ring_buffer_get_copy i r =
     map_option (\<lambda>f. let b = take (unat (rf_len f)) (rf_data f) in (f\<lparr>rf_data := b\<rparr>, b))
       (ring_buffer_get i r)"
  by (auto simp: ring_buffer_get_copy_def ring_buffer_get_def Let_def word_gt_0)

lemma frame_of_copy:
  "ring_buffer_get_copy i r = Some (f, b) \<Longrightarrow>
   \<exists>g. ring_buffer_get i r = Some g \<and> frame_of f = frame_of g \<and> rf_len f = rf_len g
     \<and> b = fr_bytes (frame_of g) \<and> rf_data f = b"
  by (auto simp: ring_buffer_get_copy_eq Let_def frame_of_def)

lemma ring_ok_push:
  assumes "ring_ok r" and "case data of None \<Rightarrow> True | Some d \<Rightarrow> unat len \<le> length d"
  shows "ring_ok (ring_buffer_push v t data len r)"
proof -
  let ?i = "unat (s_write_index r mod of_nat RING_FRAMES)"
  have bound: "?i < length (s_slots r)"
    unfolding unat_mod_ring using assms(1) by (simp add: ring_ok_def RING_FRAMES_val)
  then have "length (slot_data (s_slots r ! ?i)) = MAX_OPUS_BYTES"
    using assms(1) by (simp add: ring_ok_def list_all_length)
  moreover have "unat len \<le> MAX_OPUS_BYTES"
    by (simp add: config_simps less_imp_le)
  ultimately show ?thesis
    using assms bound by (auto simp: ring_buffer_push_def ring_ok_def Let_def length_memcpy
        list_all_length nth_list_update split: option.splits)
qed

lemma slot_index_distinct:
  assumes "i < n" and "n < i + RING_FRAMES" 
  shows "i mod RING_FRAMES \<noteq> n mod RING_FRAMES"
proof
  assume "i mod RING_FRAMES = n mod RING_FRAMES"
  then have "RING_FRAMES dvd n - i"
    using assms(1) by (metis less_imp_le mod_eq_dvd_iff_nat)
  then show False
    using assms by (auto dest: dvd_imp_le)
qed

lemma ring_rel_push:
  assumes rel: "ring_rel r hs" and room: "Suc (length hs) < 4294967296"
    and data: "case data of None \<Rightarrow> len = 0 | Some d \<Rightarrow> unat len \<le> length d"
  shows "ring_rel (ring_buffer_push v t data len r)
    (hs @ [\<lparr>fr_vad = v, fr_ts = t,
            fr_bytes = (case data of None \<Rightarrow> [] | Some d \<Rightarrow> take (unat len) d)\<rparr>])"
    (is "ring_rel ?r (hs @ [?fr])")
proof -
  let ?n = "length hs"
  let ?i = "?n mod RING_FRAMES"
  have ok: "ring_ok r" and wi: "s_write_index r = of_nat ?n"
    using rel by (simp_all add: ring_rel_def)
  have i: "unat (s_write_index r mod of_nat RING_FRAMES) = ?i"
    using room by (simp only: unat_mod_ring cnum wi)
  have bound: "?i < length (s_slots r)"
    using ok by (simp add: ring_ok_def RING_FRAMES_val)
  have ok': "ring_ok ?r"
    using ok data by (intro ring_ok_push) (auto split: option.splits)
  have wi': "s_write_index ?r = of_nat (length (hs @ [?fr]))"
    by (simp add: ring_buffer_push_def Let_def wi)
  have other: "s_slots ?r ! (j mod RING_FRAMES) = s_slots r ! (j mod RING_FRAMES)"
    if "j < ?n" "?n < j + RING_FRAMES" for j
    using slot_index_distinct [OF that]
    by (simp add: ring_buffer_push_def Let_def i)
  have newest: "slot_frame (s_slots ?r ! ?i) = ?fr \<and>
      slot_len (s_slots ?r ! ?i) = of_nat (length (fr_bytes ?fr))"
    using bound data
    by (auto simp: ring_buffer_push_def Let_def i slot_frame_def take_memcpy word_gt_0
        min_absorb2 split: option.splits)
  show ?thesis
    unfolding ring_rel_def
  proof (intro conjI allI impI)
    fix j assume j: "j < length (hs @ [?fr])" "length (hs @ [?fr]) \<le> j + RING_FRAMES"
    show "slot_frame (s_slots ?r ! (j mod RING_FRAMES)) = (hs @ [?fr]) ! j"
      using j rel newest other [of j]
      by (cases "j = ?n") (auto simp: ring_rel_def nth_append)
    show "slot_len (s_slots ?r ! (j mod RING_FRAMES))
        = of_nat (length (fr_bytes ((hs @ [?fr]) ! j)))"
      using j rel newest other [of j]
      by (cases "j = ?n") (auto simp: ring_rel_def nth_append)
  qed (use ok' wi' room in simp_all)
qed

lemma ring_rel_init:
  "ring_buffer_init True = Some r \<Longrightarrow> ring_rel r []"
  by (auto simp: ring_buffer_init_def ring_rel_def ring_ok_def zero_slot_def list_all_length)

section \<open>The readers' interface\<close>

text \<open>
  What a consumer of the ring relies on: \<open>get\<close> at an absolute index returns the frame of that
  index while it is among the last 3000, nothing otherwise, and the write index counts the pushes.
\<close>

locale frame_ring =
  fixes get :: "u32 \<Rightarrow> 'r \<Rightarrow> ring_frame option"
    and write_index :: "'r \<Rightarrow> u32"
    and rel :: "'r \<Rightarrow> frame list \<Rightarrow> bool"
  assumes rel_length: "rel r hs \<Longrightarrow> length hs < 4294967296"
    and write_index: "rel r hs \<Longrightarrow> write_index r = of_nat (length hs)"
    and get_in: "rel r hs \<Longrightarrow> i < length hs \<Longrightarrow> length hs \<le> i + RING_FRAMES \<Longrightarrow>
      \<exists>f. get (of_nat i) r = Some f \<and> frame_of f = hs ! i
        \<and> rf_len f = of_nat (length (fr_bytes (hs ! i)))"
    and get_out: "rel r hs \<Longrightarrow> i < 4294967296 \<Longrightarrow>
      \<not> (i < length hs \<and> length hs \<le> i + RING_FRAMES) \<Longrightarrow> get (of_nat i) r = None"
begin

lemma get_vad:
  assumes "rel r hs" and "i < length hs" and "length hs \<le> i + RING_FRAMES"
    and "get (of_nat i) r = Some f"
  shows "rf_vad_state f = fr_vad (hs ! i)" and "rf_rel_ts_ms f = fr_ts (hs ! i)"
    and "frame_of f = hs ! i"
proof -
  from get_in [OF assms(1-3)] assms(4) show f: "frame_of f = hs ! i" by simp
  show "rf_vad_state f = fr_vad (hs ! i)" "rf_rel_ts_ms f = fr_ts (hs ! i)"
    by (simp_all flip: f)
qed

lemma get_slot:
  assumes "rel r hs" and "i < length hs" and "length hs \<le> i + RING_FRAMES"
  obtains f where "get (of_nat i) r = Some f" and "rf_vad_state f = fr_vad (hs ! i)"
    and "rf_rel_ts_ms f = fr_ts (hs ! i)" and "unat (rf_len f) = length (fr_bytes (hs ! i))"
    and "take (unat (rf_len f)) (rf_data f) = fr_bytes (hs ! i)"
    and "unat (rf_len f) \<le> length (rf_data f)"
proof -
  from get_in [OF assms] obtain f where f: "get (of_nat i) r = Some f" "frame_of f = hs ! i"
    "rf_len f = of_nat (length (fr_bytes (hs ! i)))" by blast
  have bytes: "take (unat (rf_len f)) (rf_data f) = fr_bytes (hs ! i)"
    by (simp flip: f(2))
  then have "length (fr_bytes (hs ! i)) \<le> unat (rf_len f)"
    by (metis length_take min.cobounded2)
  then have "length (fr_bytes (hs ! i)) < 256"
    using unat_u8_less [of "rf_len f"] by (rule le_less_trans)
  then have len: "unat (rf_len f) = length (fr_bytes (hs ! i))"
    using f(3) by (simp add: cnum)
  with bytes have "unat (rf_len f) \<le> length (rf_data f)"
    by (metis length_take min.cobounded1)
  with that [OF f(1) _ _ len bytes] get_vad [OF assms f(1)] show ?thesis by simp
qed

lemma get_Some_window:
  assumes "rel r hs" and "get (of_nat i) r = Some f" and "i < 4294967296"
  shows "i < length hs" and "length hs \<le> i + RING_FRAMES"
  using get_out [OF assms(1,3)] assms(2) by auto

end

interpretation ring: frame_ring ring_buffer_get ring_buffer_write_index ring_rel
proof unfold_locales
  show "ring_buffer_get (of_nat i) r = None"
    if "ring_rel r hs" "i < 4294967296" "\<not> (i < length hs \<and> length hs \<le> i + RING_FRAMES)"
    for r hs i
    using that by (rule ring_buffer_get_out)
qed (simp_all add: ring_rel_def ring_buffer_write_index_def
      ring_buffer_get_in [unfolded ring_rel_def])

section \<open>Properties\<close>

text \<open>A producer's push of a whole frame, and a run of pushes from a fresh ring.\<close>

definition push_frame :: "ring \<Rightarrow> frame \<Rightarrow> ring" where
  "push_frame r f = ring_buffer_push (fr_vad f) (fr_ts f) (Some (fr_bytes f))
     (of_nat (length (fr_bytes f))) r"

lemma ring_rel_push_frame:
  assumes "ring_rel r hs" and "Suc (length hs) < 4294967296" and "length (fr_bytes f) < 256"
  shows "ring_rel (push_frame r f) (hs @ [f])"
proof -
  have "\<lparr>fr_vad = fr_vad f, fr_ts = fr_ts f, fr_bytes = fr_bytes f\<rparr> = f" by (cases f) simp
  then show ?thesis
    using ring_rel_push [OF assms(1,2), where data = "Some (fr_bytes f)"
        and len = "of_nat (length (fr_bytes f))" and v = "fr_vad f" and t = "fr_ts f"] assms(3)
    by (simp only: push_frame_def option.case cnum take_all order_refl)
qed

lemma ring_rel_pushes:
  assumes "ring_rel r hs" and "length hs + length fs < 4294967296"
    and "\<forall>f \<in> set fs. length (fr_bytes f) < 256"
  shows "ring_rel (foldl push_frame r fs) (hs @ fs)"
  using assms
proof (induction fs arbitrary: r hs)
  case Nil
  then show ?case by simp
next
  case (Cons f fs)
  have "ring_rel (push_frame r f) (hs @ [f])"
    using Cons.prems by (intro ring_rel_push_frame) auto
  from Cons.IH [OF this] Cons.prems show ?case by simp
qed

text \<open>
  C3: The ring refines the list of frames ever pushed: after any sequence of pushes from a fresh
  ring, reading an absolute index gives exactly the frame pushed at that index while it is among
  the last 3000, and fails for an overwritten or not yet written index.
\<close>

theorem ring_refines_history:
  assumes "ring_buffer_init True = Some r" and "length hs < 4294967296"
    and "\<forall>f \<in> set hs. length (fr_bytes f) < 256" and "i < 4294967296"
  shows "map_option frame_of (ring_buffer_get (of_nat i) (foldl push_frame r hs))
    = (if i < length hs \<and> length hs \<le> i + RING_FRAMES then Some (hs ! i) else None)"
proof -
  have rel: "ring_rel (foldl push_frame r hs) hs"
    using ring_rel_pushes [OF ring_rel_init [OF assms(1)]] assms(2,3) by simp
  show ?thesis
    using ring.get_in [OF rel, of i] ring.get_out [OF rel assms(4)] by auto
qed

theorem ring_refines_history_witness:
  "map_option frame_of (ring_buffer_get 1
      (foldl push_frame (the (ring_buffer_init True))
        [\<lparr>fr_vad = 0, fr_ts = 0, fr_bytes = []\<rparr>, \<lparr>fr_vad = 1, fr_ts = 20, fr_bytes = [7, 9]\<rparr>]))
   = Some \<lparr>fr_vad = 1, fr_ts = 20, fr_bytes = [7, 9]\<rparr>"
  using ring_refines_history [of "the (ring_buffer_init True)"
      "[\<lparr>fr_vad = 0, fr_ts = 0, fr_bytes = []\<rparr>, \<lparr>fr_vad = 1, fr_ts = 20, fr_bytes = [7, 9]\<rparr>]" 1]
  by (simp add: ring_buffer_init_def config_vals)

end
