(* ===== verification/Ble_Drain.thy ===== *)
theory Ble_Drain
  imports C6_Packet Ring_Buffer
begin

text \<open>
  The stream drainer (\<open>main/ble_drain.c\<close>): the consumer of the ring that batches frames into
  audio packets and hands them to the BLE link, with the rewind on speech onset (preroll), the
  retry on a full mbuf pool, and the replay of the last seconds on request.

  \<open>get\<close> and \<open>get_copy\<close> stand for \<open>ring_buffer_get\<close> and \<open>ring_buffer_get_copy\<close> on the ring the
  iteration sees; an iteration is taken on one snapshot of the ring. \<open>ntf\<close> is
  \<open>ble_link_notify_audio\<close> on the link's state \<open>'w\<close>: return code and new state. Delays and log
  lines (with the counter \<open>stack_report_at\<close>, which only times a log line) are left out.
\<close>

section \<open>Packet sizing\<close>

definition PACKET_BUF_CAP :: nat where [config_simps]:
  "PACKET_BUF_CAP = C6_HEADER_LEN + C6_FRAMES_PER_CHUNK * (1 + MAX_OPUS_BYTES)"

definition max_payload :: "u16 \<Rightarrow> nat" where
  "max_payload mtu = (if mtu \<ge> 23 then unat (mtu - 3) else 244)"

definition body_budget :: "u16 \<Rightarrow> nat" where
  "body_budget mtu =
     (if max_payload mtu > C6_HEADER_LEN then max_payload mtu - C6_HEADER_LEN else 0)"

text \<open>One entry of the parallel arrays \<open>frames\<close>, \<open>frame_vad\<close>, \<open>frame_rel_ts\<close>.\<close>

record drain_frame =
  df_frame :: c6_frame
  df_vad :: u8
  df_ts :: u32

abbreviation df_len :: "drain_frame \<Rightarrow> nat" where
  "df_len f \<equiv> unat (cf_len (df_frame f))"

text \<open>The inner \<open>while\<close>: as many frames as fit the budget, and the rest.\<close>

fun take_fitting :: "nat \<Rightarrow> nat \<Rightarrow> drain_frame list \<Rightarrow> drain_frame list \<times> drain_frame list" where
  "take_fitting budget used [] = ([], [])"
| "take_fitting budget used (f # fs) =
     (if used + 1 + df_len f \<le> budget
      then let (now, later) = take_fitting budget (used + 1 + df_len f) fs in (f # now, later)
      else ([], f # fs))"

lemma take_fitting_append:
  "take_fitting budget used fs = (now, later) \<Longrightarrow> fs = now @ later"
  by (induction budget used fs arbitrary: now later rule: take_fitting.induct)
    (auto split: if_splits prod.splits)

lemma take_fitting_length:
  "take_fitting budget used fs = (now, later) \<Longrightarrow> now \<noteq> [] \<Longrightarrow> length later < length fs"
  by (auto dest: take_fitting_append)

lemma take_fitting_budget:
  "take_fitting budget used fs = (now, later) \<Longrightarrow> used \<le> budget \<Longrightarrow>
   used + (\<Sum>f\<leftarrow>now. 1 + df_len f) \<le> budget"
  by (induction budget used fs arbitrary: now later rule: take_fitting.induct)
    (auto split: if_splits prod.splits)

lemma take_fitting_all:
  "used + (\<Sum>f\<leftarrow>fs. 1 + df_len f) \<le> budget \<Longrightarrow> take_fitting budget used fs = (fs, [])"
  by (induction budget used fs rule: take_fitting.induct) auto

lemma take_fitting_none:
  "take_fitting budget 0 (f # fs) = ([], later) \<longleftrightarrow> \<not> 1 + df_len f \<le> budget \<and> later = f # fs"
  by (auto split: prod.splits)

section \<open>Delivery of one packet\<close>

text \<open>
  Up to three retries while the mbuf pool is full (\<open>-1\<close>); the result is whether it was delivered,
  the last return code and the link's state. \<open>send_packet\<close> is the first attempt and what follows.
\<close>

type_synonym 'w sink = "u8 list \<Rightarrow> 'w \<Rightarrow> int \<times> 'w"

fun retry_notify :: "'w sink \<Rightarrow> nat \<Rightarrow> u8 list \<Rightarrow> 'w \<Rightarrow> bool \<times> int \<times> 'w" where
  "retry_notify ntf 0 pkt w = (False, - 1, w)"
| "retry_notify ntf (Suc n) pkt w =
     (let (rc, w') = ntf pkt w in
      if rc = 0 then (True, 0, w')
      else if rc \<noteq> - 1 then (False, rc, w')
      else retry_notify ntf n pkt w')"

definition send_packet :: "'w sink \<Rightarrow> u8 list \<Rightarrow> 'w \<Rightarrow> 'w" where
  "send_packet ntf pkt w =
     (let (rc, w') = ntf pkt w in
      if rc = 0 then w'
      else if rc = - 1 then (let (_, _, w'') = retry_notify ntf 3 pkt w' in w'')
      else w')"

section \<open>The live path\<close>

record drain_state =
  cursor :: u32
  chunk_seq :: u32
  in_speech :: bool

definition drain_init :: drain_state where
  "drain_init = \<lparr>cursor = 0, chunk_seq = 0, in_speech = False\<rparr>"

text \<open>The rewind decision: the cursor to read from and whether the batch is a preroll.\<close>

definition voiced :: "u8 \<Rightarrow> bool" where
  "voiced v = (v = C6_SPEECH \<or> v = C6_HANGOVER)"

definition preroll :: "(u32 \<Rightarrow> ring_frame option) \<Rightarrow> u32 \<Rightarrow> bool \<Rightarrow> u32 \<times> bool" where
  "preroll get cur speech =
     (if speech then (cur, False)
      else case get cur of
        None \<Rightarrow> (cur, False)
      | Some head \<Rightarrow>
          if voiced (rf_vad_state head) then
            (let rewind_to = (if cur \<ge> of_nat VAD_PREROLL_FRAMES
                              then cur - of_nat VAD_PREROLL_FRAMES else 0) in
             case get rewind_to of
               None \<Rightarrow> (cur, False)
             | Some _ \<Rightarrow> if cur - rewind_to > 0 then (rewind_to, True) else (cur, False))
          else (cur, False))"

text \<open>The batch: ten ring frames from the cursor, silence suppressed; a failed read ends it.\<close>

definition is_audio :: "ring_frame \<Rightarrow> bool" where
  "is_audio f = (\<not> (rf_vad_state f = C6_GAP_MARKER \<or> rf_len f = 0))"

fun collect :: "(u32 \<Rightarrow> ring_frame option) \<Rightarrow> u32 \<Rightarrow> bool \<Rightarrow> u32 \<Rightarrow> nat \<Rightarrow> nat \<Rightarrow> drain_frame list"
where
  "collect get cur prerolled base i 0 = []"
| "collect get cur prerolled base i (Suc k) =
     (let idx = cur + of_nat i in
      case get idx of
        None \<Rightarrow> []
      | Some f \<Rightarrow>
          (let rest = collect get cur prerolled base (Suc i) k in
           if \<not> is_audio f then rest
           else \<lparr>df_frame = \<lparr>cf_data = rf_data f, cf_len = rf_len f\<rparr>,
                  df_vad = (if prerolled \<and> idx - base < of_nat VAD_PREROLL_FRAMES
                            then C6_PREROLL else rf_vad_state f),
                  df_ts = rf_rel_ts_ms f\<rparr> # rest))"

definition first_rel_ts :: "(u32 \<Rightarrow> ring_frame option) \<Rightarrow> u32 \<Rightarrow> u32" where
  "first_rel_ts get cur = (case get cur of None \<Rightarrow> 0 | Some f \<Rightarrow> rf_rel_ts_ms f)"

text \<open>
  The packing loop: each round sends the frames that fit as one packet, drops a single frame
  that is larger than the budget, and advances \<open>chunk_seq\<close> per packet.
\<close>

function send_frames ::
  "'w sink \<Rightarrow> nat \<Rightarrow> drain_frame list \<Rightarrow> u32 \<Rightarrow> 'w \<Rightarrow> u32 \<times> 'w" where
  "send_frames ntf budget [] seq w = (seq, w)"
| "send_frames ntf budget (f # fs) seq w =
     (let (now, later) = take_fitting budget 0 (f # fs) in
      if now = [] then send_frames ntf budget fs seq w
      else
        (let pkt = c6_write_packet PACKET_BUF_CAP C6_LIVE seq (df_ts f) (df_vad f) 0
                     (map df_frame now) in
         if pkt = [] then send_frames ntf budget later (seq + 1) w
         else send_frames ntf budget later (seq + 1) (send_packet ntf pkt w)))"
  by pat_completeness auto
termination
  by (relation "measure (\<lambda>(ntf, budget, fs, seq, w). length fs)")
    (auto simp del: take_fitting.simps dest: take_fitting_length [OF sym])

text \<open>One iteration after the replay requests: \<open>write_idx\<close> is the ring's write index.\<close>

definition drain_live ::
  "(u32 \<Rightarrow> ring_frame option) \<Rightarrow> u32 \<Rightarrow> u16 \<Rightarrow> 'w sink \<Rightarrow> drain_state \<Rightarrow> 'w
     \<Rightarrow> drain_state \<times> 'w" where
  "drain_live get write_idx mtu ntf s w =
     (if write_idx - cursor s < of_nat C6_FRAMES_PER_CHUNK then (s, w)
      else
        (let (cur, prerolled) = preroll get (cursor s) (in_speech s) in
         if prerolled \<and> write_idx - cur < of_nat C6_FRAMES_PER_CHUNK
         then (s\<lparr>cursor := cur\<rparr>, w)
         else
           (let frames = collect get cur prerolled cur 0 C6_FRAMES_PER_CHUNK;
                budget = body_budget mtu;
                (seq', w') =
                  (if frames = [] then
                     (let pkt = c6_write_packet PACKET_BUF_CAP C6_LIVE (chunk_seq s)
                                  (first_rel_ts get cur) C6_GAP_MARKER 0 [] in
                      (chunk_seq s + 1, if pkt = [] then w else snd (ntf pkt w)))
                   else send_frames ntf budget frames (chunk_seq s) w)
            in (\<lparr>cursor = cur + of_nat C6_FRAMES_PER_CHUNK, chunk_seq = seq',
                 in_speech = (frames \<noteq> [] \<and> voiced (df_vad (last frames)))\<rparr>, w'))))"

section \<open>What a batch puts on the air\<close>

text \<open>
  The packing loop cuts a batch into groups; each group becomes one packet. These are the pure
  counterparts of \<open>send_frames\<close>.
\<close>

function groups :: "nat \<Rightarrow> drain_frame list \<Rightarrow> drain_frame list list" where
  "groups budget [] = []"
| "groups budget (f # fs) =
     (let (now, later) = take_fitting budget 0 (f # fs) in
      if now = [] then groups budget fs else now # groups budget later)"
  by pat_completeness auto
termination
  by (relation "measure (\<lambda>(budget, fs). length fs)")
    (auto simp del: take_fitting.simps dest: take_fitting_length [OF sym])

declare take_fitting.simps(2) [simp del] groups.simps(2) [simp del] send_frames.simps(2) [simp del]

definition live_packet :: "u32 \<Rightarrow> drain_frame list \<Rightarrow> u8 list" where
  "live_packet seq g = c6_write_packet PACKET_BUF_CAP C6_LIVE seq (df_ts (hd g)) (df_vad (hd g)) 0
     (map df_frame g)"

primrec live_packets :: "u32 \<Rightarrow> drain_frame list list \<Rightarrow> u8 list list" where
  "live_packets seq [] = []"
| "live_packets seq (g # gs) = live_packet seq g # live_packets (seq + 1) gs"

abbreviation frame_ok :: "drain_frame \<Rightarrow> bool" where
  "frame_ok f \<equiv> c6_frame_ok (df_frame f)"

text \<open>A frame that fits a packet of its own; the others are dropped.\<close>

definition fits :: "nat \<Rightarrow> drain_frame \<Rightarrow> bool" where
  "fits budget f = (1 + df_len f \<le> budget)"

definition valid_group :: "nat \<Rightarrow> drain_frame list \<Rightarrow> bool" where
  "valid_group budget g = (g \<noteq> [] \<and> (\<Sum>f\<leftarrow>g. 1 + df_len f) \<le> budget)"

lemma take_fitting_fits:
  "take_fitting budget used fs = (now, later) \<Longrightarrow> used \<le> budget \<Longrightarrow> list_all (fits budget) now"
  by (induction budget used fs arbitrary: now later rule: take_fitting.induct)
    (auto simp: take_fitting.simps(2) fits_def split: if_splits prod.splits)

lemma groups_cases [case_names Nil drop pack]:
  obtains "fs = []"
  | f rest where "fs = f # rest" "\<not> fits budget f" "take_fitting budget 0 fs = ([], fs)"
      "groups budget fs = groups budget rest"
  | now later where "fs = now @ later" "now \<noteq> []" "length later < length fs"
      "list_all (fits budget) now" "valid_group budget now"
      "take_fitting budget 0 fs = (now, later)" "groups budget fs = now # groups budget later"
proof (cases fs)
  case (Cons f rest)
  obtain now later where t: "take_fitting budget 0 fs = (now, later)"
    by fastforce
  show ?thesis
  proof (cases "now = []")
    case True
    with t Cons have "\<not> fits budget f" "later = fs"
      by (auto simp: take_fitting_none fits_def)
    with True t Cons that(2) show ?thesis
      by (simp add: groups.simps(2))
  next
    case False
    have "valid_group budget now"
      using take_fitting_budget [OF t] False by (simp add: valid_group_def)
    with False t Cons take_fitting_append [OF t] take_fitting_length [OF t] take_fitting_fits [OF t]
    show ?thesis
      by (intro that(3)) (auto simp: groups.simps(2))
  qed
qed (use that in auto)

lemma groups_induct [case_names Nil drop pack]:
  assumes "P []"
    and "\<And>f rest. \<not> fits budget f \<Longrightarrow> take_fitting budget 0 (f # rest) = ([], f # rest) \<Longrightarrow>
      groups budget (f # rest) = groups budget rest \<Longrightarrow> P rest \<Longrightarrow> P (f # rest)"
    and "\<And>now later. now \<noteq> [] \<Longrightarrow> list_all (fits budget) now \<Longrightarrow> valid_group budget now \<Longrightarrow>
      take_fitting budget 0 (now @ later) = (now, later) \<Longrightarrow>
      groups budget (now @ later) = now # groups budget later \<Longrightarrow> P later \<Longrightarrow> P (now @ later)"
  shows "P fs"
proof (induction fs rule: length_induct)
  case (1 fs)
  show ?case
  proof (cases rule: groups_cases [where fs = fs and budget = budget])
    case Nil
    with assms(1) show ?thesis by simp
  next
    case (drop f rest)
    with assms(2) [of f rest] 1 show ?thesis by simp
  next
    case (pack now later)
    with assms(3) [of now later] 1 show ?thesis by simp
  qed
qed

lemma concat_groups: "concat (groups budget fs) = filter (fits budget) fs"
  by (induction fs rule: groups_induct [where budget = budget])
    (simp_all add: list_all_iff filter_id_conv)

lemma valid_groups: "g \<in> set (groups budget fs) \<Longrightarrow> valid_group budget g"
  by (induction fs rule: groups_induct [where budget = budget]) auto

lemma length_concat_groups: "g \<in> set gs \<Longrightarrow> length g \<le> length (concat gs)"
  by (induction gs) auto

lemma c6_total_le_cap:
  assumes "length fs \<le> C6_FRAMES_PER_CHUNK"
  shows "c6_total fs \<le> PACKET_BUF_CAP"
proof -
  have "(\<Sum>f\<leftarrow>fs. 1 + unat (cf_len f)) \<le> length fs * 256"
  proof (induction fs)
    case (Cons f fs)
    then show ?case using unat_u8_le [of "cf_len f"] by (simp add: add_mono)
  qed simp
  with assms show ?thesis
    by (simp add: c6_total_def config_simps)
qed

lemma batch_packet:
  assumes "length fs \<le> C6_FRAMES_PER_CHUNK"
  shows "c6_write_packet PACKET_BUF_CAP pt sq ts vs fl fs
    = c6_header pt sq ts vs fl (length fs) @ c6_body fs"
  using assms c6_total_le_cap [OF assms] by (simp add: c6_write_packet_fits config_simps)

lemma send_frames_pack:
  assumes "now \<noteq> []" and "take_fitting budget 0 (now @ later) = (now, later)"
    and "length (now @ later) \<le> C6_FRAMES_PER_CHUNK"
  shows "send_frames ntf budget (now @ later) seq w
    = send_frames ntf budget later (seq + 1) (send_packet ntf (live_packet seq now) w)"
proof (cases now)
  case (Cons f rest)
  have "live_packet seq now \<noteq> []"
    using assms(3) batch_packet [of "map df_frame now"]
    by (simp add: live_packet_def c6_header_def)
  moreover have "live_packet seq now = c6_write_packet PACKET_BUF_CAP C6_LIVE seq (df_ts f)
      (df_vad f) 0 (map df_frame now)"
    by (simp only: live_packet_def Cons list.sel)
  ultimately show ?thesis
    using assms(1,2) by (simp add: Cons send_frames.simps(2) Let_def)
qed (use assms in simp)

text \<open>A batch of at most ten frames is sent exactly as its groups, one sequence number each.\<close>

lemma send_frames_groups:
  assumes "length fs \<le> C6_FRAMES_PER_CHUNK"
  shows "send_frames ntf budget fs seq w
    = (seq + of_nat (length (groups budget fs)),
       foldl (\<lambda>w p. send_packet ntf p w) w (live_packets seq (groups budget fs)))"
  using assms
proof (induction fs arbitrary: seq w rule: groups_induct [where budget = budget])
  case Nil
  then show ?case by simp
next
  case (drop f rest)
  then show ?case by (simp add: send_frames.simps(2))
next
  case (pack now later)
  then show ?case by (simp add: send_frames_pack add.assoc)
qed

section \<open>What a batch carries, in terms of the frames pushed\<close>

definition audible :: "frame \<Rightarrow> bool" where
  "audible f = (fr_vad f \<noteq> C6_GAP_MARKER \<and> fr_bytes f \<noteq> [])"

definition frame_view :: "drain_frame \<Rightarrow> frame" where
  "frame_view d = \<lparr>fr_vad = df_vad d, fr_ts = df_ts d, fr_bytes = c6_frame_bytes (df_frame d)\<rparr>"

lemma frame_view_sel [simp]:
  "fr_vad (frame_view d) = df_vad d" "fr_ts (frame_view d) = df_ts d"
  "fr_bytes (frame_view d) = c6_frame_bytes (df_frame d)"
  by (simp_all add: frame_view_def)

lemma frame_view_simp [simp]:
  "frame_view \<lparr>df_frame = \<lparr>cf_data = d, cf_len = l\<rparr>, df_vad = v, df_ts = t\<rparr>
     = \<lparr>fr_vad = v, fr_ts = t, fr_bytes = take (unat l) d\<rparr>"
  by (simp add: frame_view_def c6_frame_bytes_def)

text \<open>The frames of the ring at indices \<open>c + i, ..., c + i + k - 1\<close>.\<close>

definition span :: "frame list \<Rightarrow> nat \<Rightarrow> nat \<Rightarrow> frame list" where
  "span hs c k = take k (drop c hs)"

lemma span_0 [simp]: "span hs c 0 = []"
  by (simp add: span_def)

lemma span_Suc: "c < length hs \<Longrightarrow> span hs c (Suc k) = hs ! c # span hs (Suc c) k"
  by (simp add: span_def Cons_nth_drop_Suc [symmetric])

lemma length_span: "c + k \<le> length hs \<Longrightarrow> length (span hs c k) = k"
  by (simp add: span_def)

context frame_ring begin

lemma collect_span:
  assumes "rel r hs" and "c + i + k \<le> length hs" and "length hs \<le> c + i + RING_FRAMES"
  shows "map frame_view (collect (\<lambda>x. get x r) (of_nat c) False base i k)
      = filter audible (span hs (c + i) k)
    \<and> list_all frame_ok (collect (\<lambda>x. get x r) (of_nat c) False base i k)"
  using assms
proof (induction k arbitrary: i)
  case (Suc k)
  obtain f where f: "get (of_nat (c + i)) r = Some f" "rf_vad_state f = fr_vad (hs ! (c + i))"
    "rf_rel_ts_ms f = fr_ts (hs ! (c + i))" "unat (rf_len f) = length (fr_bytes (hs ! (c + i)))"
    "take (unat (rf_len f)) (rf_data f) = fr_bytes (hs ! (c + i))"
    "unat (rf_len f) \<le> length (rf_data f)"
    by (rule get_slot [OF Suc.prems(1), of "c + i"]) (use Suc.prems in simp_all)
  have audio: "is_audio f = audible (hs ! (c + i))"
  proof -
    have "rf_len f = 0 \<longleftrightarrow> fr_bytes (hs ! (c + i)) = []"
      using f(4) by (metis length_0_conv unat_eq_zero)
    with f(2) show ?thesis by (simp add: is_audio_def audible_def)
  qed
  have "map frame_view (collect (\<lambda>x. get x r) (of_nat c) False base (Suc i) k)
      = filter audible (span hs (Suc (c + i)) k)
    \<and> list_all frame_ok (collect (\<lambda>x. get x r) (of_nat c) False base (Suc i) k)"
    using Suc.IH [of "Suc i"] Suc.prems by simp
  with Suc.prems f audio show ?case
    by (simp add: span_Suc c6_frame_ok_def)
qed simp

end

lemma live_packet_eq:
  "length g \<le> C6_FRAMES_PER_CHUNK \<Longrightarrow> live_packet sq g
     = c6_header C6_LIVE sq (df_ts (hd g)) (df_vad (hd g)) 0 (length g) @ c6_body (map df_frame g)"
  by (simp only: live_packet_def batch_packet length_map)

text \<open>A packet of the protocol's VAD states parses back to its group.\<close>

lemma vad_int_ex: "v < 4 \<Longrightarrow> \<exists>vs. v = word_of_int (vad_int vs)" for v :: u8
proof -
  assume "v < 4"
  then have "v = 0 \<or> v = 1 \<or> v = 2 \<or> v = 3"
    by (auto simp: word_less_nat_alt word_unat_eq_iff)
  then show ?thesis
    by (metis of_int_0 of_int_1 of_int_numeral vad_int.simps)
qed

lemma parse_group:
  assumes "list_all c6_frame_ok fs" and "v < 4" and "length fs \<le> C6_FRAMES_PER_CHUNK"
  shows "\<exists>vs. parse (c6_header (word_of_int (ptype_int pt)) sq ts v fl (length fs) @ c6_body fs)
    = Inr (packet_of pt sq ts vs fl fs)"
proof -
  obtain vs where vs: "v = word_of_int (vad_int vs)"
    using vad_int_ex [OF assms(2)] by blast
  have "length fs \<le> 255" using assms(3) by (simp add: C6_FRAMES_PER_CHUNK_def)
  from parse_c6_packet [OF assms(1) this] show ?thesis
    unfolding vs by blast
qed

lemma parse_live_packet:
  assumes "list_all frame_ok g" and "df_vad (hd g) < 4" and "length g \<le> C6_FRAMES_PER_CHUNK"
  shows "\<exists>q. parse (live_packet sq g) = Inr q \<and> ap_ptype q = LIVE \<and> ap_flags q = 0
    \<and> ap_chunk_seq q = uint sq \<and> ap_frames q = map (\<lambda>d. c6_frame_bytes (df_frame d)) g
    \<and> ap_rel_ts_ms q = uint (df_ts (hd g))"
proof -
  have "list_all c6_frame_ok (map df_frame g)"
    using assms(1) by (simp add: list_all_iff)
  with parse_group [of "map df_frame g" "df_vad (hd g)" LIVE sq "df_ts (hd g)" 0] assms(2,3)
  show ?thesis
    by (auto simp: live_packet_eq [OF assms(3)] C6_LIVE_def packet_of_def)
qed

lemma length_live_packet:
  assumes "list_all frame_ok g" and "valid_group (body_budget mtu) g"
    and "length g \<le> C6_FRAMES_PER_CHUNK"
  shows "length (live_packet sq g) \<le> max_payload mtu"
proof -
  have "0 < body_budget mtu"
    using assms(2) by (cases g) (auto simp: valid_group_def)
  then have budget: "body_budget mtu + C6_HEADER_LEN = max_payload mtu"
    by (auto simp: body_budget_def split: if_splits)
  have "list_all c6_frame_ok (map df_frame g)"
    using assms(1) by (simp add: list_all_iff)
  then have "length (live_packet sq g) = C6_HEADER_LEN + (\<Sum>f\<leftarrow>g. 1 + df_len f)"
    by (simp add: live_packet_eq [OF assms(3)] length_c6_body o_def C6_HEADER_LEN_def)
  with assms(2) budget show ?thesis
    by (simp add: valid_group_def)
qed

lemma live_packets_parse:
  assumes "\<forall>g \<in> set gs. list_all frame_ok g \<and> df_vad (hd g) < 4
    \<and> length g \<le> C6_FRAMES_PER_CHUNK"
  shows "\<exists>qs. map parse (live_packets sq gs) = map Inr qs
    \<and> (\<forall>q \<in> set qs. ap_ptype q = LIVE \<and> ap_flags q = 0)
    \<and> map ap_chunk_seq qs = map (\<lambda>i. uint (sq + of_nat i)) [0..<length gs]
    \<and> concat (map ap_frames qs) = map (\<lambda>d. c6_frame_bytes (df_frame d)) (concat gs)"
  using assms
proof (induction gs arbitrary: sq)
  case (Cons g gs)
  obtain q where q: "parse (live_packet sq g) = Inr q" "ap_ptype q = LIVE" "ap_flags q = 0"
    "ap_chunk_seq q = uint sq" "ap_frames q = map (\<lambda>d. c6_frame_bytes (df_frame d)) g"
    using parse_live_packet [of g sq] Cons.prems by auto
  have "\<exists>qs. map parse (live_packets (sq + 1) gs) = map Inr qs
    \<and> (\<forall>q \<in> set qs. ap_ptype q = LIVE \<and> ap_flags q = 0)
    \<and> map ap_chunk_seq qs = map (\<lambda>i. uint (sq + 1 + of_nat i)) [0..<length gs]
    \<and> concat (map ap_frames qs) = map (\<lambda>d. c6_frame_bytes (df_frame d)) (concat gs)"
    using Cons.prems by (intro Cons.IH) simp
  then obtain qs where qs: "map parse (live_packets (sq + 1) gs) = map Inr qs"
    "\<forall>q \<in> set qs. ap_ptype q = LIVE \<and> ap_flags q = 0"
    "map ap_chunk_seq qs = map (\<lambda>i. uint (sq + 1 + of_nat i)) [0..<length gs]"
    "concat (map ap_frames qs) = map (\<lambda>d. c6_frame_bytes (df_frame d)) (concat gs)"
    by blast
  have "map (\<lambda>i. uint (sq + of_nat i)) [0..<length (g # gs)]
      = uint sq # map (\<lambda>i. uint (sq + 1 + of_nat i)) [0..<length gs]"
    by (simp add: upt_conv_Cons map_Suc_upt [symmetric] o_def add.assoc del: upt_Suc)
  with q qs show ?case
    by (intro exI [of _ "q # qs"]) simp
qed simp

section \<open>Properties of the live path\<close>

lemma preroll_none:
  "speech \<or> (\<forall>f. get cur = Some f \<longrightarrow> \<not> voiced (rf_vad_state f)) \<Longrightarrow>
   preroll get cur speech = (cur, False)"
  by (auto simp: preroll_def split: option.splits)

lemma collect_length: "length (collect get cur pre base i k) \<le> k"
  by (induction get cur pre base i k rule: collect.induct)
    (auto simp: Let_def intro: le_SucI split: option.splits)

lemma in_groups:
  assumes "g \<in> set (groups budget fs)"
  shows "set g \<subseteq> set fs" and "length g \<le> length fs"
proof -
  have "set g \<subseteq> set (concat (groups budget fs))" using assms by auto
  then show "set g \<subseteq> set fs" by (auto simp: concat_groups)
  show "length g \<le> length fs"
    using length_concat_groups [OF assms] length_filter_le [of "fits budget" fs]
    unfolding concat_groups by (rule order_trans)
qed

lemma groups_of_batch:
  assumes "list_all frame_ok fs" and "length fs \<le> C6_FRAMES_PER_CHUNK"
    and "\<forall>f \<in> set fs. df_vad f < 4" and "g \<in> set (groups budget fs)"
  shows "list_all frame_ok g" and "df_vad (hd g) < 4" and "length g \<le> C6_FRAMES_PER_CHUNK"
    and "valid_group budget g"
proof -
  show "valid_group budget g" using assms(4) by (rule valid_groups)
  then have "hd g \<in> set g" by (simp add: valid_group_def)
  with in_groups [OF assms(4)] assms(1-3) show "list_all frame_ok g" "df_vad (hd g) < 4"
    "length g \<le> C6_FRAMES_PER_CHUNK"
    by (auto simp: list_all_iff)
qed

lemma length_live_packets [simp]: "length (live_packets sq gs) = length gs"
  by (induction gs arbitrary: sq) simp_all

lemma live_packets_size:
  "\<forall>g \<in> set gs. list_all frame_ok g \<and> valid_group (body_budget mtu) g
     \<and> length g \<le> C6_FRAMES_PER_CHUNK \<Longrightarrow>
   \<forall>p \<in> set (live_packets sq gs). length p \<le> max_payload mtu"
  by (induction gs arbitrary: sq) (auto intro: length_live_packet)

lemma filter_fits_view:
  assumes "list_all frame_ok fs"
  shows "map (\<lambda>d. c6_frame_bytes (df_frame d)) (filter (fits budget) fs)
    = filter (\<lambda>b. 1 + length b \<le> budget) (map fr_bytes (map frame_view fs))"
  using assms by (induction fs) (auto simp: fits_def frame_view_def)

text \<open>Everything the air sees of a batch.\<close>

lemma batch_on_air:
  assumes "list_all frame_ok fs" and "length fs \<le> C6_FRAMES_PER_CHUNK"
    and "\<forall>f \<in> set fs. df_vad f < 4"
  obtains ps qs where "ps = live_packets sq (groups (body_budget mtu) fs)"
    and "\<forall>p \<in> set ps. length p \<le> max_payload mtu" and "map parse ps = map Inr qs"
    and "\<forall>q \<in> set qs. ap_ptype q = LIVE \<and> ap_flags q = 0"
    and "map ap_chunk_seq qs = map (\<lambda>i. uint (sq + of_nat i)) [0..<length ps]"
    and "concat (map ap_frames qs) = filter (\<lambda>b. 1 + length b \<le> body_budget mtu)
      (map fr_bytes (map frame_view fs))"
proof -
  let ?gs = "groups (body_budget mtu) fs"
  have gs: "\<forall>g \<in> set ?gs. list_all frame_ok g \<and> df_vad (hd g) < 4
      \<and> length g \<le> C6_FRAMES_PER_CHUNK"
    "\<forall>g \<in> set ?gs. list_all frame_ok g \<and> valid_group (body_budget mtu) g
      \<and> length g \<le> C6_FRAMES_PER_CHUNK"
    using groups_of_batch [OF assms] by blast+
  from live_packets_parse [OF gs(1), of sq] live_packets_size [OF gs(2), of sq] that [OF refl]
  show ?thesis
    by (auto simp: concat_groups filter_fits_view [OF assms(1)] simp del: map_map)
qed

text \<open>A batch with audio and without a rewind.\<close>

lemma drain_live_batch:
  assumes "\<not> write_idx - cursor s < of_nat C6_FRAMES_PER_CHUNK"
    and "preroll get (cursor s) (in_speech s) = (cursor s, False)"
    and "collect get (cursor s) False (cursor s) 0 C6_FRAMES_PER_CHUNK = fs" and "fs \<noteq> []"
  shows "drain_live get write_idx mtu ntf s w
    = (\<lparr>cursor = cursor s + of_nat C6_FRAMES_PER_CHUNK,
        chunk_seq = chunk_seq s + of_nat (length (groups (body_budget mtu) fs)),
        in_speech = voiced (df_vad (last fs))\<rparr>,
       foldl (\<lambda>w p. send_packet ntf p w) w
         (live_packets (chunk_seq s) (groups (body_budget mtu) fs)))"
  using assms send_frames_groups [of fs ntf] collect_length [of get _ False _ 0 C6_FRAMES_PER_CHUNK]
  by (auto simp: drain_live_def Let_def)

lemma available_iff:
  assumes "n < 4294967296" and "c \<le> n"
  shows "(of_nat n - of_nat c < (of_nat C6_FRAMES_PER_CHUNK :: u32)) = (n < c + C6_FRAMES_PER_CHUNK)"
proof -
  have "unat (of_nat n - of_nat c :: u32) = n - c"
    using assms by (simp add: cnum flip: of_nat_diff)
  then show ?thesis
    using assms by (auto simp: word_less_nat_alt C6_FRAMES_PER_CHUNK_def)
qed

text \<open>One iteration on a batch with something to send.\<close>

lemma drain_live_delivers:
  assumes rel: "ring_rel r hs" and room: "c + C6_FRAMES_PER_CHUNK \<le> length hs"
    and window: "length hs \<le> c + RING_FRAMES" and cur: "cursor s = of_nat c"
    and speech: "in_speech s \<or> \<not> voiced (fr_vad (hs ! c))"
    and vad: "\<forall>f \<in> set hs. fr_vad f < 4"
    and some: "filter audible (span hs c C6_FRAMES_PER_CHUNK) = batch" "batch \<noteq> []"
  shows "\<exists>ps qs. drain_live (\<lambda>i. ring_buffer_get i r) (ring_buffer_write_index r) mtu ntf s w
      = (\<lparr>cursor = of_nat (c + C6_FRAMES_PER_CHUNK), chunk_seq = chunk_seq s + of_nat (length ps),
          in_speech = voiced (fr_vad (last batch))\<rparr>,
         foldl (\<lambda>w p. send_packet ntf p w) w ps)
    \<and> (\<forall>p \<in> set ps. length p \<le> max_payload mtu)
    \<and> map parse ps = map Inr qs
    \<and> (\<forall>q \<in> set qs. ap_ptype q = LIVE \<and> ap_flags q = 0)
    \<and> map ap_chunk_seq qs = map (\<lambda>i. uint (chunk_seq s + of_nat i)) [0..<length ps]
    \<and> concat (map ap_frames qs)
        = filter (\<lambda>b. 1 + length b \<le> body_budget mtu) (map fr_bytes batch)"
proof -
  let ?get = "\<lambda>i. ring_buffer_get i r" and ?k = "C6_FRAMES_PER_CHUNK"
  define fs where "fs = collect ?get (of_nat c) False (of_nat c) 0 ?k"
  have view: "map frame_view fs = batch" and ok: "list_all frame_ok fs"
    using ring.collect_span [OF rel, of c 0 ?k "of_nat c"] room window some(1)
    by (simp_all add: fs_def)
  from view some(2) have ne: "fs \<noteq> []" by auto
  then have last: "df_vad (last fs) = fr_vad (last batch)"
    by (simp add: last_map flip: view)
  have len: "length fs \<le> ?k" by (simp add: fs_def collect_length)
  have "frame_view f \<in> set hs" if "f \<in> set fs" for f
    using that arg_cong [OF view, of set] some(1)
    by (auto simp: span_def dest!: in_set_takeD in_set_dropD)
  then have "\<forall>f \<in> set fs. df_vad f < 4"
    using vad by (metis frame_view_sel(1))
  from batch_on_air [OF ok len this, of "chunk_seq s" mtu] obtain ps qs where
    ps: "ps = live_packets (chunk_seq s) (groups (body_budget mtu) fs)" and air:
    "\<forall>p \<in> set ps. length p \<le> max_payload mtu" "map parse ps = map Inr qs"
    "\<forall>q \<in> set qs. ap_ptype q = LIVE \<and> ap_flags q = 0"
    "map ap_chunk_seq qs = map (\<lambda>i. uint (chunk_seq s + of_nat i)) [0..<length ps]"
    "concat (map ap_frames qs) = filter (\<lambda>b. 1 + length b \<le> body_budget mtu) (map fr_bytes batch)"
    unfolding view by blast
  have "preroll ?get (of_nat c) (in_speech s) = (of_nat c, False)"
    using speech ring.get_vad(1) [OF rel, of c] room window
    by (intro preroll_none) (auto simp: C6_FRAMES_PER_CHUNK_def)
  moreover have "\<not> ring_buffer_write_index r - of_nat c < of_nat ?k"
    using ring.write_index [OF rel] ring.rel_length [OF rel] room by (simp add: available_iff)
  ultimately have "drain_live ?get (ring_buffer_write_index r) mtu ntf s w
      = (\<lparr>cursor = of_nat (c + ?k), chunk_seq = chunk_seq s + of_nat (length ps),
          in_speech = voiced (fr_vad (last batch))\<rparr>, foldl (\<lambda>w p. send_packet ntf p w) w ps)"
    using drain_live_batch [of "ring_buffer_write_index r" s ?get fs mtu ntf w] cur ne
    by (simp add: ps last flip: fs_def)
  with air show ?thesis by blast
qed

text \<open>
  C1: An iteration in mid-speech (or on a batch that does not start voiced) moves the cursor ten
  frames on and puts the audible frames of the batch on the air in order, none lost except those
  larger than a whole packet: every packet fits the ATT payload, parses at the server as a LIVE
  packet without flags, and the chunk sequence numbers are consecutive.
\<close>

theorem live_batch_delivery:
  assumes rel: "ring_rel r hs" and room: "c + C6_FRAMES_PER_CHUNK \<le> length hs"
    and window: "length hs \<le> c + RING_FRAMES" and cur: "cursor s = of_nat c"
    and speech: "in_speech s \<or> \<not> voiced (fr_vad (hs ! c))"
    and vad: "\<forall>f \<in> set hs. fr_vad f < 4"
    and some: "filter audible (span hs c C6_FRAMES_PER_CHUNK) = batch" "batch \<noteq> []"
  shows "\<exists>ps qs. drain_live (\<lambda>i. ring_buffer_get i r) (ring_buffer_write_index r) mtu ntf s w
      = (\<lparr>cursor = of_nat (c + C6_FRAMES_PER_CHUNK), chunk_seq = chunk_seq s + of_nat (length ps),
          in_speech = voiced (fr_vad (last batch))\<rparr>,
         foldl (\<lambda>w p. send_packet ntf p w) w ps)
    \<and> (\<forall>p \<in> set ps. length p \<le> max_payload mtu)
    \<and> map parse ps = map Inr qs
    \<and> (\<forall>q \<in> set qs. ap_ptype q = LIVE \<and> ap_flags q = 0)
    \<and> map ap_chunk_seq qs = map (\<lambda>i. uint (chunk_seq s + of_nat i)) [0..<length ps]
    \<and> concat (map ap_frames qs)
        = filter (\<lambda>b. 1 + length b \<le> body_budget mtu) (map fr_bytes batch)"
  by (rule drain_live_delivers [OF assms])

text \<open>A ring after a concrete run of pushes, for the witnesses.\<close>

definition ring_after :: "frame list \<Rightarrow> ring" where
  "ring_after hs = foldl push_frame (the (ring_buffer_init True)) hs"

lemma ring_rel_after:
  "length hs < 4294967296 \<Longrightarrow> \<forall>f \<in> set hs. length (fr_bytes f) < 256 \<Longrightarrow>
   ring_rel (ring_after hs) hs"
  using ring_rel_pushes [OF ring_rel_init, of "the (ring_buffer_init True)" hs]
  by (simp add: ring_after_def ring_buffer_init_def)

theorem live_batch_delivery_witness:
  "\<exists>ps qs. drain_live (\<lambda>i. ring_buffer_get i
        (ring_after (replicate 10 \<lparr>fr_vad = 1, fr_ts = 5, fr_bytes = [1, 2]\<rparr>)))
      (ring_buffer_write_index (ring_after (replicate 10 \<lparr>fr_vad = 1, fr_ts = 5, fr_bytes = [1, 2]\<rparr>)))
      247 (\<lambda>p w. (0, w @ [p])) \<lparr>cursor = 0, chunk_seq = 7, in_speech = True\<rparr> []
      = (\<lparr>cursor = 10, chunk_seq = 7 + of_nat (length ps), in_speech = True\<rparr>,
         foldl (\<lambda>w p. send_packet (\<lambda>p w. (0, w @ [p])) p w) [] ps)
    \<and> map parse ps = map Inr qs
    \<and> concat (map ap_frames qs) = replicate 10 [1, 2]"
proof -
  let ?f = "\<lparr>fr_vad = 1, fr_ts = 5, fr_bytes = [1, 2]\<rparr>"
  have rel: "ring_rel (ring_after (replicate 10 ?f)) (replicate 10 ?f)"
    by (intro ring_rel_after) simp_all
  show ?thesis
    using live_batch_delivery [OF rel, of 0 "\<lparr>cursor = 0, chunk_seq = 7, in_speech = True\<rparr>"
        "replicate 10 ?f" 247 "\<lambda>p w. (0, w @ [p])" "[]"]
    by (auto simp: span_def audible_def voiced_def config_simps config_vals body_budget_def
        max_payload_def filter_replicate)
qed

lemma collect_silent:
  assumes "\<forall>j f. i \<le> j \<and> j < i + k \<and> get (cur + of_nat j) = Some f \<longrightarrow> \<not> is_audio f"
  shows "collect get cur pre base i k = []"
  using assms
proof (induction k arbitrary: i)
  case (Suc k)
  have "collect get cur pre base (Suc i) k = []"
    using Suc.prems by (intro Suc.IH) (auto dest: Suc_leD)
  moreover have "\<not> is_audio f" if "get (cur + of_nat i) = Some f" for f
    using Suc.prems [rule_format, of i f] that by simp
  ultimately show ?case
    by (simp add: Let_def split: option.splits)
qed simp

context frame_ring begin

lemma collect_gap:
  assumes "rel r hs" and "c + k \<le> length hs" and "length hs \<le> c + RING_FRAMES"
    and "\<forall>f \<in> set (span hs c k). fr_vad f = C6_GAP_MARKER"
  shows "collect (\<lambda>x. get x r) (of_nat c) pre base 0 k = []"
proof (rule collect_silent, intro allI impI)
  fix j f assume "0 \<le> j \<and> j < 0 + k \<and> get (of_nat c + of_nat j) r = Some f"
  then have j: "j < k" and f: "get (of_nat (c + j)) r = Some f" by simp_all
  then have "rf_vad_state f = fr_vad (hs ! (c + j))"
    using assms(2,3) by (intro get_vad(1) [OF assms(1)]) simp_all
  moreover have "hs ! (c + j) = span hs c k ! j"
    using j assms(2) by (simp add: span_def)
  moreover have "span hs c k ! j \<in> set (span hs c k)"
    using j assms(2) by (intro nth_mem) (simp add: length_span)
  ultimately show "\<not> is_audio f"
    using assms(4) by (simp add: is_audio_def)
qed

lemma preroll_onset:
  assumes "rel r hs" and "c < length hs" and "voiced (fr_vad (hs ! c))" and "0 < c"
    and "length hs \<le> c - VAD_PREROLL_FRAMES + RING_FRAMES"
  shows "preroll (\<lambda>x. get x r) (of_nat c) False = (of_nat (c - VAD_PREROLL_FRAMES), True)"
proof -
  have c: "c < 4294967296" using rel_length [OF assms(1)] assms(2) by simp
  have to: "(if (of_nat c :: u32) \<ge> of_nat VAD_PREROLL_FRAMES
      then of_nat c - of_nat VAD_PREROLL_FRAMES else 0) = (of_nat (c - VAD_PREROLL_FRAMES) :: u32)"
    using c by (auto simp: word_le_nat_alt cnum VAD_PREROLL_FRAMES_val)
  have lt: "(of_nat c :: u32) - of_nat (c - VAD_PREROLL_FRAMES) > 0"
  proof -
    have "unat (of_nat c - of_nat (c - VAD_PREROLL_FRAMES) :: u32) = c - (c - VAD_PREROLL_FRAMES)"
      using c by (simp add: cnum flip: of_nat_diff)
    with assms(4) show ?thesis unfolding word_less_nat_alt VAD_PREROLL_FRAMES_val by simp
  qed
  obtain f where "get (of_nat c) r = Some f" "rf_vad_state f = fr_vad (hs ! c)"
    by (rule get_slot [OF assms(1,2)]) (use assms(5) in simp_all)
  moreover obtain g where "get (of_nat (c - VAD_PREROLL_FRAMES)) r = Some g"
    by (rule get_slot [OF assms(1), of "c - VAD_PREROLL_FRAMES"]) (use assms in simp_all)
  ultimately show ?thesis
    using assms(3) lt by (simp add: preroll_def to Let_def)
qed

end

text \<open>A silent batch, whether reached by a rewind or not, is one empty packet.\<close>

lemma drain_live_silent:
  assumes "\<not> write_idx - cursor s < of_nat C6_FRAMES_PER_CHUNK"
    and "preroll get (cursor s) (in_speech s) = (cur, pre)"
    and "\<not> write_idx - cur < of_nat C6_FRAMES_PER_CHUNK"
    and "collect get cur pre cur 0 C6_FRAMES_PER_CHUNK = []"
  shows "drain_live get write_idx mtu ntf s w
    = (\<lparr>cursor = cur + of_nat C6_FRAMES_PER_CHUNK, chunk_seq = chunk_seq s + 1, in_speech = False\<rparr>,
       snd (ntf (c6_write_packet PACKET_BUF_CAP C6_LIVE (chunk_seq s) (first_rel_ts get cur)
                   C6_GAP_MARKER 0 []) w))"
proof -
  have "c6_write_packet PACKET_BUF_CAP C6_LIVE (chunk_seq s) (first_rel_ts get cur)
      C6_GAP_MARKER 0 [] \<noteq> []"
    by (simp add: batch_packet c6_header_def)
  with assms show ?thesis
    by (simp add: drain_live_def Let_def)
qed

text \<open>
  The onset's preroll carries no audio: a rewound batch whose frames are the silence before
  the onset is one empty packet tagged as a gap marker, and the cursor ends five frames before
  the onset it started at.
\<close>

theorem preroll_is_silent:
  assumes rel: "ring_rel r hs" and cur: "cursor s = of_nat c" and "15 \<le> c"
    and "c + 10 \<le> length hs" and "length hs + 15 \<le> c + RING_FRAMES"
    and "\<not> in_speech s" and "voiced (fr_vad (hs ! c))"
    and gap: "\<forall>f \<in> set (span hs (c - 15) 10). fr_vad f = C6_GAP_MARKER"
  shows "drain_live (\<lambda>i. ring_buffer_get i r) (ring_buffer_write_index r) mtu ntf s w
      = (\<lparr>cursor = of_nat (c - 5), chunk_seq = chunk_seq s + 1, in_speech = False\<rparr>,
         snd (ntf (c6_write_packet PACKET_BUF_CAP C6_LIVE (chunk_seq s) (fr_ts (hs ! (c - 15)))
                     C6_GAP_MARKER 0 []) w))"
proof -
  let ?get = "\<lambda>i. ring_buffer_get i r"
  have pre: "preroll ?get (cursor s) (in_speech s) = (of_nat (c - 15), True)"
    using ring.preroll_onset [OF rel, of c] assms by (simp add: VAD_PREROLL_FRAMES_val)
  have avail: "\<not> ring_buffer_write_index r - of_nat d < of_nat C6_FRAMES_PER_CHUNK"
    if "d \<le> c" for d
    using that available_iff [of "length hs" d] ring.write_index [OF rel] ring.rel_length [OF rel]
      assms(4) by (simp add: C6_FRAMES_PER_CHUNK_def)
  obtain f where "?get (of_nat (c - 15)) = Some f" "rf_rel_ts_ms f = fr_ts (hs ! (c - 15))"
    by (rule ring.get_slot [OF rel, of "c - 15"]) (use assms in simp_all)
  then have ts: "first_rel_ts ?get (of_nat (c - 15)) = fr_ts (hs ! (c - 15))"
    by (simp add: first_rel_ts_def)
  have "collect ?get (of_nat (c - 15)) True (of_nat (c - 15)) 0 C6_FRAMES_PER_CHUNK = []"
    using ring.collect_gap [OF rel, of "c - 15" 10] assms by (simp add: C6_FRAMES_PER_CHUNK_def)
  moreover have "of_nat (c - 15) + of_nat C6_FRAMES_PER_CHUNK = (of_nat (c - 5) :: u32)"
    using assms(3) by (simp add: C6_FRAMES_PER_CHUNK_def flip: of_nat_add)
  ultimately show ?thesis
    using drain_live_silent [OF _ pre, of "ring_buffer_write_index r" mtu ntf w]
      avail [of c] avail [of "c - 15"] by (simp add: cur ts)
qed

theorem preroll_is_silent_witness:
  "drain_live (\<lambda>i. ring_buffer_get i (ring_after
        (replicate 20 \<lparr>fr_vad = 0, fr_ts = 5, fr_bytes = []\<rparr>
           @ replicate 10 \<lparr>fr_vad = 1, fr_ts = 9, fr_bytes = [1, 2]\<rparr>)))
      (ring_buffer_write_index (ring_after
        (replicate 20 \<lparr>fr_vad = 0, fr_ts = 5, fr_bytes = []\<rparr>
           @ replicate 10 \<lparr>fr_vad = 1, fr_ts = 9, fr_bytes = [1, 2]\<rparr>)))
      247 (\<lambda>p w. (0, w @ [p])) \<lparr>cursor = 20, chunk_seq = 7, in_speech = False\<rparr> []
      = (\<lparr>cursor = 15, chunk_seq = 8, in_speech = False\<rparr>,
         [c6_write_packet PACKET_BUF_CAP C6_LIVE 7 5 C6_GAP_MARKER 0 []])"
proof -
  let ?hs = "replicate 20 \<lparr>fr_vad = 0, fr_ts = 5, fr_bytes = []\<rparr>
           @ replicate 10 \<lparr>fr_vad = 1, fr_ts = 9, fr_bytes = [1, 2]\<rparr>"
  have rel: "ring_rel (ring_after ?hs) ?hs"
    by (intro ring_rel_after) auto
  show ?thesis
    using preroll_is_silent [OF rel, of "\<lparr>cursor = 20, chunk_seq = 7, in_speech = False\<rparr>" 20 247
        "\<lambda>p w. (0, w @ [p])" "[]"]
    by (simp add: span_def voiced_def config_simps config_vals nth_append)
qed

text \<open>
  C39: A livelock of the drainer: when speech starts at the eleventh frame after boot and the first
  ten are silence, every iteration rewinds to index 0, sends one empty packet and comes back to the
  same cursor, for any number of iterations on that ring: the speech is never sent while the
  oldest frame stays in the ring (a minute).
\<close>

theorem onset_at_ten_livelock:
  assumes rel: "ring_rel r hs" and "20 \<le> length hs" and "length hs \<le> RING_FRAMES"
    and "voiced (fr_vad (hs ! 10))" and "\<forall>f \<in> set (span hs 0 10). fr_vad f = C6_GAP_MARKER"
  shows "fst (((\<lambda>(s, w). drain_live (\<lambda>i. ring_buffer_get i r) (ring_buffer_write_index r) mtu ntf s w)
                 ^^ n) (\<lparr>cursor = 10, chunk_seq = q, in_speech = False\<rparr>, w))
      = \<lparr>cursor = 10, chunk_seq = q + of_nat n, in_speech = False\<rparr>"
proof (induction n)
  case (Suc n)
  let ?get = "\<lambda>i. ring_buffer_get i r" and ?w = "ring_buffer_write_index r"
  have pre: "preroll ?get 10 False = (0, True)"
    using ring.preroll_onset [OF rel, of 10] assms by (simp add: VAD_PREROLL_FRAMES_val)
  have "\<not> ?w - of_nat d < of_nat C6_FRAMES_PER_CHUNK" if "d \<le> 10" for d
    using that available_iff [of "length hs" d] ring.write_index [OF rel] ring.rel_length [OF rel]
      assms(2) by (simp add: C6_FRAMES_PER_CHUNK_def)
  from this [of 10] this [of 0]
  have avail: "\<not> ?w - 10 < of_nat C6_FRAMES_PER_CHUNK" "\<not> ?w - 0 < of_nat C6_FRAMES_PER_CHUNK"
    by simp_all
  have "collect ?get 0 True 0 0 C6_FRAMES_PER_CHUNK = []"
    using ring.collect_gap [OF rel, of 0 10] assms by (simp add: C6_FRAMES_PER_CHUNK_def)
  then have step: "fst (drain_live ?get ?w mtu ntf
        \<lparr>cursor = 10, chunk_seq = q', in_speech = False\<rparr> w')
      = \<lparr>cursor = 10, chunk_seq = q' + 1, in_speech = False\<rparr>" for q' w'
    using drain_live_silent [of ?w "\<lparr>cursor = 10, chunk_seq = q', in_speech = False\<rparr>" ?get 0 True
        mtu ntf w'] pre avail by (simp add: C6_FRAMES_PER_CHUNK_def)
  show ?case
    using Suc.IH by (auto simp: case_prod_beta step add_ac)
qed simp

theorem onset_at_ten_livelock_witness:
  "fst (((\<lambda>(s, w). drain_live (\<lambda>i. ring_buffer_get i (ring_after
          (replicate 10 \<lparr>fr_vad = 0, fr_ts = 0, fr_bytes = []\<rparr>
             @ replicate 10 \<lparr>fr_vad = 1, fr_ts = 200, fr_bytes = [7]\<rparr>)))
        (ring_buffer_write_index (ring_after
          (replicate 10 \<lparr>fr_vad = 0, fr_ts = 0, fr_bytes = []\<rparr>
             @ replicate 10 \<lparr>fr_vad = 1, fr_ts = 200, fr_bytes = [7]\<rparr>)))
        247 (\<lambda>p w. (0, w @ [p])) s w) ^^ 1000) (\<lparr>cursor = 10, chunk_seq = 1, in_speech = False\<rparr>, []))
      = \<lparr>cursor = 10, chunk_seq = 1001, in_speech = False\<rparr>"
proof -
  let ?hs = "replicate 10 \<lparr>fr_vad = 0, fr_ts = 0, fr_bytes = []\<rparr>
             @ replicate 10 \<lparr>fr_vad = 1, fr_ts = 200, fr_bytes = [7]\<rparr>"
  have rel: "ring_rel (ring_after ?hs) ?hs"
    by (intro ring_rel_after) auto
  show ?thesis
    by (subst onset_at_ten_livelock [OF rel])
      (simp_all add: span_def voiced_def config_simps config_vals nth_append)
qed

end
