(* ===== verification/Ble_Replay.thy ===== *)
theory Ble_Replay
  imports Ble_Drain
begin

text \<open>
  The drainer's replay of the last seconds (\<open>drain_replay\<close>, \<open>main/ble_drain.c\<close>), its service of
  the request queue and the whole iteration of \<open>drain_task\<close>. The two fixed arrays a replay fills
  are modelled with their sizes: a store past \<open>frames[C6_FRAMES_PER_CHUNK]\<close> or past \<open>data_scratch\<close>
  is the fault it would be.
\<close>

section \<open>One round of the replay\<close>

datatype drain_fault = Frames_Overflow | Scratch_Overflow

definition SCRATCH_CAP :: nat where
  "SCRATCH_CAP = PACKET_BUF_CAP - C6_HEADER_LEN"

text \<open>
  The collecting loop at ring index \<open>start + i\<close>, with the arrays' fill \<open>fs\<close> (newest last), the
  bytes \<open>used\<close>, the scratch offset \<open>off\<close> and \<open>first_rel_ts\<close>: the frames, the next \<open>i\<close> and the
  time stamp of the round, or the fault.
\<close>

function replay_collect ::
  "(u32 \<Rightarrow> (ring_frame \<times> u8 list) option) \<Rightarrow> nat \<Rightarrow> u32 \<Rightarrow> nat \<Rightarrow> nat \<Rightarrow> nat \<Rightarrow> nat
     \<Rightarrow> drain_frame list \<Rightarrow> u32 \<Rightarrow> drain_fault + (drain_frame list \<times> nat \<times> u32)" where
  "replay_collect get_copy budget start n i used off fs first =
     (if i < n then
        (case get_copy (start + of_nat i) of
           None \<Rightarrow> replay_collect get_copy budget start n (Suc i) used off fs first
         | Some (f, copied) \<Rightarrow>
             (let first' = (if fs = [] then rf_rel_ts_ms f else first) in
              if off + length copied > SCRATCH_CAP then Inl Scratch_Overflow
              else if rf_vad_state f = C6_GAP_MARKER \<or> rf_len f = 0
                then replay_collect get_copy budget start n (Suc i) used off fs first'
              else if used + 1 + unat (rf_len f) > budget
                then Inr (fs, if fs = [] then Suc i else i, first')
              else if length fs \<ge> C6_FRAMES_PER_CHUNK then Inl Frames_Overflow
              else replay_collect get_copy budget start n (Suc i)
                     (used + 1 + unat (rf_len f)) (off + unat (rf_len f))
                     (fs @ [\<lparr>df_frame = \<lparr>cf_data = rf_data f, cf_len = rf_len f\<rparr>,
                             df_vad = rf_vad_state f, df_ts = rf_rel_ts_ms f\<rparr>]) first'))
      else Inr (fs, i, first))"
  by pat_completeness auto
termination
  by (relation "measure (\<lambda>(get_copy, budget, start, n, i, used, off, fs, first). n - i)") auto

declare replay_collect.simps [simp del]

text \<open>
  The shipping loop: as many packets as the budget asks for, without retry; a refused packet
  (never, with ten frames) only costs its sequence number.
\<close>

function replay_ship ::
  "'w sink \<Rightarrow> nat \<Rightarrow> bool \<Rightarrow> drain_frame list \<Rightarrow> u32 \<Rightarrow> 'w \<Rightarrow> u32 \<times> 'w" where
  "replay_ship ntf budget final [] seq w = (seq, w)"
| "replay_ship ntf budget final (f # fs) seq w =
     (let (now, later) = take_fitting budget 0 (f # fs) in
      if now = [] then replay_ship ntf budget final fs seq w
      else
        (let fl = (if final \<and> later = [] then C6_FLAG_LAST_OF_REQ else 0);
             pkt = c6_write_packet PACKET_BUF_CAP C6_MEMORY_CHUNK seq (df_ts f) (df_vad f) fl
                     (map df_frame now)
         in replay_ship ntf budget final later (seq + 1)
              (if pkt = [] then w else snd (ntf pkt w))))"
  by pat_completeness auto
termination
  by (relation "measure (\<lambda>(ntf, budget, final, fs, seq, w). length fs)")
    (auto dest: take_fitting_length [OF sym])

declare replay_ship.simps(2) [simp del]

lemma replay_collect_progress:
  "replay_collect get_copy budget start n i used off fs first = Inr (fs', i', ts) \<Longrightarrow> i \<le> n \<Longrightarrow>
   i \<le> i' \<and> i' \<le> n \<and> (fs = [] \<and> i < n \<longrightarrow> i < i')"
proof (induction "n - i" arbitrary: i used off fs first)
  case 0
  then show ?case by (simp add: replay_collect.simps)
next
  case (Suc d)
  have IH: "Suc i \<le> i' \<and> i' \<le> n"
    if "replay_collect get_copy budget start n (Suc i) used off fs first = Inr (fs', i', ts)"
    for used off fs first
    using Suc.hyps(1) [of "Suc i", OF _ that] Suc.hyps(2) by simp
  from Suc.prems Suc.hyps(2) show ?case
    by (subst (asm) replay_collect.simps)
      (auto simp: Let_def split: if_splits option.splits prod.splits dest!: IH)
qed

section \<open>The replay\<close>

text \<open>What a round sends: an empty packet for a silent span, else the frames collected.\<close>

definition round_send ::
  "'w sink \<Rightarrow> nat \<Rightarrow> bool \<Rightarrow> drain_frame list \<Rightarrow> u32 \<Rightarrow> u32 \<Rightarrow> 'w \<Rightarrow> u32 \<times> 'w" where
  "round_send ntf budget final fs first seq w =
     (if fs = [] then
        (let pkt = c6_write_packet PACKET_BUF_CAP C6_MEMORY_CHUNK seq first
               C6_GAP_MARKER (if final then C6_FLAG_LAST_OF_REQ else 0) [] in
         (seq + 1, if pkt = [] then w else snd (ntf pkt w)))
      else replay_ship ntf budget final fs seq w)"

text \<open>
  Rounds until the window is read; \<open>emitted_any\<close> is true after the first round. A round makes
  progress, so the loop ends.
\<close>

function replay_loop ::
  "(u32 \<Rightarrow> (ring_frame \<times> u8 list) option) \<Rightarrow> 'w sink \<Rightarrow> nat \<Rightarrow> u32 \<Rightarrow> nat \<Rightarrow> nat \<Rightarrow> u32 \<Rightarrow> 'w
     \<Rightarrow> drain_fault + (u32 \<times> 'w)" where
  "replay_loop get_copy ntf budget start n i seq w =
     (if i < n then
        (case replay_collect get_copy budget start n i 0 0 [] 0 of
           Inl e \<Rightarrow> Inl e
         | Inr (fs, i', first) \<Rightarrow>
             (let (seq', w') = round_send ntf budget (i' \<ge> n) fs first seq w
              in replay_loop get_copy ntf budget start n i' seq' w'))
      else Inr (seq, w))"
  by pat_completeness auto
termination
  by (relation "measure (\<lambda>(get_copy, ntf, budget, start, n, i, seq, w). n - i)")
    (auto dest!: replay_collect_progress)

declare replay_loop.simps [simp del]

definition replay_frames :: "u32 \<Rightarrow> u32 \<Rightarrow> u32" where
  "replay_frames seconds write_idx =
     (let want = seconds * (1000 div of_nat FRAME_MS);
          n1 = (if want > of_nat RING_FRAMES then of_nat RING_FRAMES else want)
      in if n1 > write_idx then write_idx else n1)"

definition drain_replay ::
  "(u32 \<Rightarrow> (ring_frame \<times> u8 list) option) \<Rightarrow> u32 \<Rightarrow> u16 \<Rightarrow> 'w sink \<Rightarrow> u32 \<Rightarrow> u32 \<Rightarrow> 'w
     \<Rightarrow> drain_fault + (u32 \<times> 'w)" where
  "drain_replay get_copy write_idx mtu ntf seconds seq w =
     (let n = replay_frames seconds write_idx;
          start = write_idx - n
      in if n = 0 then
           (let pkt = c6_write_packet PACKET_BUF_CAP C6_MEMORY_CHUNK seq 0 C6_GAP_MARKER
                        C6_FLAG_LAST_OF_REQ [] in
            Inr (seq + 1, if pkt = [] then w else snd (ntf pkt w)))
         else replay_loop get_copy ntf (body_budget mtu) start (unat n) 0 seq w)"

section \<open>The drainer's task\<close>

text \<open>
  One iteration of \<open>drain_task\<close>: all queued replay requests (their seconds), then the live step.
\<close>

fun service_replays ::
  "(u32 \<Rightarrow> (ring_frame \<times> u8 list) option) \<Rightarrow> u32 \<Rightarrow> u16 \<Rightarrow> 'w sink \<Rightarrow> u32 list \<Rightarrow> u32 \<Rightarrow> 'w
     \<Rightarrow> drain_fault + (u32 \<times> 'w)" where
  "service_replays get_copy write_idx mtu ntf [] seq w = Inr (seq, w)"
| "service_replays get_copy write_idx mtu ntf (s # queue) seq w =
     (case drain_replay get_copy write_idx mtu ntf s seq w of
        Inl e \<Rightarrow> Inl e
      | Inr (seq', w') \<Rightarrow> service_replays get_copy write_idx mtu ntf queue seq' w')"

definition drain_iteration ::
  "ring \<Rightarrow> u16 \<Rightarrow> 'w sink \<Rightarrow> u32 list \<Rightarrow> drain_state \<Rightarrow> 'w \<Rightarrow> drain_fault + (drain_state \<times> 'w)"
where
  "drain_iteration r mtu ntf queue s w =
     (case service_replays (\<lambda>i. ring_buffer_get_copy i r) (ring_buffer_write_index r) mtu ntf queue
             (chunk_seq s) w of
        Inl e \<Rightarrow> Inl e
      | Inr (seq, w') \<Rightarrow>
          Inr (drain_live (\<lambda>i. ring_buffer_get i r) (ring_buffer_write_index r) mtu ntf
                 (s\<lparr>chunk_seq := seq\<rparr>) w'))"

text \<open>\<open>ble_drain_start\<close>: the queue, then the task; both creations may fail.\<close>

definition ble_drain_start :: "bool \<Rightarrow> bool \<Rightarrow> bool" where
  "ble_drain_start queue_ok task_ok = (if \<not> queue_ok then False else task_ok)"

section \<open>What a round collects\<close>

text \<open>
  Ten frames fill the arrays: a window is safe to replay when no eleven of its audible frames fit
  one packet, which holds when each takes more than an eleventh of the budget.
\<close>

definition eleventh :: "nat \<Rightarrow> frame list \<Rightarrow> bool" where
  "eleventh budget ws = (\<forall>f \<in> set ws. audible f \<longrightarrow>
     budget < Suc C6_FRAMES_PER_CHUNK * (1 + length (fr_bytes f)))"

lemma sum_list_eleventh:
  fixes b :: nat
  assumes "\<forall>x \<in> set xs. b < m * x"
  shows "length xs * Suc b \<le> m * sum_list xs"
  using assms
proof (induction xs)
  case (Cons x xs)
  then have "Suc b \<le> m * x" "length xs * Suc b \<le> m * sum_list xs" by auto
  then show ?case by (simp add: distrib_left add_mono del: mult_Suc_right)
qed simp

lemma no_eleventh_fits:
  fixes b :: nat
  assumes "\<forall>x \<in> set xs. b < Suc k * x" and "sum_list xs \<le> b"
  shows "length xs \<le> k"
proof (rule ccontr)
  assume "\<not> length xs \<le> k"
  then have "Suc k * Suc b \<le> length xs * Suc b" by (intro mult_le_mono1) simp
  also have "\<dots> \<le> Suc k * sum_list xs" by (rule sum_list_eleventh [OF assms(1)])
  finally have "Suc b \<le> sum_list xs" by (simp only: Suc_mult_le_cancel1)
  with assms(2) show False by simp
qed

text \<open>The state of a round: what the arrays hold, and that their fill is within bounds.\<close>

definition round_inv :: "nat \<Rightarrow> drain_frame list \<Rightarrow> nat \<Rightarrow> nat \<Rightarrow> bool" where
  "round_inv budget fs used off = (used = (\<Sum>f\<leftarrow>fs. 1 + df_len f) \<and> used \<le> budget \<and> off \<le> used
     \<and> list_all frame_ok fs \<and> eleventh budget (map frame_view fs)
     \<and> list_all (\<lambda>f. audible (frame_view f)) fs)"

lemma round_inv_length:
  assumes "round_inv budget fs used off"
  shows "length fs \<le> C6_FRAMES_PER_CHUNK"
proof -
  have len: "length (c6_frame_bytes (df_frame f)) = df_len f" if "f \<in> set fs" for f
    using assms that by (simp add: round_inv_def list_all_iff)
  then have "length (map (\<lambda>f. 1 + df_len f) fs) \<le> C6_FRAMES_PER_CHUNK"
    using assms by (intro no_eleventh_fits [where b = budget])
      (auto simp: round_inv_def eleventh_def list_all_iff simp del: mult_Suc)
  then show ?thesis by simp
qed

lemma round_inv_snoc:
  assumes "round_inv budget fs used off" and "frame_ok d" and "audible (frame_view d)"
    and "eleventh budget [frame_view d]" and "used + 1 + df_len d \<le> budget"
  shows "round_inv budget (fs @ [d]) (used + 1 + df_len d) (off + df_len d)"
  using assms by (auto simp: round_inv_def eleventh_def)

text \<open>
  What a round that started at \<open>i\<close> with \<open>fs\<close> must return: the index moved on within the window,
  and the frames are the old ones and the audible ones passed that fit a packet, in order.
\<close>

definition collected ::
  "frame list \<Rightarrow> nat \<Rightarrow> nat \<Rightarrow> nat \<Rightarrow> drain_frame list \<Rightarrow> nat
     \<Rightarrow> drain_fault + (drain_frame list \<times> nat \<times> u32) \<Rightarrow> bool" where
  "collected hs st n budget fs i res = (case res of
     Inl e \<Rightarrow> False
   | Inr (fs', i', ts) \<Rightarrow> i \<le> i' \<and> i' \<le> n \<and> (\<exists>used off. round_inv budget fs' used off)
      \<and> map frame_view fs' = map frame_view fs
          @ filter (\<lambda>f. audible f \<and> 1 + length (fr_bytes f) \<le> budget) (span hs (st + i) (i' - i)))"

lemma nth_in_span: "i < n \<Longrightarrow> st + n \<le> length hs \<Longrightarrow> hs ! (st + i) \<in> set (span hs st n)"
proof -
  assume "i < n" "st + n \<le> length hs"
  then have "span hs st n ! i = hs ! (st + i)" "i < length (span hs st n)"
    by (simp_all add: span_def)
  then show ?thesis by (metis nth_mem)
qed

lemma span_split:
  assumes "i \<le> i'" and "i' \<le> n"
  shows "span hs (st + i) (n - i) = span hs (st + i) (i' - i) @ span hs (st + i') (n - i')"
proof -
  have "n - i = (i' - i) + (n - i')" "st + i' = (i' - i) + (st + i)" using assms by simp_all
  then show ?thesis by (simp only: span_def take_add drop_drop)
qed

lemma collectedI:
  "i \<le> n \<Longrightarrow> round_inv budget fs used off \<Longrightarrow> collected hs st n budget fs i (Inr (fs, i, ts))"
  by (auto simp: collected_def)

lemma collected_step:
  assumes "collected hs st n budget fs' (Suc i) res" and "st + i < length hs"
    and "map frame_view fs' = map frame_view fs
          @ filter (\<lambda>f. audible f \<and> 1 + length (fr_bytes f) \<le> budget) [hs ! (st + i)]"
  shows "collected hs st n budget fs i res"
proof -
  have "span hs (st + i) (j - i) = hs ! (st + i) # span hs (st + Suc i) (j - Suc i)"
    if "Suc i \<le> j" for j
    using that assms(2) span_Suc [of "st + i" hs "j - Suc i"] by (simp add: Suc_diff_Suc)
  with assms show ?thesis
    by (auto simp: collected_def split: sum.splits)
qed

context frame_ring begin

text \<open>A copying read, defined from \<open>get\<close> as the ring's is.\<close>

definition copy :: "'r \<Rightarrow> u32 \<Rightarrow> (ring_frame \<times> u8 list) option" where
  "copy r i = map_option (\<lambda>f. let b = take (unat (rf_len f)) (rf_data f) in (f\<lparr>rf_data := b\<rparr>, b))
     (get i r)"

lemma copy_slot:
  assumes "rel r hs" and "i < length hs" and "length hs \<le> i + RING_FRAMES"
  obtains f b where "copy r (of_nat i) = Some (f, b)" and "rf_vad_state f = fr_vad (hs ! i)"
    and "unat (rf_len f) = length (fr_bytes (hs ! i))" and "rf_data f = fr_bytes (hs ! i)"
    and "b = fr_bytes (hs ! i)" and "rf_rel_ts_ms f = fr_ts (hs ! i)"
proof -
  obtain f where f: "get (of_nat i) r = Some f" "rf_vad_state f = fr_vad (hs ! i)"
    "rf_rel_ts_ms f = fr_ts (hs ! i)" "unat (rf_len f) = length (fr_bytes (hs ! i))"
    "take (unat (rf_len f)) (rf_data f) = fr_bytes (hs ! i)"
    by (rule get_slot [OF assms])
  let ?b = "fr_bytes (hs ! i)"
  show ?thesis
    by (rule that [of "f\<lparr>rf_data := ?b\<rparr>" ?b]) (simp_all add: copy_def Let_def f f(5) [unfolded f(4)])
qed

text \<open>One frame of the collecting loop.\<close>

lemma replay_collect_step:
  assumes "rel r hs" and "i < n" and "st + i < length hs" and "length hs \<le> st + i + RING_FRAMES"
    and "off + 255 \<le> SCRATCH_CAP"
  obtains d ts where "frame_view d = hs ! (st + i)" and "frame_ok d"
    and "df_len d = length (fr_bytes (hs ! (st + i)))"
    and "replay_collect (copy r) budget (of_nat st) n i used off fs first
    = (if \<not> audible (hs ! (st + i))
         then replay_collect (copy r) budget (of_nat st) n (Suc i) used off fs ts
       else if used + 1 + df_len d > budget then Inr (fs, if fs = [] then Suc i else i, ts)
       else if length fs \<ge> C6_FRAMES_PER_CHUNK then Inl Frames_Overflow
       else replay_collect (copy r) budget (of_nat st) n (Suc i) (used + 1 + df_len d)
              (off + df_len d) (fs @ [d]) ts)"
proof -
  let ?h = "hs ! (st + i)"
  obtain f b where f: "copy r (of_nat (st + i)) = Some (f, b)" "rf_vad_state f = fr_vad ?h"
    "unat (rf_len f) = length (fr_bytes ?h)" "rf_data f = fr_bytes ?h" "b = fr_bytes ?h"
    "rf_rel_ts_ms f = fr_ts ?h"
    by (rule copy_slot [OF assms(1,3,4)])
  have "length b < 256" using f(3,5) unat_u8_less [of "rf_len f"] by simp
  with assms(5) have ok: "\<not> off + length b > SCRATCH_CAP" by simp
  have "rf_len f = 0 \<longleftrightarrow> fr_bytes ?h = []"
    using f(3) by (metis length_0_conv unat_eq_zero)
  then have silent: "(rf_vad_state f = C6_GAP_MARKER \<or> rf_len f = 0) = (\<not> audible ?h)"
    using f(2) by (simp add: audible_def)
  show ?thesis
  proof (rule that [of "\<lparr>df_frame = \<lparr>cf_data = rf_data f, cf_len = rf_len f\<rparr>,
      df_vad = rf_vad_state f, df_ts = rf_rel_ts_ms f\<rparr>" "if fs = [] then rf_rel_ts_ms f else first"],
      goal_cases)
    case 4
    show ?case
      using assms(2) f(1) ok silent by (subst replay_collect.simps) (simp add: Let_def)
  qed (use f in \<open>simp_all add: c6_frame_ok_def\<close>)
qed

lemma replay_collect_window:
  assumes rel: "rel r hs" and st: "st + n = length hs" "n \<le> RING_FRAMES"
    and large: "eleventh budget (span hs st n)" and scratch: "budget + 255 \<le> SCRATCH_CAP"
    and "i \<le> n" and "round_inv budget fs used off"
  shows "collected hs st n budget fs i
    (replay_collect (copy r) budget (of_nat st) n i used off fs first)"
  using assms(6-)
proof (induction "n - i" arbitrary: i used off fs first)
  case 0
  then show ?case by (auto simp: replay_collect.simps intro: collectedI)
next
  case (Suc k)
  let ?h = "hs ! (st + i)"
  have i: "i < n" "st + i < length hs" using Suc.hyps(2) st by simp_all
  have off: "off + 255 \<le> SCRATCH_CAP"
    using Suc.prems(2) scratch by (simp add: round_inv_def)
  have win: "length hs \<le> st + i + RING_FRAMES" using st by simp
  obtain d ts where d: "frame_view d = ?h" "frame_ok d"
    "df_len d = length (fr_bytes ?h)" and
    unfold: "replay_collect (copy r) budget (of_nat st) n i used off fs first
    = (if \<not> audible ?h then replay_collect (copy r) budget (of_nat st) n (Suc i) used off fs ts
       else if used + 1 + df_len d > budget then Inr (fs, if fs = [] then Suc i else i, ts)
       else if length fs \<ge> C6_FRAMES_PER_CHUNK then Inl Frames_Overflow
       else replay_collect (copy r) budget (of_nat st) n (Suc i) (used + 1 + df_len d)
              (off + df_len d) (fs @ [d]) ts)"
    by (rule replay_collect_step [OF rel i win off])
  have IH: "collected hs st n budget fs (Suc i)
      (replay_collect (copy r) budget (of_nat st) n (Suc i) used off fs first)"
    if "round_inv budget fs used off" for used off fs first
    using Suc.hyps(1) [of "Suc i", OF _ _ that] Suc.hyps(2) i by simp
  consider "\<not> audible ?h" | "audible ?h" "used + 1 + df_len d > budget"
    | "audible ?h" "\<not> used + 1 + df_len d > budget" by blast
  then show ?case
  proof cases
    case 1
    with collected_step [OF IH [OF Suc.prems(2)] i(2), of fs] show ?thesis
      by (simp add: unfold)
  next
    case 2
    have "collected hs st n budget [] (Suc i) (Inr ([], Suc i, ts))"
      using i(1) Suc.prems(2) by (intro collectedI [where used = 0 and off = 0])
        (simp_all add: round_inv_def eleventh_def)
    note dropped = collected_step [OF this i(2), of "[]"]
    show ?thesis
    proof (cases "fs = []")
      case True
      then have "used = 0" using Suc.prems(2) by (simp add: round_inv_def)
      with True dropped 2 d(3) show ?thesis unfolding unfold by simp
    next
      case False
      with 2 show ?thesis by (simp add: unfold collectedI [OF Suc.prems])
    qed
  next
    case 3
    have "?h \<in> set (span hs st n)"
      using i(1) st(1) by (simp add: nth_in_span)
    with 3 Suc.prems(2) large d
    have new: "round_inv budget (fs @ [d]) (used + 1 + df_len d) (off + df_len d)"
      by (intro round_inv_snoc) (simp_all add: eleventh_def)
    with round_inv_length [OF new] collected_step [OF IH [OF new] i(2), of fs] 3 d show ?thesis
      by (simp add: unfold)
  qed
qed

end

section \<open>The whole replay\<close>

text \<open>One round's packet, and what it says to the server.\<close>

definition memory_packet :: "u32 \<Rightarrow> u32 \<Rightarrow> u8 \<Rightarrow> bool \<Rightarrow> drain_frame list \<Rightarrow> u8 list" where
  "memory_packet seq ts v final g = c6_write_packet PACKET_BUF_CAP C6_MEMORY_CHUNK seq ts v
     (if final then C6_FLAG_LAST_OF_REQ else 0) (map df_frame g)"

lemma memory_packet_eq:
  "length g \<le> C6_FRAMES_PER_CHUNK \<Longrightarrow> memory_packet sq ts v final g
     = c6_header C6_MEMORY_CHUNK sq ts v (if final then C6_FLAG_LAST_OF_REQ else 0) (length g)
         @ c6_body (map df_frame g)"
  by (simp only: memory_packet_def batch_packet length_map)

lemma parse_memory_packet:
  assumes "list_all frame_ok g" and "v < 4" and "length g \<le> C6_FRAMES_PER_CHUNK"
  shows "\<exists>q. parse (memory_packet sq ts v final g) = Inr q \<and> ap_ptype q = MEMORY_CHUNK
    \<and> is_last_of_request q = final \<and> ap_chunk_seq q = uint sq
    \<and> ap_frames q = map (\<lambda>d. c6_frame_bytes (df_frame d)) g"
proof -
  have "list_all c6_frame_ok (map df_frame g)" using assms(1) by (simp add: list_all_iff)
  with parse_group [of "map df_frame g" v MEMORY_CHUNK sq ts
      "if final then C6_FLAG_LAST_OF_REQ else 0"] assms(2,3)
  obtain vs where "parse (memory_packet sq ts v final g) = Inr (packet_of MEMORY_CHUNK sq ts vs
      (if final then C6_FLAG_LAST_OF_REQ else 0) (map df_frame g))"
    by (auto simp: memory_packet_eq [OF assms(3)] C6_MEMORY_CHUNK_def)
  then show ?thesis
    by (simp add: packet_of_def is_last_of_request_def C6_FLAG_LAST_OF_REQ_def)
qed

lemma length_memory_packet:
  assumes "list_all frame_ok g" and "length g \<le> C6_FRAMES_PER_CHUNK"
  shows "length (memory_packet sq ts v final g) = C6_HEADER_LEN + (\<Sum>f\<leftarrow>g. 1 + df_len f)"
proof -
  have "list_all c6_frame_ok (map df_frame g)" using assms(1) by (simp add: list_all_iff)
  then show ?thesis
    by (simp add: memory_packet_eq [OF assms(2)] length_c6_body o_def C6_HEADER_LEN_def)
qed

text \<open>A round whose frames fit the budget together ships them as one packet.\<close>

lemma replay_ship_one:
  assumes "round_inv budget fs used off" and "fs \<noteq> []"
  shows "replay_ship ntf budget final fs seq w
    = (seq + 1, snd (ntf (memory_packet seq (df_ts (hd fs)) (df_vad (hd fs)) final fs) w))"
proof (cases fs)
  case (Cons f rest)
  have "take_fitting budget 0 fs = (fs, [])"
    using assms(1) by (intro take_fitting_all) (simp add: round_inv_def)
  moreover have "memory_packet seq ts v final fs \<noteq> []" for ts v
    using memory_packet_eq [OF round_inv_length [OF assms(1)]] by (simp add: c6_header_def)
  ultimately show ?thesis
    by (simp add: Cons replay_ship.simps(2) memory_packet_def)
qed (use assms in simp)

text \<open>
  A replay's packets: all but the last unflagged, all of the right type and size, consecutive, and
  carrying the bytes \<open>bs\<close> in order.
\<close>

definition replay_air :: "u16 \<Rightarrow> u32 \<Rightarrow> u8 list list \<Rightarrow> u8 list list \<Rightarrow> bool" where
  "replay_air mtu seq bs ps = (\<exists>qs. map parse ps = map Inr qs \<and> ps \<noteq> []
     \<and> (\<forall>p \<in> set ps. length p \<le> max C6_HEADER_LEN (max_payload mtu))
     \<and> (\<forall>q \<in> set qs. ap_ptype q = MEMORY_CHUNK)
     \<and> map is_last_of_request qs = replicate (length ps - 1) False @ [True]
     \<and> map ap_chunk_seq qs = map (\<lambda>i. uint (seq + of_nat i)) [0..<length ps]
     \<and> concat (map ap_frames qs) = bs)"

lemma replay_air_Cons:
  assumes "replay_air mtu (seq + 1) bs ps" and "parse p = Inr q" and "ap_ptype q = MEMORY_CHUNK"
    and "\<not> is_last_of_request q" and "ap_chunk_seq q = uint seq"
    and "length p \<le> max C6_HEADER_LEN (max_payload mtu)"
  shows "replay_air mtu seq (ap_frames q @ bs) (p # ps)"
proof -
  from assms(1) obtain qs where qs: "map parse ps = map Inr qs" "ps \<noteq> []"
    "\<forall>p \<in> set ps. length p \<le> max C6_HEADER_LEN (max_payload mtu)"
    "\<forall>q \<in> set qs. ap_ptype q = MEMORY_CHUNK"
    "map is_last_of_request qs = replicate (length ps - 1) False @ [True]"
    "map ap_chunk_seq qs = map (\<lambda>i. uint (seq + 1 + of_nat i)) [0..<length ps]"
    "concat (map ap_frames qs) = bs"
    by (auto simp: replay_air_def)
  have "map (\<lambda>i. uint (seq + of_nat i)) [0..<length (p # ps)]
      = uint seq # map (\<lambda>i. uint (seq + 1 + of_nat i)) [0..<length ps]"
    by (simp add: upt_conv_Cons map_Suc_upt [symmetric] o_def add.assoc del: upt_Suc)
  moreover have "replicate (length ps) False = False # replicate (length ps - 1) False"
    using qs(2) by (cases ps) simp_all
  ultimately show ?thesis
    unfolding replay_air_def using qs assms(2-)
    by (intro exI [of _ "q # qs"]) (simp del: upt_Suc)
qed

lemma replay_air_last:
  assumes "parse p = Inr q" and "ap_ptype q = MEMORY_CHUNK" and "is_last_of_request q"
    and "ap_chunk_seq q = uint seq" and "length p \<le> max C6_HEADER_LEN (max_payload mtu)"
  shows "replay_air mtu seq (ap_frames q) [p]"
  unfolding replay_air_def using assms by (intro exI [of _ "[q]"]) simp

lemma round_send_one:
  assumes "round_inv (body_budget mtu) fs used off" and "\<forall>f \<in> set fs. df_vad f < 4"
  shows "\<exists>p q. round_send ntf (body_budget mtu) final fs first seq w = (seq + 1, snd (ntf p w))
    \<and> parse p = Inr q \<and> ap_ptype q = MEMORY_CHUNK \<and> is_last_of_request q = final
    \<and> ap_chunk_seq q = uint seq \<and> ap_frames q = map fr_bytes (map frame_view fs)
    \<and> length p \<le> max C6_HEADER_LEN (max_payload mtu)"
proof -
  have ok: "list_all frame_ok fs" and len: "length fs \<le> C6_FRAMES_PER_CHUNK"
    using assms(1) round_inv_length [OF assms(1)] by (simp_all add: round_inv_def)
  define ts v where "ts = (if fs = [] then first else df_ts (hd fs))"
    and "v = (if fs = [] then C6_GAP_MARKER else df_vad (hd fs))"
  let ?p = "memory_packet seq ts v final fs"
  have "?p \<noteq> []" using memory_packet_eq [OF len] by (simp add: c6_header_def)
  then have "round_send ntf (body_budget mtu) final fs first seq w = (seq + 1, snd (ntf ?p w))"
    using replay_ship_one [OF assms(1), of ntf final seq w]
    by (auto simp: round_send_def ts_def v_def memory_packet_def Let_def)
  moreover have "v < 4" using assms(2) by (simp add: v_def C6_GAP_MARKER_def)
  moreover have "length ?p \<le> max C6_HEADER_LEN (max_payload mtu)"
  proof -
    have "length ?p \<le> C6_HEADER_LEN + body_budget mtu"
      using assms(1) by (simp add: length_memory_packet [OF ok len] round_inv_def)
    then show ?thesis by (auto simp: body_budget_def split: if_splits)
  qed
  ultimately show ?thesis
    using parse_memory_packet [OF ok _ len, of v seq ts final] by fastforce
qed

context frame_ring begin

lemma replay_loop_window:
  assumes rel: "rel r hs" and st: "st + n = length hs" "n \<le> RING_FRAMES"
    and large: "eleventh (body_budget mtu) (span hs st n)"
    and scratch: "body_budget mtu + 255 \<le> SCRATCH_CAP"
    and vad: "\<forall>f \<in> set hs. fr_vad f < 4" and "i < n"
  shows "\<exists>ps. replay_loop (copy r) ntf (body_budget mtu) (of_nat st) n i seq w
      = Inr (seq + of_nat (length ps), foldl (\<lambda>w p. snd (ntf p w)) w ps)
    \<and> replay_air mtu seq (map fr_bytes (filter
        (\<lambda>f. audible f \<and> 1 + length (fr_bytes f) \<le> body_budget mtu) (span hs (st + i) (n - i)))) ps"
  using assms(7)
proof (induction "n - i" arbitrary: i seq w rule: less_induct)
  case less
  let ?b = "body_budget mtu" and ?P = "\<lambda>f. audible f \<and> 1 + length (fr_bytes f) \<le> body_budget mtu"
  have start: "round_inv ?b [] 0 0" by (simp add: round_inv_def eleventh_def)
  obtain fs i' ts used off where res: "replay_collect (copy r) ?b (of_nat st) n i 0 0 [] 0 = Inr (fs, i', ts)"
    and view: "map frame_view fs = filter ?P (span hs (st + i) (i' - i))"
    and inv: "round_inv ?b fs used off"
    using replay_collect_window [OF rel st large scratch _ start, of i 0] less.prems
    by (auto simp: collected_def split: sum.splits)
  have i': "i < i'" "i' \<le> n" using replay_collect_progress [OF res] less.prems by simp_all
  have "df_vad f < 4" if "f \<in> set fs" for f
  proof -
    have "frame_view f \<in> set hs"
      using that arg_cong [OF view, of set]
      by (auto simp: span_def dest!: in_set_takeD in_set_dropD)
    with vad show ?thesis by (metis frame_view_sel(1))
  qed
  with round_send_one [OF inv, of ntf "n \<le> i'" ts seq w] obtain p q where send:
    "round_send ntf ?b (n \<le> i') fs ts seq w = (seq + 1, snd (ntf p w))" and air:
    "parse p = Inr q" "ap_ptype q = MEMORY_CHUNK" "is_last_of_request q = (n \<le> i')"
    "ap_chunk_seq q = uint seq" "ap_frames q = map fr_bytes (map frame_view fs)"
    "length p \<le> max C6_HEADER_LEN (max_payload mtu)"
    by blast
  have loop: "replay_loop (copy r) ntf ?b (of_nat st) n i seq w
      = replay_loop (copy r) ntf ?b (of_nat st) n i' (seq + 1) (snd (ntf p w))"
    using less.prems send by (subst replay_loop.simps) (simp add: res)
  let ?rest = "map fr_bytes (filter ?P (span hs (st + i') (n - i')))"
  have bytes: "map fr_bytes (filter ?P (span hs (st + i) (n - i))) = ap_frames q @ ?rest"
    using i' span_split [of i i' n hs st] by (simp add: air(5) view del: map_map)
  show ?case
  proof (cases "i' < n")
    case True
    from less.hyps [OF _ this, of "seq + 1" "snd (ntf p w)"] i' obtain ps where
      "replay_loop (copy r) ntf ?b (of_nat st) n i' (seq + 1) (snd (ntf p w))
        = Inr (seq + 1 + of_nat (length ps), foldl (\<lambda>w p. snd (ntf p w)) (snd (ntf p w)) ps)"
      "replay_air mtu (seq + 1) ?rest ps" by (auto simp: diff_less_mono2)
    with True air show ?thesis
      unfolding loop bytes by (intro exI [of _ "p # ps"] conjI replay_air_Cons) (simp_all add: add_ac)
  next
    case False
    with i' have "i' = n" by simp
    then have "replay_air mtu seq (ap_frames q @ ?rest) [p]"
      using replay_air_last [OF air(1,2) _ air(4,6)] air(3) by (simp add: span_def)
    with \<open>i' = n\<close> show ?thesis
      unfolding loop bytes by (intro exI [of _ "[p]"]) (simp add: replay_loop.simps)
  qed
qed

end

section \<open>Properties of the replay\<close>

lemma ring_copy_eq: "(\<lambda>i. ring_buffer_get_copy i r) = ring.copy r"
  by (simp add: fun_eq_iff ring_buffer_get_copy_eq ring.copy_def)

lemma replay_frames_eq:
  assumes "n < 4294967296" and "unat seconds * 50 < 4294967296"
  shows "replay_frames seconds (of_nat n) = of_nat (min (min (unat seconds * 50) RING_FRAMES) n)"
proof -
  define want where "want = unat seconds * 50"
  have "seconds * (1000 div of_nat FRAME_MS) = (of_nat want :: u32)"
    by (simp add: FRAME_MS_def want_def)
  moreover have "want < 4294967296" using assms(2) by (simp add: want_def)
  ultimately show ?thesis
    using assms(1) u32_cap [of "min want RING_FRAMES" n] u32_cap [of want RING_FRAMES]
    by (simp only: replay_frames_def Let_def RING_FRAMES_val want_def [symmetric])
qed

text \<open>
  C4: A replay of a window in which no eleven audible frames fit one packet delivers exactly the
  last requested seconds (capped at what the ring holds): it ends without a fault, its packets are
  MEMORY_CHUNK packets of at most the ATT payload with consecutive sequence numbers, they carry the
  window's audible frames in order, and the last one, and no other, has the end-of-request flag.
\<close>

theorem replay_delivers:
  assumes rel: "ring_rel r hs" and secs: "unat seconds * 50 < 4294967296"
    and n: "n = min (min (unat seconds * 50) RING_FRAMES) (length hs)"
    and large: "eleventh (body_budget mtu) (span hs (length hs - n) n)"
    and scratch: "body_budget mtu + 255 \<le> SCRATCH_CAP" and vad: "\<forall>f \<in> set hs. fr_vad f < 4"
  shows "\<exists>ps. drain_replay (\<lambda>i. ring_buffer_get_copy i r) (ring_buffer_write_index r) mtu ntf
      seconds seq w = Inr (seq + of_nat (length ps), foldl (\<lambda>w p. snd (ntf p w)) w ps)
    \<and> replay_air mtu seq (map fr_bytes (filter
        (\<lambda>f. audible f \<and> 1 + length (fr_bytes f) \<le> body_budget mtu) (drop (length hs - n) hs))) ps"
proof -
  let ?bs = "map fr_bytes (filter
        (\<lambda>f. audible f \<and> 1 + length (fr_bytes f) \<le> body_budget mtu) (drop (length hs - n) hs))"
  have lt: "length hs < 4294967296" by (rule ring.rel_length [OF rel])
  have wi: "ring_buffer_write_index r = of_nat (length hs)" by (rule ring.write_index [OF rel])
  have frames: "replay_frames seconds (of_nat (length hs)) = of_nat n"
    using replay_frames_eq [OF lt secs] n by simp
  have len: "n \<le> length hs" "n \<le> RING_FRAMES" "n < 4294967296" using n lt by simp_all
  show ?thesis
  proof (cases "n = 0")
    case True
    let ?p = "memory_packet seq 0 C6_GAP_MARKER True []"
    obtain q where q: "parse ?p = Inr q" "ap_ptype q = MEMORY_CHUNK" "is_last_of_request q"
      "ap_chunk_seq q = uint seq" "ap_frames q = []"
      using parse_memory_packet [of "[]" C6_GAP_MARKER seq 0 True]
      by (auto simp: C6_GAP_MARKER_def)
    have "length ?p \<le> max C6_HEADER_LEN (max_payload mtu)"
      by (simp add: length_memory_packet)
    then have "replay_air mtu seq ?bs [?p]"
      using replay_air_last [OF q(1-4)] q(5) True by simp
    moreover have "?p \<noteq> []" by (simp add: memory_packet_eq c6_header_def)
    ultimately show ?thesis
      using True by (intro exI [of _ "[?p]"])
        (simp add: drain_replay_def wi frames memory_packet_def Let_def)
  next
    case False
    have "of_nat n \<noteq> (0 :: u32)" using False len(3) by (metis unat_0 unat_of_nat_u32)
    moreover have "of_nat (length hs) - of_nat n = (of_nat (length hs - n) :: u32)"
      using len(1) by simp
    ultimately have "drain_replay (\<lambda>i. ring_buffer_get_copy i r) (ring_buffer_write_index r) mtu ntf
        seconds seq w = replay_loop (ring.copy r) ntf (body_budget mtu) (of_nat (length hs - n)) n 0
          seq w"
      using len(3) by (simp add: drain_replay_def wi frames ring_copy_eq Let_def cnum)
    with ring.replay_loop_window [OF rel _ len(2) large scratch vad, of 0 ntf seq w] False len(1)
    show ?thesis by (simp add: span_def)
  qed
qed

theorem replay_delivers_witness:
  "\<exists>ps. drain_replay (\<lambda>i. ring_buffer_get_copy i
        (ring_after (replicate 70 \<lparr>fr_vad = 1, fr_ts = 5, fr_bytes = replicate 80 7\<rparr>)))
      (ring_buffer_write_index
        (ring_after (replicate 70 \<lparr>fr_vad = 1, fr_ts = 5, fr_bytes = replicate 80 7\<rparr>)))
      247 (\<lambda>p w. (0, w @ [p])) 1 100 []
    = Inr (100 + of_nat (length ps), foldl (\<lambda>w p. snd (0 :: int, w @ [p])) [] ps)
    \<and> replay_air 247 100 (replicate 50 (replicate 80 7)) ps"
proof -
  let ?hs = "replicate 70 \<lparr>fr_vad = 1, fr_ts = 5, fr_bytes = replicate 80 (7 :: u8)\<rparr>"
  have rel: "ring_rel (ring_after ?hs) ?hs"
    by (intro ring_rel_after) simp_all
  show ?thesis
    using replay_delivers [OF rel, of 1 50 247 "\<lambda>p w. (0, w @ [p])" 100 "[]"]
    by (simp add: span_def audible_def eleventh_def config_simps config_vals body_budget_def
        max_payload_def filter_replicate SCRATCH_CAP_def)
qed

text \<open>The array overflow: nothing stops the collecting loop at ten frames.\<close>

abbreviation cost :: "frame list \<Rightarrow> nat" where
  "cost fs \<equiv> (\<Sum>f\<leftarrow>fs. 1 + length (fr_bytes f))"

lemma span_snoc: "st + k < length hs \<Longrightarrow> span hs st (Suc k) = span hs st k @ [hs ! (st + k)]"
  by (simp add: span_def take_Suc_conv_app_nth)

lemma cost_span_mono: "k \<le> m \<Longrightarrow> cost (span hs st k) \<le> cost (span hs st m)"
  by (auto simp: span_def le_iff_add take_add)

context frame_ring begin

lemma replay_collect_overflow:
  assumes rel: "rel r hs" and st: "st + n = length hs" "n \<le> RING_FRAMES" "11 \<le> n"
    and audio: "\<forall>f \<in> set (span hs st 11). audible f" and fit: "cost (span hs st 11) \<le> budget"
    and scratch: "budget + 255 \<le> SCRATCH_CAP" and "k \<le> 10"
    and "length fs = k" and "used = cost (span hs st k)" and "off \<le> used"
  shows "replay_collect (copy r) budget (of_nat st) n k used off fs first = Inl Frames_Overflow"
  using assms(8-)
proof (induction "10 - k" arbitrary: k used off fs first)
  case (0 k)
  then have k: "k = 10" by simp
  have "cost (span hs st 10) \<le> cost (span hs st 11)" by (rule cost_span_mono) simp
  then have off: "off + 255 \<le> SCRATCH_CAP"
    using 0 scratch fit unfolding k by linarith
  have pos: "10 < n" "st + 10 < length hs" "length hs \<le> st + 10 + RING_FRAMES"
    using st by simp_all
  obtain d ts where d: "df_len d = length (fr_bytes (hs ! (st + 10)))" and unfold:
    "replay_collect (copy r) budget (of_nat st) n 10 used off fs first
    = (if \<not> audible (hs ! (st + 10))
         then replay_collect (copy r) budget (of_nat st) n (Suc 10) used off fs ts
       else if used + 1 + df_len d > budget then Inr (fs, if fs = [] then Suc 10 else 10, ts)
       else if length fs \<ge> C6_FRAMES_PER_CHUNK then Inl Frames_Overflow
       else replay_collect (copy r) budget (of_nat st) n (Suc 10) (used + 1 + df_len d)
              (off + df_len d) (fs @ [d]) ts)"
    by (rule replay_collect_step [OF rel pos off])
  have "audible (hs ! (st + 10))" using audio nth_in_span [of 10 11 st hs] st by simp
  moreover have "\<not> used + 1 + df_len d > budget"
  proof -
    have "span hs st 11 = span hs st 10 @ [hs ! (st + 10)]"
      using span_snoc [OF pos(2)] by simp
    with fit 0 d show ?thesis unfolding k by simp
  qed
  ultimately show ?case
    using 0 unfolding k unfold by (simp add: C6_FRAMES_PER_CHUNK_def)
next
  case (Suc j k)
  have k: "k < 10" using Suc.hyps(2) by simp
  have mono: "cost (span hs st (Suc k)) \<le> cost (span hs st 11)"
    using k by (intro cost_span_mono) simp
  have more: "cost (span hs st (Suc k)) = used + 1 + length (fr_bytes (hs ! (st + k)))"
    using span_snoc [of st k hs] st k Suc.prems by simp
  have off: "off + 255 \<le> SCRATCH_CAP"
    using Suc.prems scratch fit mono more by linarith
  have pos: "k < n" "st + k < length hs" "length hs \<le> st + k + RING_FRAMES"
    using st k by simp_all
  obtain d ts where d: "df_len d = length (fr_bytes (hs ! (st + k)))" and unfold:
    "replay_collect (copy r) budget (of_nat st) n k used off fs first
    = (if \<not> audible (hs ! (st + k))
         then replay_collect (copy r) budget (of_nat st) n (Suc k) used off fs ts
       else if used + 1 + df_len d > budget then Inr (fs, if fs = [] then Suc k else k, ts)
       else if length fs \<ge> C6_FRAMES_PER_CHUNK then Inl Frames_Overflow
       else replay_collect (copy r) budget (of_nat st) n (Suc k) (used + 1 + df_len d)
              (off + df_len d) (fs @ [d]) ts)"
    by (rule replay_collect_step [OF rel pos off])
  have "audible (hs ! (st + k))" using audio nth_in_span [of k 11 st hs] st k by simp
  moreover have "\<not> used + 1 + df_len d > budget" using fit mono more d by linarith
  moreover have "replay_collect (copy r) budget (of_nat st) n (Suc k) (used + 1 + df_len d)
      (off + df_len d) (fs @ [d]) ts = Inl Frames_Overflow"
    using Suc.hyps(2) Suc.prems k more d by (intro Suc.hyps(1)) simp_all
  ultimately show ?case
    using Suc.prems k unfolding unfold by (simp add: C6_FRAMES_PER_CHUNK_def)
qed

end

text \<open>
  C38: The drainer's replay writes past its frame array when eleven audible frames at the start of
  the window fit one packet: the collecting loop is bounded by the byte budget only, not by the ten
  entries of \<open>frames\<close>.
\<close>

theorem replay_overflows:
  assumes rel: "ring_rel r hs" and secs: "unat seconds * 50 < 4294967296"
    and n: "n = min (min (unat seconds * 50) RING_FRAMES) (length hs)" "11 \<le> n"
    and audio: "\<forall>f \<in> set (span hs (length hs - n) 11). audible f"
    and fit: "cost (span hs (length hs - n) 11) \<le> body_budget mtu"
    and scratch: "body_budget mtu + 255 \<le> SCRATCH_CAP"
  shows "drain_replay (\<lambda>i. ring_buffer_get_copy i r) (ring_buffer_write_index r) mtu ntf
      seconds seq w = Inl Frames_Overflow"
proof -
  have lt: "length hs < 4294967296" by (rule ring.rel_length [OF rel])
  have wi: "ring_buffer_write_index r = of_nat (length hs)" by (rule ring.write_index [OF rel])
  have frames: "replay_frames seconds (of_nat (length hs)) = of_nat n"
    using replay_frames_eq [OF lt secs] n by simp
  have len: "n \<le> length hs" "n \<le> RING_FRAMES" "n < 4294967296" using n lt by simp_all
  have "of_nat n \<noteq> (0 :: u32)" using n(2) len(3) by (metis not_numeral_le_zero unat_0 unat_of_nat_u32)
  moreover have "of_nat (length hs) - of_nat n = (of_nat (length hs - n) :: u32)"
    using len(1) by simp
  moreover have "replay_collect (ring.copy r) (body_budget mtu) (of_nat (length hs - n)) n 0 0 0 [] 0
      = Inl Frames_Overflow"
    using len n(2) by (intro ring.replay_collect_overflow [OF rel _ _ _ audio fit scratch]) simp_all
  ultimately show ?thesis
    using len(3) n(2)
    by (simp add: drain_replay_def wi frames ring_copy_eq Let_def cnum replay_loop.simps [of _ _ _ _ n])
qed

theorem replay_overflows_witness:
  "drain_replay (\<lambda>i. ring_buffer_get_copy i
        (ring_after (replicate 70 \<lparr>fr_vad = 1, fr_ts = 5, fr_bytes = replicate 20 7\<rparr>)))
      (ring_buffer_write_index
        (ring_after (replicate 70 \<lparr>fr_vad = 1, fr_ts = 5, fr_bytes = replicate 20 7\<rparr>)))
      247 (\<lambda>p w. (0, w @ [p])) 1 100 [] = Inl Frames_Overflow"
proof -
  let ?hs = "replicate 70 \<lparr>fr_vad = 1, fr_ts = 5, fr_bytes = replicate 20 (7 :: u8)\<rparr>"
  have rel: "ring_rel (ring_after ?hs) ?hs"
    by (intro ring_rel_after) simp_all
  show ?thesis
    using replay_overflows [OF rel, of 1 50 247 "\<lambda>p w. (0, w @ [p])" 100 "[]"]
    by (simp add: span_def audible_def config_simps config_vals body_budget_def
        max_payload_def SCRATCH_CAP_def sum_list_replicate)
qed

end
