(* ===== verification/Button.thy ===== *)
theory Button
  imports Config
begin

text \<open>
  The gesture classifier of the button (\<open>main/button.c\<close>): a state machine fed with the debounced
  level and a millisecond clock at every poll. Times are \<open>u32\<close> and differences are taken modulo
  2^32, so the lemmas hold across the clock's wrap.
\<close>

section \<open>State and step\<close>

datatype button_gesture = BTN_NONE | BTN_SHORT | BTN_DOUBLE | BTN_LONG | BTN_VERY_LONG

datatype button_state = BTN_STATE_IDLE | BTN_STATE_PRESSED | BTN_STATE_WAIT_DOUBLE

record button_classifier =
  state :: button_state
  anchor_ms :: u32
  second_tap :: bool

definition button_classifier_init :: "u32 \<Rightarrow> button_classifier" where
  "button_classifier_init now_ms =
     \<lparr>state = BTN_STATE_IDLE, anchor_ms = 0, second_tap = False\<rparr>"

definition button_classifier_event ::
  "button_classifier \<Rightarrow> bool \<Rightarrow> u32 \<Rightarrow> button_gesture \<times> button_classifier" where
  "button_classifier_event b pressed now_ms =
     (let dt = now_ms - anchor_ms b;
          idle = b\<lparr>state := BTN_STATE_IDLE, second_tap := False\<rparr>
      in case state b of
        BTN_STATE_IDLE \<Rightarrow>
          if pressed
          then (BTN_NONE, b\<lparr>anchor_ms := now_ms, second_tap := False, state := BTN_STATE_PRESSED\<rparr>)
          else (BTN_NONE, b)
      | BTN_STATE_PRESSED \<Rightarrow>
          if pressed then
            (if dt \<ge> of_nat BUTTON_VERY_LONG_MS then (BTN_VERY_LONG, idle) else (BTN_NONE, b))
          else if dt \<ge> of_nat BUTTON_VERY_LONG_MS then (BTN_VERY_LONG, idle)
          else if dt \<ge> of_nat BUTTON_LONG_MS then (BTN_LONG, idle)
          else if second_tap b then (BTN_DOUBLE, idle)
          else (BTN_NONE, b\<lparr>anchor_ms := now_ms, state := BTN_STATE_WAIT_DOUBLE\<rparr>)
      | BTN_STATE_WAIT_DOUBLE \<Rightarrow>
          if pressed then
            (if dt \<le> of_nat BUTTON_DOUBLE_GAP_MS
             then (BTN_NONE, b\<lparr>anchor_ms := now_ms, second_tap := True, state := BTN_STATE_PRESSED\<rparr>)
             else (BTN_SHORT, b\<lparr>anchor_ms := now_ms, second_tap := False,
                                state := BTN_STATE_PRESSED\<rparr>))
          else if dt > of_nat BUTTON_DOUBLE_GAP_MS then (BTN_SHORT, idle)
          else (BTN_NONE, b))"

text \<open>A run of polls: the gestures reported (without the \<open>BTN_NONE\<close>s) and the final state.\<close>

fun polls :: "button_classifier \<Rightarrow> (bool \<times> u32) list \<Rightarrow> button_gesture list \<times> button_classifier" where
  "polls b [] = ([], b)"
| "polls b ((pressed, now) # rest) =
     (let (g, b') = button_classifier_event b pressed now;
          (gs, b'') = polls b' rest
      in (if g = BTN_NONE then gs else g # gs, b''))"

lemma polls_append:
  "polls b (xs @ ys) = (let (gs, b') = polls b xs; (hs, b'') = polls b' ys in (gs @ hs, b''))"
  by (induction b xs rule: polls.induct) (auto split: prod.splits)

section \<open>Reachable states\<close>

inductive btn_reach :: "button_classifier \<Rightarrow> bool" where
  init: "btn_reach (button_classifier_init now)"
| event: "btn_reach b \<Longrightarrow> btn_reach (snd (button_classifier_event b pressed now))"

inductive_cases btn_reachE: "btn_reach b"

lemmas event_defs = button_classifier_event_def Let_def

lemma second_tap_pressed:
  "btn_reach b \<Longrightarrow> second_tap b \<Longrightarrow> state b = BTN_STATE_PRESSED"
  by (induction rule: btn_reach.induct)
    (auto simp: button_classifier_init_def event_defs split: button_state.splits if_splits)

lemma reach_polls: "btn_reach b \<Longrightarrow> btn_reach (snd (polls b es))"
proof (induction es arbitrary: b)
  case (Cons e es)
  obtain pressed now where e: "e = (pressed, now)" by fastforce
  have "btn_reach (snd (polls (snd (button_classifier_event b pressed now)) es))"
    using Cons by (intro Cons.IH btn_reach.event)
  then show ?case by (simp add: e split_beta Let_def)
qed simp

section \<open>Holds, releases and gaps\<close>

text \<open>While the button is held short of a very long press, polls change nothing.\<close>

lemma held_polls:
  assumes "state b = BTN_STATE_PRESSED"
    and "\<forall>t \<in> set ts. t - anchor_ms b < of_nat BUTTON_VERY_LONG_MS"
  shows "polls b (map (Pair True) ts) = ([], b)"
  using assms by (induction ts) (auto simp: event_defs)

lemma gap_polls:
  assumes "state b = BTN_STATE_WAIT_DOUBLE"
    and "\<forall>t \<in> set ts. t - anchor_ms b \<le> of_nat BUTTON_DOUBLE_GAP_MS"
  shows "polls b (map (Pair False) ts) = ([], b)"
  using assms by (induction ts) (auto simp: event_defs)

lemma idle_polls:
  assumes "state b = BTN_STATE_IDLE"
  shows "polls b (map (Pair False) ts) = ([], b)"
  using assms by (induction ts) (auto simp: event_defs)

definition pressed_at :: "u32 \<Rightarrow> bool \<Rightarrow> button_classifier" where
  "pressed_at t second = \<lparr>state = BTN_STATE_PRESSED, anchor_ms = t, second_tap = second\<rparr>"

definition released_at :: "u32 \<Rightarrow> button_classifier" where
  "released_at t = \<lparr>state = BTN_STATE_WAIT_DOUBLE, anchor_ms = t, second_tap = False\<rparr>"

text \<open>What a held button does at its release, by the duration of the hold.\<close>

lemma release_event:
  "button_classifier_event (pressed_at t0 second) False t1 =
     (if t1 - t0 \<ge> of_nat BUTTON_VERY_LONG_MS
        then (BTN_VERY_LONG, \<lparr>state = BTN_STATE_IDLE, anchor_ms = t0, second_tap = False\<rparr>)
      else if t1 - t0 \<ge> of_nat BUTTON_LONG_MS
        then (BTN_LONG, \<lparr>state = BTN_STATE_IDLE, anchor_ms = t0, second_tap = False\<rparr>)
      else if second
        then (BTN_DOUBLE, \<lparr>state = BTN_STATE_IDLE, anchor_ms = t0, second_tap = False\<rparr>)
      else (BTN_NONE, released_at t1))"
  by (simp add: event_defs pressed_at_def released_at_def)

section \<open>Properties\<close>

text \<open>
  One press from idle is classified by its duration alone, however often it is polled and
  wherever the clock wraps: held below the very-long limit and released after \<open>d\<close> ms it is LONG
  when \<open>d\<close> is at least the long limit, and otherwise nothing is reported yet and the classifier
  waits for a second tap from the release time on.
\<close>

theorem button_hold_classified:
  assumes "state b = BTN_STATE_IDLE"
    and "\<forall>t \<in> set ts. t - t0 < of_nat BUTTON_VERY_LONG_MS"
    and "t1 - t0 < of_nat BUTTON_VERY_LONG_MS"
  shows "polls b ((True, t0) # map (Pair True) ts @ [(False, t1)])
    = (if t1 - t0 \<ge> of_nat BUTTON_LONG_MS
       then ([BTN_LONG], \<lparr>state = BTN_STATE_IDLE, anchor_ms = t0, second_tap = False\<rparr>)
       else ([], released_at t1))"
proof -
  have press: "button_classifier_event b True t0 = (BTN_NONE, pressed_at t0 False)"
    using assms(1) by (simp add: event_defs pressed_at_def)
  have held: "polls (pressed_at t0 False) (map (Pair True) ts) = ([], pressed_at t0 False)"
    using assms(2) by (intro held_polls) (simp_all add: pressed_at_def)
  show ?thesis
    using assms(3) by (simp add: press polls_append held release_event)
qed

theorem button_hold_classified_witness:
  "polls (button_classifier_init 0)
      ((True, 4294967000) # map (Pair True) [4294967200, 100, 500] @ [(False, 904)])
    = ([BTN_LONG], \<lparr>state = BTN_STATE_IDLE, anchor_ms = 4294967000, second_tap = False\<rparr>)"
  by (subst button_hold_classified)
    (simp_all add: button_classifier_init_def config_simps)

text \<open>
  After a short tap, a second press within the gap and released before the long limit is
  exactly one DOUBLE and never a SHORT; when the gap passes without a press, it is exactly one
  SHORT. In both cases the classifier is idle again.
\<close>

theorem button_second_tap:
  assumes "\<forall>t \<in> set gap. t - r \<le> of_nat BUTTON_DOUBLE_GAP_MS"
    and "t1 - r \<le> of_nat BUTTON_DOUBLE_GAP_MS" and "\<forall>t \<in> set ts. t - t1 < of_nat BUTTON_VERY_LONG_MS"
    and "t2 - t1 < of_nat BUTTON_LONG_MS" and "t3 - r > of_nat BUTTON_DOUBLE_GAP_MS"
  shows "polls (released_at r)
        (map (Pair False) gap @ (True, t1) # map (Pair True) ts @ [(False, t2)])
      = ([BTN_DOUBLE], \<lparr>state = BTN_STATE_IDLE, anchor_ms = t1, second_tap = False\<rparr>)
    \<and> polls (released_at r) (map (Pair False) gap @ [(False, t3)])
      = ([BTN_SHORT], \<lparr>state = BTN_STATE_IDLE, anchor_ms = r, second_tap = False\<rparr>)"
proof -
  have gap: "polls (released_at r) (map (Pair False) gap) = ([], released_at r)"
    using assms(1) by (intro gap_polls) (simp_all add: released_at_def)
  have press: "button_classifier_event (released_at r) True t1 = (BTN_NONE, pressed_at t1 True)"
    using assms(2) by (simp add: event_defs pressed_at_def released_at_def)
  have held: "polls (pressed_at t1 True) (map (Pair True) ts) = ([], pressed_at t1 True)"
    using assms(3) by (intro held_polls) (simp_all add: pressed_at_def)
  have "\<not> t2 - t1 \<ge> of_nat BUTTON_VERY_LONG_MS"
    using assms(4) by (simp add: config_simps word_le_nat_alt word_less_nat_alt)
  with assms(4) have "polls (released_at r)
      (map (Pair False) gap @ (True, t1) # map (Pair True) ts @ [(False, t2)])
    = ([BTN_DOUBLE], \<lparr>state = BTN_STATE_IDLE, anchor_ms = t1, second_tap = False\<rparr>)"
    by (simp add: polls_append gap press held release_event)
  moreover have "button_classifier_event (released_at r) False t3
      = (BTN_SHORT, \<lparr>state = BTN_STATE_IDLE, anchor_ms = r, second_tap = False\<rparr>)"
    using assms(5) by (simp add: event_defs released_at_def)
  ultimately show ?thesis by (simp add: polls_append gap)
qed

theorem button_second_tap_witness:
  "polls (released_at 200)
        (map (Pair False) [220, 400] @ (True, 500) # map (Pair True) [520, 600] @ [(False, 700)])
      = ([BTN_DOUBLE], \<lparr>state = BTN_STATE_IDLE, anchor_ms = 500, second_tap = False\<rparr>)
    \<and> polls (released_at 200) (map (Pair False) [220, 400] @ [(False, 620)])
      = ([BTN_SHORT], \<lparr>state = BTN_STATE_IDLE, anchor_ms = 200, second_tap = False\<rparr>)"
  using button_second_tap [of "[220, 400]" 200 500 "[520, 600]" 700 620]
  by (simp add: config_simps)

end
