(* ===== verification/Dsp.thy ===== *)
theory Dsp
  imports Config
begin

text \<open>
  The capture chain's sample filters: the DC blocker (\<open>main/dc_blocker.c\<close>), the wind-cut high-pass
  (\<open>main/hpf.c\<close>), the pre-encode gain (\<open>main/gain.c\<close>) and the two-microphone canceller
  (\<open>main/mic_dsp.c\<close>). Samples are 16-bit words read as signed; the C code's 32- and 64-bit
  intermediate values are integers brought back to their width by \<open>i32\<close> and \<open>i64\<close>. What the three
  stateful filters share, processing sample by sample with the state carried across frames, is the
  locale \<open>sample_filter\<close>.
\<close>

section \<open>Gain\<close>

definition gain_sample :: "nat \<Rightarrow> i16 \<Rightarrow> i16" where
  "gain_sample gain_q8 x = sat_int16 (asr (i32 (sint x * i32 (int gain_q8))) 8)"

definition gain_apply :: "nat \<Rightarrow> i16 list \<Rightarrow> i16 list" where
  "gain_apply gain_q8 pcm = map (gain_sample gain_q8) pcm"

section \<open>DC blocker\<close>

definition DC_BLOCKER_R_Q15 :: int where
  "DC_BLOCKER_R_Q15 = 32604"

record dc_blocker =
  x_prev :: i16
  y_prev :: i16

definition dc_blocker_init :: dc_blocker where
  "dc_blocker_init = \<lparr>x_prev = 0, y_prev = 0\<rparr>"

definition dc_blocker_step :: "dc_blocker \<Rightarrow> i16 \<Rightarrow> i16 \<times> dc_blocker" where
  "dc_blocker_step b x =
     (let y = i32 (sint x - sint (x_prev b) + i32 (asr (i32 (DC_BLOCKER_R_Q15 * sint (y_prev b))) 15));
          y16 = sat_int16 y
      in (y16, \<lparr>x_prev = x, y_prev = y16\<rparr>))"

fun dc_blocker_process :: "dc_blocker \<Rightarrow> i16 list \<Rightarrow> i16 list \<times> dc_blocker" where
  "dc_blocker_process b [] = ([], b)"
| "dc_blocker_process b (x # pcm) =
     (let (y, b') = dc_blocker_step b x; (ys, b'') = dc_blocker_process b' pcm in (y # ys, b''))"

section \<open>High-pass\<close>

record hpf =
  x1 :: int
  x2 :: int
  y1_q14 :: int
  y2_q14 :: int

definition hpf_init :: hpf where
  "hpf_init = \<lparr>x1 = 0, x2 = 0, y1_q14 = 0, y2_q14 = 0\<rparr>"

definition hpf_acc :: "hpf \<Rightarrow> int \<Rightarrow> int" where
  "hpf_acc f x0 =
     i64 (i64 (i64 ((HPF_B0_Q14 * x0 + HPF_B1_Q14 * x1 f + HPF_B2_Q14 * x2 f) * 2 ^ 14)
            - HPF_A1_Q14 * y1_q14 f) - HPF_A2_Q14 * y2_q14 f)"

definition hpf_step :: "hpf \<Rightarrow> i16 \<Rightarrow> i16 \<times> hpf" where
  "hpf_step f x =
     (let x0 = sint x; y0 = i32 (asr (hpf_acc f x0) 14)
      in (sat_int16 (asr (i32 (y0 + 2 ^ 13)) 14),
          \<lparr>x1 = x0, x2 = x1 f, y1_q14 = y0, y2_q14 = y1_q14 f\<rparr>))"

fun hpf_process :: "hpf \<Rightarrow> i16 list \<Rightarrow> i16 list \<times> hpf" where
  "hpf_process f [] = ([], f)"
| "hpf_process f (x # pcm) =
     (let (y, f') = hpf_step f x; (ys, f'') = hpf_process f' pcm in (y # ys, f''))"

section \<open>Two-microphone canceller\<close>

record mic_dsp =
  w :: "int list"
  delay :: "i16 list"
  didx :: nat

definition mic_dsp_init :: mic_dsp where
  "mic_dsp_init = \<lparr>w = replicate DSP_NLMS_TAPS 0, delay = replicate DSP_NLMS_TAPS 0, didx = 0\<rparr>"

text \<open>The lag-\<open>k\<close> sample \<open>delay[(didx - k + L) % L]\<close>.\<close>

definition lag :: "i16 list \<Rightarrow> nat \<Rightarrow> nat \<Rightarrow> int" where
  "lag dl i k = sint (dl ! ((i + DSP_NLMS_TAPS - k) mod DSP_NLMS_TAPS))"

text \<open>One tap's update: \<open>w += mu * e * x / denom\<close> (C division), then the leak.\<close>

definition nlms_tap :: "int \<Rightarrow> int \<Rightarrow> int \<Rightarrow> int \<Rightarrow> int" where
  "nlms_tap e x denom wk =
     (let upd = i64 (DSP_NLMS_STEP_Q15 * e * x) sdiv denom;
          w1 = i32 (wk + upd)
      in i32 (w1 - asr (i32 (w1 * DSP_NLMS_LEAK_Q15)) 15))"

text \<open>One sample: \<open>primary\<close> and \<open>reference\<close> in, the cleaned sample out.\<close>

definition mic_dsp_step :: "bool \<Rightarrow> mic_dsp \<Rightarrow> i16 \<times> i16 \<Rightarrow> i16 \<times> mic_dsp" where
  "mic_dsp_step adapt_now d = (\<lambda>(p, r).
     let dl = (delay d)[didx d := r];
         lags = map (lag dl (didx d)) [0..<DSP_NLMS_TAPS];
         acc = i64 (\<Sum>(wk, dk)\<leftarrow>zip (w d) lags. wk * dk);
         pow = i64 (\<Sum>dk\<leftarrow>lags. dk * dk);
         y = i32 (sint p - i32 (asr acc 15));
         denom = pow + DSP_NLMS_EPS
     in (sat_int16 y,
         \<lparr>w = (if adapt_now \<and> denom > 0
               then map (\<lambda>(wk, dk). nlms_tap y dk denom wk) (zip (w d) lags) else w d),
          delay = dl, didx = Suc (didx d) mod DSP_NLMS_TAPS\<rparr>))"

fun mic_dsp_process ::
  "bool \<Rightarrow> mic_dsp \<Rightarrow> (i16 \<times> i16) list \<Rightarrow> i16 list \<times> mic_dsp" where
  "mic_dsp_process adapt_now d [] = ([], d)"
| "mic_dsp_process adapt_now d (x # xs) =
     (let (y, d') = mic_dsp_step adapt_now d x; (ys, d'') = mic_dsp_process adapt_now d' xs
      in (y # ys, d''))"

section \<open>What the filters share\<close>

text \<open>
  A filter that handles a frame sample by sample and keeps its state between frames. The audio task
  cuts the stream into frames of 320 samples; the client's fact is that the cut is invisible.
\<close>

locale sample_filter =
  fixes step :: "'s \<Rightarrow> 'x \<Rightarrow> 'y \<times> 's" and process :: "'s \<Rightarrow> 'x list \<Rightarrow> 'y list \<times> 's"
  assumes process_Nil: "process s [] = ([], s)"
    and process_Cons: "process s (x # xs) =
      (let (y, s') = step s x; (ys, s'') = process s' xs in (y # ys, s''))"
begin

lemma process_append:
  "process s (xs @ ys) = (let (us, s') = process s xs; (vs, s'') = process s' ys in (us @ vs, s''))"
  by (induction xs arbitrary: s) (simp_all add: process_Nil process_Cons split_beta Let_def)

lemma length_process: "length (fst (process s xs)) = length xs"
  by (induction xs arbitrary: s) (simp_all add: process_Nil process_Cons split_beta Let_def)

text \<open>The frames of a stream processed one after the other, from the output \<open>acc\<close> so far.\<close>

lemma frames_concat:
  "foldl (\<lambda>(ys, s) f. let (y, s') = process s f in (ys @ y, s')) (acc, s) fs
     = (acc @ fst (process s (concat fs)), snd (process s (concat fs)))"
  by (induction fs arbitrary: acc s) (simp_all add: process_Nil process_append split_beta Let_def)

lemma process_invariant:
  assumes "\<And>s x. P s \<Longrightarrow> P (snd (step s x))" and "P s"
  shows "P (snd (process s xs))"
  using assms by (induction xs arbitrary: s) (simp_all add: process_Nil process_Cons split_beta Let_def)

end

interpretation dc: sample_filter dc_blocker_step dc_blocker_process
  by unfold_locales simp_all

interpretation hp: sample_filter hpf_step hpf_process
  by unfold_locales simp_all

interpretation nlms: sample_filter "mic_dsp_step adapt" "mic_dsp_process adapt" for adapt
  by unfold_locales simp_all

text \<open>A stream processed frame by frame.\<close>

definition in_frames ::
  "('s \<Rightarrow> 'x list \<Rightarrow> 'y list \<times> 's) \<Rightarrow> 's \<Rightarrow> 'x list list \<Rightarrow> 'y list \<times> 's" where
  "in_frames process s fs
     = foldl (\<lambda>(ys, s) f. let (y, s') = process s f in (ys @ y, s')) ([], s) fs"

section \<open>Lemmas on the steps\<close>

lemma gain_sample_unity:
  "sint (gain_sample INPUT_GAIN_Q8 x) = max (- 32768) (min 32767 (4 * sint x))"
  using sint16_range [of x] by (simp add: gain_sample_def sint_sat_int16 i32_id asr_def INPUT_GAIN_Q8_def)

lemma dc_blocker_constant:
  assumes "x_prev b = x"
  shows "sint (fst (dc_blocker_step b x)) = 32604 * sint (y_prev b) div 32768"
    and "snd (dc_blocker_step b x) = \<lparr>x_prev = x, y_prev = fst (dc_blocker_step b x)\<rparr>"
proof -
  have r: "- 32768 \<le> sint (y_prev b)" "sint (y_prev b) \<le> 32767"
    by (rule sint16_range)+
  then have q: "- 32768 \<le> 32604 * sint (y_prev b) div 32768"
    "32604 * sint (y_prev b) div 32768 \<le> 32767" by simp_all
  show "sint (fst (dc_blocker_step b x)) = 32604 * sint (y_prev b) div 32768"
    using assms r q
    by (simp add: dc_blocker_step_def Let_def DC_BLOCKER_R_Q15_def asr_def i32_id sat_int16_id)
  show "snd (dc_blocker_step b x) = \<lparr>x_prev = x, y_prev = fst (dc_blocker_step b x)\<rparr>"
    by (simp add: dc_blocker_step_def Let_def)
qed

text \<open>The pole's rounding: towards minus infinity, so positive values shrink and small negative ones stay.\<close>

lemma div_32768: "z div 32768 * 32768 \<le> z" "z < z div 32768 * 32768 + 32768" for z :: int
  using div_mult_mod_eq [of z 32768] pos_mod_bound [of 32768 z] pos_mod_sign [of 32768 z]
  by linarith+

lemma pole_positive:
  fixes y :: int
  assumes "0 < y"
  shows "0 \<le> 32604 * y div 32768" and "32604 * y div 32768 < y"
  using assms div_32768 [of "32604 * y"] by linarith+

lemma pole_negative:
  fixes y :: int
  assumes "- 199 \<le> y" and "y \<le> 0"
  shows "32604 * y div 32768 = y"
  using assms div_32768 [of "32604 * y"] by linarith

lemma dc_positive_decay:
  assumes "x_prev b = x" and "0 \<le> sint (y_prev b)" and "sint (y_prev b) \<le> int n"
  shows "y_prev (snd (dc_blocker_process b (replicate n x))) = 0"
  using assms
proof (induction n arbitrary: b)
  case 0
  then show ?case by (simp add: signed_eq_0_iff)
next
  case (Suc n)
  let ?b = "snd (dc_blocker_step b x)"
  have y: "sint (y_prev ?b) = 32604 * sint (y_prev b) div 32768"
    using dc_blocker_constant [OF Suc.prems(1)] by simp
  have "0 \<le> sint (y_prev ?b)" "sint (y_prev ?b) \<le> int n"
    using Suc.prems(2,3) pole_positive [of "sint (y_prev b)"] unfolding y by (cases "sint (y_prev b) = 0"; simp)+
  moreover have "x_prev ?b = x" using dc_blocker_constant(2) [OF Suc.prems(1)] by simp
  ultimately show ?case
    using Suc.IH [of ?b] by (simp add: split_beta Let_def)
qed

lemma dc_negative_stuck:
  assumes "x_prev b = x" and "- 199 \<le> sint (y_prev b)" and "sint (y_prev b) \<le> 0"
  shows "dc_blocker_process b (replicate n x) = (replicate n (y_prev b), b)"
proof (induction n)
  case (Suc n)
  have "sint (fst (dc_blocker_step b x)) = sint (y_prev b)"
    using dc_blocker_constant(1) [OF assms(1)] pole_negative [OF assms(2,3)] by simp
  then have out: "fst (dc_blocker_step b x) = y_prev b" by (simp add: signed_word_eqI)
  then have "snd (dc_blocker_step b x) = b"
    using dc_blocker_constant(2) [OF assms(1)] assms(1) by simp
  with out Suc.IH show ?case by (simp add: split_beta Let_def)
qed simp

text \<open>The canceller's arrays keep their size and its index stays in range.\<close>

definition mic_dsp_ok :: "mic_dsp \<Rightarrow> bool" where
  "mic_dsp_ok d = (length (w d) = DSP_NLMS_TAPS \<and> length (delay d) = DSP_NLMS_TAPS
     \<and> didx d < DSP_NLMS_TAPS)"

lemma mic_dsp_ok_init: "mic_dsp_ok mic_dsp_init"
  by (simp add: mic_dsp_ok_def mic_dsp_init_def DSP_NLMS_TAPS_def)

lemma mic_dsp_ok_step: "mic_dsp_ok d \<Longrightarrow> mic_dsp_ok (snd (mic_dsp_step adapt_now d x))"
  by (auto simp: mic_dsp_ok_def mic_dsp_step_def Let_def DSP_NLMS_TAPS_def split: prod.splits)

text \<open>With all coefficients zero and adaptation off, a sample passes through.\<close>

lemma zero_taps: "(\<Sum>(wk, dk)\<leftarrow>zip (replicate n 0) xs. wk * dk) = (0 :: int)"
  by (induction n arbitrary: xs) (auto simp: zip_Cons1 split: list.splits)

lemma mic_dsp_step_passthrough:
  assumes "w d = replicate DSP_NLMS_TAPS 0"
  shows "fst (mic_dsp_step adapt_now d (p, r)) = p"
    and "w (snd (mic_dsp_step False d (p, r))) = w d"
proof -
  have "sat_int16 (i32 (sint p)) = p" by simp
  then show "fst (mic_dsp_step adapt_now d (p, r)) = p"
    by (simp add: mic_dsp_step_def Let_def assms zero_taps i64_def i32_def asr_def)
  show "w (snd (mic_dsp_step False d (p, r))) = w d"
    by (simp add: mic_dsp_step_def Let_def)
qed

section \<open>Properties\<close>

text \<open>
  Cutting the stream into frames is invisible to all three stateful filters: processing the
  frames one after the other with the carried state gives the output and the final state of
  processing the whole stream at once.
\<close>

theorem filters_continuous_across_frames:
  "in_frames dc_blocker_process b fs
      = (fst (dc_blocker_process b (concat fs)), snd (dc_blocker_process b (concat fs)))
   \<and> in_frames hpf_process f fs
      = (fst (hpf_process f (concat fs)), snd (hpf_process f (concat fs)))
   \<and> in_frames (mic_dsp_process adapt_now) d gs
      = (fst (mic_dsp_process adapt_now d (concat gs)), snd (mic_dsp_process adapt_now d (concat gs)))"
  by (simp only: in_frames_def dc.frames_concat hp.frames_concat nlms.frames_concat append_Nil simp_thms)

text \<open>
  What the DC blocker does to a constant offset \<open>c\<close> from its initial state: an offset that is
  not negative is gone after at most \<open>c\<close> samples, but an offset from -199 to -1 is never removed:
  every output sample is the offset itself.
\<close>

theorem dc_blocker_offset:
  shows "0 \<le> sint c \<Longrightarrow> sint c \<le> int n \<Longrightarrow>
      y_prev (snd (dc_blocker_process dc_blocker_init (replicate (Suc n) c))) = 0"
    and "- 199 \<le> sint c \<Longrightarrow> sint c \<le> 0 \<Longrightarrow>
      fst (dc_blocker_process dc_blocker_init (replicate m c)) = replicate m c"
proof -
  have first: "dc_blocker_step dc_blocker_init c = (c, \<lparr>x_prev = c, y_prev = c\<rparr>)"
  proof -
    have "i32 0 = 0" by (simp add: i32_def)
    then show ?thesis
      by (simp add: dc_blocker_step_def dc_blocker_init_def Let_def asr_def)
  qed
  show "0 \<le> sint c \<Longrightarrow> sint c \<le> int n \<Longrightarrow>
      y_prev (snd (dc_blocker_process dc_blocker_init (replicate (Suc n) c))) = 0"
    using dc_positive_decay [of "\<lparr>x_prev = c, y_prev = c\<rparr>" c n]
    by (simp add: first split_beta Let_def)
  show "- 199 \<le> sint c \<Longrightarrow> sint c \<le> 0 \<Longrightarrow>
      fst (dc_blocker_process dc_blocker_init (replicate m c)) = replicate m c"
    using dc_negative_stuck [of "\<lparr>x_prev = c, y_prev = c\<rparr>" c]
    by (cases m) (simp_all add: first split_beta Let_def)
qed

theorem dc_blocker_offset_witness:
  "y_prev (snd (dc_blocker_process dc_blocker_init (replicate 5001 5000))) = 0
   \<and> fst (dc_blocker_process dc_blocker_init (replicate 100000 (- 150))) = replicate 100000 (- 150)"
  using dc_blocker_offset(1) [of 5000 5000] dc_blocker_offset(2) [of "- 150" 100000] by simp

text \<open>
  The pre-encode gain is a saturating multiplication by four: no sample wraps around, whatever
  its amplitude.
\<close>

theorem gain_is_saturating:
  "map sint (gain_apply INPUT_GAIN_Q8 pcm)
     = map (\<lambda>x. max (- 32768) (min 32767 (4 * sint x))) pcm"
  by (simp add: gain_apply_def gain_sample_unity)

text \<open>
  Until it adapts, the two-microphone canceller passes the primary microphone through
  unchanged, and its arrays stay in bounds whatever the reference signal.
\<close>

theorem mic_dsp_passthrough:
  "fst (mic_dsp_process False mic_dsp_init (zip ps rs)) = take (length rs) ps"
  "mic_dsp_ok (snd (mic_dsp_process adapt_now mic_dsp_init xs))"
proof -
  have "fst (mic_dsp_process False d (zip ps rs)) = take (length rs) ps"
    if "w d = replicate DSP_NLMS_TAPS 0" for d
    using that
  proof (induction ps arbitrary: rs d)
    case (Cons p ps)
    show ?case
    proof (cases rs)
      case (Cons r rs')
      let ?d = "snd (mic_dsp_step False d (p, r))"
      have "w ?d = replicate DSP_NLMS_TAPS 0"
        using mic_dsp_step_passthrough(2) Cons.prems by simp
      with Cons.IH [of ?d rs'] mic_dsp_step_passthrough(1) [OF Cons.prems, of False p r] Cons
      show ?thesis by (simp add: split_beta Let_def)
    qed simp
  qed simp
  then show "fst (mic_dsp_process False mic_dsp_init (zip ps rs)) = take (length rs) ps"
    by (simp add: mic_dsp_init_def)
  show "mic_dsp_ok (snd (mic_dsp_process adapt_now mic_dsp_init xs))"
    using mic_dsp_ok_step mic_dsp_ok_init by (rule nlms.process_invariant)
qed

end
