(* ===== verification/Vad.thy ===== *)
theory Vad
  imports Config
begin

text \<open>
  The voice activity detector (\<open>main/vad.c\<close>): mean-square energy per frame, a threshold (fixed,
  dual-channel, or adaptive on a tracked noise floor) and the hangover countdown all three share.
\<close>

section \<open>State and energy\<close>

record vad =
  energy_threshold :: u32
  ratio_threshold :: u32
  hangover_frames :: int
  hangover_left :: int
  noise_floor :: u32
  multiplier :: u32
  floor_min :: u32

text \<open>\<open>(uint32_t)(sp / n)\<close> with the sum of squares \<open>sp\<close> kept in a \<open>uint64_t\<close>.\<close>

definition sum_squares :: "i16 list \<Rightarrow> nat" where
  "sum_squares pcm = (\<Sum>x\<leftarrow>pcm. nat (sint x * sint x))"

definition frame_energy :: "i16 list \<Rightarrow> u32" where
  "frame_energy pcm =
     (if length pcm > 0 then of_nat (sum_squares pcm mod 2 ^ 64 div length pcm) else 0)"

text \<open>The initialisers write the fields they name; the rest of the object keeps its value.\<close>

definition vad_init :: "vad \<Rightarrow> u32 \<Rightarrow> int \<Rightarrow> vad" where
  "vad_init v threshold hangover =
     v\<lparr>energy_threshold := threshold, ratio_threshold := of_nat VAD_RATIO_THRESHOLD,
       hangover_frames := hangover, hangover_left := 0\<rparr>"

definition vad_init_adaptive :: "vad \<Rightarrow> u32 \<Rightarrow> u32 \<Rightarrow> int \<Rightarrow> vad" where
  "vad_init_adaptive v floor mult hangover =
     v\<lparr>energy_threshold := floor, ratio_threshold := of_nat VAD_RATIO_THRESHOLD,
       hangover_frames := hangover, hangover_left := 0, noise_floor := floor,
       multiplier := mult, floor_min := floor\<rparr>"

section \<open>The classifiers\<close>

text \<open>The tail of all three: re-arm on speech, count the hangover down, else a gap.\<close>

definition vad_tail :: "bool \<Rightarrow> vad \<Rightarrow> u8 \<times> vad" where
  "vad_tail speech v =
     (if speech then (C6_SPEECH, v\<lparr>hangover_left := hangover_frames v\<rparr>)
      else if hangover_left v > 0 then (C6_HANGOVER, v\<lparr>hangover_left := hangover_left v - 1\<rparr>)
      else (C6_GAP_MARKER, v))"

definition vad_process_dual :: "vad \<Rightarrow> i16 list \<Rightarrow> i16 list \<Rightarrow> u8 \<times> vad" where
  "vad_process_dual v primary reference =
     (let e_pri = frame_energy primary; e_ref = frame_energy reference
      in vad_tail (e_pri > energy_threshold v
           \<and> unat e_pri > unat (ratio_threshold v) * unat (e_ref + 1) mod 2 ^ 64) v)"

definition vad_process_single :: "vad \<Rightarrow> i16 list \<Rightarrow> u8 \<times> vad" where
  "vad_process_single v primary = vad_tail (frame_energy primary > energy_threshold v) v"

definition vad_threshold :: "vad \<Rightarrow> u32" where
  "vad_threshold v =
     (let thresh = noise_floor v * multiplier v
      in if thresh < floor_min v then floor_min v else thresh)"

text \<open>The floor's update on a gap frame of energy \<open>e\<close> (64-bit integers, arithmetic shift).\<close>

definition floor_update :: "int \<Rightarrow> int \<Rightarrow> int" where
  "floor_update e nf =
     (let delta = e - nf in
      if delta < 0 then asr (delta * VAD_NOISE_ALPHA_DOWN_Q16) 16
      else if e < nf * 3 div 2 then asr (delta * VAD_NOISE_ALPHA_UP_Q16) 16
      else 0)"

definition vad_process_single_adaptive :: "vad \<Rightarrow> i16 list \<Rightarrow> u8 \<times> vad" where
  "vad_process_single_adaptive v primary =
     (let e = frame_energy primary in
      if e > vad_threshold v \<or> hangover_left v > 0 then vad_tail (e > vad_threshold v) v
      else
        (let nf = uint (noise_floor v) + floor_update (uint e) (uint (noise_floor v))
         in (C6_GAP_MARKER, v\<lparr>noise_floor := word_of_int (if nf < 0 then 0 else nf)\<rparr>)))"

text \<open>A stream of frames: the VAD states and the final detector.\<close>

fun vad_run :: "('s \<Rightarrow> i16 list \<Rightarrow> u8 \<times> 's) \<Rightarrow> 's \<Rightarrow> i16 list list \<Rightarrow> u8 list \<times> 's" where
  "vad_run step v [] = ([], v)"
| "vad_run step v (f # fs) =
     (let (s, v') = step v f; (ss, v'') = vad_run step v' fs in (s # ss, v''))"

section \<open>Energy and floor bounds\<close>

lemma square_le: "nat (sint (x :: i16) * sint x) \<le> 1073741824"
proof -
  have "\<bar>sint x\<bar> \<le> 32768" using sint16_range [of x] by linarith
  then have "\<bar>sint x\<bar> * \<bar>sint x\<bar> \<le> 32768 * 32768" by (intro mult_mono) simp_all
  then show ?thesis by simp
qed

lemma sum_squares_le: "sum_squares pcm \<le> length pcm * 1073741824"
proof (induction pcm)
  case (Cons x pcm)
  with square_le [of x] show ?case by (simp add: sum_squares_def)
qed (simp add: sum_squares_def)

lemma frame_energy_le: "unat (frame_energy pcm) \<le> 1073741824"
proof (cases "length pcm > 0")
  case True
  have "sum_squares pcm mod 2 ^ 64 \<le> length pcm * 1073741824"
    using sum_squares_le [of pcm] mod_less_eq_dividend order_trans by blast
  then have "sum_squares pcm mod 2 ^ 64 div length pcm \<le> length pcm * 1073741824 div length pcm"
    by (rule div_le_mono)
  then have "sum_squares pcm mod 2 ^ 64 div length pcm \<le> 1073741824"
    using True by simp
  then show ?thesis
    using True by (simp add: frame_energy_def cnum)
qed (simp add: frame_energy_def)

lemma asr_16: "asr v 16 * 65536 \<le> v" "v < asr v 16 * 65536 + 65536"
  using div_mult_mod_eq [of v 65536] pos_mod_bound [of 65536 v] pos_mod_sign [of 65536 v]
  unfolding asr_def by simp_all

text \<open>The moved floor lies between the old floor and the frame's energy.\<close>

lemma floor_update_between:
  assumes "0 \<le> e" and "0 \<le> nf"
  shows "min e nf \<le> nf + floor_update e nf \<and> nf + floor_update e nf \<le> max e nf"
proof (cases "e < nf")
  case True
  then have "floor_update e nf = asr ((e - nf) * 1311) 16"
    by (simp add: floor_update_def VAD_NOISE_ALPHA_DOWN_Q16_def)
  with True asr_16 [of "(e - nf) * 1311"] show ?thesis by simp
next
  case False
  then consider "floor_update e nf = asr ((e - nf) * 131) 16" | "floor_update e nf = 0"
    by (cases "e < nf * 3 div 2") (simp_all add: floor_update_def VAD_NOISE_ALPHA_UP_Q16_def)
  then show ?thesis
    using False asr_16 [of "(e - nf) * 131"] by cases simp_all
qed

lemma uint_unat_bound: "uint (x :: u32) \<le> int n \<longleftrightarrow> unat x \<le> n"
proof -
  have "int (unat x) = uint x" by simp
  then show ?thesis by linarith
qed

lemma uint_of_int_u32: "0 \<le> v \<Longrightarrow> v < 4294967296 \<Longrightarrow> uint (word_of_int v :: u32) = v"
  by (simp add: uint_word_of_int)

section \<open>The detector as configured\<close>

text \<open>The state the audio task keeps: configured with the constants, its floor in range.\<close>

definition vad_ok :: "vad \<Rightarrow> bool" where
  "vad_ok v = (multiplier v = of_nat VAD_NOISE_MULTIPLIER
     \<and> floor_min v = of_nat VAD_ENERGY_THRESHOLD_FLOOR
     \<and> hangover_frames v = int VAD_HANGOVER_FRAMES
     \<and> 0 \<le> hangover_left v \<and> hangover_left v \<le> int VAD_HANGOVER_FRAMES
     \<and> uint (noise_floor v) \<le> 1073741824)"

definition configured_vad :: "vad \<Rightarrow> vad" where
  "configured_vad v = vad_init_adaptive v (of_nat VAD_ENERGY_THRESHOLD_FLOOR)
     (of_nat VAD_NOISE_MULTIPLIER) (int VAD_HANGOVER_FRAMES)"

lemma configured_vad_ok: "vad_ok (configured_vad v)"
  by (simp add: vad_ok_def configured_vad_def vad_init_adaptive_def config_simps)

lemma uint_frame_energy: "0 \<le> uint (frame_energy pcm)" "uint (frame_energy pcm) \<le> 1073741824"
  using frame_energy_le [of pcm] uint_unat_bound [of "frame_energy pcm" 1073741824] by simp_all

lemma moved_floor:
  assumes "uint (noise_floor v) \<le> 1073741824"
  shows "0 \<le> uint (noise_floor v) + floor_update (uint (frame_energy pcm)) (uint (noise_floor v))"
    and "uint (noise_floor v) + floor_update (uint (frame_energy pcm)) (uint (noise_floor v))
      \<le> 1073741824"
proof -
  have nf: "0 \<le> uint (noise_floor v)" by simp
  note between = floor_update_between [OF uint_frame_energy(1) this]
  show "0 \<le> uint (noise_floor v) + floor_update (uint (frame_energy pcm)) (uint (noise_floor v))"
    "uint (noise_floor v) + floor_update (uint (frame_energy pcm)) (uint (noise_floor v))
      \<le> 1073741824"
    using between [THEN conjunct1, of pcm] between [THEN conjunct2, of pcm]
      uint_frame_energy [of pcm] assms nf by linarith+
qed

lemma vad_gap_floor:
  assumes "uint (noise_floor v) \<le> 1073741824" and "\<not> frame_energy pcm > vad_threshold v"
    and "\<not> hangover_left v > 0"
  shows "fst (vad_process_single_adaptive v pcm) = C6_GAP_MARKER"
    and "uint (noise_floor (snd (vad_process_single_adaptive v pcm)))
      = uint (noise_floor v) + floor_update (uint (frame_energy pcm)) (uint (noise_floor v))"
proof -
  show "fst (vad_process_single_adaptive v pcm) = C6_GAP_MARKER"
    using assms by (simp add: vad_process_single_adaptive_def Let_def)
  let ?nf = "uint (noise_floor v) + floor_update (uint (frame_energy pcm)) (uint (noise_floor v))"
  have "0 \<le> ?nf" "?nf \<le> 1073741824"
    using moved_floor [OF assms(1), of pcm] by simp_all
  then have "?nf < 4294967296" and "\<not> ?nf < 0" by simp_all
  moreover from \<open>0 \<le> ?nf\<close> this(1) have "uint (word_of_int ?nf :: u32) = ?nf"
    by (rule uint_of_int_u32)
  ultimately show "uint (noise_floor (snd (vad_process_single_adaptive v pcm))) = ?nf"
    using assms(2,3) by (simp add: vad_process_single_adaptive_def Let_def)
qed

lemma vad_gap_rest:
  assumes "\<not> frame_energy pcm > vad_threshold v" and "\<not> hangover_left v > 0"
  shows "\<exists>nf. snd (vad_process_single_adaptive v pcm) = v\<lparr>noise_floor := nf\<rparr>"
  using assms by (auto simp: vad_process_single_adaptive_def Let_def)

lemma vad_other:
  assumes "frame_energy pcm > vad_threshold v \<or> hangover_left v > 0"
  shows "vad_process_single_adaptive v pcm = vad_tail (frame_energy pcm > vad_threshold v) v"
  using assms by (auto simp: vad_process_single_adaptive_def Let_def)

lemma vad_ok_step:
  assumes "vad_ok v"
  shows "vad_ok (snd (vad_process_single_adaptive v pcm))"
proof (cases "frame_energy pcm > vad_threshold v \<or> hangover_left v > 0")
  case True
  with assms show ?thesis by (auto simp: vad_other [OF True] vad_tail_def vad_ok_def)
next
  case False
  then have gap: "\<not> frame_energy pcm > vad_threshold v" "\<not> hangover_left v > 0" by auto
  have "uint (noise_floor v) \<le> 1073741824" using assms by (simp add: vad_ok_def)
  from vad_gap_floor(2) [OF this gap] vad_gap_rest [OF gap] show ?thesis
    using assms moved_floor [of v pcm] by (auto simp: vad_ok_def)
qed

lemma vad_threshold_exact:
  assumes "vad_ok v"
  shows "uint (vad_threshold v) = max 10000 (3 * uint (noise_floor v))"
proof -
  have "uint (noise_floor v) * 3 < 4294967296" "0 \<le> uint (noise_floor v)"
    using assms by (simp_all add: vad_ok_def)
  then have "uint (noise_floor v * 3) = uint (noise_floor v) * 3"
    by (simp add: uint_word_ariths)
  with assms show ?thesis
    by (simp add: vad_threshold_def vad_ok_def word_less_def max_def Let_def config_simps)
qed

section \<open>Properties\<close>

text \<open>
  C32: The configured detector never leaves its safe range, on any stream of frames: the noise floor
  stays at most 2^30, so the product with the multiplier never wraps and the threshold is exactly
  three times the floor, at least 10000; the hangover countdown stays between 0 and 30.
\<close>

theorem vad_threshold_never_wraps:
  "let v' = snd (vad_run vad_process_single_adaptive (configured_vad v) fs)
   in uint (vad_threshold v') = max 10000 (3 * uint (noise_floor v'))
    \<and> uint (noise_floor v') \<le> 1073741824 \<and> 0 \<le> hangover_left v' \<and> hangover_left v' \<le> 30"
proof -
  define v' where "v' = snd (vad_run vad_process_single_adaptive (configured_vad v) fs)"
  have "vad_ok (snd (vad_run vad_process_single_adaptive u fs))" if "vad_ok u" for u
    using that by (induction fs arbitrary: u) (simp_all add: vad_ok_step split_beta Let_def)
  then have "vad_ok v'" by (simp add: v'_def configured_vad_ok)
  then show ?thesis unfolding v'_def [symmetric] Let_def
    by (simp add: vad_threshold_exact) (simp add: vad_ok_def VAD_HANGOVER_FRAMES_val)
qed

text \<open>The configured hangover: what a run of quiet frames reports from a given countdown.\<close>

lemma quiet_run:
  assumes "vad_ok v" and "\<forall>f \<in> set fs. uint (frame_energy f) \<le> 10000"
  shows "fst (vad_run vad_process_single_adaptive v fs)
    = replicate (min (length fs) (nat (hangover_left v))) C6_HANGOVER
      @ replicate (length fs - nat (hangover_left v)) C6_GAP_MARKER"
  using assms
proof (induction fs arbitrary: v)
  case (Cons f fs)
  let ?v = "snd (vad_process_single_adaptive v f)"
  have quiet: "\<not> frame_energy f > vad_threshold v"
    using Cons.prems vad_threshold_exact [OF Cons.prems(1)]
    by (simp add: word_less_def)
  have IH: "fst (vad_run vad_process_single_adaptive ?v fs)
    = replicate (min (length fs) (nat (hangover_left ?v))) C6_HANGOVER
      @ replicate (length fs - nat (hangover_left ?v)) C6_GAP_MARKER"
    using Cons.prems vad_ok_step by (intro Cons.IH) auto
  have nonneg: "0 \<le> hangover_left v" using Cons.prems(1) by (simp add: vad_ok_def)
  show ?case
  proof (cases "hangover_left v > 0")
    case True
    then obtain m where m: "nat (hangover_left v) = Suc m"
      by (cases "nat (hangover_left v)") simp_all
    then have "nat (hangover_left v - 1) = m" by simp
    with True quiet IH m show ?thesis
      by (simp add: vad_other vad_tail_def split_beta Let_def)
  next
    case False
    with nonneg vad_gap_rest [OF quiet False] have "hangover_left ?v = 0" by auto
    moreover have "fst (vad_process_single_adaptive v f) = C6_GAP_MARKER"
      using vad_gap_floor(1) [OF _ quiet False] Cons.prems(1) by (simp add: vad_ok_def)
    ultimately show ?thesis
      using False IH by (simp add: split_beta Let_def)
  qed
qed simp

text \<open>
  A voiced frame opens exactly 30 frames (600 ms) of hangover: whatever quiet frames follow,
  the first 30 are reported as HANGOVER and all later ones as gaps.
\<close>

theorem vad_hangover_length:
  assumes "vad_ok v" and "fst (vad_process_single_adaptive v f) = C6_SPEECH"
    and "\<forall>q \<in> set qs. uint (frame_energy q) \<le> 10000"
  shows "fst (vad_run vad_process_single_adaptive v (f # qs))
    = C6_SPEECH # replicate (min (length qs) 30) C6_HANGOVER
      @ replicate (length qs - 30) C6_GAP_MARKER"
proof -
  let ?v = "snd (vad_process_single_adaptive v f)"
  have "frame_energy f > vad_threshold v"
    using assms(2) by (rule contrapos_pp)
      (auto simp: vad_process_single_adaptive_def vad_tail_def Let_def config_simps)
  then have "hangover_left ?v = 30"
    using assms(1) by (simp add: vad_other vad_tail_def vad_ok_def VAD_HANGOVER_FRAMES_val)
  then show ?thesis
    using assms(2) quiet_run [OF vad_ok_step [OF assms(1)] assms(3), of f]
    by (simp add: split_beta Let_def)
qed

lemma frame_energy_replicate_200: "frame_energy (replicate 320 200) = 40000"
  by (simp add: frame_energy_def sum_squares_def sum_list_replicate)

theorem vad_hangover_length_witness:
  "let v = vad_init \<lparr>energy_threshold = 0, ratio_threshold = 0, hangover_frames = 0, hangover_left = 0,
       noise_floor = 0, multiplier = 0, floor_min = 0\<rparr> 0 0
   in fst (vad_run vad_process_single_adaptive (configured_vad v)
      (replicate 320 200 # replicate 40 []))
    = C6_SPEECH # replicate 30 C6_HANGOVER @ replicate 10 C6_GAP_MARKER"
proof -
  have "fst (vad_process_single_adaptive (configured_vad v) (replicate 320 200)) = C6_SPEECH"
    for v
    unfolding vad_process_single_adaptive_def frame_energy_replicate_200
    by (simp add: vad_tail_def vad_threshold_def configured_vad_def vad_init_adaptive_def
        config_simps Let_def)
  from vad_hangover_length [OF configured_vad_ok this, of "replicate 40 []"] show ?thesis
    by (simp add: frame_energy_def Let_def)
qed

text \<open>
  The noise floor moves on gap frames only and each move stays between the old floor and the
  frame's energy, so speech and word tails never raise or lower it.
\<close>

theorem vad_floor_moves_on_gaps:
  assumes "vad_ok v" and "vad_process_single_adaptive v f = (s, v')"
  shows "noise_floor v' = noise_floor v \<or> s = C6_GAP_MARKER
     \<and> min (uint (frame_energy f)) (uint (noise_floor v)) \<le> uint (noise_floor v')
     \<and> uint (noise_floor v') \<le> max (uint (frame_energy f)) (uint (noise_floor v))"
proof (cases "frame_energy f > vad_threshold v \<or> hangover_left v > 0")
  case True
  with assms(2) show ?thesis by (auto simp: vad_other vad_tail_def split: if_splits)
next
  case False
  then have gap: "\<not> frame_energy f > vad_threshold v" "\<not> hangover_left v > 0" by auto
  have bound: "uint (noise_floor v) \<le> 1073741824" using assms(1) by (simp add: vad_ok_def)
  have nn: "0 \<le> uint (noise_floor v)" by simp
  show ?thesis
    using vad_gap_floor [OF bound gap] floor_update_between [OF uint_frame_energy(1) nn, of f]
      assms(2) by simp
qed

theorem vad_floor_moves_on_gaps_witness:
  "noise_floor (snd (vad_process_single_adaptive (configured_vad v) [0])) = noise_floor (configured_vad v)
     \<or> fst (vad_process_single_adaptive (configured_vad v) [0]) = C6_GAP_MARKER
       \<and> uint (noise_floor (snd (vad_process_single_adaptive (configured_vad v) [0]))) \<le> 10000"
  using vad_floor_moves_on_gaps [OF configured_vad_ok prod.collapse [symmetric], of v "[0]"]
  by (auto simp: configured_vad_def vad_init_adaptive_def config_simps frame_energy_def sum_squares_def)

lemma floor_update_stuck:
  assumes "0 \<le> nf" and "nf \<le> 1003"
  shows "floor_update e nf \<le> 0"
proof (cases "e - nf < 0 \<or> \<not> e < nf * 3 div 2")
  case True
  have "asr v 16 \<le> 0" if "v < 0" for v using that asr_16 [of v] by linarith
  with True show ?thesis
    by (auto simp: floor_update_def Let_def VAD_NOISE_ALPHA_DOWN_Q16_def)
next
  case False
  then have "e - nf \<le> 500" using assms by linarith
  then have "(e - nf) * 131 \<le> 500 * 131" by (rule mult_right_mono) simp
  then have "asr ((e - nf) * 131) 16 \<le> 0" using asr_16 [of "(e - nf) * 131"] by linarith
  with False show ?thesis
    by (simp add: floor_update_def VAD_NOISE_ALPHA_UP_Q16_def)
qed

text \<open>
  The slow rise of the noise floor does not work below 1004: a detector whose floor is at most
  1003 never raises it again, and from then on reports on every stream exactly what the fixed
  detector with threshold 10000 reports.
\<close>

theorem vad_low_floor_is_fixed:
  assumes "vad_ok v" and "uint (noise_floor v) \<le> 1003"
    and "energy_threshold u = of_nat VAD_ENERGY_THRESHOLD_FLOOR"
    and "hangover_frames u = hangover_frames v" and "hangover_left u = hangover_left v"
  shows "fst (vad_run vad_process_single_adaptive v fs) = fst (vad_run vad_process_single u fs)
    \<and> uint (noise_floor (snd (vad_run vad_process_single_adaptive v fs))) \<le> 1003"
  using assms
proof (induction fs arbitrary: v u)
  case (Cons f fs)
  let ?v = "snd (vad_process_single_adaptive v f)" and ?u = "snd (vad_process_single u f)"
  have thr: "(frame_energy f > vad_threshold v) = (frame_energy f > energy_threshold u)"
    using vad_threshold_exact [OF Cons.prems(1)] Cons.prems(2,3)
    by (simp add: word_less_def config_simps)
  have same: "fst (vad_process_single_adaptive v f) = fst (vad_process_single u f)
      \<and> hangover_left ?v = hangover_left ?u \<and> uint (noise_floor ?v) \<le> 1003"
  proof (cases "frame_energy f > vad_threshold v \<or> hangover_left v > 0")
    case True
    with Cons.prems thr show ?thesis
      by (auto simp: vad_other [OF True] vad_process_single_def vad_tail_def)
  next
    case False
    then have gap: "\<not> frame_energy f > vad_threshold v" "\<not> hangover_left v > 0" by auto
    have bound: "uint (noise_floor v) \<le> 1073741824" using Cons.prems(2) by simp
    have nn: "0 \<le> uint (noise_floor v)" by simp
    have "uint (noise_floor ?v) \<le> 1003"
      using vad_gap_floor(2) [OF bound gap] floor_update_stuck [OF nn Cons.prems(2)] Cons.prems(2)
      by (smt (verit))
    moreover have "hangover_left ?v = hangover_left v" using vad_gap_rest [OF gap] by auto
    ultimately show ?thesis
      using vad_gap_floor(1) [OF bound gap] gap Cons.prems thr
      by (simp add: vad_process_single_def vad_tail_def)
  qed
  have rest: "hangover_frames ?v = hangover_frames v" "energy_threshold ?u = energy_threshold u"
    "hangover_frames ?u = hangover_frames u"
    using vad_ok_step [OF Cons.prems(1), of f] Cons.prems(1)
    by (auto simp: vad_ok_def vad_process_single_def vad_tail_def)
  have "fst (vad_run vad_process_single_adaptive ?v fs) = fst (vad_run vad_process_single ?u fs)
    \<and> uint (noise_floor (snd (vad_run vad_process_single_adaptive ?v fs))) \<le> 1003"
    using same rest Cons.prems vad_ok_step by (intro Cons.IH) simp_all
  with same show ?case by (simp add: split_beta Let_def)
qed simp

theorem vad_low_floor_is_fixed_witness:
  "fst (vad_run vad_process_single_adaptive ((configured_vad v)\<lparr>noise_floor := 1000\<rparr>) fs)
     = fst (vad_run vad_process_single (vad_init u 10000 30) fs)"
  using vad_low_floor_is_fixed [of "(configured_vad v)\<lparr>noise_floor := 1000\<rparr>" "vad_init u 10000 30" fs]
  by (simp add: vad_ok_def configured_vad_def vad_init_adaptive_def vad_init_def config_simps
      VAD_HANGOVER_FRAMES_val)

end
