(* ===== verification/Audio_Task.thy ===== *)
theory Audio_Task
  imports Ring_Buffer Dsp Vad
begin

text \<open>
  The producer side (\<open>audio_task\<close> of \<open>main/openrecall_sensor.c\<close>, with \<open>main/audio_capture.c\<close> and
  \<open>main/opus_stream.c\<close>): one stereo frame per round goes through the DC blocker, the high-pass, the
  adaptive detector, the gain and the encoder into the ring. The I2S driver and libopus are outside
  the repository: the samples read are an argument and the encoder a function on its own state.
\<close>

section \<open>Capture (audio_capture.c)\<close>

record capture_config =
  dma_desc_num :: nat
  dma_frame_num :: nat
  i2s_rate :: nat
  i2s_mclk :: int
  i2s_bclk :: int
  i2s_ws :: int
  i2s_dout :: int
  i2s_din :: int
  invert_flags :: "bool \<times> bool \<times> bool"
  philips_stereo :: bool
  data_bit_width :: nat
  slot_bit_width :: nat
  ws_width :: nat

definition capture_cfg :: capture_config where
  "capture_cfg = \<lparr>dma_desc_num = 6, dma_frame_num = FRAME_SAMPLES, i2s_rate = SAMPLE_RATE,
     i2s_mclk = - 1, i2s_bclk = I2S_BCK_GPIO, i2s_ws = I2S_WS_GPIO, i2s_dout = - 1,
     i2s_din = I2S_DATA_GPIO, invert_flags = (False, False, False), philips_stereo = True,
     data_bit_width = 16, slot_bit_width = 32, ws_width = 32\<rparr>"

text \<open>The three driver calls in order; the first error is returned.\<close>

definition audio_capture_init ::
  "esp_err \<Rightarrow> (capture_config \<Rightarrow> esp_err) \<Rightarrow> esp_err \<Rightarrow> esp_err" where
  "audio_capture_init new_channel init_std enable =
     (if new_channel \<noteq> ESP_OK then new_channel
      else if init_std capture_cfg \<noteq> ESP_OK then init_std capture_cfg
      else enable)"

text \<open>\<open>stereo\<close>: the interleaved samples read, two per sampling instant.\<close>

definition audio_capture_read_stereo ::
  "esp_err \<Rightarrow> i16 list \<Rightarrow> esp_err \<times> (i16 list \<times> i16 list) option" where
  "audio_capture_read_stereo err stereo =
     (if err \<noteq> ESP_OK then (err, None)
      else if length stereo \<noteq> FRAME_SAMPLES * 2 then (ESP_ERR_INVALID_SIZE, None)
      else let l = map (\<lambda>i. stereo ! (2 * i)) [0..<FRAME_SAMPLES];
               r = map (\<lambda>i. stereo ! (2 * i + 1)) [0..<FRAME_SAMPLES]
           in (ESP_OK, Some (if PRIMARY_CHANNEL = 0 then (l, r) else (r, l))))"

section \<open>Encoder (opus_stream.c)\<close>

type_synonym 'e encoder = "'e \<Rightarrow> i16 list \<Rightarrow> int \<times> u8 list \<times> 'e"

text \<open>
  \<open>opus_encoder_create\<close> for the voice application gives an encoder or an error; the controls are
  then set in order, their results ignored.
\<close>

datatype opus_ctl = OPUS_SET_BITRATE nat | OPUS_SET_COMPLEXITY nat | OPUS_SET_SIGNAL_VOICE

definition opus_stream_init ::
  "(nat \<Rightarrow> nat \<Rightarrow> 'e option) \<Rightarrow> (opus_ctl \<Rightarrow> 'e \<Rightarrow> 'e) \<Rightarrow> esp_err \<times> 'e option" where
  "opus_stream_init create_voip ctl = (case create_voip SAMPLE_RATE CHANNELS of
     None \<Rightarrow> (ESP_FAIL, None)
   | Some e \<Rightarrow> (ESP_OK, Some (fold ctl
       [OPUS_SET_BITRATE OPUS_BITRATE, OPUS_SET_COMPLEXITY OPUS_COMPLEXITY, OPUS_SET_SIGNAL_VOICE] e)))"

definition opus_stream_encode :: "'e encoder \<Rightarrow> 'e \<Rightarrow> i16 list \<Rightarrow> int \<times> u8 list \<times> 'e" where
  "opus_stream_encode opus_encode e pcm =
     (let (n, out, e') = opus_encode e pcm in (if n < 0 then - 1 else n, out, e'))"

section \<open>The audio task\<close>

text \<open>The task's variables; \<open>s_rel_ts_ms\<close> is the clock it publishes.\<close>

record 'e audio_state =
  a_vad :: vad
  a_dc :: dc_blocker
  a_hpf :: hpf
  a_enc :: 'e
  a_ring :: ring
  a_frames :: u32
  a_voiced :: u32
  a_gaps :: u32
  a_total :: u32
  a_rel_ts_ms :: u32
  a_acc_pri :: "64 word"
  a_acc_ref :: "64 word"
  a_stack_report_at :: u32
  s_rel_ts_ms :: u32

definition rel_ts_ms_now :: "'e audio_state \<Rightarrow> u32" where
  "rel_ts_ms_now st = s_rel_ts_ms st"

definition audio_task_init :: "vad \<Rightarrow> 'e \<Rightarrow> ring \<Rightarrow> 'e audio_state" where
  "audio_task_init v e r = \<lparr>a_vad = vad_init_adaptive v (of_nat VAD_ENERGY_THRESHOLD_FLOOR)
       (of_nat VAD_NOISE_MULTIPLIER) (int VAD_HANGOVER_FRAMES),
     a_dc = dc_blocker_init, a_hpf = hpf_init, a_enc = e, a_ring = r, a_frames = 0, a_voiced = 0,
     a_gaps = 0, a_total = 0, a_rel_ts_ms = 0, a_acc_pri = 0, a_acc_ref = 0,
     a_stack_report_at = 3000, s_rel_ts_ms = 0\<rparr>"

definition channel_energy :: "i16 list \<Rightarrow> 64 word" where
  "channel_energy pcm = (\<Sum>x\<leftarrow>pcm. word_of_int (i32 (sint x * sint x)))"

text \<open>The end of a round: the counters, the published clock and the once-per-second reset.\<close>

definition frame_tail :: "'e audio_state \<Rightarrow> 'e audio_state" where
  "frame_tail st =
     (let f = a_frames st + 1; rel = a_rel_ts_ms st + of_nat FRAME_MS;
          st1 = st\<lparr>a_frames := f, a_rel_ts_ms := rel, s_rel_ts_ms := rel,
                   a_stack_report_at := (if f = a_stack_report_at st
                     then a_stack_report_at st + 3000 else a_stack_report_at st)\<rparr>
      in if f mod of_nat (1000 div FRAME_MS) = 0
         then st1\<lparr>a_total := 0, a_acc_pri := 0, a_acc_ref := 0\<rparr> else st1)"

text \<open>One round with a frame read and the gate's value; a failed read leaves the state alone.\<close>

definition audio_frame ::
  "'e encoder \<Rightarrow> bool \<Rightarrow> i16 list \<times> i16 list \<Rightarrow> 'e audio_state \<Rightarrow> 'e audio_state" where
  "audio_frame opus_encode paused frame st =
     (let (pri, ref) = frame in
      if paused then
        frame_tail (st\<lparr>a_ring := ring_buffer_push C6_GAP_MARKER (a_rel_ts_ms st) None 0 (a_ring st),
                       a_gaps := a_gaps st + 1\<rparr>)
      else
        (let (pri1, dc) = dc_blocker_process (a_dc st) pri;
             (pri2, hp) = hpf_process (a_hpf st) pri1;
             (vs, v) = vad_process_single_adaptive (a_vad st) pri2;
             st1 = st\<lparr>a_acc_pri := a_acc_pri st + channel_energy pri,
                      a_acc_ref := a_acc_ref st + channel_energy ref,
                      a_dc := dc, a_hpf := hp, a_vad := v\<rparr>
         in if vs = C6_SPEECH \<or> vs = C6_HANGOVER then
              (let (n, out, e) = opus_stream_encode opus_encode (a_enc st1) (gain_apply INPUT_GAIN_Q8 pri2);
                   st2 = st1\<lparr>a_enc := e\<rparr>
               in if n > 0 \<and> n \<le> 255 then
                    frame_tail (st2\<lparr>a_ring := ring_buffer_push vs (a_rel_ts_ms st2) (Some out)
                                       (word_of_int n) (a_ring st2),
                                    a_voiced := a_voiced st2 + 1,
                                    a_total := a_total st2 + word_of_int n\<rparr>)
                  else frame_tail (st2\<lparr>a_gaps := a_gaps st2 + 1\<rparr>))
            else
              frame_tail (st1\<lparr>a_ring := ring_buffer_push C6_GAP_MARKER (a_rel_ts_ms st1) None 0 (a_ring st1),
                              a_gaps := a_gaps st1 + 1\<rparr>)))"

fun audio_run :: "'e encoder \<Rightarrow> (bool \<times> i16 list \<times> i16 list) list \<Rightarrow> 'e audio_state \<Rightarrow> 'e audio_state" where
  "audio_run enc [] st = st"
| "audio_run enc ((paused, frame) # fs) st = audio_run enc fs (audio_frame enc paused frame st)"

section \<open>What the ring holds\<close>

text \<open>The detector's verdicts on the filtered primary channel; a paused frame is a gap and unheard.\<close>

fun verdicts :: "dc_blocker \<Rightarrow> hpf \<Rightarrow> vad \<Rightarrow> (bool \<times> i16 list \<times> i16 list) list \<Rightarrow> u8 list" where
  "verdicts dc hp v [] = []"
| "verdicts dc hp v ((paused, pri, ref) # fs) =
     (if paused then C6_GAP_MARKER # verdicts dc hp v fs
      else let (p1, dc') = dc_blocker_process dc pri; (p2, hp') = hpf_process hp p1;
               (s, v') = vad_process_single_adaptive v p2
           in s # verdicts dc' hp' v' fs)"

text \<open>
  What the task is to record, as a function of the frames alone: one entry per frame, 20 ms apart;
  the bytes of an entry are the encoder's, run on the filtered and amplified frames of speech only.
\<close>

fun recorded ::
  "'e encoder \<Rightarrow> dc_blocker \<Rightarrow> hpf \<Rightarrow> vad \<Rightarrow> 'e \<Rightarrow> u32 \<Rightarrow> (bool \<times> i16 list \<times> i16 list) list \<Rightarrow> frame list"
where
  "recorded enc dc hp v e ts [] = []"
| "recorded enc dc hp v e ts ((paused, pri, ref) # fs) =
     (if paused then
        \<lparr>fr_vad = C6_GAP_MARKER, fr_ts = ts, fr_bytes = []\<rparr> # recorded enc dc hp v e (ts + 20) fs
      else
        let (p1, dc') = dc_blocker_process dc pri; (p2, hp') = hpf_process hp p1;
            (s, v') = vad_process_single_adaptive v p2
        in if s = C6_SPEECH \<or> s = C6_HANGOVER then
             (let (n, out, e') = enc e (gain_apply INPUT_GAIN_Q8 p2)
              in \<lparr>fr_vad = s, fr_ts = ts, fr_bytes = out\<rparr> # recorded enc dc' hp' v' e' (ts + 20) fs)
           else \<lparr>fr_vad = C6_GAP_MARKER, fr_ts = ts, fr_bytes = []\<rparr>
             # recorded enc dc' hp' v' e (ts + 20) fs)"

text \<open>An encoder that never fails: one to 255 bytes for every frame.\<close>

definition encodes :: "'e encoder \<Rightarrow> bool" where
  "encodes enc = (\<forall>e pcm. case enc e pcm of (n, out, e') \<Rightarrow> 0 < n \<and> n \<le> 255 \<and> length out = nat n)"

lemma frame_tail_sel [simp]:
  "a_ring (frame_tail st) = a_ring st" "a_vad (frame_tail st) = a_vad st"
  "a_dc (frame_tail st) = a_dc st" "a_hpf (frame_tail st) = a_hpf st"
  "a_enc (frame_tail st) = a_enc st"
  "a_rel_ts_ms (frame_tail st) = a_rel_ts_ms st + of_nat FRAME_MS"
  "s_rel_ts_ms (frame_tail st) = a_rel_ts_ms st + of_nat FRAME_MS"
  "a_frames (frame_tail st) = a_frames st + 1"
  by (simp_all add: frame_tail_def Let_def)

lemma vad_states:
  "fst (vad_process_single_adaptive v pcm) \<in> {C6_SPEECH, C6_HANGOVER, C6_GAP_MARKER}"
  by (simp add: vad_process_single_adaptive_def vad_tail_def Let_def)

text \<open>One round of a working encoder pushes exactly one entry, the one to be recorded.\<close>

lemma audio_frame_push:
  assumes "encodes enc" and "ring_rel (a_ring st) hs" and "Suc (length hs) < 4294967296"
  obtains f where "ring_rel (a_ring (audio_frame enc paused (pri, ref) st)) (hs @ [f])"
    "\<And>fs. recorded enc (a_dc st) (a_hpf st) (a_vad st) (a_enc st) (a_rel_ts_ms st) ((paused, pri, ref) # fs)
       = f # (let st' = audio_frame enc paused (pri, ref) st
              in recorded enc (a_dc st') (a_hpf st') (a_vad st') (a_enc st') (a_rel_ts_ms st') fs)"
proof -
  let ?gap = "\<lparr>fr_vad = C6_GAP_MARKER, fr_ts = a_rel_ts_ms st, fr_bytes = []\<rparr>"
  have gap: "ring_rel (ring_buffer_push C6_GAP_MARKER (a_rel_ts_ms st) None 0 (a_ring st)) (hs @ [?gap])"
    using ring_rel_push [OF assms(2,3), where data = None and len = 0] by simp
  show thesis
  proof (cases paused)
    case True
    with gap show thesis by (intro that [of ?gap]) (simp_all add: audio_frame_def FRAME_MS_def)
  next
    case False
    obtain p1 dc where dc: "dc_blocker_process (a_dc st) pri = (p1, dc)" by fastforce
    obtain p2 hp where hp: "hpf_process (a_hpf st) p1 = (p2, hp)" by fastforce
    obtain s v where v: "vad_process_single_adaptive (a_vad st) p2 = (s, v)" by fastforce
    obtain n out e where e: "enc (a_enc st) (gain_apply INPUT_GAIN_Q8 p2) = (n, out, e)"
      by (metis prod_cases3)
    from assms(1) [unfolded encodes_def, rule_format, of "a_enc st" "gain_apply INPUT_GAIN_Q8 p2"]
    have n: "0 < n" "n \<le> 255" "length out = nat n" by (simp_all add: e)
    have len: "unat (word_of_int n :: u8) = nat n"
      using n by (simp add: unat_eq_nat_uint uint_word_of_int)
    let ?f = "\<lparr>fr_vad = s, fr_ts = a_rel_ts_ms st, fr_bytes = out\<rparr>"
    have push: "ring_rel (ring_buffer_push s (a_rel_ts_ms st) (Some out) (word_of_int n) (a_ring st)) (hs @ [?f])"
      using ring_rel_push [OF assms(2,3), where data = "Some out" and len = "word_of_int n"] n
      by (simp add: len)
    show thesis
    proof (cases "s = C6_SPEECH \<or> s = C6_HANGOVER")
      case True
      with \<open>\<not> paused\<close> push n show thesis
        by (intro that [of ?f])
          (simp_all add: audio_frame_def dc hp v opus_stream_encode_def e FRAME_MS_def)
    next
      case other: False
      with \<open>\<not> paused\<close> gap show thesis
        by (intro that [of ?gap]) (simp_all add: audio_frame_def dc hp v FRAME_MS_def)
    qed
  qed
qed

lemma audio_run_recorded:
  assumes "encodes enc" and "ring_rel (a_ring st) hs" and "length hs + length fs < 4294967296"
  shows "ring_rel (a_ring (audio_run enc fs st))
    (hs @ recorded enc (a_dc st) (a_hpf st) (a_vad st) (a_enc st) (a_rel_ts_ms st) fs)"
  using assms(2-)
proof (induction fs arbitrary: st hs)
  case (Cons x fs)
  obtain paused pri ref where x: "x = (paused, pri, ref)" by (cases x)
  have room: "Suc (length hs) < 4294967296" using Cons.prems(2) by simp
  obtain f where f: "ring_rel (a_ring (audio_frame enc paused (pri, ref) st)) (hs @ [f])"
    "\<And>fs. recorded enc (a_dc st) (a_hpf st) (a_vad st) (a_enc st) (a_rel_ts_ms st) ((paused, pri, ref) # fs)
       = f # (let st' = audio_frame enc paused (pri, ref) st
              in recorded enc (a_dc st') (a_hpf st') (a_vad st') (a_enc st') (a_rel_ts_ms st') fs)"
    by (rule audio_frame_push [OF assms(1) Cons.prems(1) room, where paused = paused
          and pri = pri and ref = ref]) (rule that)
  with Cons.IH [OF f(1)] Cons.prems(2) show ?case unfolding x f(2) by (simp add: Let_def)
qed simp

lemma recorded_verdicts: "map fr_vad (recorded enc dc hp v e ts fs) = verdicts dc hp v fs"
proof (induction enc dc hp v e ts fs rule: recorded.induct)
  case (2 enc dc hp v e ts paused pri ref fs)
  then show ?case
    using vad_states [of v "fst (hpf_process hp (fst (dc_blocker_process dc pri)))"]
    by (auto simp: Let_def split: prod.splits)
qed simp

lemma recorded_step:
  obtains f dc' hp' v' e' where
    "recorded enc dc hp v e ts (x # fs) = f # recorded enc dc' hp' v' e' (ts + 20) fs" "fr_ts f = ts"
    "encodes enc \<Longrightarrow> (fr_bytes f = [] \<longleftrightarrow> fr_vad f = C6_GAP_MARKER) \<and> length (fr_bytes f) < 256
       \<and> fr_vad f \<in> {C6_SPEECH, C6_HANGOVER, C6_GAP_MARKER}"
proof -
  let ?gap = "\<lparr>fr_vad = C6_GAP_MARKER, fr_ts = ts, fr_bytes = []\<rparr>"
  obtain paused pri ref where x: "x = (paused, pri, ref)" by (cases x)
  obtain p1 dc' where dc: "dc_blocker_process dc pri = (p1, dc')" by fastforce
  obtain p2 hp' where hp: "hpf_process hp p1 = (p2, hp')" by fastforce
  obtain s v' where v: "vad_process_single_adaptive v p2 = (s, v')" by fastforce
  obtain n out e' where e: "enc e (gain_apply INPUT_GAIN_Q8 p2) = (n, out, e')" by (metis prod_cases3)
  have out: "encodes enc \<Longrightarrow> out \<noteq> [] \<and> length out < 256"
    unfolding encodes_def using e by (fastforce dest!: spec [of _ e] spec [of _ "gain_apply INPUT_GAIN_Q8 p2"])
  have s: "s = C6_SPEECH \<or> s = C6_HANGOVER \<Longrightarrow> s \<noteq> C6_GAP_MARKER" by (auto simp: config_simps)
  consider "paused" | "\<not> paused" "s = C6_SPEECH \<or> s = C6_HANGOVER"
    | "\<not> paused" "\<not> (s = C6_SPEECH \<or> s = C6_HANGOVER)" by blast
  then show thesis
  proof cases
    case 2
    with out s show thesis
      by (intro that [of "\<lparr>fr_vad = s, fr_ts = ts, fr_bytes = out\<rparr>" dc' hp' v' e'])
        (auto simp: x dc hp v e)
  qed (auto simp: x dc hp v e intro: that [of ?gap dc hp v e] that [of ?gap dc' hp' v' e])
qed

lemma recorded_times:
  "map fr_ts (recorded enc dc hp v e (of_nat (20 * k)) fs) = map (\<lambda>i. of_nat (20 * i)) [k..<k + length fs]"
proof (induction fs arbitrary: dc hp v e k)
  case (Cons x fs)
  obtain f dc' hp' v' e' where f: "recorded enc dc hp v e (of_nat (20 * k)) (x # fs)
      = f # recorded enc dc' hp' v' e' (of_nat (20 * k) + 20) fs" "fr_ts f = of_nat (20 * k)"
    by (rule recorded_step [of enc dc hp v e "of_nat (20 * k)" x fs]) (rule that)
  have step: "of_nat (20 * k) + 20 = (of_nat (20 * Suc k) :: u32)" by simp
  have "[k..<k + length (x # fs)] = k # [Suc k..<Suc k + length fs]"
    by (subst upt_conv_Cons) simp_all
  then show ?case unfolding f(1) step by (simp only: list.map f(2) Cons.IH)
qed simp

lemma recorded_gaps:
  assumes "encodes enc"
  shows "\<forall>f \<in> set (recorded enc dc hp v e ts fs). (fr_bytes f = [] \<longleftrightarrow> fr_vad f = C6_GAP_MARKER)
    \<and> length (fr_bytes f) < 256 \<and> fr_vad f \<in> {C6_SPEECH, C6_HANGOVER, C6_GAP_MARKER}"
proof (induction fs arbitrary: dc hp v e ts)
  case (Cons x fs)
  obtain f dc' hp' v' e' where "recorded enc dc hp v e ts (x # fs) = f # recorded enc dc' hp' v' e' (ts + 20) fs"
    "(fr_bytes f = [] \<longleftrightarrow> fr_vad f = C6_GAP_MARKER) \<and> length (fr_bytes f) < 256
       \<and> fr_vad f \<in> {C6_SPEECH, C6_HANGOVER, C6_GAP_MARKER}"
    by (rule recorded_step [of enc dc hp v e ts x fs]) (use assms that in blast)
  with Cons.IH show ?case by simp
qed simp

text \<open>
  C22: The producer keeps the ring a contiguous record: with an encoder that does not fail, after any
  frames, paused or not, the ring holds one entry per frame, entry \<open>i\<close> carries the time \<open>20 * i\<close> ms and
  the detector's verdict on the continuously filtered primary channel (a gap while paused), and an
  entry has no bytes exactly when it is a gap.
\<close>

theorem audio_ring_contiguous:
  assumes "encodes enc" and "ring_buffer_init True = Some r" and "length fs < 4294967296"
  shows "\<exists>hs. ring_rel (a_ring (audio_run enc fs (audio_task_init v e r))) hs
    \<and> map fr_vad hs = verdicts dc_blocker_init hpf_init (configured_vad v) fs
    \<and> map fr_ts hs = map (\<lambda>i. of_nat (20 * i)) [0..<length fs]
    \<and> (\<forall>f \<in> set hs. fr_bytes f = [] \<longleftrightarrow> fr_vad f = C6_GAP_MARKER)"
proof -
  let ?st = "audio_task_init v e r"
  have rel: "ring_rel (a_ring ?st) []" using ring_rel_init [OF assms(2)] by (simp add: audio_task_init_def)
  note run = audio_run_recorded [OF assms(1) rel, of fs]
  show ?thesis
    using run assms(3) recorded_verdicts [of enc] recorded_times [of enc _ _ _ _ 0 fs]
      recorded_gaps [OF assms(1)]
    by (intro exI [of _ "recorded enc dc_blocker_init hpf_init (configured_vad v) e 0 fs"])
      (simp add: audio_task_init_def configured_vad_def)
qed

text \<open>An encoder for the witness: one byte for every frame; and the detector's zeroed variable.\<close>

definition zero_vad :: vad where
  "zero_vad = \<lparr>energy_threshold = 0, ratio_threshold = 0, hangover_frames = 0, hangover_left = 0,
     noise_floor = 0, multiplier = 0, floor_min = 0\<rparr>"

definition one_byte :: "unit encoder" where
  "one_byte e pcm = (1, [0], ())"

lemma one_byte_encodes: "encodes one_byte"
  by (simp add: encodes_def one_byte_def)

lemma audio_ring_contiguous_witness:
  "\<exists>r hs. ring_buffer_init True = Some r
     \<and> ring_rel (a_ring (audio_run one_byte (replicate 2 (True, [], []))
           (audio_task_init zero_vad () r))) hs
     \<and> map fr_ts hs = [0, 20]"
proof -
  obtain r where r: "ring_buffer_init True = Some r" by (simp add: ring_buffer_init_def)
  from audio_ring_contiguous [OF one_byte_encodes r, of "replicate 2 (True, [], [])" zero_vad "()"]
  obtain hs where "ring_rel (a_ring (audio_run one_byte (replicate 2 (True, [], []))
           (audio_task_init zero_vad () r))) hs" "map fr_ts hs = map (\<lambda>i. of_nat (20 * i)) [0..<2]"
    by auto
  with r show ?thesis by (auto simp: upt_rec)
qed

section \<open>Pause and errors\<close>

text \<open>
  While capture is paused nothing of the microphones reaches the device's state: the round is
  the same for any two frames, and it keeps the filters, the detector and the encoder as they were.
\<close>

theorem paused_hears_nothing:
  "audio_frame enc True frame st = audio_frame enc True frame' st
   \<and> a_dc (audio_frame enc True frame st) = a_dc st \<and> a_hpf (audio_frame enc True frame st) = a_hpf st
   \<and> a_vad (audio_frame enc True frame st) = a_vad st \<and> a_enc (audio_frame enc True frame st) = a_enc st"
  by (simp add: audio_frame_def split_beta)

text \<open>
  A frame of speech the encoder refuses leaves no entry in the ring although the clock moves on
  by 20 ms: from then on the entries' indices and times no longer agree, and the packets of the
  drainer, which counts frames, have no gap where the frame is missing.
\<close>

theorem encode_error_skips_ring:
  assumes "dc_blocker_process (a_dc st) pri = (p1, dc)" and "hpf_process (a_hpf st) p1 = (p2, hp)"
    and "fst (vad_process_single_adaptive (a_vad st) p2) = C6_SPEECH"
    and "fst (enc (a_enc st) (gain_apply INPUT_GAIN_Q8 p2)) < 0"
  shows "a_ring (audio_frame enc False (pri, ref) st) = a_ring st
    \<and> s_rel_ts_ms (audio_frame enc False (pri, ref) st) = a_rel_ts_ms st + 20"
  using assms
  by (auto simp: audio_frame_def opus_stream_encode_def split_beta Let_def FRAME_MS_def)

end
