(* ===== verification/Executor_Core.thy ===== *)
theory Executor_Core
  imports Complex_Main Config Ble_Replay
begin

text \<open>
  The portable part of the command executor (\<open>main/executor_core.c\<close>): parsing and validation of a
  command's parameters and the window of a replay; and the server's validator
  (\<open>agent/validator_command.py\<close>) the parsing promises to mirror.

  cJSON is a component of the ESP-IDF and not part of the repository: the calls the firmware makes
  are a record of functions on an abstract node type \<open>'n\<close>. A \<open>double\<close> is a rational or an
  infinity; cJSON never produces a NaN from text.
\<close>

section \<open>cJSON and double\<close>

datatype double = Finite rat | Infinite bool

definition double_lt :: "double \<Rightarrow> rat \<Rightarrow> bool" where
  "double_lt d c = (case d of Finite r \<Rightarrow> r < c | Infinite negative \<Rightarrow> negative)"

definition double_gt :: "double \<Rightarrow> rat \<Rightarrow> bool" where
  "double_gt d c = (case d of Finite r \<Rightarrow> r > c | Infinite negative \<Rightarrow> \<not> negative)"

text \<open>\<open>(uint32_t)d\<close> truncates; it is only applied to values between 0 and 600.\<close>

definition double_to_u32 :: "double \<Rightarrow> u32" where
  "double_to_u32 d = (case d of Finite r \<Rightarrow> word_of_int \<lfloor>r\<rfloor> | Infinite negative \<Rightarrow> 0)"

text \<open>
  The calls: \<open>cJSON_IsObject\<close>, the keys of the \<open>child\<close> chain, \<open>cJSON_GetObjectItemCaseSensitive\<close>,
  \<open>cJSON_IsNumber\<close>, \<open>valuedouble\<close>, \<open>cJSON_IsString\<close>, \<open>valuestring\<close> and \<open>cJSON_ParseWithLength\<close>.
\<close>

record 'n cjson =
  IsObject :: "'n \<Rightarrow> bool"
  child_keys :: "'n \<Rightarrow> string list"
  GetObjectItem :: "'n \<Rightarrow> string \<Rightarrow> 'n option"
  IsNumber :: "'n \<Rightarrow> bool"
  valuedouble :: "'n \<Rightarrow> double"
  IsString :: "'n \<Rightarrow> bool"
  valuestring :: "'n \<Rightarrow> string"
  ParseWithLength :: "u8 list \<Rightarrow> 'n option"

section \<open>Parsing and validation\<close>

datatype executor_status = EXEC_OK | EXEC_BAD_PARAMS | EXEC_UNKNOWN_TYPE

datatype cmd_type = CMD_UNKNOWN | CMD_START_AUDIO | CMD_STOP_AUDIO | CMD_REQUEST_BUFFER
  | CMD_CAPTURE_PHOTO | CMD_RECORD_VIDEO | CMD_START_VIDEO | CMD_STOP_VIDEO
  | CMD_FLUSH_SNAPSHOTS | CMD_SET_SNAPSHOT_INTERVAL

record cmd_request =
  cr_type :: cmd_type
  cr_status :: executor_status
  cr_seconds :: u32
  cr_duration_s :: u32
  cr_snapshot_interval_s :: u32

definition params_only_allowed :: "'n cjson \<Rightarrow> 'n option \<Rightarrow> string list \<Rightarrow> bool" where
  "params_only_allowed cj params allowed = (case params of
     None \<Rightarrow> True
   | Some p \<Rightarrow> if \<not> IsObject cj p then True
       else list_all (\<lambda>k. k \<in> set allowed) (child_keys cj p))"

definition get_number :: "'n cjson \<Rightarrow> 'n option \<Rightarrow> string \<Rightarrow> double option" where
  "get_number cj params key = (case params of
     None \<Rightarrow> None
   | Some p \<Rightarrow> (case GetObjectItem cj p key of
        None \<Rightarrow> None
      | Some node \<Rightarrow> if IsNumber cj node then Some (valuedouble cj node) else None))"

definition request0 :: "cmd_type \<Rightarrow> executor_status \<Rightarrow> cmd_request" where
  "request0 t s = \<lparr>cr_type = t, cr_status = s, cr_seconds = 0, cr_duration_s = 0,
     cr_snapshot_interval_s = 0\<rparr>"

text \<open>The two shapes of the branches: a command without parameters, and one with a bounded number.\<close>

definition parse_plain :: "'n cjson \<Rightarrow> 'n option \<Rightarrow> cmd_type \<Rightarrow> cmd_request" where
  "parse_plain cj params t =
     request0 t (if params_only_allowed cj params [] then EXEC_OK else EXEC_BAD_PARAMS)"

definition parse_number ::
  "'n cjson \<Rightarrow> 'n option \<Rightarrow> cmd_type \<Rightarrow> string \<Rightarrow> rat \<Rightarrow> rat
     \<Rightarrow> (u32 \<Rightarrow> cmd_request \<Rightarrow> cmd_request) \<Rightarrow> cmd_request" where
  "parse_number cj params t key lo hi upd =
     (if \<not> params_only_allowed cj params [key] then request0 t EXEC_BAD_PARAMS
      else case get_number cj params key of
        None \<Rightarrow> request0 t EXEC_BAD_PARAMS
      | Some d \<Rightarrow>
          if double_lt d lo \<or> double_gt d hi then request0 t EXEC_BAD_PARAMS
          else upd (double_to_u32 d) (request0 t EXEC_OK))"

definition executor_parse_and_validate :: "'n cjson \<Rightarrow> string \<Rightarrow> 'n option \<Rightarrow> cmd_request" where
  "executor_parse_and_validate cj type params =
     (if type = ''start_audio'' then parse_plain cj params CMD_START_AUDIO
      else if type = ''stop_audio'' then parse_plain cj params CMD_STOP_AUDIO
      else if type = ''capture_photo'' then parse_plain cj params CMD_CAPTURE_PHOTO
      else if type = ''record_video'' then
        parse_number cj params CMD_RECORD_VIDEO ''duration_s'' 1 30
          (\<lambda>v r. r\<lparr>cr_duration_s := v\<rparr>)
      else if type = ''request_buffer'' then
        parse_number cj params CMD_REQUEST_BUFFER ''seconds''
          (of_nat REQ_BUFFER_MIN_SECONDS) (of_nat REQ_BUFFER_MAX_SECONDS)
          (\<lambda>v r. r\<lparr>cr_seconds := v\<rparr>)
      else if type = ''start_video'' then parse_plain cj params CMD_START_VIDEO
      else if type = ''stop_video'' then parse_plain cj params CMD_STOP_VIDEO
      else if type = ''flush_snapshots'' then parse_plain cj params CMD_FLUSH_SNAPSHOTS
      else if type = ''set_snapshot_interval'' then
        parse_number cj params CMD_SET_SNAPSHOT_INTERVAL ''seconds''
          (of_nat SNAPSHOT_INTERVAL_MIN) (of_nat SNAPSHOT_INTERVAL_MAX)
          (\<lambda>v r. r\<lparr>cr_snapshot_interval_s := v\<rparr>)
      else request0 CMD_UNKNOWN EXEC_UNKNOWN_TYPE)"

text \<open>\<open>*start_idx\<close> and \<open>*n\<close>.\<close>

definition replay_window :: "u32 \<Rightarrow> u32 \<Rightarrow> u32 \<times> u32" where
  "replay_window seconds write_idx =
     (let want = seconds * (1000 div of_nat FRAME_MS);
          n1 = (if want > of_nat RING_FRAMES then of_nat RING_FRAMES else want);
          n2 = (if n1 > write_idx then write_idx else n1)
      in (write_idx - n2, n2))"

section \<open>The server's validator (validator_command.py)\<close>

text \<open>A decoded JSON value by its Python type; numbers are the finite ones.\<close>

datatype py_value = PyNumber rat | PyBool bool | PyStr string | PyNone | PyList | PyDict

datatype rejection = UNKNOWN_TYPE | UNKNOWN_PARAM | MISSING_REQUIRED_PARAM | INVALID_PARAM_TYPE
  | PARAM_OUT_OF_RANGE | INVALID_IDEMPOTENCY_KEY

definition ALLOWLIST :: "string list" where
  "ALLOWLIST = [''capture_photo'', ''record_video'', ''start_audio'', ''stop_audio'',
     ''request_buffer'', ''record_audio'', ''start_video'', ''stop_video'', ''flush_snapshots'',
     ''sleep'', ''set_snapshot_interval'']"

text \<open>A schema: the required keys (none is optional) and each number field with its bounds.\<close>

record py_schema =
  sc_required :: "string list"
  sc_fields :: "(string \<times> int \<times> int) list"

definition no_fields :: py_schema where
  "no_fields = \<lparr>sc_required = [], sc_fields = []\<rparr>"

definition one_field :: "string \<Rightarrow> int \<Rightarrow> int \<Rightarrow> py_schema" where
  "one_field key lo hi = \<lparr>sc_required = [key], sc_fields = [(key, lo, hi)]\<rparr>"

definition TYPE_SCHEMAS :: "(string \<times> py_schema) list" where
  "TYPE_SCHEMAS = [
     (''capture_photo'', no_fields),
     (''record_video'', one_field ''duration_s'' 1 30),
     (''start_audio'', no_fields),
     (''stop_audio'', no_fields),
     (''request_buffer'', one_field ''seconds'' 1 60),
     (''record_audio'', one_field ''duration_s'' 1 120),
     (''start_video'', no_fields),
     (''stop_video'', no_fields),
     (''flush_snapshots'', no_fields),
     (''sleep'', no_fields),
     (''set_snapshot_interval'', one_field ''seconds'' 0 600)]"

fun check_fields ::
  "(string \<times> int \<times> int) list \<Rightarrow> (string \<times> py_value) list \<Rightarrow> rejection + (string \<times> py_value) list"
where
  "check_fields [] params = Inr []"
| "check_fields ((key, lo, hi) # fs) params =
     (case map_of params key of
        None \<Rightarrow> check_fields fs params
      | Some (PyNumber v) \<Rightarrow>
          if v < of_int lo \<or> v > of_int hi then Inl PARAM_OUT_OF_RANGE
          else (case check_fields fs params of
                  Inl e \<Rightarrow> Inl e | Inr cleaned \<Rightarrow> Inr ((key, PyNumber v) # cleaned))
      | Some _ \<Rightarrow> Inl INVALID_PARAM_TYPE)"

definition py_validate ::
  "string \<Rightarrow> string \<Rightarrow> (string \<times> py_value) list \<Rightarrow> rejection + (string \<times> py_value) list" where
  "py_validate idempotency_key type params =
     (if idempotency_key = [] then Inl INVALID_IDEMPOTENCY_KEY
      else if type \<notin> set ALLOWLIST then Inl UNKNOWN_TYPE
      else case map_of TYPE_SCHEMAS type of
        None \<Rightarrow> Inl UNKNOWN_TYPE
      | Some schema \<Rightarrow>
          if \<not> list_all (\<lambda>k. k \<in> set (sc_required schema)) (map fst params) then Inl UNKNOWN_PARAM
          else if \<not> list_all (\<lambda>k. k \<in> set (map fst params)) (sc_required schema)
            then Inl MISSING_REQUIRED_PARAM
          else check_fields (sc_fields schema) params)"

section \<open>Agreement of device and server\<close>

text \<open>
  What a parsed node must say when its JSON text is the object \<open>params\<close> (cJSON's documented
  meaning): an object with these keys, lookups by key, and numbers with their value.
\<close>

definition represents :: "'n cjson \<Rightarrow> 'n \<Rightarrow> (string \<times> py_value) list \<Rightarrow> bool" where
  "represents cj n params = (IsObject cj n \<and> child_keys cj n = map fst params
     \<and> (\<forall>k. case map_of params k of
           None \<Rightarrow> GetObjectItem cj n k = None
         | Some v \<Rightarrow> (\<exists>m. GetObjectItem cj n k = Some m \<and>
             (case v of PyNumber r \<Rightarrow> IsNumber cj m \<and> valuedouble cj m = Finite r
              | _ \<Rightarrow> \<not> IsNumber cj m))))"

lemma represents_get:
  assumes "represents cj n params"
  shows "get_number cj (Some n) key =
    (case map_of params key of Some (PyNumber r) \<Rightarrow> Some (Finite r) | _ \<Rightarrow> None)"
proof -
  have "case map_of params key of
      None \<Rightarrow> GetObjectItem cj n key = None
    | Some v \<Rightarrow> (\<exists>m. GetObjectItem cj n key = Some m \<and>
        (case v of PyNumber r \<Rightarrow> IsNumber cj m \<and> valuedouble cj m = Finite r
         | _ \<Rightarrow> \<not> IsNumber cj m))"
    using assms unfolding represents_def by blast
  then show ?thesis
    by (auto simp: get_number_def split: option.splits py_value.splits)
qed

lemma represents_allowed:
  "represents cj n params \<Longrightarrow>
   params_only_allowed cj (Some n) allowed = list_all (\<lambda>k. k \<in> set allowed) (map fst params)"
  by (simp add: params_only_allowed_def represents_def)

text \<open>The server's check of a command with one bounded number, and without parameters.\<close>

lemma check_one_field:
  "(\<exists>c. check_fields [(key, lo, hi)] params = Inr c) \<longleftrightarrow>
   (map_of params key = None \<or> (\<exists>v. map_of params key = Some (PyNumber v) \<and> of_int lo \<le> v \<and> v \<le> of_int hi))"
  by (auto split: option.splits py_value.splits)

lemma parse_plain_status:
  "represents cj n params \<Longrightarrow>
   cr_status (parse_plain cj (Some n) t) = EXEC_OK \<longleftrightarrow> params = []"
  by (cases params) (simp_all add: parse_plain_def request0_def represents_allowed)

lemma parse_number_status:
  assumes "represents cj n params" and "\<And>v r. cr_status (upd v r) = cr_status r"
  shows "cr_status (parse_number cj (Some n) t key lo hi upd) = EXEC_OK \<longleftrightarrow>
    list_all (\<lambda>k. k = key) (map fst params)
    \<and> (\<exists>v. map_of params key = Some (PyNumber v) \<and> lo \<le> v \<and> v \<le> hi)"
  using assms
  by (auto simp: parse_number_def request0_def represents_allowed represents_get double_lt_def
      double_gt_def split: option.splits py_value.splits)

lemma map_of_present: "map_of params key \<noteq> None \<longleftrightarrow> key \<in> set (map fst params)"
  by (auto simp: map_of_eq_None_iff)

lemma validate_plain:
  assumes "key \<noteq> []" and "type \<in> set ALLOWLIST" and "map_of TYPE_SCHEMAS type = Some no_fields"
  shows "(\<exists>c. py_validate key type params = Inr c) \<longleftrightarrow> params = []"
  using assms by (cases params) (simp_all add: py_validate_def no_fields_def)

lemma validate_number:
  assumes "key \<noteq> []" and "type \<in> set ALLOWLIST"
    and "map_of TYPE_SCHEMAS type = Some (one_field k lo hi)"
  shows "(\<exists>c. py_validate key type params = Inr c) \<longleftrightarrow>
    list_all (\<lambda>x. x = k) (map fst params)
    \<and> (\<exists>v. map_of params k = Some (PyNumber v) \<and> of_int lo \<le> v \<and> v \<le> of_int hi)"
proof -
  have "(\<exists>c. py_validate key type params = Inr c) \<longleftrightarrow>
    list_all (\<lambda>x. x = k) (map fst params) \<and> k \<in> set (map fst params)
      \<and> (\<exists>c. check_fields [(k, lo, hi)] params = Inr c)"
    using assms by (simp add: py_validate_def one_field_def)
  then show ?thesis
    unfolding check_one_field map_of_present [symmetric] by auto
qed

text \<open>The nine types both sides know, with the shape of their parameters.\<close>

definition shared_types :: "string list" where
  "shared_types = [''start_audio'', ''stop_audio'', ''capture_photo'', ''record_video'',
     ''request_buffer'', ''start_video'', ''stop_video'', ''flush_snapshots'',
     ''set_snapshot_interval'']"

lemma plain_agree:
  assumes "represents cj n params" and "key \<noteq> []"
    and "type \<in> set ALLOWLIST" and "map_of TYPE_SCHEMAS type = Some no_fields"
    and "executor_parse_and_validate cj type (Some n) = parse_plain cj (Some n) t"
  shows "cr_status (executor_parse_and_validate cj type (Some n)) = EXEC_OK
    \<longleftrightarrow> (\<exists>c. py_validate key type params = Inr c)"
  unfolding assms(5) parse_plain_status [OF assms(1)] validate_plain [OF assms(2-4)] ..

lemma number_agree:
  assumes "represents cj n params" and "key \<noteq> []"
    and "type \<in> set ALLOWLIST" and "map_of TYPE_SCHEMAS type = Some (one_field k lo hi)"
    and "executor_parse_and_validate cj type (Some n)
      = parse_number cj (Some n) t k (of_int lo) (of_int hi) upd"
    and "\<And>v r. cr_status (upd v r) = cr_status r"
  shows "cr_status (executor_parse_and_validate cj type (Some n)) = EXEC_OK
    \<longleftrightarrow> (\<exists>c. py_validate key type params = Inr c)"
  unfolding assms(5) parse_number_status [OF assms(1), of upd, OF assms(6)]
    validate_number [OF assms(2-4)] ..

section \<open>Properties\<close>

text \<open>
  C24: The device's parameter check mirrors the server's: for the nine command types both know and
  any parameter object, the device accepts the command exactly when the server's validator does.
\<close>

theorem executor_mirrors_validator:
  assumes rep: "represents cj n params" and key: "key \<noteq> []" and type: "type \<in> set shared_types"
  shows "cr_status (executor_parse_and_validate cj type (Some n)) = EXEC_OK
    \<longleftrightarrow> (\<exists>cleaned. py_validate key type params = Inr cleaned)"
proof -
  let ?P = "\<lambda>type. cr_status (executor_parse_and_validate cj type (Some n)) = EXEC_OK
    \<longleftrightarrow> (\<exists>cleaned. py_validate key type params = Inr cleaned)"
  note plain = plain_agree [OF rep key] and number = number_agree [OF rep key]
  note defs = ALLOWLIST_def TYPE_SCHEMAS_def executor_parse_and_validate_def config_simps
  have "?P ''start_audio''" by (rule plain [where t = CMD_START_AUDIO]) (simp_all add: defs)
  moreover have "?P ''stop_audio''" by (rule plain [where t = CMD_STOP_AUDIO]) (simp_all add: defs)
  moreover have "?P ''capture_photo''"
    by (rule plain [where t = CMD_CAPTURE_PHOTO]) (simp_all add: defs)
  moreover have "?P ''start_video''" by (rule plain [where t = CMD_START_VIDEO]) (simp_all add: defs)
  moreover have "?P ''stop_video''" by (rule plain [where t = CMD_STOP_VIDEO]) (simp_all add: defs)
  moreover have "?P ''flush_snapshots''"
    by (rule plain [where t = CMD_FLUSH_SNAPSHOTS]) (simp_all add: defs)
  moreover have "?P ''record_video''"
    by (rule number [where t = CMD_RECORD_VIDEO and upd = "\<lambda>v r. r\<lparr>cr_duration_s := v\<rparr>"
          and k = "''duration_s''" and lo = 1 and hi = 30]) (simp_all add: defs)
  moreover have "?P ''request_buffer''"
    by (rule number [where t = CMD_REQUEST_BUFFER and upd = "\<lambda>v r. r\<lparr>cr_seconds := v\<rparr>"
          and k = "''seconds''" and lo = 1 and hi = 60]) (simp_all add: defs)
  moreover have "?P ''set_snapshot_interval''"
    by (rule number [where t = CMD_SET_SNAPSHOT_INTERVAL
          and upd = "\<lambda>v r. r\<lparr>cr_snapshot_interval_s := v\<rparr>"
          and k = "''seconds''" and lo = 0 and hi = 600]) (simp_all add: defs)
  ultimately have "list_all ?P shared_types"
    by (simp only: shared_types_def list.pred_inject simp_thms)
  with type show ?thesis by (simp only: list_all_iff)
qed

text \<open>A concrete reader for the witnesses: a node is an object or a value.\<close>

definition doc_cjson :: "((string \<times> py_value) list + py_value) cjson" where
  "doc_cjson = \<lparr>
     IsObject = (\<lambda>n. case n of Inl ps \<Rightarrow> True | Inr v \<Rightarrow> False),
     child_keys = (\<lambda>n. case n of Inl ps \<Rightarrow> map fst ps | Inr v \<Rightarrow> []),
     GetObjectItem = (\<lambda>n k. case n of Inl ps \<Rightarrow> map_option Inr (map_of ps k) | Inr v \<Rightarrow> None),
     IsNumber = (\<lambda>n. case n of Inr (PyNumber r) \<Rightarrow> True | _ \<Rightarrow> False),
     valuedouble = (\<lambda>n. case n of Inr (PyNumber r) \<Rightarrow> Finite r | _ \<Rightarrow> Finite 0),
     IsString = (\<lambda>n. case n of Inr (PyStr s) \<Rightarrow> True | _ \<Rightarrow> False),
     valuestring = (\<lambda>n. case n of Inr (PyStr s) \<Rightarrow> s | _ \<Rightarrow> []),
     ParseWithLength = (\<lambda>bs. None)\<rparr>"

lemma doc_cjson_represents: "represents doc_cjson (Inl params) params"
  by (auto simp: represents_def doc_cjson_def split: option.splits py_value.splits)

theorem executor_mirrors_validator_witness:
  "cr_status (executor_parse_and_validate doc_cjson ''request_buffer''
      (Some (Inl [(''seconds'', PyNumber 30)]))) = EXEC_OK
   \<longleftrightarrow> (\<exists>cleaned. py_validate ''k1'' ''request_buffer'' [(''seconds'', PyNumber 30)] = Inr cleaned)"
  by (rule executor_mirrors_validator [OF doc_cjson_represents]) (simp_all add: shared_types_def)

lemma double_to_u32_bounds:
  assumes "\<not> double_lt d (of_nat lo)" and "\<not> double_gt d (of_nat hi)" and "hi < 4294967296"
  shows "lo \<le> unat (double_to_u32 d)" and "unat (double_to_u32 d) \<le> hi"
proof -
  from assms obtain r where d: "d = Finite r" and r: "of_nat lo \<le> r" "r \<le> of_nat hi"
    by (cases d) (auto simp: double_lt_def double_gt_def)
  have "int lo \<le> \<lfloor>r\<rfloor>" using r(1) by (simp add: le_floor_iff)
  moreover have "\<lfloor>r\<rfloor> \<le> int hi" using floor_mono [OF r(2)] by simp
  ultimately have "0 \<le> \<lfloor>r\<rfloor>" and "\<lfloor>r\<rfloor> < 4294967296"
    using assms(3) by linarith+
  then have "\<lfloor>r\<rfloor> mod 4294967296 = \<lfloor>r\<rfloor>" by (rule mod_pos_pos_trivial)
  then have "unat (double_to_u32 d) = nat \<lfloor>r\<rfloor>"
    by (simp add: d double_to_u32_def unat_eq_nat_uint uint_word_of_int)
  with \<open>int lo \<le> \<lfloor>r\<rfloor>\<close> \<open>\<lfloor>r\<rfloor> \<le> int hi\<close> show "lo \<le> unat (double_to_u32 d)"
    "unat (double_to_u32 d) \<le> hi" by simp_all
qed

lemma parse_number_cases:
  assumes "cr_status (parse_number cj params t key (of_nat lo) (of_nat hi) upd) = EXEC_OK"
    and "hi < 4294967296"
  shows "\<exists>v. parse_number cj params t key (of_nat lo) (of_nat hi) upd = upd v (request0 t EXEC_OK)
    \<and> lo \<le> unat v \<and> unat v \<le> hi"
  using assms double_to_u32_bounds [OF _ _ assms(2), of _ lo]
  by (auto simp: parse_number_def request0_def split: option.splits if_splits)

definition plain_types :: "cmd_type list" where
  "plain_types = [CMD_START_AUDIO, CMD_STOP_AUDIO, CMD_CAPTURE_PHOTO, CMD_START_VIDEO,
     CMD_STOP_VIDEO, CMD_FLUSH_SNAPSHOTS]"

lemma executor_parse_cases:
  assumes "\<And>t. t \<in> set plain_types \<Longrightarrow> P (parse_plain cj params t)"
    and "P (parse_number cj params CMD_RECORD_VIDEO ''duration_s'' (of_nat 1) (of_nat 30)
        (\<lambda>v r. r\<lparr>cr_duration_s := v\<rparr>))"
    and "P (parse_number cj params CMD_REQUEST_BUFFER ''seconds'' (of_nat 1) (of_nat 60)
        (\<lambda>v r. r\<lparr>cr_seconds := v\<rparr>))"
    and "P (parse_number cj params CMD_SET_SNAPSHOT_INTERVAL ''seconds'' (of_nat 0) (of_nat 600)
        (\<lambda>v r. r\<lparr>cr_snapshot_interval_s := v\<rparr>))"
    and "P (request0 CMD_UNKNOWN EXEC_UNKNOWN_TYPE)"
  shows "P (executor_parse_and_validate cj type params)"
  using assms by (simp add: executor_parse_and_validate_def plain_types_def config_simps)

text \<open>
  An accepted request carries a value inside its bounds, whatever cJSON returns: a replay of 1
  to 60 seconds, a clip of 1 to 30 seconds, a snapshot interval of at most 600 seconds; the other
  fields are zero.
\<close>

theorem executor_parse_bounds:
  assumes "cr_status (executor_parse_and_validate cj type params) = EXEC_OK"
    and "r = executor_parse_and_validate cj type params"
  shows "(if cr_type r = CMD_REQUEST_BUFFER then 1 \<le> unat (cr_seconds r) \<and> unat (cr_seconds r) \<le> 60
          else cr_seconds r = 0)
    \<and> (if cr_type r = CMD_RECORD_VIDEO then 1 \<le> unat (cr_duration_s r) \<and> unat (cr_duration_s r) \<le> 30
       else cr_duration_s r = 0)
    \<and> (if cr_type r = CMD_SET_SNAPSHOT_INTERVAL then unat (cr_snapshot_interval_s r) \<le> 600
       else cr_snapshot_interval_s r = 0)
    \<and> cr_type r \<noteq> CMD_UNKNOWN"
  using assms(1) unfolding assms(2)
proof (induction rule: executor_parse_cases [case_names plain video buffer interval unknown])
  case (plain t)
  then show ?case by (auto simp: parse_plain_def request0_def plain_types_def)
next
  case video
  from parse_number_cases [OF this] show ?case by (auto simp: request0_def)
next
  case buffer
  from parse_number_cases [OF this] show ?case by (auto simp: request0_def)
next
  case interval
  from parse_number_cases [OF this] show ?case by (auto simp: request0_def)
next
  case unknown
  then show ?case by (simp add: request0_def)
qed

theorem executor_parse_bounds_witness:
  "unat (cr_seconds (executor_parse_and_validate doc_cjson ''request_buffer''
      (Some (Inl [(''seconds'', PyNumber 30)])))) \<le> 60"
proof -
  let ?r = "executor_parse_and_validate doc_cjson ''request_buffer''
      (Some (Inl [(''seconds'', PyNumber 30)]))"
  have ok: "cr_status ?r = EXEC_OK" and "cr_type ?r = CMD_REQUEST_BUFFER"
    by (simp_all add: executor_parse_and_validate_def parse_number_def params_only_allowed_def
        get_number_def doc_cjson_def double_lt_def double_gt_def request0_def config_simps)
  with executor_parse_bounds [OF ok refl] show ?thesis by simp
qed

text \<open>
  The window helper of the executor and the window the drainer computes for itself agree for
  every request and ring state, and the window lies inside the ring: it ends at the write index,
  starts at or after 0 and holds at most 3000 frames.
\<close>

theorem replay_window_agrees:
  "replay_window seconds write_idx
     = (write_idx - replay_frames seconds write_idx, replay_frames seconds write_idx)"
  "replay_frames seconds write_idx \<le> write_idx \<and> replay_frames seconds write_idx \<le> of_nat RING_FRAMES"
  by (auto simp: replay_window_def replay_frames_def Let_def)

end
