(* ===== verification/Commands.thy ===== *)
theory Commands
  imports Executor_Core
begin

text \<open>
  Device commands (\<open>main/commands.c\<close>): verify the signature, parse, deduplicate by id, submit to the
  executor's queue (\<open>executor_submit\<close>, \<open>executor_dispatch_local\<close> of \<open>main/executor.c\<close>), acknowledge.

  Outside the repository: libsodium's verification \<open>verify sig payload key\<close>, cJSON (\<open>cj\<close>) and the
  FreeRTOS queue, whose \<open>xQueueSend\<close> without waiting is \<open>send req q\<close>: whether it was accepted and the
  new queue. C strings are their characters before the NUL.
\<close>

section \<open>The executor's queue (executor.c)\<close>

type_synonym 'q sender = "cmd_request \<Rightarrow> 'q \<Rightarrow> bool \<times> 'q"

definition executor_submit ::
  "'n cjson \<Rightarrow> 'q sender \<Rightarrow> string \<Rightarrow> 'n option \<Rightarrow> 'q \<Rightarrow> bool \<times> 'q" where
  "executor_submit cj send type params q = send (executor_parse_and_validate cj type params) q"

definition executor_dispatch_local :: "'q sender \<Rightarrow> cmd_request option \<Rightarrow> 'q \<Rightarrow> bool \<times> 'q" where
  "executor_dispatch_local send req q = (case req of
     None \<Rightarrow> (False, q)
   | Some r \<Rightarrow> if cr_status r \<noteq> EXEC_OK then (False, q) else send r q)"

section \<open>State\<close>

definition ED25519_SIG_LEN :: nat where
  "ED25519_SIG_LEN = 64"

definition CMD_DEDUPE_N :: nat where
  "CMD_DEDUPE_N = 16"

definition CMD_ID_MAX :: nat where
  "CMD_ID_MAX = 64"

record commands_state =
  s_pubkey :: "u8 list"
  s_ack :: bool
  s_seen :: "string list"
  s_seen_head :: nat

text \<open>\<open>ack\<close> says whether a sink was given; \<open>sodium_ok\<close> is libsodium's initialisation.\<close>

definition commands_init :: "bool \<Rightarrow> u8 list \<Rightarrow> bool \<Rightarrow> commands_state option" where
  "commands_init sodium_ok server_pubkey ack =
     (if \<not> sodium_ok then None
      else Some \<lparr>s_pubkey = take 32 server_pubkey, s_ack = ack,
                 s_seen = replicate CMD_DEDUPE_N [], s_seen_head = 0\<rparr>)"

definition commands_set_pubkey :: "u8 list \<Rightarrow> commands_state \<Rightarrow> commands_state" where
  "commands_set_pubkey server_pubkey s = s\<lparr>s_pubkey := take 32 server_pubkey\<rparr>"

section \<open>Operations\<close>

definition already_seen :: "string \<Rightarrow> commands_state \<Rightarrow> bool" where
  "already_seen cid s = list_ex (\<lambda>slot. strncmp_eq slot cid CMD_ID_MAX) (s_seen s)"

text \<open>\<open>snprintf(slot, CMD_ID_MAX, "%s", id)\<close> keeps at most 63 characters.\<close>

definition remember :: "string \<Rightarrow> commands_state \<Rightarrow> commands_state" where
  "remember cid s = s\<lparr>s_seen := (s_seen s)[s_seen_head s := take (CMD_ID_MAX - 1) cid],
     s_seen_head := Suc (s_seen_head s) mod CMD_DEDUPE_N\<rparr>"

definition ack :: "commands_state \<Rightarrow> string \<Rightarrow> string list" where
  "ack s cid = (if s_ack s then [cid] else [])"

definition execute :: "'n cjson \<Rightarrow> 'q sender \<Rightarrow> string \<Rightarrow> 'n \<Rightarrow> 'q \<Rightarrow> bool \<times> 'q" where
  "execute cj send type doc q = executor_submit cj send type (GetObjectItem cj doc ''params'') q"

text \<open>The payload's id and type, when the frame verifies and parses.\<close>

definition string_item :: "'n cjson \<Rightarrow> 'n \<Rightarrow> string \<Rightarrow> string option" where
  "string_item cj doc key = (case GetObjectItem cj doc key of
     None \<Rightarrow> None
   | Some n \<Rightarrow> if IsString cj n then Some (valuestring cj n) else None)"

definition commands_handle ::
  "(u8 list \<Rightarrow> u8 list \<Rightarrow> u8 list \<Rightarrow> bool) \<Rightarrow> 'n cjson \<Rightarrow> 'q sender \<Rightarrow> u8 list
     \<Rightarrow> commands_state \<Rightarrow> 'q \<Rightarrow> string list \<times> commands_state \<times> 'q" where
  "commands_handle verify cj send data s q =
     (if length data \<le> ED25519_SIG_LEN then ([], s, q)
      else let sig = take ED25519_SIG_LEN data; payload = drop ED25519_SIG_LEN data in
      if \<not> verify sig payload (s_pubkey s) then ([], s, q)
      else case ParseWithLength cj payload of
        None \<Rightarrow> ([], s, q)
      | Some doc \<Rightarrow>
          (case (string_item cj doc ''command_id'', string_item cj doc ''type'') of
             (Some cid, Some type) \<Rightarrow>
               if already_seen cid s then (ack s cid, s, q)
               else
                 (let s' = remember cid s; (accepted, q') = execute cj send type doc q
                  in (if accepted then ack s' cid else [], s', q'))
           | _ \<Rightarrow> ([], s, q)))"

text \<open>A sequence of command writes: all acknowledgements, the final state and queue.\<close>

fun handle_all ::
  "(u8 list \<Rightarrow> u8 list \<Rightarrow> u8 list \<Rightarrow> bool) \<Rightarrow> 'n cjson \<Rightarrow> 'q sender \<Rightarrow> u8 list list
     \<Rightarrow> commands_state \<Rightarrow> 'q \<Rightarrow> string list \<times> commands_state \<times> 'q" where
  "handle_all verify cj send [] s q = ([], s, q)"
| "handle_all verify cj send (f # fs) s q =
     (let (as, s', q') = commands_handle verify cj send f s q;
          (bs, s'', q'') = handle_all verify cj send fs s' q'
      in (as @ bs, s'', q''))"

section \<open>The frame and the deduplication ring\<close>

text \<open>A frame that reaches the deduplication, with its id and type.\<close>

definition command_frame ::
  "(u8 list \<Rightarrow> u8 list \<Rightarrow> u8 list \<Rightarrow> bool) \<Rightarrow> 'n cjson \<Rightarrow> u8 list \<Rightarrow> u8 list \<Rightarrow> string \<Rightarrow> string \<Rightarrow> 'n
     \<Rightarrow> bool" where
  "command_frame verify cj key data cid type doc =
     (length data > ED25519_SIG_LEN
      \<and> verify (take ED25519_SIG_LEN data) (drop ED25519_SIG_LEN data) key
      \<and> ParseWithLength cj (drop ED25519_SIG_LEN data) = Some doc
      \<and> string_item cj doc ''command_id'' = Some cid \<and> string_item cj doc ''type'' = Some type)"

lemma handle_frame:
  assumes "command_frame verify cj (s_pubkey s) data cid type doc"
  shows "commands_handle verify cj send data s q =
     (if already_seen cid s then (ack s cid, s, q)
      else let (accepted, q') = execute cj send type doc q
           in (if accepted then ack (remember cid s) cid else [], remember cid s, q'))"
  using assms by (simp add: command_frame_def commands_handle_def Let_def split_beta)

lemma handle_other:
  assumes "\<And>cid type doc. \<not> command_frame verify cj (s_pubkey s) data cid type doc"
  shows "commands_handle verify cj send data s q = ([], s, q)"
  using assms by (auto simp: command_frame_def commands_handle_def Let_def split: option.splits)

lemma handle_cases [case_names drop frame]:
  obtains "commands_handle verify cj send data s q = ([], s, q)"
  | cid type doc where "command_frame verify cj (s_pubkey s) data cid type doc"
  using handle_other by metis

definition seen_ok :: "commands_state \<Rightarrow> bool" where
  "seen_ok s = (length (s_seen s) = CMD_DEDUPE_N \<and> s_seen_head s < CMD_DEDUPE_N)"

lemma seen_ok_init: "commands_init ok key a = Some s \<Longrightarrow> seen_ok s"
  by (auto simp: commands_init_def seen_ok_def CMD_DEDUPE_N_def split: if_splits)

lemma seen_ok_remember: "seen_ok s \<Longrightarrow> seen_ok (remember cid s)"
  by (simp add: seen_ok_def remember_def CMD_DEDUPE_N_def)

lemma remember_key [simp]: "s_pubkey (remember cid s) = s_pubkey s"
  by (simp add: remember_def)

lemma handle_key [simp]:
  "s_pubkey (fst (snd (commands_handle verify cj send data s q))) = s_pubkey s"
  by (cases rule: handle_cases [where verify = verify and cj = cj and s = s and data = data and send = send and q = q])
    (auto simp: handle_frame split_beta Let_def)

text \<open>
  A remembered id stays for fifteen more: it is in the slot \<open>a\<close> steps behind the head.
\<close>

definition seen_at :: "nat \<Rightarrow> string \<Rightarrow> commands_state \<Rightarrow> bool" where
  "seen_at a cid s = (s_seen s ! ((s_seen_head s + CMD_DEDUPE_N - Suc a) mod CMD_DEDUPE_N) = cid)"

lemma seen_at_remember:
  assumes "seen_ok s" and "length cid < CMD_ID_MAX"
  shows "seen_at 0 cid (remember cid s)"
proof -
  have "(Suc (s_seen_head s) mod 16 + 16 - Suc 0) mod 16 = s_seen_head s" if "s_seen_head s < 16"
    using that by (cases "s_seen_head s = 15") (simp_all add: mod_Suc)
  with assms show ?thesis
    by (simp add: seen_at_def remember_def seen_ok_def CMD_DEDUPE_N_def CMD_ID_MAX_def)
qed

lemma seen_at_older:
  assumes "seen_ok s" and "seen_at a cid s" and "Suc a < CMD_DEDUPE_N"
  shows "seen_at (Suc a) cid (remember other s)"
proof -
  let ?h = "s_seen_head s"
  have h: "?h < 16" "a < 15" using assms by (simp_all add: seen_ok_def CMD_DEDUPE_N_def)
  have "(Suc ?h mod 16 + 16 - Suc (Suc a)) mod 16 = (?h + 16 - Suc a) mod 16"
    using h by (cases "?h = 15") (simp_all add: mod_Suc mod_if)
  moreover have "(?h + 16 - Suc a) mod 16 \<noteq> ?h"
    using h by (cases "a < ?h") (auto simp: mod_if)
  ultimately show ?thesis
    using assms(2) by (simp add: seen_at_def remember_def CMD_DEDUPE_N_def)
qed

lemma seen_at_already_seen:
  assumes "seen_ok s" and "seen_at a cid s"
  shows "already_seen cid s"
proof -
  have "cid \<in> set (s_seen s)"
    using assms by (auto simp: seen_at_def seen_ok_def CMD_DEDUPE_N_def intro!: nth_mem)
  then show ?thesis by (auto simp: already_seen_def list_ex_iff strncmp_eq_def)
qed

text \<open>Handling a frame keeps the ring well formed and ages a remembered id by at most one.\<close>

lemma handle_seen:
  assumes "seen_ok s" and "seen_at a cid s" and "Suc a < CMD_DEDUPE_N"
    and "commands_handle verify cj send f s q = (as, s', q')"
  shows "seen_ok s' \<and> s_pubkey s' = s_pubkey s \<and> (\<exists>b. b \<le> Suc a \<and> seen_at b cid s')"
proof (cases rule: handle_cases [of verify cj send f s q])
  case drop
  with assms show ?thesis by (auto intro!: exI [of _ a])
next
  case (frame other type doc)
  show ?thesis
  proof (cases "already_seen other s")
    case True
    with assms handle_frame [OF frame, of send q] show ?thesis by (auto intro!: exI [of _ a])
  next
    case False
    with assms(4) have "s' = remember other s"
      by (auto simp: handle_frame [OF frame] Let_def split: prod.splits)
    with assms seen_at_older seen_ok_remember show ?thesis by auto
  qed
qed

lemma handle_all_seen:
  assumes "seen_ok s" and "seen_at a cid s" and "a + length fs < CMD_DEDUPE_N"
    and "handle_all verify cj send fs s q = (as, s', q')"
  shows "seen_ok s' \<and> s_pubkey s' = s_pubkey s \<and> (\<exists>b. seen_at b cid s')"
  using assms
proof (induction fs arbitrary: a s q as)
  case (Cons f fs)
  obtain as1 s1 q1 where step: "commands_handle verify cj send f s q = (as1, s1, q1)"
    by (rule prod_cases3)
  from handle_seen [OF Cons.prems(1,2) _ step] Cons.prems(3) obtain b where
    b: "b \<le> Suc a" "seen_at b cid s1" "seen_ok s1" "s_pubkey s1 = s_pubkey s" by auto
  obtain as2 where "handle_all verify cj send fs s1 q1 = (as2, s', q')"
    using Cons.prems(4) by (auto simp: step split: prod.splits)
  from Cons.IH [OF b(3,2) _ this] b Cons.prems(3) show ?case by simp
qed auto

section \<open>Properties\<close>

text \<open>
  Nothing unsigned has an effect: a write whose signature does not verify under the trusted
  server key, or that is too short to hold one, changes neither the state nor the executor's queue
  and is not acknowledged.
\<close>

theorem unsigned_command_ignored:
  assumes "length data \<le> 64 \<or> \<not> verify (take 64 data) (drop 64 data) (s_pubkey s)"
  shows "commands_handle verify cj send data s q = ([], s, q)"
  using assms by (auto simp: commands_handle_def ED25519_SIG_LEN_def Let_def)

theorem unsigned_command_ignored_witness:
  "commands_handle (\<lambda>sig payload key. hd sig = 7) cj send (replicate 100 0) s q = ([], s, q)"
  by (rule unsigned_command_ignored) simp

text \<open>
  C23: A command is executed at most once within the deduplication window: after the write that
  executed it and up to fifteen further writes of any kind, the same write is acknowledged again but
  neither executed nor remembered again, for ids of at most 63 characters.
\<close>

theorem command_executed_once:
  assumes "seen_ok s" and "command_frame verify cj (s_pubkey s) f cid type doc"
    and "\<not> already_seen cid s" and "length cid < 64" and "length fs \<le> 15"
    and "handle_all verify cj send (f # fs) s q = (as, s', q')"
  shows "commands_handle verify cj send f s' q' = (ack s' cid, s', q')"
proof -
  obtain as1 s1 q1 where step: "commands_handle verify cj send f s q = (as1, s1, q1)"
    by (rule prod_cases3)
  then have s1: "s1 = remember cid s"
    using assms(3) by (auto simp: handle_frame [OF assms(2)] Let_def split: prod.splits)
  obtain as2 where rest: "handle_all verify cj send fs s1 q1 = (as2, s', q')"
    using assms(6) by (auto simp: step split: prod.splits)
  have "seen_ok s1" "seen_at 0 cid s1"
    using assms(1,4) by (simp_all add: s1 seen_ok_remember seen_at_remember CMD_ID_MAX_def)
  from handle_all_seen [OF this _ rest] assms(5) obtain b where
    "seen_at b cid s'" "seen_ok s'" "s_pubkey s' = s_pubkey s"
    by (auto simp: CMD_DEDUPE_N_def s1)
  with seen_at_already_seen assms(2) show ?thesis by (simp add: handle_frame)
qed

text \<open>
  A concrete signed command for the witnesses: any 64 bytes verify, and every payload is the object
  \<open>{"command_id": cid, "type": "start_audio"}\<close>.
\<close>

definition one_command :: "string \<Rightarrow> ((string \<times> py_value) list + py_value) cjson" where
  "one_command cid = doc_cjson\<lparr>ParseWithLength := (\<lambda>bs. Some (Inl
     [(''command_id'', PyStr cid), (''type'', PyStr ''start_audio'')]))\<rparr>"

lemma one_command_frame:
  "command_frame (\<lambda>sig payload key. True) (one_command cid) key (replicate 70 0) cid ''start_audio''
     (Inl [(''command_id'', PyStr cid), (''type'', PyStr ''start_audio'')])"
  by (simp add: command_frame_def one_command_def doc_cjson_def string_item_def ED25519_SIG_LEN_def)

lemma one_command_execute:
  "execute (one_command cid) send ''start_audio''
     (Inl [(''command_id'', PyStr cid), (''type'', PyStr ''start_audio'')]) q
   = send (request0 CMD_START_AUDIO EXEC_OK) q"
  by (simp add: execute_def executor_submit_def one_command_def doc_cjson_def
      executor_parse_and_validate_def parse_plain_def params_only_allowed_def)

definition start_state :: commands_state where
  "start_state = \<lparr>s_pubkey = [], s_ack = True, s_seen = replicate 16 [], s_seen_head = 0\<rparr>"

theorem command_executed_once_witness:
  "let (as, s', q') = handle_all (\<lambda>sig payload key. True) (one_command ''c1'')
         (\<lambda>r q. (True, q @ [r])) [replicate 70 0, replicate 70 0] start_state []
   in commands_handle (\<lambda>sig payload key. True) (one_command ''c1'') (\<lambda>r q. (True, q @ [r]))
        (replicate 70 0) s' q' = (ack s' ''c1'', s', q')"
proof -
  have new: "seen_ok start_state" "\<not> already_seen ''c1'' start_state"
    by (simp_all add: seen_ok_def start_state_def CMD_DEDUPE_N_def already_seen_def strncmp_eq_def
        CMD_ID_MAX_def list_ex_iff)
  obtain as s' q' where run: "handle_all (\<lambda>sig payload key. True) (one_command ''c1'')
         (\<lambda>r q. (True, q @ [r])) [replicate 70 0, replicate 70 0] start_state [] = (as, s', q')"
    by (rule prod_cases3)
  from command_executed_once [OF new(1) one_command_frame new(2) _ _ run] show ?thesis
    by (simp only: run Let_def case_prod_conv) simp
qed

text \<open>
  An id of 64 or more characters defeats the deduplication: it is stored cut to 63 characters
  but compared over 64, so the same write is executed every time it arrives.
\<close>

theorem long_id_executed_again:
  assumes "command_frame verify cj (s_pubkey s) f cid type doc" and "length cid \<ge> 64"
    and "\<forall>slot \<in> set (s_seen s). length slot < 64"
  shows "snd (snd (commands_handle verify cj send f s q)) = snd (execute cj send type doc q)"
    and "\<forall>slot \<in> set (s_seen (fst (snd (commands_handle verify cj send f s q)))). length slot < 64"
proof -
  have "\<not> already_seen cid s"
    using assms(2,3) by (auto simp: already_seen_def list_ex_iff strncmp_eq_def CMD_ID_MAX_def
        dest!: arg_cong [where f = length])
  with assms(1) show "snd (snd (commands_handle verify cj send f s q)) = snd (execute cj send type doc q)"
    by (simp add: handle_frame split_beta Let_def)
  show "\<forall>slot \<in> set (s_seen (fst (snd (commands_handle verify cj send f s q)))). length slot < 64"
    using \<open>\<not> already_seen cid s\<close> assms(1,3) set_update_subset_insert [of "s_seen s"]
    by (fastforce simp: handle_frame split_beta Let_def remember_def CMD_ID_MAX_def)
qed

theorem long_id_executed_again_witness:
  "snd (snd (commands_handle (\<lambda>sig payload key. True) (one_command (replicate 64 CHR ''a''))
      (\<lambda>r q. (True, q @ [r])) (replicate 70 0)
      (fst (snd (commands_handle (\<lambda>sig payload key. True) (one_command (replicate 64 CHR ''a''))
        (\<lambda>r q. (True, q @ [r])) (replicate 70 0) start_state []))) [request0 CMD_START_AUDIO EXEC_OK]))
   = [request0 CMD_START_AUDIO EXEC_OK, request0 CMD_START_AUDIO EXEC_OK]"
proof -
  let ?cj = "one_command (replicate 64 CHR ''a'')" and ?send = "\<lambda>r q. (True, q @ [r])"
  let ?s = "fst (snd (commands_handle (\<lambda>sig payload key. True) ?cj ?send (replicate 70 0) start_state []))"
  have "\<forall>slot \<in> set (s_seen ?s). length slot < 64"
    by (rule long_id_executed_again(2) [OF one_command_frame]) (simp_all add: start_state_def)
  then show ?thesis
    by (subst long_id_executed_again(1) [OF one_command_frame]) (simp_all add: one_command_execute)
qed

text \<open>
  A command lost to a full executor queue is acknowledged without ever being executed: its id
  is remembered before the queue refuses it, so the server's re-issue of the unacknowledged command
  is taken for a duplicate.
\<close>

theorem refused_command_acked_later:
  assumes "seen_ok s" and "command_frame verify cj (s_pubkey s) f cid type doc"
    and "\<not> already_seen cid s" and "length cid < 64"
    and "send (executor_parse_and_validate cj type (GetObjectItem cj doc ''params'')) q = (False, q)"
  shows "commands_handle verify cj send f s q = ([], remember cid s, q)
    \<and> commands_handle verify cj send' f (remember cid s) q = (ack s cid, remember cid s, q)"
proof -
  have "already_seen cid (remember cid s)"
    using seen_at_already_seen [OF seen_ok_remember seen_at_remember] assms(1,4)
    by (simp add: CMD_ID_MAX_def)
  with assms show ?thesis
    by (simp add: handle_frame execute_def executor_submit_def ack_def remember_def)
qed

theorem refused_command_acked_later_witness:
  "commands_handle (\<lambda>sig payload key. True) (one_command ''c1'') (\<lambda>r q. (False, q))
      (replicate 70 0) start_state ([] :: cmd_request list) = ([], remember ''c1'' start_state, [])
   \<and> commands_handle (\<lambda>sig payload key. True) (one_command ''c1'') (\<lambda>r q. (True, q @ [r]))
      (replicate 70 0) (remember ''c1'' start_state) [] = ([''c1''], remember ''c1'' start_state, [])"
proof -
  have "seen_ok start_state" "\<not> already_seen ''c1'' start_state"
    by (simp_all add: seen_ok_def start_state_def CMD_DEDUPE_N_def already_seen_def strncmp_eq_def
        CMD_ID_MAX_def list_ex_iff)
  from refused_command_acked_later [OF this(1) one_command_frame this(2), where q = "[]"
      and send = "\<lambda>r q. (False, q)" and send' = "\<lambda>r q. (True, q @ [r])"] show ?thesis
    by (simp add: ack_def start_state_def)
qed

end
