(* ===== verification/Provisioning.thy ===== *)
theory Provisioning
  imports Commands
begin

text \<open>
  Provisioning of the trusted server key: the state machine (\<open>main/provisioning_core.c\<close>) over a
  store with three operations, the store backed by NVS and the GATT callbacks
  (\<open>main/provisioning.c\<close>).

  ESP-IDF's NVS is outside the repository: its calls are a record of functions on the flash state
  \<open>'m\<close>, and what the properties need of it is the predicate \<open>nvs_laws\<close>.
\<close>

section \<open>The state machine (provisioning_core.c)\<close>

datatype prov_state = PROV_UNPROVISIONED | PROV_PROVISIONED

text \<open>
  \<open>get\<close> is \<open>None\<close> when it returns non-zero, else the key and the flag; \<open>set\<close> and \<open>clear\<close> say
  whether they returned 0.
\<close>

record 'm prov_store =
  st_get :: "'m \<Rightarrow> (u8 list \<times> u8) option"
  st_set :: "u8 list \<Rightarrow> 'm \<Rightarrow> bool \<times> 'm"
  st_clear :: "'m \<Rightarrow> bool \<times> 'm"

record prov_core =
  s_state :: prov_state
  s_key :: "u8 list"

definition zero_key :: "u8 list" where
  "zero_key = replicate 32 0"

definition provisioning_core_init :: "'m prov_store \<Rightarrow> 'm \<Rightarrow> prov_core" where
  "provisioning_core_init store m = (case st_get store m of
     None \<Rightarrow> \<lparr>s_state = PROV_UNPROVISIONED, s_key = zero_key\<rparr>
   | Some (key, provisioned) \<Rightarrow>
       if provisioned \<noteq> 0 then \<lparr>s_state = PROV_PROVISIONED, s_key = key\<rparr>
       else \<lparr>s_state = PROV_UNPROVISIONED, s_key = zero_key\<rparr>)"

definition provisioning_core_state :: "prov_core \<Rightarrow> prov_state" where
  "provisioning_core_state c = s_state c"

definition provisioning_core_apply_key ::
  "'m prov_store \<Rightarrow> u8 list \<Rightarrow> prov_core \<Rightarrow> 'm \<Rightarrow> int \<times> prov_core \<times> 'm" where
  "provisioning_core_apply_key store key c m =
     (if s_state c = PROV_PROVISIONED then (- 1, c, m)
      else let (ok, m') = st_set store key m in
        if \<not> ok then (- 1, c, m')
        else (0, \<lparr>s_state = PROV_PROVISIONED, s_key = key\<rparr>, m'))"

definition provisioning_core_factory_reset ::
  "'m prov_store \<Rightarrow> prov_core \<Rightarrow> 'm \<Rightarrow> int \<times> prov_core \<times> 'm" where
  "provisioning_core_factory_reset store c m =
     (let (ok, m') = st_clear store m in
      if \<not> ok then (- 1, c, m')
      else (0, \<lparr>s_state = PROV_UNPROVISIONED, s_key = zero_key\<rparr>, m'))"

definition provisioning_core_server_key :: "prov_core \<Rightarrow> u8 list" where
  "provisioning_core_server_key c = s_key c"

section \<open>The store on NVS (provisioning.c)\<close>

record 'm nvs_api =
  nvs_open_ro :: "'m \<Rightarrow> bool"
  nvs_open_rw :: "'m \<Rightarrow> bool \<times> 'm"
  nvs_get_blob :: "string \<Rightarrow> 'm \<Rightarrow> u8 list option"
  nvs_get_u8 :: "string \<Rightarrow> 'm \<Rightarrow> u8 option"
  nvs_set_blob :: "string \<Rightarrow> u8 list \<Rightarrow> 'm \<Rightarrow> bool \<times> 'm"
  nvs_set_u8 :: "string \<Rightarrow> u8 \<Rightarrow> 'm \<Rightarrow> bool \<times> 'm"
  nvs_erase_key :: "string \<Rightarrow> 'm \<Rightarrow> esp_err \<times> 'm"
  nvs_commit :: "'m \<Rightarrow> bool \<times> 'm"

definition nvs_get :: "'m nvs_api \<Rightarrow> 'm \<Rightarrow> (u8 list \<times> u8) option" where
  "nvs_get nv m =
     (if \<not> nvs_open_ro nv m then None
      else case nvs_get_blob nv PROV_NVS_KEY m of
        None \<Rightarrow> None
      | Some key \<Rightarrow>
          if length key \<noteq> 32 then None
          else Some (key, case nvs_get_u8 nv PROV_NVS_PROVISIONED m of None \<Rightarrow> 0 | Some p \<Rightarrow> p))"

definition nvs_set :: "'m nvs_api \<Rightarrow> u8 list \<Rightarrow> 'm \<Rightarrow> bool \<times> 'm" where
  "nvs_set nv key m =
     (let (opened, m1) = nvs_open_rw nv m in
      if \<not> opened then (False, m1)
      else let (stored, m2) = nvs_set_blob nv PROV_NVS_KEY key m1 in
      if \<not> stored then (False, m2)
      else let (_, m3) = nvs_set_u8 nv PROV_NVS_PROVISIONED 1 m2 in
      nvs_commit nv m3)"

definition nvs_clear :: "'m nvs_api \<Rightarrow> 'm \<Rightarrow> bool \<times> 'm" where
  "nvs_clear nv m =
     (let (opened, m1) = nvs_open_rw nv m in
      if \<not> opened then (False, m1)
      else let (e, m2) = nvs_erase_key nv PROV_NVS_KEY m1 in
      if e \<noteq> ESP_OK \<and> e \<noteq> ESP_ERR_NVS_NOT_FOUND then (False, m2)
      else let (_, m3) = nvs_set_u8 nv PROV_NVS_PROVISIONED 0 m2 in
      nvs_commit nv m3)"

definition s_store :: "'m nvs_api \<Rightarrow> 'm prov_store" where
  "s_store nv = \<lparr>st_get = nvs_get nv, st_set = nvs_set nv, st_clear = nvs_clear nv\<rparr>"

text \<open>\<open>provisioning_init\<close> at boot, with the commands' state whose key it replaces.\<close>

definition provisioning_init ::
  "'m nvs_api \<Rightarrow> 'm \<Rightarrow> commands_state \<Rightarrow> prov_core \<times> commands_state" where
  "provisioning_init nv m cs =
     (let c = provisioning_core_init (s_store nv) m in
      (c, if provisioning_core_state c = PROV_PROVISIONED
          then commands_set_pubkey (provisioning_core_server_key c) cs else cs))"

definition provisioning_state_byte :: "prov_core \<Rightarrow> u8" where
  "provisioning_state_byte c = (case s_state c of PROV_UNPROVISIONED \<Rightarrow> 0 | PROV_PROVISIONED \<Rightarrow> 1)"

section \<open>The GATT callbacks (provisioning.c)\<close>

datatype att_result = ATT_OK | ATT_INVALID_ATTR_VALUE_LEN | ATT_UNLIKELY | ATT_INSUFFICIENT_AUTHEN

datatype gatt_op = READ_CHR | WRITE_CHR "u8 list" | OTHER_OP

text \<open>What the callbacks share: core, commands, flash and the state notifications sent so far.\<close>

record 'm prov_device =
  pd_core :: prov_core
  pd_commands :: commands_state
  pd_nvs :: 'm
  pd_notified :: "u8 list"

definition provisioning_notify_state :: "'m prov_device \<Rightarrow> 'm prov_device" where
  "provisioning_notify_state d = d\<lparr>pd_notified := pd_notified d @ [provisioning_state_byte (pd_core d)]\<rparr>"

text \<open>The value appended to the response of a read.\<close>

definition prov_state_access :: "gatt_op \<Rightarrow> 'm prov_device \<Rightarrow> att_result \<times> u8 list" where
  "prov_state_access op d =
     (if op = READ_CHR then (ATT_OK, [provisioning_state_byte (pd_core d)]) else (ATT_OK, []))"

text \<open>\<open>flat\<close> is whether \<open>ble_hs_mbuf_to_flat\<close> succeeded.\<close>

definition prov_key_access ::
  "'m nvs_api \<Rightarrow> bool \<Rightarrow> gatt_op \<Rightarrow> 'm prov_device \<Rightarrow> att_result \<times> 'm prov_device" where
  "prov_key_access nv flat op d = (case op of
     WRITE_CHR key \<Rightarrow>
       if length key \<noteq> 32 then (ATT_INVALID_ATTR_VALUE_LEN, d)
       else if \<not> flat then (ATT_UNLIKELY, d)
       else
         (let (rc, c, m) = provisioning_core_apply_key (s_store nv) key (pd_core d) (pd_nvs d);
              d' = d\<lparr>pd_core := c, pd_nvs := m\<rparr>
          in if rc \<noteq> 0 then (ATT_INSUFFICIENT_AUTHEN, d')
             else (ATT_OK, provisioning_notify_state
                     (d'\<lparr>pd_commands := commands_set_pubkey (provisioning_core_server_key c)
                           (pd_commands d')\<rparr>)))
   | _ \<Rightarrow> (ATT_OK, d))"

definition prov_reset_access ::
  "'m nvs_api \<Rightarrow> bool \<Rightarrow> gatt_op \<Rightarrow> 'm prov_device \<Rightarrow> att_result \<times> 'm prov_device" where
  "prov_reset_access nv flat op d = (case op of
     WRITE_CHR bs \<Rightarrow>
       if length bs \<noteq> 4 then (ATT_INVALID_ATTR_VALUE_LEN, d)
       else if \<not> flat then (ATT_UNLIKELY, d)
       else if un_le32 (bs ! 0) (bs ! 1) (bs ! 2) (bs ! 3) \<noteq> PROV_FACTORY_RESET_MAGIC
         then (ATT_UNLIKELY, d)
       else
         (let (rc, c, m) = provisioning_core_factory_reset (s_store nv) (pd_core d) (pd_nvs d);
              d' = d\<lparr>pd_core := c, pd_nvs := m\<rparr>
          in if rc \<noteq> 0 then (ATT_UNLIKELY, d')
             else (ATT_OK, provisioning_notify_state
                     (d'\<lparr>pd_commands := commands_set_pubkey zero_key (pd_commands d')\<rparr>)))
   | _ \<Rightarrow> (ATT_OK, d))"

section \<open>Sequences of accesses\<close>

datatype prov_event = Read_State | Write_State "u8 list" | Write_Key bool "u8 list"
  | Write_Reset bool "u8 list"

definition prov_step :: "'m nvs_api \<Rightarrow> prov_event \<Rightarrow> 'm prov_device \<Rightarrow> 'm prov_device" where
  "prov_step nv e d = (case e of
     Read_State \<Rightarrow> d
   | Write_State bs \<Rightarrow> d
   | Write_Key flat bs \<Rightarrow> snd (prov_key_access nv flat (WRITE_CHR bs) d)
   | Write_Reset flat bs \<Rightarrow> snd (prov_reset_access nv flat (WRITE_CHR bs) d))"

definition is_magic :: "u8 list \<Rightarrow> bool" where
  "is_magic bs = (length bs = 4
     \<and> un_le32 (bs ! 0) (bs ! 1) (bs ! 2) (bs ! 3) = PROV_FACTORY_RESET_MAGIC)"

lemma reset_without_magic:
  "\<not> is_magic bs \<Longrightarrow> snd (prov_reset_access nv flat (WRITE_CHR bs) d) = d"
  by (auto simp: prov_reset_access_def is_magic_def)

lemma key_write_locked:
  "s_state (pd_core d) = PROV_PROVISIONED \<Longrightarrow> snd (prov_key_access nv flat (WRITE_CHR bs) d) = d"
  by (simp add: prov_key_access_def provisioning_core_apply_key_def)

section \<open>What the properties need of NVS\<close>

text \<open>
  A successful write is read back; a write touches its own key only; a failed write, an open and a
  commit change no value; the namespace exists once something was written to it.
\<close>

definition same_values :: "'m nvs_api \<Rightarrow> 'm \<Rightarrow> 'm \<Rightarrow> bool" where
  "same_values nv m m' = (nvs_get_blob nv PROV_NVS_KEY m' = nvs_get_blob nv PROV_NVS_KEY m
     \<and> nvs_get_u8 nv PROV_NVS_PROVISIONED m' = nvs_get_u8 nv PROV_NVS_PROVISIONED m
     \<and> (nvs_open_ro nv m \<longrightarrow> nvs_open_ro nv m'))"

definition nvs_laws :: "'m nvs_api \<Rightarrow> bool" where
  "nvs_laws nv = (
     (\<forall>m. same_values nv m (snd (nvs_open_rw nv m)))
   \<and> (\<forall>m. same_values nv m (snd (nvs_commit nv m)))
   \<and> (\<forall>b m m'. nvs_set_blob nv PROV_NVS_KEY b m = (True, m') \<longrightarrow>
        nvs_get_blob nv PROV_NVS_KEY m' = Some b \<and> nvs_open_ro nv m'
        \<and> nvs_get_u8 nv PROV_NVS_PROVISIONED m' = nvs_get_u8 nv PROV_NVS_PROVISIONED m)
   \<and> (\<forall>v m m'. nvs_set_u8 nv PROV_NVS_PROVISIONED v m = (True, m') \<longrightarrow>
        nvs_get_u8 nv PROV_NVS_PROVISIONED m' = Some v \<and> nvs_open_ro nv m'
        \<and> nvs_get_blob nv PROV_NVS_KEY m' = nvs_get_blob nv PROV_NVS_KEY m)
   \<and> (\<forall>v m m'. nvs_set_u8 nv PROV_NVS_PROVISIONED v m = (False, m') \<longrightarrow> same_values nv m m'))"

text \<open>A store that satisfies them: the two values, with a switch that fails the flag's writes.\<close>

type_synonym flash = "u8 list option \<times> u8 option"

definition flash_nvs :: "bool \<Rightarrow> flash nvs_api" where
  "flash_nvs u8_ok = \<lparr>
     nvs_open_ro = (\<lambda>(b, p). b \<noteq> None \<or> p \<noteq> None),
     nvs_open_rw = (\<lambda>m. (True, m)),
     nvs_get_blob = (\<lambda>k (b, p). if k = PROV_NVS_KEY then b else None),
     nvs_get_u8 = (\<lambda>k (b, p). if k = PROV_NVS_PROVISIONED then p else None),
     nvs_set_blob = (\<lambda>k x (b, p). (True, if k = PROV_NVS_KEY then (Some x, p) else (b, p))),
     nvs_set_u8 = (\<lambda>k x (b, p). if u8_ok
        then (True, if k = PROV_NVS_PROVISIONED then (b, Some x) else (b, p)) else (False, (b, p))),
     nvs_erase_key = (\<lambda>k (b, p). if k = PROV_NVS_KEY then (ESP_OK, (None, p))
        else (ESP_ERR_NVS_NOT_FOUND, (b, p))),
     nvs_commit = (\<lambda>m. (True, m))\<rparr>"

lemma flash_nvs_laws: "nvs_laws (flash_nvs u8_ok)"
  by (auto simp: nvs_laws_def same_values_def flash_nvs_def config_simps)

lemma nvs_set_cases:
  assumes "nvs_laws nv" and "nvs_set nv key m = (True, m')"
  shows "nvs_open_ro nv m' \<and> nvs_get_blob nv PROV_NVS_KEY m' = Some key
    \<and> ((\<forall>x. fst (nvs_set_u8 nv PROV_NVS_PROVISIONED 1 x)) \<longrightarrow>
         nvs_get_u8 nv PROV_NVS_PROVISIONED m' = Some 1)
    \<and> ((\<forall>x. \<not> fst (nvs_set_u8 nv PROV_NVS_PROVISIONED 1 x)) \<longrightarrow>
         nvs_get_u8 nv PROV_NVS_PROVISIONED m' = nvs_get_u8 nv PROV_NVS_PROVISIONED m)"
proof -
  obtain m1 where o: "nvs_open_rw nv m = (True, m1)"
    using assms(2) by (auto simp: nvs_set_def Let_def split: prod.splits if_splits)
  obtain m2 where b: "nvs_set_blob nv PROV_NVS_KEY key m1 = (True, m2)"
    using assms(2) by (auto simp: nvs_set_def o Let_def split: prod.splits if_splits)
  obtain u m3 where f: "nvs_set_u8 nv PROV_NVS_PROVISIONED 1 m2 = (u, m3)" by fastforce
  have c: "nvs_commit nv m3 = (True, m')"
    using assms(2) by (simp add: nvs_set_def o b f)
  note laws = assms(1) [unfolded nvs_laws_def]
  have s1: "same_values nv m m1" using laws o by (metis snd_conv)
  have s2: "nvs_get_blob nv PROV_NVS_KEY m2 = Some key" "nvs_open_ro nv m2"
    "nvs_get_u8 nv PROV_NVS_PROVISIONED m2 = nvs_get_u8 nv PROV_NVS_PROVISIONED m1"
    using laws b by blast+
  have s4: "same_values nv m3 m'" using laws c by (metis snd_conv)
  have u: "fst (nvs_set_u8 nv PROV_NVS_PROVISIONED 1 m2) = u" by (simp add: f)
  show ?thesis
  proof (cases u)
    case True
    with f have "nvs_set_u8 nv PROV_NVS_PROVISIONED 1 m2 = (True, m3)" by simp
    then have "nvs_get_u8 nv PROV_NVS_PROVISIONED m3 = Some 1 \<and> nvs_open_ro nv m3
        \<and> nvs_get_blob nv PROV_NVS_KEY m3 = nvs_get_blob nv PROV_NVS_KEY m2"
      using laws by blast
    with s2 s4 u True show ?thesis by (auto simp: same_values_def)
  next
    case False
    with f have "nvs_set_u8 nv PROV_NVS_PROVISIONED 1 m2 = (False, m3)" by simp
    then have "same_values nv m2 m3" using laws by blast
    with s1 s2 s4 u False show ?thesis by (auto simp: same_values_def)
  qed
qed

lemma key_write_accepted:
  assumes "prov_key_access nv flat (WRITE_CHR key) d = (ATT_OK, d')"
  shows "length key = 32 \<and> s_state (pd_core d) \<noteq> PROV_PROVISIONED
    \<and> nvs_set nv key (pd_nvs d) = (True, pd_nvs d')
    \<and> pd_core d' = \<lparr>s_state = PROV_PROVISIONED, s_key = key\<rparr>
    \<and> pd_commands d' = commands_set_pubkey key (pd_commands d)"
  using assms
  by (auto simp: prov_key_access_def provisioning_core_apply_key_def s_store_def Let_def
      provisioning_notify_state_def provisioning_core_server_key_def split: if_splits prod.splits)

section \<open>Properties\<close>

text \<open>
  C26: An accepted key survives a reboot: when the key characteristic accepts a key, commands are
  checked against it from then on, and a boot from the resulting flash comes up provisioned with the
  same key, provided NVS did not fail the flag's write.
\<close>

theorem accepted_key_survives_reboot:
  assumes "nvs_laws nv" and "prov_key_access nv flat (WRITE_CHR key) d = (ATT_OK, d')"
    and "\<forall>m. fst (nvs_set_u8 nv PROV_NVS_PROVISIONED 1 m)"
  shows "provisioning_init nv (pd_nvs d') cs = (pd_core d', commands_set_pubkey key cs)
    \<and> s_state (pd_core d') = PROV_PROVISIONED \<and> s_key (pd_core d') = key
    \<and> s_pubkey (pd_commands d') = key"
  using key_write_accepted [OF assms(2)] nvs_set_cases [OF assms(1), of key "pd_nvs d" "pd_nvs d'"]
    assms(3)
  by (simp add: provisioning_init_def provisioning_core_init_def s_store_def nvs_get_def
      provisioning_core_state_def provisioning_core_server_key_def commands_set_pubkey_def)

definition fresh_device :: "flash prov_device" where
  "fresh_device = \<lparr>pd_core = \<lparr>s_state = PROV_UNPROVISIONED, s_key = zero_key\<rparr>,
     pd_commands = start_state, pd_nvs = (None, None), pd_notified = []\<rparr>"

lemma fresh_key_write:
  "prov_key_access (flash_nvs u8_ok) True (WRITE_CHR (replicate 32 7)) fresh_device
    = (ATT_OK, \<lparr>pd_core = \<lparr>s_state = PROV_PROVISIONED, s_key = replicate 32 7\<rparr>,
        pd_commands = start_state\<lparr>s_pubkey := replicate 32 7\<rparr>,
        pd_nvs = (Some (replicate 32 7), if u8_ok then Some 1 else None), pd_notified = [1]\<rparr>)"
  by (simp add: prov_key_access_def provisioning_core_apply_key_def s_store_def nvs_set_def
      flash_nvs_def fresh_device_def provisioning_notify_state_def commands_set_pubkey_def
      provisioning_core_server_key_def provisioning_state_byte_def config_simps)

theorem accepted_key_survives_reboot_witness:
  "provisioning_init (flash_nvs True) (Some (replicate 32 7), Some 1) start_state
    = (\<lparr>s_state = PROV_PROVISIONED, s_key = replicate 32 7\<rparr>,
       start_state\<lparr>s_pubkey := replicate 32 7\<rparr>)"
  using accepted_key_survives_reboot [OF flash_nvs_laws fresh_key_write [of True], of start_state]
  by (simp add: flash_nvs_def commands_set_pubkey_def)

text \<open>
  C34: Once provisioned, the trusted key cannot be replaced over the air: whatever sequence of reads
  and writes a client makes on the provisioning service, as long as none is a factory reset with the
  magic value, the state, the key, the commands' key and the flash stay as they are.
\<close>

theorem provisioned_key_is_locked:
  assumes "s_state (pd_core d) = PROV_PROVISIONED"
    and "\<forall>flat bs. Write_Reset flat bs \<in> set es \<longrightarrow> \<not> is_magic bs"
  shows "foldl (\<lambda>d e. prov_step nv e d) d es = d"
  using assms
proof (induction es)
  case (Cons e es)
  have "prov_step nv e d = d"
    using Cons.prems by (cases e) (simp_all add: prov_step_def key_write_locked reset_without_magic)
  with Cons show ?case by simp
qed simp

theorem provisioned_key_is_locked_witness:
  "foldl (\<lambda>d e. prov_step (flash_nvs True) e d)
     (fresh_device\<lparr>pd_core := \<lparr>s_state = PROV_PROVISIONED, s_key = replicate 32 7\<rparr>\<rparr>)
     [Write_Key True (replicate 32 9), Read_State, Write_Reset True [1, 2, 3, 4]]
   = fresh_device\<lparr>pd_core := \<lparr>s_state = PROV_PROVISIONED, s_key = replicate 32 7\<rparr>\<rparr>"
  by (rule provisioned_key_is_locked) (simp_all add: is_magic_def un_le32_def config_simps)

text \<open>
  The flag is not best effort: when its write fails while the key's write and the commit succeed,
  the client is told the key was accepted, but the next boot comes up unprovisioned and with the old
  command key.
\<close>

theorem lost_flag_unprovisions:
  assumes "nvs_laws nv" and "prov_key_access nv flat (WRITE_CHR key) d = (ATT_OK, d')"
    and "\<forall>m. \<not> fst (nvs_set_u8 nv PROV_NVS_PROVISIONED 1 m)"
    and "nvs_get_u8 nv PROV_NVS_PROVISIONED (pd_nvs d) = None
       \<or> nvs_get_u8 nv PROV_NVS_PROVISIONED (pd_nvs d) = Some 0"
  shows "s_state (pd_core d') = PROV_PROVISIONED
    \<and> provisioning_init nv (pd_nvs d') cs
      = (\<lparr>s_state = PROV_UNPROVISIONED, s_key = zero_key\<rparr>, cs)"
  using key_write_accepted [OF assms(2)] nvs_set_cases [OF assms(1), of key "pd_nvs d" "pd_nvs d'"]
    assms(3,4)
  by (auto simp: provisioning_init_def provisioning_core_init_def s_store_def nvs_get_def
      provisioning_core_state_def)

theorem lost_flag_unprovisions_witness:
  "provisioning_init (flash_nvs False) (Some (replicate 32 7), None) start_state
     = (\<lparr>s_state = PROV_UNPROVISIONED, s_key = zero_key\<rparr>, start_state)"
  using lost_flag_unprovisions [OF flash_nvs_laws fresh_key_write [of False], of start_state]
  by (simp add: flash_nvs_def fresh_device_def)

end
