(* ===== verification/Media_Index.thy ===== *)
theory Media_Index
  imports Config
begin

text \<open>
  The media index (\<open>main/media_index.c\<close>): file names, manifest lines and the body of a consumed
  request as strings. \<open>snprintf\<close> into \<open>cap\<close> bytes keeps \<open>cap - 1\<close> characters; \<open>sscanf\<close> and
  the string functions are written out as recursions on the characters.
\<close>

section \<open>Decimal numbers\<close>

definition digits10 :: string where
  "digits10 = ''0123456789''"

fun dec :: "nat \<Rightarrow> string" where
  "dec n = (if n < 10 then [digits10 ! n] else dec (n div 10) @ [digits10 ! (n mod 10)])"

declare dec.simps [simp del]

definition pad10 :: "nat \<Rightarrow> string" where
  "pad10 n = replicate (10 - length (dec n)) (CHR ''0'') @ dec n"

definition is_digit :: "char \<Rightarrow> bool" where
  "is_digit c = (c \<in> set digits10)"

definition digit_value :: "char \<Rightarrow> nat" where
  "digit_value c = length (takeWhile (\<lambda>d. d \<noteq> c) digits10)"

definition value10 :: "nat \<Rightarrow> string \<Rightarrow> nat" where
  "value10 acc s = foldl (\<lambda>a c. 10 * a + digit_value c) acc s"

lemma less10_cases:
  "n < 10 \<Longrightarrow> n = 0 \<or> n = 1 \<or> n = 2 \<or> n = 3 \<or> n = 4 \<or> n = 5 \<or> n = 6 \<or> n = 7 \<or> n = 8 \<or> n = (9 :: nat)"
  by presburger

lemma digit_value_nth [simp]: "n < 10 \<Longrightarrow> digit_value (digits10 ! n) = n"
  using less10_cases [of n] by (auto simp: digit_value_def digits10_def)

lemma is_digit_nth [simp]: "n < 10 \<Longrightarrow> is_digit (digits10 ! n)"
  unfolding is_digit_def by (rule nth_mem) (simp add: digits10_def)

lemma is_digit_neq [simp]:
  "is_digit c \<Longrightarrow> c \<noteq> CHR ''|''" "is_digit c \<Longrightarrow> c \<noteq> CHR ''/''" "is_digit c \<Longrightarrow> c \<noteq> CHR ''_''"
  "is_digit c \<Longrightarrow> c \<noteq> CHR ''.''" "is_digit c \<Longrightarrow> c \<noteq> CHR 0x0A" "is_digit c \<Longrightarrow> c \<noteq> CHR '' ''"
  "is_digit c \<Longrightarrow> c \<noteq> CHR ''-''" "is_digit c \<Longrightarrow> c \<noteq> CHR ''+''"
  by (auto simp: is_digit_def digits10_def)

lemma dec_digits: "list_all is_digit (dec n)"
  by (induction n rule: dec.induct) (subst dec.simps, simp)

lemma dec_nonempty [simp]: "dec n \<noteq> []"
  by (subst dec.simps) simp

lemma value10_append: "value10 a (s @ t) = value10 (value10 a s) t"
  by (simp add: value10_def)

lemma value10_dec [simp]: "value10 0 (dec n) = n"
proof (induction n rule: dec.induct)
  case (1 n)
  then show ?case
    by (subst dec.simps) (auto simp: value10_append, auto simp: value10_def)
qed

lemma dec_inject: "dec m = dec n \<longleftrightarrow> m = n"
  by (metis value10_dec)

lemma length_dec_le: "n < 10 ^ Suc k \<Longrightarrow> length (dec n) \<le> Suc k"
proof (induction k arbitrary: n)
  case 0
  then show ?case by (subst dec.simps) simp
next
  case (Suc k)
  then have "n div 10 < 10 ^ Suc k" by (simp add: less_mult_imp_div_less mult.commute)
  from Suc.IH [OF this] show ?case by (subst dec.simps) simp
qed

lemma length_dec_u32: "length (dec (unat (w :: u32))) \<le> 10"
  using length_dec_le [of "unat w" 9] unat_u32_less [of w] by simp

lemma pad10_u32:
  "length (pad10 (unat (w :: u32))) = 10" "list_all is_digit (pad10 n)" "value10 0 (pad10 n) = n"
proof -
  show "length (pad10 (unat w)) = 10" using length_dec_u32 [of w] by (simp add: pad10_def)
  have "is_digit (CHR ''0'')" by (simp add: is_digit_def digits10_def)
  then show "list_all is_digit (pad10 n)" using dec_digits [of n] by (auto simp: pad10_def list_all_iff)
  have "value10 0 (replicate k (CHR ''0'')) = 0" for k
    by (induction k) (simp_all add: value10_def digit_value_def digits10_def)
  then show "value10 0 (pad10 n) = n" by (simp add: pad10_def value10_append)
qed

lemma pad10_inject: "pad10 m = pad10 n \<longleftrightarrow> m = n"
  by (metis pad10_u32(3))

section \<open>Names and manifest lines\<close>

definition NAME_MAX_LEN :: nat where
  "NAME_MAX_LEN = 80"

definition snprintf :: "nat \<Rightarrow> string \<Rightarrow> string" where
  "snprintf cap s = take (cap - 1) s"

definition snapshot_path :: "nat \<Rightarrow> u32 \<Rightarrow> u32 \<Rightarrow> u32 \<Rightarrow> string" where
  "snapshot_path cap boot_id rel_ts_ms seq = snprintf cap
     (''/sdcard/snapshots/'' @ dec (unat boot_id) @ ''/'' @ pad10 (unat rel_ts_ms) @ ''_''
        @ dec (unat seq) @ ''.jpg'')"

definition video_path :: "nat \<Rightarrow> u32 \<Rightarrow> u32 \<Rightarrow> u32 \<Rightarrow> string" where
  "video_path cap boot_id rel_ts_ms seq = snprintf cap
     (''/sdcard/video/'' @ dec (unat boot_id) @ ''/'' @ pad10 (unat rel_ts_ms) @ ''_''
        @ dec (unat seq) @ ''.mjpeg'')"

definition newline :: char where
  "newline = CHR 0x0A"

definition manifest_line :: "nat \<Rightarrow> string \<Rightarrow> u32 \<Rightarrow> u32 \<Rightarrow> char \<Rightarrow> string" where
  "manifest_line cap path rel_ts_ms boot_id kind = snprintf cap
     (path @ ''|'' @ dec (unat rel_ts_ms) @ ''|'' @ dec (unat boot_id) @ ''|'' @ [kind, newline])"

text \<open>
  \<open>sscanf\<close>'s conversions: \<open>%79[^|]\<close> takes one to 79 characters, a literal must match, \<open>%u\<close> skips
  white space and takes a sign and digits (saturating, as newlib's \<open>strtoul\<close>), \<open>%c\<close> takes one.
\<close>

definition scan_set79 :: "string \<Rightarrow> (string \<times> string) option" where
  "scan_set79 s =
     (let n = min 79 (length (takeWhile (\<lambda>c. c \<noteq> CHR ''|'') s))
      in if n = 0 then None else Some (take n s, drop n s))"

definition scan_lit :: "char \<Rightarrow> string \<Rightarrow> string option" where
  "scan_lit c s = (case s of [] \<Rightarrow> None | d # rest \<Rightarrow> if d = c then Some rest else None)"

definition is_space :: "char \<Rightarrow> bool" where
  "is_space c = (c \<in> {CHR '' '', CHR 0x09, CHR 0x0A, CHR 0x0B, CHR 0x0C, CHR 0x0D})"

definition scan_u32 :: "string \<Rightarrow> (u32 \<times> string) option" where
  "scan_u32 s =
     (let s1 = dropWhile is_space s;
          negative = (s1 \<noteq> [] \<and> hd s1 = CHR ''-'');
          s2 = (if s1 \<noteq> [] \<and> (hd s1 = CHR ''-'' \<or> hd s1 = CHR ''+'') then tl s1 else s1);
          ds = takeWhile is_digit s2;
          v = value10 0 ds
      in if ds = [] then None
         else Some (if v \<ge> 4294967296 then 4294967295
                    else if negative then - of_nat v else of_nat v,
                    dropWhile is_digit s2))"

definition manifest_parse :: "string \<Rightarrow> (string \<times> u32 \<times> u32 \<times> char) option" where
  "manifest_parse line =
     (case scan_set79 line of None \<Rightarrow> None | Some (path, s1) \<Rightarrow>
     (case scan_lit (CHR ''|'') s1 of None \<Rightarrow> None | Some s2 \<Rightarrow>
     (case scan_u32 s2 of None \<Rightarrow> None | Some (ts, s3) \<Rightarrow>
     (case scan_lit (CHR ''|'') s3 of None \<Rightarrow> None | Some s4 \<Rightarrow>
     (case scan_u32 s4 of None \<Rightarrow> None | Some (boot, s5) \<Rightarrow>
     (case scan_lit (CHR ''|'') s5 of None \<Rightarrow> None | Some s6 \<Rightarrow>
     (case s6 of [] \<Rightarrow> None
      | kind # _ \<Rightarrow> if kind \<noteq> CHR ''s'' \<and> kind \<noteq> CHR ''v'' then None
                    else Some (path, ts, boot, kind))))))))"

lemma tl_dropWhile_less: "p \<noteq> [] \<Longrightarrow> length (tl (dropWhile P p)) < length p"
  using length_dropWhile_le [of P p] by (cases p) (auto simp: less_Suc_eq_le)

text \<open>The body of a consumed request: lines of names, at most \<open>limit\<close>; \<open>None\<close> is -1.\<close>

function consumed_parse :: "nat \<Rightarrow> nat \<Rightarrow> string \<Rightarrow> string list option" where
  "consumed_parse limit n p =
     (if p = [] then Some []
      else let line = takeWhile (\<lambda>c. c \<noteq> newline) p; rest = dropWhile (\<lambda>c. c \<noteq> newline) p in
        if line = [] then consumed_parse limit n (tl rest)
        else if length line \<ge> NAME_MAX_LEN then None
        else if n \<ge> limit then None
        else if rest = [] then Some [line]
        else map_option (Cons line) (consumed_parse limit (Suc n) (tl rest)))"
  by pat_completeness auto
termination
  by (relation "measure (\<lambda>(limit, n, p). length p)") (simp_all add: tl_dropWhile_less del: length_tl)

declare consumed_parse.simps [simp del]

section \<open>Reading back what was written\<close>

lemma is_digit_not_space: "is_digit c \<Longrightarrow> \<not> is_space c"
  by (auto simp: is_digit_def digits10_def is_space_def)

lemma scan_u32_dec:
  assumes "\<not> is_digit c"
  shows "scan_u32 (dec (unat w) @ c # rest) = Some (w, c # rest)"
proof -
  let ?s = "dec (unat w) @ c # rest"
  obtain d ds where d: "dec (unat w) = d # ds" by (cases "dec (unat w)") simp_all
  then have "is_digit d" using dec_digits [of "unat w"] by simp
  then have space: "dropWhile is_space ?s = ?s" and sign: "hd ?s \<noteq> CHR ''-''" "hd ?s \<noteq> CHR ''+''"
    by (simp_all add: d is_digit_not_space)
  have digits: "takeWhile is_digit ?s = dec (unat w)" "dropWhile is_digit ?s = c # rest"
    using dec_digits [of "unat w"] assms by (simp_all add: list_all_iff)
  have "unat w < 4294967296" by (rule unat_u32_less)
  then show ?thesis
    unfolding scan_u32_def Let_def space using sign by (simp add: digits)
qed

lemma scan_set79_path:
  assumes "path \<noteq> []" and "CHR ''|'' \<notin> set path" and "length path \<le> 79"
  shows "scan_set79 (path @ CHR ''|'' # rest) = Some (path, CHR ''|'' # rest)"
proof -
  have "takeWhile (\<lambda>c. c \<noteq> CHR ''|'') (path @ CHR ''|'' # rest) = path"
    using assms(2) by (subst takeWhile_append2) auto
  with assms(1,3) show ?thesis by (simp add: scan_set79_def min_absorb2 min_def)
qed

lemma manifest_line_full:
  assumes "length path + 25 < cap"
  shows "manifest_line cap path ts boot kind
    = path @ ''|'' @ dec (unat ts) @ ''|'' @ dec (unat boot) @ ''|'' @ [kind, newline]"
  using assms length_dec_u32 [of ts] length_dec_u32 [of boot]
  by (simp add: manifest_line_def snprintf_def)

lemma snapshot_path_full:
  "snapshot_path NAME_MAX_LEN boot ts seq =
     ''/sdcard/snapshots/'' @ dec (unat boot) @ ''/'' @ pad10 (unat ts) @ ''_''
        @ dec (unat seq) @ ''.jpg''"
  "length (snapshot_path NAME_MAX_LEN boot ts seq) \<le> 54"
proof -
  show full: "snapshot_path NAME_MAX_LEN boot ts seq =
     ''/sdcard/snapshots/'' @ dec (unat boot) @ ''/'' @ pad10 (unat ts) @ ''_''
        @ dec (unat seq) @ ''.jpg''"
    using length_dec_u32 [of boot] length_dec_u32 [of seq] pad10_u32(1) [of ts]
    by (simp add: snapshot_path_def snprintf_def NAME_MAX_LEN_def)
  show "length (snapshot_path NAME_MAX_LEN boot ts seq) \<le> 54"
    unfolding full using length_dec_u32 [of boot] length_dec_u32 [of seq] pad10_u32(1) [of ts]
    by simp
qed

lemma video_path_full:
  "video_path NAME_MAX_LEN boot ts seq =
     ''/sdcard/video/'' @ dec (unat boot) @ ''/'' @ pad10 (unat ts) @ ''_''
        @ dec (unat seq) @ ''.mjpeg''"
  "length (video_path NAME_MAX_LEN boot ts seq) \<le> 54"
proof -
  show full: "video_path NAME_MAX_LEN boot ts seq =
     ''/sdcard/video/'' @ dec (unat boot) @ ''/'' @ pad10 (unat ts) @ ''_''
        @ dec (unat seq) @ ''.mjpeg''"
    using length_dec_u32 [of boot] length_dec_u32 [of seq] pad10_u32(1) [of ts]
    by (simp add: video_path_def snprintf_def NAME_MAX_LEN_def)
  show "length (video_path NAME_MAX_LEN boot ts seq) \<le> 54"
    unfolding full using length_dec_u32 [of boot] length_dec_u32 [of seq] pad10_u32(1) [of ts]
    by simp
qed

text \<open>Two digit strings followed by the same separator are equal part by part.\<close>

lemma digits_split:
  assumes "list_all is_digit a" and "list_all is_digit b" and "\<not> is_digit c"
    and "a @ c # x = b @ c # y"
  shows "a = b \<and> x = y"
proof -
  have "takeWhile is_digit (a @ c # x) = a" and b: "takeWhile is_digit (b @ c # y) = b"
    using assms(1-3) by (simp_all add: list_all_iff)
  then have "a = takeWhile is_digit (a @ c # x)" by simp
  also have "\<dots> = b" by (simp only: assms(4) b)
  finally show ?thesis using assms(4) by simp
qed

lemma not_digit [simp]:
  "\<not> is_digit (CHR ''|'')" "\<not> is_digit (CHR ''/'')" "\<not> is_digit (CHR ''_'')"
  "\<not> is_digit (CHR ''.'')" "\<not> is_digit newline"
  by (auto simp: is_digit_def digits10_def newline_def)

lemma consumed_parse_Nil [simp]: "consumed_parse limit n [] = Some []"
  by (simp add: consumed_parse.simps)

lemma consumed_parse_line:
  assumes "line \<noteq> []" and "newline \<notin> set line" and "length line < NAME_MAX_LEN" and "n < limit"
  shows "consumed_parse limit n (line @ newline # rest)
    = map_option (Cons line) (consumed_parse limit (Suc n) rest)"
proof -
  have "takeWhile (\<lambda>c. c \<noteq> newline) (line @ newline # rest) = line"
    using assms(2) by (subst takeWhile_append2) auto
  moreover have "dropWhile (\<lambda>c. c \<noteq> newline) (line @ newline # rest) = newline # rest"
    using assms(2) by (subst dropWhile_append2) auto
  ultimately show ?thesis using assms by (subst consumed_parse.simps) simp
qed

section \<open>The manifest as a list of entries\<close>

text \<open>
  The abstract view of a manifest file: its lines, those that parse, in order. A manifest of whole
  lines is empty or ends with a newline.
\<close>

function split_lines :: "string \<Rightarrow> string list" where
  "split_lines p = (if p = [] then []
     else takeWhile (\<lambda>c. c \<noteq> newline) p # split_lines (tl (dropWhile (\<lambda>c. c \<noteq> newline) p)))"
  by pat_completeness auto
termination by (relation "measure length") (simp_all add: tl_dropWhile_less del: length_tl)

declare split_lines.simps [simp del]

type_synonym entry = "string \<times> u32 \<times> u32 \<times> char"

definition manifest_entries :: "string \<Rightarrow> entry list" where
  "manifest_entries m = List.map_filter manifest_parse (split_lines m)"

definition whole_lines :: "string \<Rightarrow> bool" where
  "whole_lines m = (m = [] \<or> last m = newline)"

lemma split_lines_Nil [simp]: "split_lines [] = []"
  by (simp add: split_lines.simps)

lemma split_lines_line:
  "newline \<notin> set line \<Longrightarrow> split_lines (line @ newline # rest) = line # split_lines rest"
proof -
  assume "newline \<notin> set line"
  then have "takeWhile (\<lambda>c. c \<noteq> newline) (line @ newline # rest) = line"
    "dropWhile (\<lambda>c. c \<noteq> newline) (line @ newline # rest) = newline # rest"
    by (subst takeWhile_append2 dropWhile_append2; auto)+
  then show ?thesis by (subst split_lines.simps) simp
qed

lemma whole_lines_cases:
  assumes "whole_lines m" "m \<noteq> []"
  obtains line rest where "m = line @ newline # rest" "newline \<notin> set line" "whole_lines rest"
proof -
  from assms have "newline \<in> set m" using last_in_set [of m] by (simp add: whole_lines_def)
  then obtain line rest where m: "m = line @ newline # rest" "newline \<notin> set line"
    using split_list_first [of newline m] by auto
  with assms have "whole_lines rest" by (auto simp: whole_lines_def split: if_splits)
  with m show thesis by (rule that)
qed

lemma split_lines_append:
  "whole_lines m \<Longrightarrow> split_lines (m @ m') = split_lines m @ split_lines m'"
proof (induction m rule: length_induct)
  case (1 m)
  show ?case
  proof (cases "m = []")
    case False
    with "1.prems" obtain line rest
      where m: "m = line @ newline # rest" "newline \<notin> set line" "whole_lines rest"
      by (rule whole_lines_cases)
    with "1.IH" have "split_lines (rest @ m') = split_lines rest @ split_lines m'" by simp
    with m show ?thesis by (simp add: split_lines_line)
  qed simp
qed

lemma map_filter_append:
  "List.map_filter f (xs @ ys) = List.map_filter f xs @ List.map_filter f ys"
  by (simp add: List.map_filter_def)

lemma manifest_entries_append:
  "whole_lines m \<Longrightarrow> manifest_entries (m @ m') = manifest_entries m @ manifest_entries m'"
  by (simp add: manifest_entries_def split_lines_append map_filter_append)

lemma manifest_entries_Nil [simp]: "manifest_entries [] = []"
  by (simp add: manifest_entries_def List.map_filter_def)

section \<open>Round trips\<close>

lemma manifest_parse_line:
  assumes "path \<noteq> []" and "CHR ''|'' \<notin> set path" and "length path < NAME_MAX_LEN"
    and "kind = CHR ''s'' \<or> kind = CHR ''v''"
  shows "manifest_parse (path @ ''|'' @ dec (unat ts) @ ''|'' @ dec (unat boot) @ ''|'' @ kind # rest)
    = Some (path, ts, boot, kind)"
proof -
  have "scan_set79 (path @ CHR ''|'' # rest) = Some (path, CHR ''|'' # rest)" for rest
    using assms(1-3) by (intro scan_set79_path) (simp_all add: NAME_MAX_LEN_def)
  with assms(4) show ?thesis
    by (auto simp: manifest_parse_def scan_lit_def scan_u32_dec)
qed

text \<open>
  C37: What \<open>manifest_line\<close> writes into a buffer that holds it, \<open>manifest_parse\<close> reads back, for
  every path the firmware can name (one to 79 characters, no bar) and either kind.
\<close>

theorem manifest_roundtrip:
  assumes "path \<noteq> []" and "CHR ''|'' \<notin> set path" and "length path < NAME_MAX_LEN"
    and "length path + 25 < cap" and "kind = CHR ''s'' \<or> kind = CHR ''v''"
  shows "manifest_parse (manifest_line cap path ts boot kind) = Some (path, ts, boot, kind)"
  using manifest_parse_line [OF assms(1-3,5)] by (simp add: manifest_line_full [OF assms(4)])

lemma manifest_roundtrip_witness:
  "manifest_parse (manifest_line 112 (snapshot_path NAME_MAX_LEN 7 1234 1) 1234 7 (CHR ''s''))
     = Some (''/sdcard/snapshots/7/0000001234_1.jpg'', 1234, 7, CHR ''s'')"
proof -
  have six_zeros: "replicate 6 (CHR ''0'') = ''000000''" by (simp add: eval_nat_numeral)
  have p: "snapshot_path NAME_MAX_LEN 7 1234 1 = ''/sdcard/snapshots/7/0000001234_1.jpg''"
    by (simp add: snapshot_path_full pad10_def dec.simps digits10_def six_zeros)
  show ?thesis unfolding p by (rule manifest_roundtrip) (simp_all add: NAME_MAX_LEN_def)
qed

lemma chars_dec [simp]: "\<not> is_digit c \<Longrightarrow> c \<notin> set (dec n)" "\<not> is_digit c \<Longrightarrow> c \<notin> set (pad10 n)"
  using dec_digits [of n] pad10_u32(2) [of n] by (auto simp: list_all_iff)

text \<open>The line of a path without bar or newline adds exactly its entry to a whole manifest.\<close>

lemma manifest_entries_line:
  assumes "whole_lines m" and "path \<noteq> []" and "CHR ''|'' \<notin> set path" and "newline \<notin> set path"
    and "length path < NAME_MAX_LEN" and "kind = CHR ''s'' \<or> kind = CHR ''v''"
  shows "manifest_entries (m @ manifest_line (NAME_MAX_LEN + 32) path ts boot kind)
      = manifest_entries m @ [(path, ts, boot, kind)]"
    and "whole_lines (m @ manifest_line (NAME_MAX_LEN + 32) path ts boot kind)"
proof -
  let ?l = "path @ ''|'' @ dec (unat ts) @ ''|'' @ dec (unat boot) @ ''|'' @ [kind]"
  have line: "manifest_line (NAME_MAX_LEN + 32) path ts boot kind = ?l @ [newline]"
    using assms(5) by (subst manifest_line_full) simp_all
  have "newline \<notin> set (dec n)" for n by simp
  moreover have "newline \<notin> {CHR ''|'', CHR ''s'', CHR ''v''}" by (simp add: newline_def)
  ultimately have "newline \<notin> set ?l" using assms(4,6) by auto
  then have "split_lines (?l @ [newline]) = [?l]"
    using split_lines_line [of ?l "[]"] by simp
  moreover have "manifest_parse ?l = Some (path, ts, boot, kind)"
    using manifest_parse_line [OF assms(2,3,5,6), of ts boot "[]"] by simp
  ultimately have "manifest_entries (?l @ [newline]) = [(path, ts, boot, kind)]"
    unfolding manifest_entries_def by (simp add: List.map_filter_def)
  then show "manifest_entries (m @ manifest_line (NAME_MAX_LEN + 32) path ts boot kind)
      = manifest_entries m @ [(path, ts, boot, kind)]"
    unfolding line by (simp only: manifest_entries_append [OF assms(1)])
  show "whole_lines (m @ manifest_line (NAME_MAX_LEN + 32) path ts boot kind)"
    unfolding line by (simp add: whole_lines_def)
qed

lemma media_paths_not_manifest [simp]:
  "snapshot_path NAME_MAX_LEN boot ts seq \<noteq> SD_MANIFEST" "video_path NAME_MAX_LEN boot ts seq \<noteq> SD_MANIFEST"
  by (simp_all add: snapshot_path_full(1) video_path_full(1) SD_MANIFEST_def)

lemmas manifest_not_media [simp] = media_paths_not_manifest [symmetric]

lemma media_paths_plain:
  "CHR ''|'' \<notin> set (snapshot_path NAME_MAX_LEN boot ts seq)"
  "newline \<notin> set (snapshot_path NAME_MAX_LEN boot ts seq)"
  "snapshot_path NAME_MAX_LEN boot ts seq \<noteq> []"
  "length (snapshot_path NAME_MAX_LEN boot ts seq) < NAME_MAX_LEN"
  "CHR ''|'' \<notin> set (video_path NAME_MAX_LEN boot ts seq)"
  "newline \<notin> set (video_path NAME_MAX_LEN boot ts seq)"
  "video_path NAME_MAX_LEN boot ts seq \<noteq> []"
  "length (video_path NAME_MAX_LEN boot ts seq) < NAME_MAX_LEN"
proof -
  show "length (snapshot_path NAME_MAX_LEN boot ts seq) < NAME_MAX_LEN"
    "length (video_path NAME_MAX_LEN boot ts seq) < NAME_MAX_LEN"
    using snapshot_path_full(2) [of boot ts seq] video_path_full(2) [of boot ts seq]
    by (simp_all add: NAME_MAX_LEN_def)
  have "newline \<notin> set (dec n)" "newline \<notin> set (pad10 n)" for n by simp_all
  then show "newline \<notin> set (snapshot_path NAME_MAX_LEN boot ts seq)"
    "newline \<notin> set (video_path NAME_MAX_LEN boot ts seq)"
    unfolding snapshot_path_full(1) video_path_full(1) by (simp_all, simp_all add: newline_def)
qed (simp_all add: snapshot_path_full(1) video_path_full(1))

lemma snapshot_path_inject:
  "snapshot_path NAME_MAX_LEN boot ts seq = snapshot_path NAME_MAX_LEN boot' ts' seq'
     \<longleftrightarrow> boot = boot' \<and> ts = ts' \<and> seq = seq'"
proof
  assume eq: "snapshot_path NAME_MAX_LEN boot ts seq = snapshot_path NAME_MAX_LEN boot' ts' seq'"
  let ?t = "\<lambda>t q. pad10 (unat (t :: u32)) @ CHR ''_'' # dec (unat (q :: u32)) @ ''.jpg''"
  from eq have "dec (unat boot) @ CHR ''/'' # ?t ts seq = dec (unat boot') @ CHR ''/'' # ?t ts' seq'"
    by (simp add: snapshot_path_full(1))
  from digits_split [OF dec_digits dec_digits _ this]
  have b: "dec (unat boot) = dec (unat boot')" and rest: "?t ts seq = ?t ts' seq'" by simp_all
  from digits_split [OF pad10_u32(2) pad10_u32(2) _ rest]
  have t: "pad10 (unat ts) = pad10 (unat ts')"
    and rest: "dec (unat seq) @ CHR ''.'' # ''jpg'' = dec (unat seq') @ CHR ''.'' # ''jpg''" by simp_all
  from digits_split [OF dec_digits dec_digits _ rest] have "dec (unat seq) = dec (unat seq')" by simp
  with b t show "boot = boot' \<and> ts = ts' \<and> seq = seq'"
    by (simp add: dec_inject pad10_inject unat_u32_inject)
qed simp

lemma video_path_inject:
  "video_path NAME_MAX_LEN boot ts seq = video_path NAME_MAX_LEN boot' ts' seq'
     \<longleftrightarrow> boot = boot' \<and> ts = ts' \<and> seq = seq'"
proof
  assume eq: "video_path NAME_MAX_LEN boot ts seq = video_path NAME_MAX_LEN boot' ts' seq'"
  let ?t = "\<lambda>t q. pad10 (unat (t :: u32)) @ CHR ''_'' # dec (unat (q :: u32)) @ ''.mjpeg''"
  from eq have "dec (unat boot) @ CHR ''/'' # ?t ts seq = dec (unat boot') @ CHR ''/'' # ?t ts' seq'"
    by (simp add: video_path_full(1))
  from digits_split [OF dec_digits dec_digits _ this]
  have b: "dec (unat boot) = dec (unat boot')" and rest: "?t ts seq = ?t ts' seq'" by simp_all
  from digits_split [OF pad10_u32(2) pad10_u32(2) _ rest]
  have t: "pad10 (unat ts) = pad10 (unat ts')"
    and rest: "dec (unat seq) @ CHR ''.'' # ''mjpeg'' = dec (unat seq') @ CHR ''.'' # ''mjpeg''" by simp_all
  from digits_split [OF dec_digits dec_digits _ rest] have "dec (unat seq) = dec (unat seq')" by simp
  with b t show "boot = boot' \<and> ts = ts' \<and> seq = seq'"
    by (simp add: dec_inject pad10_inject unat_u32_inject)
qed simp

text \<open>
  The name of a snapshot is unique to its boot, time and sequence number: the 80-byte buffer
  holds every name whole, so two captures never share a file.
\<close>

theorem snapshot_name_unique:
  "snapshot_path NAME_MAX_LEN boot ts seq = snapshot_path NAME_MAX_LEN boot' ts' seq'
     \<longleftrightarrow> (boot, ts, seq) = (boot', ts', seq')"
  by (simp add: snapshot_path_inject)

text \<open>
  A consumed request that lists at most \<open>limit\<close> names, one per line, is read back exactly, so
  the firmware deletes the files the phone named and no other.
\<close>

theorem consumed_roundtrip:
  assumes "\<forall>x \<in> set names. x \<noteq> [] \<and> newline \<notin> set x \<and> length x < NAME_MAX_LEN"
    and "n + length names \<le> limit"
  shows "consumed_parse limit n (concat (map (\<lambda>x. x @ [newline]) names)) = Some names"
  using assms
proof (induction names arbitrary: n)
  case (Cons x names)
  then show ?case by (simp add: consumed_parse_line)
qed simp

lemma consumed_roundtrip_witness:
  "consumed_parse 2 0 (''a.jpg'' @ [newline] @ ''b.jpg'' @ [newline]) = Some [''a.jpg'', ''b.jpg'']"
  using consumed_roundtrip [of "[''a.jpg'', ''b.jpg'']" 0 2] by (simp add: newline_def NAME_MAX_LEN_def)

end
