(* ===== verification/Sd_Store.thy ===== *)
theory Sd_Store
  imports Media_Index
begin

text \<open>
  The SD card store (\<open>main/sd_store.c\<close>): the card as a map from paths to contents (C bytes, read
  as characters), the lazy mount, and the six operations. The drivers of the SPI bus and of the FAT
  volume are outside the repository: what their calls return is an argument. So is what goes wrong
  in a standard file call: an \<open>io\<close> says whether \<open>fopen\<close> succeeds and how many of \<open>n\<close> bytes are
  transferred.
\<close>

section \<open>State and mount\<close>

datatype mkdir_result = MKDIR_DONE | MKDIR_EEXIST | MKDIR_ERROR

record io =
  io_open :: bool
  io_count :: "nat \<Rightarrow> nat"

definition io_good :: io where
  "io_good = \<lparr>io_open = True, io_count = (\<lambda>n. n)\<rparr>"

text \<open>\<open>s_mounted\<close>, whether the SPI bus is held, the files and the directories made.\<close>

record sd_card =
  s_mounted :: bool
  spi_held :: bool
  sd_files :: "string \<rightharpoonup> string"
  sd_dirs :: "string set"

record mount_io =
  spi_bus_initialize :: esp_err
  vfs_mount :: esp_err
  mkdir_snapshots :: mkdir_result
  mkdir_video :: mkdir_result

definition sd_ensure_dir :: "mkdir_result \<Rightarrow> string \<Rightarrow> sd_card \<Rightarrow> esp_err \<times> sd_card" where
  "sd_ensure_dir r path c = (case r of
     MKDIR_DONE \<Rightarrow> (ESP_OK, c\<lparr>sd_dirs := insert path (sd_dirs c)\<rparr>)
   | MKDIR_EEXIST \<Rightarrow> (ESP_OK, c)
   | MKDIR_ERROR \<Rightarrow> (ESP_FAIL, c))"

definition sd_store_mount :: "mount_io \<Rightarrow> sd_card \<Rightarrow> esp_err \<times> sd_card" where
  "sd_store_mount mio c =
     (if s_mounted c then (ESP_OK, c)
      else if spi_bus_initialize mio \<noteq> ESP_OK then (spi_bus_initialize mio, c)
      else let c1 = c\<lparr>spi_held := True\<rparr> in
        if vfs_mount mio \<noteq> ESP_OK then (vfs_mount mio, c1\<lparr>spi_held := False\<rparr>)
        else let (_, c2) = sd_ensure_dir (mkdir_snapshots mio) SD_SNAPSHOT_DIR c1;
                 (_, c3) = sd_ensure_dir (mkdir_video mio) SD_VIDEO_DIR c2
             in (ESP_OK, c3\<lparr>s_mounted := True\<rparr>))"

definition card_at_boot :: "(string \<rightharpoonup> string) \<Rightarrow> sd_card" where
  "card_at_boot fs = \<lparr>s_mounted = False, spi_held = False, sd_files = fs, sd_dirs = {}\<rparr>"

section \<open>File operations\<close>

definition transferred :: "io \<Rightarrow> string \<Rightarrow> string" where
  "transferred i s = take (io_count i (length s)) s"

definition sd_store_write :: "io \<Rightarrow> string \<Rightarrow> string \<Rightarrow> sd_card \<Rightarrow> esp_err \<times> sd_card" where
  "sd_store_write i path data c =
     (if \<not> io_open i then (ESP_FAIL, c)
      else let out = transferred i data; c' = c\<lparr>sd_files := (sd_files c)(path \<mapsto> out)\<rparr>
        in (if length out \<noteq> length data then ESP_FAIL else ESP_OK, c'))"

definition contents :: "sd_card \<Rightarrow> string \<Rightarrow> string" where
  "contents c path = (case sd_files c path of None \<Rightarrow> [] | Some s \<Rightarrow> s)"

definition sd_store_append :: "io \<Rightarrow> string \<Rightarrow> string \<Rightarrow> sd_card \<Rightarrow> esp_err \<times> sd_card" where
  "sd_store_append i path line c =
     (if \<not> io_open i then (ESP_FAIL, c)
      else let out = transferred i line;
               c' = c\<lparr>sd_files := (sd_files c)(path \<mapsto> contents c path @ out)\<rparr>
        in (if length out \<noteq> length line then ESP_FAIL else ESP_OK, c'))"

text \<open>The reads return the bytes they put in the buffer of \<open>cap\<close> bytes (\<open>*out_len\<close> of them).\<close>

definition sd_store_read :: "io \<Rightarrow> string \<Rightarrow> nat \<Rightarrow> sd_card \<Rightarrow> esp_err \<times> string" where
  "sd_store_read i path cap c = (case sd_files c path of
     None \<Rightarrow> (ESP_FAIL, [])
   | Some s \<Rightarrow> if \<not> io_open i then (ESP_FAIL, []) else (ESP_OK, transferred i (take cap s)))"

definition sd_store_read_manifest :: "io \<Rightarrow> nat \<Rightarrow> sd_card \<Rightarrow> esp_err \<times> string" where
  "sd_store_read_manifest i cap c = (case sd_files c SD_MANIFEST of
     None \<Rightarrow> (ESP_OK, [])
   | Some s \<Rightarrow> if \<not> io_open i then (ESP_OK, []) else (ESP_OK, transferred i (take cap s)))"

text \<open>\<open>removable\<close> is whether \<open>unlink\<close> of a file that exists succeeds.\<close>

definition sd_store_delete :: "bool \<Rightarrow> string \<Rightarrow> sd_card \<Rightarrow> esp_err \<times> sd_card" where
  "sd_store_delete removable path c = (case sd_files c path of
     None \<Rightarrow> (ESP_OK, c)
   | Some _ \<Rightarrow> if removable then (ESP_OK, c\<lparr>sd_files := (sd_files c)(path := None)\<rparr>)
               else (ESP_FAIL, c))"

section \<open>What a store of files promises\<close>

text \<open>
  The interface the media code relies on: what a lookup returns after a write, an append and a
  delete of the same or another path.
\<close>

locale file_store =
  fixes put :: "string \<Rightarrow> string \<Rightarrow> 's \<Rightarrow> 's"
    and app :: "string \<Rightarrow> string \<Rightarrow> 's \<Rightarrow> 's"
    and del :: "string \<Rightarrow> 's \<Rightarrow> 's"
    and get :: "'s \<Rightarrow> string \<Rightarrow> string option"
  assumes get_put: "get (put p d s) q = (if q = p then Some d else get s q)"
    and get_app: "get (app p d s) q
      = (if q = p then Some ((case get s p of None \<Rightarrow> [] | Some e \<Rightarrow> e) @ d) else get s q)"
    and get_del: "get (del p s) q = (if q = p then None else get s q)"
begin

lemma get_fold_del: "get (fold del ps s) q = (if q \<in> set ps then None else get s q)"
  by (induction ps arbitrary: s) (auto simp: get_del)

lemma get_fold_app:
  "get s p = Some d \<Longrightarrow> get (fold (app p) ls s) p = Some (d @ concat ls)"
  by (induction ls arbitrary: s d) (simp_all add: get_app)

lemma put_put: "get (put p d (put p e s)) = get (put p d s)"
  by (simp add: fun_eq_iff get_put)

end

lemma transferred_good [simp]: "transferred io_good s = s"
  by (simp add: transferred_def io_good_def)

lemma io_open_good [simp]: "io_open io_good"
  by (simp add: io_good_def)

lemma io_count_good [simp]: "io_count io_good n = n"
  by (simp add: io_good_def)

interpretation card: file_store
  "\<lambda>p d c. snd (sd_store_write io_good p d c)" "\<lambda>p d c. snd (sd_store_append io_good p d c)"
  "\<lambda>p c. snd (sd_store_delete True p c)" sd_files
  by unfold_locales
    (auto simp: sd_store_write_def sd_store_append_def sd_store_delete_def contents_def Let_def
      split: option.splits)

section \<open>Faults\<close>

text \<open>Each operation touches only the file it names, whatever the fault.\<close>

lemma sd_store_frame:
  "q \<noteq> path \<Longrightarrow> sd_files (snd (sd_store_write i path data c)) q = sd_files c q"
  "q \<noteq> path \<Longrightarrow> sd_files (snd (sd_store_append i path data c)) q = sd_files c q"
  "q \<noteq> path \<Longrightarrow> sd_files (snd (sd_store_delete r path c)) q = sd_files c q"
  by (auto simp: sd_store_write_def sd_store_append_def sd_store_delete_def Let_def
      split: option.splits)

lemma sd_store_mounted [simp]:
  "s_mounted (snd (sd_store_write i path data c)) = s_mounted c"
  "s_mounted (snd (sd_store_append i path data c)) = s_mounted c"
  "s_mounted (snd (sd_store_delete r path c)) = s_mounted c"
  by (auto simp: sd_store_write_def sd_store_append_def sd_store_delete_def Let_def
      split: option.splits)

lemma transferred_full: "length (transferred i s) = length s \<Longrightarrow> transferred i s = s"
  by (simp add: transferred_def)

lemma sd_store_write_ok:
  "fst (sd_store_write i path data c) = ESP_OK
     \<Longrightarrow> sd_files (snd (sd_store_write i path data c)) path = Some data"
  by (auto simp: sd_store_write_def Let_def transferred_full split: if_splits)

lemma sd_store_append_ok:
  "fst (sd_store_append i path line c) = ESP_OK
     \<Longrightarrow> sd_files (snd (sd_store_append i path line c)) path = Some (contents c path @ line)"
  by (auto simp: sd_store_append_def Let_def transferred_full split: if_splits)

lemma sd_ensure_dir_frame [simp]:
  "sd_files (snd (sd_ensure_dir r p c)) = sd_files c"
  "s_mounted (snd (sd_ensure_dir r p c)) = s_mounted c"
  "spi_held (snd (sd_ensure_dir r p c)) = spi_held c"
  by (cases r; simp add: sd_ensure_dir_def)+

lemma sd_store_mount_files [simp]: "sd_files (snd (sd_store_mount mio c)) = sd_files c"
  by (simp add: sd_store_mount_def Let_def split_beta)

fun mount_attempts :: "mount_io list \<Rightarrow> sd_card \<Rightarrow> sd_card" where
  "mount_attempts [] c = c"
| "mount_attempts (mio # ms) c = mount_attempts ms (snd (sd_store_mount mio c))"

lemma sd_store_mount_held:
  "spi_held c = s_mounted c \<Longrightarrow>
     spi_held (snd (sd_store_mount mio c)) = s_mounted (snd (sd_store_mount mio c))"
  by (simp add: sd_store_mount_def Let_def split_beta)

lemma mount_attempts_held:
  "spi_held c = s_mounted c \<Longrightarrow> spi_held (mount_attempts ms c) = s_mounted (mount_attempts ms c)"
  by (induction ms arbitrary: c) (simp_all add: sd_store_mount_held)

lemma mount_attempts_stay: "s_mounted c \<Longrightarrow> mount_attempts ms c = c"
  by (induction ms arbitrary: c) (simp_all add: sd_store_mount_def)

lemma mount_attempts_files [simp]: "sd_files (mount_attempts ms c) = sd_files c"
  by (induction ms arbitrary: c) simp_all

lemma mount_attempts_iff:
  "s_mounted (mount_attempts ms c) \<longleftrightarrow>
     s_mounted c \<or> (\<exists>mio \<in> set ms. spi_bus_initialize mio = ESP_OK \<and> vfs_mount mio = ESP_OK)"
proof (induction ms arbitrary: c)
  case (Cons mio ms)
  have "s_mounted (snd (sd_store_mount mio c)) \<longleftrightarrow>
      s_mounted c \<or> spi_bus_initialize mio = ESP_OK \<and> vfs_mount mio = ESP_OK"
    by (simp add: sd_store_mount_def Let_def split_beta)
  with Cons.IH show ?case by auto
qed simp

text \<open>
  Mounting is lazy and retried by every capture. After any sequence of attempts the card is
  mounted exactly when one of them found both the bus and the volume in order; the SPI bus is held
  exactly while the card is mounted (a failed mount frees it, so the next attempt can take it), and
  no attempt changes a file.
\<close>

theorem mount_retries:
  "(let c = mount_attempts ms (card_at_boot fs) in
      (s_mounted c \<longleftrightarrow> (\<exists>mio \<in> set ms. spi_bus_initialize mio = ESP_OK \<and> vfs_mount mio = ESP_OK))
      \<and> (spi_held c \<longleftrightarrow> s_mounted c) \<and> sd_files c = fs)"
  using mount_attempts_held [of "card_at_boot fs" ms]
  by (simp add: Let_def mount_attempts_iff) (simp add: card_at_boot_def)

end
