(* ===== verification/Snapshot.thy ===== *)
theory Snapshot
  imports Sd_Store
begin

text \<open>
  The camera wrapper (\<open>main/camera.c\<close>), the activation counter (\<open>main/boot_id.c\<close>) and the
  ambient snapshot (\<open>main/snapshot.c\<close>): the capture of one JPEG to the card and the manifest, the
  timer and the worker it signals. The camera driver, NVS and the FreeRTOS timer are outside the
  repository; what their calls return is an argument.
\<close>

section \<open>Camera (camera.c)\<close>

datatype pixformat = PIXFORMAT_JPEG | PIXFORMAT_RGB565
datatype framesize = FRAMESIZE_VGA | FRAMESIZE_QVGA
datatype fb_location = CAMERA_FB_IN_PSRAM | CAMERA_FB_IN_DRAM
datatype grab_mode = CAMERA_GRAB_WHEN_EMPTY | CAMERA_GRAB_LATEST

record camera_config =
  pin_pwdn :: int
  pin_reset :: int
  pin_xclk :: int
  pin_sccb_sda :: int
  pin_sccb_scl :: int
  pin_data :: "int list"
  pin_vsync :: int
  pin_href :: int
  pin_pclk :: int
  xclk_freq_hz :: nat
  ledc_timer :: nat
  ledc_channel :: nat
  pixel_format :: pixformat
  frame_size :: framesize
  jpeg_quality :: nat
  fb_count :: nat
  cfg_fb_location :: fb_location
  cfg_grab_mode :: grab_mode

definition camera_cfg :: camera_config where
  "camera_cfg = \<lparr>pin_pwdn = CAM_PIN_PWDN, pin_reset = CAM_PIN_RESET, pin_xclk = CAM_PIN_XCLK,
     pin_sccb_sda = CAM_PIN_SIOD, pin_sccb_scl = CAM_PIN_SIOC,
     pin_data = [CAM_PIN_D7, CAM_PIN_D6, CAM_PIN_D5, CAM_PIN_D4, CAM_PIN_D3, CAM_PIN_D2,
       CAM_PIN_D1, CAM_PIN_D0],
     pin_vsync = CAM_PIN_VSYNC, pin_href = CAM_PIN_HREF, pin_pclk = CAM_PIN_PCLK,
     xclk_freq_hz = CAM_XCLK_FREQ_HZ, ledc_timer = 0, ledc_channel = 0,
     pixel_format = PIXFORMAT_JPEG, frame_size = FRAMESIZE_VGA, jpeg_quality = VIDEO_JPEG_QUALITY,
     fb_count = 1, cfg_fb_location = CAMERA_FB_IN_PSRAM, cfg_grab_mode = CAMERA_GRAB_WHEN_EMPTY\<rparr>"

definition camera_init :: "(camera_config \<Rightarrow> esp_err) \<Rightarrow> esp_err" where
  "camera_init esp_camera_init = esp_camera_init camera_cfg"

text \<open>
  \<open>esp_camera_fb_get\<close> yields a frame buffer (its format and bytes) or NULL. Each function also
  returns how many buffers it gave back, so that the balance with the buffers it got is visible.
\<close>

record camera_fb =
  fb_is_jpeg :: bool
  fb_buf :: string

definition camera_capture_jpeg :: "bool \<Rightarrow> camera_fb option \<Rightarrow> (esp_err \<times> string option) \<times> nat" where
  "camera_capture_jpeg malloc_ok fb = (case fb of
     None \<Rightarrow> ((ESP_FAIL, None), 0)
   | Some f \<Rightarrow>
       if \<not> fb_is_jpeg f then ((ESP_FAIL, None), 1)
       else if \<not> malloc_ok then ((ESP_FAIL, None), 1)
       else ((ESP_OK, Some (fb_buf f)), 1))"

definition camera_flush_stale :: "camera_fb option \<Rightarrow> nat" where
  "camera_flush_stale fb = (case fb of None \<Rightarrow> 0 | Some _ \<Rightarrow> 1)"

lemma camera_returns_buffers:
  "snd (camera_capture_jpeg mem fb) = camera_flush_stale fb"
  by (simp add: camera_capture_jpeg_def camera_flush_stale_def split: option.split)

section \<open>Activation counter (boot_id.c)\<close>

text \<open>
  \<open>got\<close> is the result of \<open>nvs_get_u32\<close> with the value it stored, \<open>set_err\<close> that of \<open>nvs_set_u32\<close>.
  The result: the error, \<open>s_boot_id\<close> and the value written to flash.
\<close>

definition boot_id_init ::
  "esp_err \<Rightarrow> esp_err \<times> u32 \<Rightarrow> esp_err \<Rightarrow> u32 \<Rightarrow> esp_err \<times> u32 \<times> u32 option" where
  "boot_id_init open_err got set_err s_boot_id =
     (if open_err \<noteq> ESP_OK then (open_err, s_boot_id, None)
      else let id0 = (if fst got = ESP_OK then snd got else 0);
               id = id0 + 1
        in if set_err \<noteq> ESP_OK then (set_err, s_boot_id, None) else (ESP_OK, id, Some id))"

definition boot_id_get :: "u32 \<Rightarrow> u32" where
  "boot_id_get s_boot_id = s_boot_id"

section \<open>Capture of one snapshot (snapshot.c)\<close>

text \<open>The outcome of every call a capture makes to the world outside.\<close>

record capture_io =
  ci_mount :: mount_io
  ci_stale :: "camera_fb option"
  ci_fb :: "camera_fb option"
  ci_malloc :: bool
  ci_mkdir :: mkdir_result
  ci_write :: io
  ci_append :: io

definition snapshot_dir :: "u32 \<Rightarrow> string" where
  "snapshot_dir boot = snprintf NAME_MAX_LEN (''/sdcard/snapshots/'' @ dec (unat boot))"

text \<open>The state is the card and \<open>s_seq\<close>; \<open>boot\<close> is \<open>boot_id_get()\<close>.\<close>

definition snapshot_capture_one ::
  "capture_io \<Rightarrow> u32 \<Rightarrow> u32 \<Rightarrow> sd_card \<times> u32 \<Rightarrow> esp_err \<times> sd_card \<times> u32" where
  "snapshot_capture_one ci boot rel_ts_ms s =
     (let (c, s_seq) = s; (err, c1) = sd_store_mount (ci_mount ci) c in
      if err \<noteq> ESP_OK then (err, c1, s_seq)
      else let ((err, jpg), _) = camera_capture_jpeg (ci_malloc ci) (ci_fb ci) in
      case jpg of
        None \<Rightarrow> (err, c1, s_seq)
      | Some data \<Rightarrow>
        let seq = s_seq;
            path = snapshot_path NAME_MAX_LEN boot rel_ts_ms seq;
            (_, c2) = sd_ensure_dir (ci_mkdir ci) (snapshot_dir boot) c1;
            (err, c3) = sd_store_write (ci_write ci) path data c2
        in if err \<noteq> ESP_OK then (err, c3, s_seq + 1)
           else let line = manifest_line (NAME_MAX_LEN + 32) path rel_ts_ms boot (CHR ''s'');
                    (_, c4) = sd_store_append (ci_append ci) SD_MANIFEST line c3
                in (ESP_OK, c4, s_seq + 1))"

section \<open>Timer and worker (snapshot.c)\<close>

text \<open>
  \<open>s_timer\<close>: not created, stopped, or running with a period in milliseconds; \<open>s_worker\<close>: whether
  the worker exists; \<open>pending\<close>: its task notification value.
\<close>

datatype timer = NO_TIMER | STOPPED | RUNNING u32

record snapshot_state =
  s_timer :: timer
  s_worker :: bool
  pending :: nat

definition snapshot_capture_async :: "snapshot_state \<Rightarrow> snapshot_state" where
  "snapshot_capture_async s = (if s_worker s then s\<lparr>pending := Suc (pending s)\<rparr> else s)"

definition snapshot_timer_cb :: "snapshot_state \<Rightarrow> snapshot_state" where
  "snapshot_timer_cb s = snapshot_capture_async s"

text \<open>One wake of the worker: the whole count is cleared for one capture; \<open>None\<close> is still blocked.\<close>

definition snapshot_worker_wake ::
  "capture_io \<Rightarrow> u32 \<Rightarrow> u32 \<Rightarrow> snapshot_state \<Rightarrow> sd_card \<times> u32
     \<Rightarrow> (snapshot_state \<times> sd_card \<times> u32) option" where
  "snapshot_worker_wake ci boot now s cs =
     (if pending s = 0 then None
      else Some (s\<lparr>pending := 0\<rparr>, snd (snapshot_capture_one ci boot now cs)))"

text \<open>\<open>timer_ok\<close>: whether the timer service accepted the request (block time 0).\<close>

definition snapshot_init ::
  "bool \<Rightarrow> bool \<Rightarrow> bool \<Rightarrow> snapshot_state \<Rightarrow> esp_err \<times> snapshot_state" where
  "snapshot_init task_ok create_ok timer_ok s =
     (if s_timer s \<noteq> NO_TIMER then
        (ESP_OK, if timer_ok then s\<lparr>s_timer := if SNAPSHOT_INTERVAL_S > 0
                     then RUNNING (of_nat (SNAPSHOT_INTERVAL_S * 1000)) else STOPPED\<rparr> else s)
      else if \<not> task_ok then (ESP_FAIL, s)
      else let s1 = s\<lparr>s_worker := True\<rparr> in
        if \<not> create_ok then (ESP_FAIL, s1)
        else let s2 = s1\<lparr>s_timer := STOPPED\<rparr> in
          if SNAPSHOT_INTERVAL_S > 0 then
            (if \<not> timer_ok then (ESP_FAIL, s2)
             else (ESP_OK, s2\<lparr>s_timer := RUNNING (of_nat (SNAPSHOT_INTERVAL_S * 1000))\<rparr>))
          else (ESP_OK, s2))"

definition snapshot_set_interval :: "bool \<Rightarrow> u32 \<Rightarrow> snapshot_state \<Rightarrow> snapshot_state" where
  "snapshot_set_interval timer_ok seconds s =
     (if s_timer s = NO_TIMER then s
      else if \<not> timer_ok then s
      else if seconds = 0 then s\<lparr>s_timer := STOPPED\<rparr>
      else s\<lparr>s_timer := RUNNING (seconds * 1000)\<rparr>)"

section \<open>A run of captures\<close>

fun snapshot_run :: "u32 \<Rightarrow> (capture_io \<times> u32) list \<Rightarrow> sd_card \<times> u32 \<Rightarrow> sd_card \<times> u32" where
  "snapshot_run boot [] s = s"
| "snapshot_run boot ((ci, now) # cis) s =
     snapshot_run boot cis (snd (snapshot_capture_one ci boot now s))"

text \<open>
  The specification of a run on a mounted card: the captures whose JPEG was obtained and written
  whole, with their names; a failed write uses up a sequence number too.
\<close>

definition jpeg_of :: "capture_io \<Rightarrow> string option" where
  "jpeg_of ci = snd (fst (camera_capture_jpeg (ci_malloc ci) (ci_fb ci)))"

definition written :: "io \<Rightarrow> string \<Rightarrow> bool" where
  "written i data = (io_open i \<and> length (transferred i data) = length data)"

fun taken :: "u32 \<Rightarrow> u32 \<Rightarrow> (capture_io \<times> u32) list \<Rightarrow> (string \<times> u32 \<times> string) list" where
  "taken boot seq [] = []"
| "taken boot seq ((ci, now) # cis) = (case jpeg_of ci of
     None \<Rightarrow> taken boot seq cis
   | Some data \<Rightarrow>
       (if written (ci_write ci) data then [(snapshot_path NAME_MAX_LEN boot now seq, now, data)] else [])
       @ taken boot (seq + 1) cis)"

text \<open>One capture on a mounted card, by its outcome.\<close>

lemma sd_store_mount_mounted [simp]: "s_mounted c \<Longrightarrow> sd_store_mount mio c = (ESP_OK, c)"
  by (simp add: sd_store_mount_def)

lemma jpeg_of_err:
  "jpeg_of ci = None \<Longrightarrow> fst (fst (camera_capture_jpeg (ci_malloc ci) (ci_fb ci))) = ESP_FAIL"
  by (auto simp: jpeg_of_def camera_capture_jpeg_def split: option.splits if_splits)

lemma capture_no_jpeg:
  "s_mounted c \<Longrightarrow> jpeg_of ci = None \<Longrightarrow>
     snapshot_capture_one ci boot now (c, seq) = (ESP_FAIL, c, seq)"
  using jpeg_of_err [of ci] by (simp add: snapshot_capture_one_def jpeg_of_def split_beta)

lemma capture_jpeg:
  assumes "s_mounted c" and "jpeg_of ci = Some data"
  obtains e c' where "snapshot_capture_one ci boot now (c, seq) = (e, c', seq + 1)"
    "s_mounted c'"
    "e = (if written (ci_write ci) data then ESP_OK else ESP_FAIL)"
    "\<And>q. q \<noteq> snapshot_path NAME_MAX_LEN boot now seq \<Longrightarrow> q \<noteq> SD_MANIFEST
        \<Longrightarrow> sd_files c' q = sd_files c q"
    "written (ci_write ci) data
        \<Longrightarrow> sd_files c' (snapshot_path NAME_MAX_LEN boot now seq) = Some data"
    "\<not> written (ci_write ci) data \<Longrightarrow> sd_files c' SD_MANIFEST = sd_files c SD_MANIFEST"
    "written (ci_write ci) data \<Longrightarrow> ci_append ci = io_good \<Longrightarrow> sd_files c' SD_MANIFEST
        = Some (contents c SD_MANIFEST @ manifest_line (NAME_MAX_LEN + 32)
            (snapshot_path NAME_MAX_LEN boot now seq) now boot (CHR ''s''))"
proof -
  let ?p = "snapshot_path NAME_MAX_LEN boot now seq"
  define c2 where "c2 = snd (sd_ensure_dir (ci_mkdir ci) (snapshot_dir boot) c)"
  define w where "w = sd_store_write (ci_write ci) ?p data c2"
  define l where "l = manifest_line (NAME_MAX_LEN + 32) ?p now boot (CHR ''s'')"
  define c4 where "c4 = snd (sd_store_append (ci_append ci) SD_MANIFEST l (snd w))"
  have c2: "sd_files c2 = sd_files c" "s_mounted c2"
    using assms(1) by (simp_all add: c2_def)
  have fw: "fst w = (if written (ci_write ci) data then ESP_OK else ESP_FAIL)"
    by (simp add: w_def sd_store_write_def written_def Let_def)
  have step: "snapshot_capture_one ci boot now (c, seq)
      = (if written (ci_write ci) data then (ESP_OK, c4, seq + 1) else (ESP_FAIL, snd w, seq + 1))"
    using assms fw
    by (simp add: snapshot_capture_one_def jpeg_of_def split_beta Let_def c2_def w_def c4_def l_def)
  have files: "sd_files (snd w) q = sd_files c q" if "q \<noteq> ?p" for q
    using that c2 by (simp add: w_def sd_store_frame)
  have whole: "sd_files (snd w) ?p = Some data" if "written (ci_write ci) data"
    using that fw sd_store_write_ok [of "ci_write ci" ?p data c2] by (simp add: w_def)
  show thesis
  proof (cases "written (ci_write ci) data")
    case True
    have "sd_files c4 SD_MANIFEST = Some (contents c SD_MANIFEST @ l)" if "ci_append ci = io_good"
      using sd_store_append_ok [of io_good SD_MANIFEST l "snd w"] files [of SD_MANIFEST]
      by (simp add: c4_def that sd_store_append_def contents_def)
    with True step files whole c2 show thesis
      by (intro that [of ESP_OK c4]) (simp_all add: c4_def w_def l_def sd_store_frame)
  next
    case False
    with step files c2 show thesis
      by (intro that [of ESP_FAIL "snd w"]) (simp_all add: w_def)
  qed
qed

text \<open>A name whose sequence number is outside the run is not touched by it.\<close>

lemma u32_diff_Suc:
  "Suc n \<le> unat (q - s) \<Longrightarrow> n \<le> unat (q - (s + 1) :: u32)"
proof -
  assume "Suc n \<le> unat (q - s)"
  then have "unat (q - s - 1) = unat (q - s) - 1"
    by (intro unat_minus_one) auto
  with \<open>Suc n \<le> unat (q - s)\<close> show ?thesis by (simp add: diff_diff_eq)
qed

lemma snapshot_run_frame:
  assumes "s_mounted c" and "length cis \<le> unat (q - seq)"
  shows "sd_files (fst (snapshot_run boot cis (c, seq))) (snapshot_path NAME_MAX_LEN boot ts q)
    = sd_files c (snapshot_path NAME_MAX_LEN boot ts q)"
  using assms
proof (induction cis arbitrary: c seq)
  case (Cons x cis)
  obtain ci now where x: "x = (ci, now)" by (cases x)
  show ?case
  proof (cases "jpeg_of ci")
    case None
    with Cons show ?thesis by (simp add: x capture_no_jpeg)
  next
    case (Some data)
    from Cons.prems(2) have far: "length cis \<le> unat (q - (seq + 1))" and "q \<noteq> seq"
      by (auto intro: u32_diff_Suc)
    from capture_jpeg [OF Cons.prems(1) Some] obtain e c'
      where s: "snapshot_capture_one ci boot now (c, seq) = (e, c', seq + 1)" "s_mounted c'"
        and f: "\<And>p. p \<noteq> snapshot_path NAME_MAX_LEN boot now seq \<Longrightarrow> p \<noteq> SD_MANIFEST
          \<Longrightarrow> sd_files c' p = sd_files c p" by metis
    from \<open>q \<noteq> seq\<close> have "sd_files c' (snapshot_path NAME_MAX_LEN boot ts q)
        = sd_files c (snapshot_path NAME_MAX_LEN boot ts q)"
      by (intro f) (simp_all add: snapshot_path_inject)
    with Cons.IH [OF s(2) far] s show ?thesis by (simp add: x)
  qed
qed simp

lemma snapshot_run_files:
  assumes "s_mounted c" and "length cis \<le> 4294967296" and "(p, ts, data) \<in> set (taken boot seq cis)"
  shows "sd_files (fst (snapshot_run boot cis (c, seq))) p = Some data"
  using assms
proof (induction cis arbitrary: c seq)
  case (Cons x cis)
  obtain ci now where x: "x = (ci, now)" by (cases x)
  show ?case
  proof (cases "jpeg_of ci")
    case None
    with Cons show ?thesis by (simp add: x capture_no_jpeg)
  next
    case (Some jpg)
    from capture_jpeg [OF Cons.prems(1) Some] obtain e c'
      where s: "snapshot_capture_one ci boot now (c, seq) = (e, c', seq + 1)" "s_mounted c'"
        and w: "written (ci_write ci) jpg
          \<Longrightarrow> sd_files c' (snapshot_path NAME_MAX_LEN boot now seq) = Some jpg" by metis
    have "seq - (seq + 1) = (- 1 :: u32)" by simp
    then have "unat (seq - (seq + 1)) = 4294967295" by (simp only:) (simp add: unsigned_minus_1_eq_mask mask_eq_exp_minus_1)
    with Cons.prems(2) have far: "length cis \<le> unat (seq - (seq + 1))" by simp
    from Cons.prems(3) consider "(p, ts, data) \<in> set (taken boot (seq + 1) cis)"
      | "written (ci_write ci) jpg" "p = snapshot_path NAME_MAX_LEN boot now seq" "data = jpg"
      by (auto simp: x Some split: if_splits)
    then show ?thesis
    proof cases
      case 1
      with Cons.IH [OF s(2)] Cons.prems(2) s(1) show ?thesis by (simp add: x)
    next
      case 2
      with snapshot_run_frame [OF s(2) far] s(1) w show ?thesis by (simp add: x)
    qed
  qed
qed simp

lemma snapshot_run_entries:
  assumes "s_mounted c" and "whole_lines (contents c SD_MANIFEST)"
    and "\<forall>(ci, now) \<in> set cis. ci_append ci = io_good"
  shows "manifest_entries (contents (fst (snapshot_run boot cis (c, seq))) SD_MANIFEST)
    = manifest_entries (contents c SD_MANIFEST)
      @ map (\<lambda>(p, ts, _). (p, ts, boot, CHR ''s'')) (taken boot seq cis)"
  using assms
proof (induction cis arbitrary: c seq)
  case (Cons x cis)
  obtain ci now where x: "x = (ci, now)" by (cases x)
  let ?p = "snapshot_path NAME_MAX_LEN boot now seq"
  let ?l = "manifest_line (NAME_MAX_LEN + 32) ?p now boot (CHR ''s'')"
  show ?case
  proof (cases "jpeg_of ci")
    case None
    with Cons show ?thesis by (simp add: x capture_no_jpeg)
  next
    case (Some jpg)
    from Cons.prems(3) have good: "ci_append ci = io_good" by (simp add: x)
    from capture_jpeg [OF Cons.prems(1) Some] obtain e c'
      where s: "snapshot_capture_one ci boot now (c, seq) = (e, c', seq + 1)" "s_mounted c'"
        and old: "\<not> written (ci_write ci) jpg \<Longrightarrow> sd_files c' SD_MANIFEST = sd_files c SD_MANIFEST"
        and new: "written (ci_write ci) jpg \<Longrightarrow> ci_append ci = io_good \<Longrightarrow>
          sd_files c' SD_MANIFEST = Some (contents c SD_MANIFEST @ ?l)" by metis
    have line: "manifest_entries (contents c SD_MANIFEST @ ?l)
        = manifest_entries (contents c SD_MANIFEST) @ [(?p, now, boot, CHR ''s'')]"
      "whole_lines (contents c SD_MANIFEST @ ?l)"
      using Cons.prems(2) by (simp_all add: manifest_entries_line media_paths_plain)
    have m: "contents c' SD_MANIFEST = (if written (ci_write ci) jpg
        then contents c SD_MANIFEST @ ?l else contents c SD_MANIFEST)"
      using old new good by (simp add: contents_def)
    with line(2) Cons.prems(2) have "whole_lines (contents c' SD_MANIFEST)" by simp
    from Cons.IH [OF s(2) this] Cons.prems(3)
    have "manifest_entries (contents (fst (snapshot_run boot cis (c', seq + 1))) SD_MANIFEST)
      = manifest_entries (contents c' SD_MANIFEST)
        @ map (\<lambda>(p, ts, _). (p, ts, boot, CHR ''s'')) (taken boot (seq + 1) cis)"
      by (simp add: x)
    with m line(1) s(1) Some show ?thesis by (simp add: x)
  qed
qed simp

text \<open>
  C28: Over any run of captures in one boot, with the camera and the JPEG writes failing at will
  and the manifest's appends succeeding, the manifest gains exactly the captures whose JPEG reached the card whole, in order; and each of
  their files still holds that JPEG at the end, because no later capture reuses its name.
\<close>

theorem snapshots_listed_and_kept:
  assumes "s_mounted c" and "whole_lines (contents c SD_MANIFEST)" and "length cis \<le> 4294967296"
    and "\<forall>(ci, now) \<in> set cis. ci_append ci = io_good"
  shows "manifest_entries (contents (fst (snapshot_run boot cis (c, seq))) SD_MANIFEST)
      = manifest_entries (contents c SD_MANIFEST)
        @ map (\<lambda>(p, ts, _). (p, ts, boot, CHR ''s'')) (taken boot seq cis)
    \<and> (\<forall>(p, ts, jpg) \<in> set (taken boot seq cis).
          sd_files (fst (snapshot_run boot cis (c, seq))) p = Some jpg)"
  using snapshot_run_entries [OF assms(1,2,4)] snapshot_run_files [OF assms(1,3)] by auto

definition good_capture :: "string \<Rightarrow> io \<Rightarrow> capture_io" where
  "good_capture jpg i = \<lparr>ci_mount = \<lparr>spi_bus_initialize = ESP_OK, vfs_mount = ESP_OK,
       mkdir_snapshots = MKDIR_DONE, mkdir_video = MKDIR_DONE\<rparr>,
     ci_stale = None, ci_fb = Some \<lparr>fb_is_jpeg = True, fb_buf = jpg\<rparr>, ci_malloc = True,
     ci_mkdir = MKDIR_DONE, ci_write = i, ci_append = io_good\<rparr>"

lemma snapshots_listed_and_kept_witness:
  "sd_files (fst (snapshot_run 7 [(good_capture ''abc'' \<lparr>io_open = True, io_count = (\<lambda>n. 1)\<rparr>, 20),
       (good_capture ''xyz'' io_good, 40)] ((card_at_boot Map.empty)\<lparr>s_mounted := True\<rparr>, 0)))
     (snapshot_path NAME_MAX_LEN 7 40 1) = Some ''xyz''"
proof -
  let ?cis = "[(good_capture ''abc'' \<lparr>io_open = True, io_count = (\<lambda>n. 1)\<rparr>, 20 :: u32),
    (good_capture ''xyz'' io_good, 40)]"
  let ?c = "(card_at_boot Map.empty)\<lparr>s_mounted := True\<rparr>"
  have "(snapshot_path NAME_MAX_LEN 7 40 1, 40, ''xyz'') \<in> set (taken 7 0 ?cis)"
    by (simp add: good_capture_def jpeg_of_def camera_capture_jpeg_def written_def transferred_def)
  moreover have "\<forall>(p, ts, jpg) \<in> set (taken 7 0 ?cis). sd_files (fst (snapshot_run 7 ?cis (?c, 0))) p = Some jpg"
    by (rule snapshots_listed_and_kept [THEN conjunct2])
      (simp_all add: card_at_boot_def contents_def whole_lines_def good_capture_def)
  ultimately show ?thesis by fastforce
qed

section \<open>The timer\<close>

text \<open>
  Every interval the executor accepts (0 to 600 seconds) is set without wrap-around: 0 stops
  the timer and any other value runs it with exactly that many milliseconds.
\<close>

theorem interval_exact:
  assumes "unat seconds \<le> SNAPSHOT_INTERVAL_MAX" and "s_timer s \<noteq> NO_TIMER"
  shows "(case s_timer (snapshot_set_interval True seconds s) of
      NO_TIMER \<Rightarrow> False
    | STOPPED \<Rightarrow> seconds = 0
    | RUNNING ms \<Rightarrow> seconds \<noteq> 0 \<and> unat ms = unat seconds * 1000)"
proof -
  have "unat (seconds * 1000) = unat seconds * 1000"
    using assms(1) by (subst unat_mult_lem [THEN iffD1]) (simp_all add: SNAPSHOT_INTERVAL_MAX_def)
  with assms(2) show ?thesis by (simp add: snapshot_set_interval_def)
qed

lemma interval_exact_witness:
  "(case s_timer (snapshot_set_interval True 600 \<lparr>s_timer = STOPPED, s_worker = True, pending = 0\<rparr>) of
      NO_TIMER \<Rightarrow> False
    | STOPPED \<Rightarrow> (600 :: u32) = 0
    | RUNNING ms \<Rightarrow> (600 :: u32) \<noteq> 0 \<and> unat ms = unat (600 :: u32) * 1000)"
  by (rule interval_exact) (simp_all add: SNAPSHOT_INTERVAL_MAX_def)

text \<open>
  After a successful initialisation a request for a photo is never lost: the worker exists, so
  the request leaves a notification, and the next wake of the worker takes one capture for all
  requests since the last.
\<close>

theorem photo_request_served:
  assumes "snapshot_init task_ok create_ok timer_ok \<lparr>s_timer = NO_TIMER, s_worker = False, pending = 0\<rparr>
      = (ESP_OK, s)"
  shows "snapshot_worker_wake ci boot now ((snapshot_capture_async ^^ Suc k) s) cs
    = Some (s, snd (snapshot_capture_one ci boot now cs))"
proof -
  from assms have w: "s_worker s" "pending s = 0"
    by (auto simp: snapshot_init_def Let_def split: if_splits)
  have "(snapshot_capture_async ^^ n) s = s\<lparr>pending := n\<rparr>" for n
    by (induction n) (use w in \<open>auto simp: snapshot_capture_async_def\<close>)
  with w show ?thesis by (simp add: snapshot_worker_wake_def del: funpow.simps)
qed

lemma photo_request_served_witness:
  "snapshot_worker_wake ci boot now ((snapshot_capture_async ^^ Suc 1)
      \<lparr>s_timer = STOPPED, s_worker = True, pending = 0\<rparr>) cs
    = Some (\<lparr>s_timer = STOPPED, s_worker = True, pending = 0\<rparr>,
        snd (snapshot_capture_one ci boot now cs))"
  by (rule photo_request_served [of True True True])
    (simp add: snapshot_init_def SNAPSHOT_INTERVAL_S_def)

end
