(* ===== verification/Video.thy ===== *)
theory Video
  imports Snapshot
begin

text \<open>
  Continuous video (\<open>main/video_capture.c\<close>): the video task, the tasks that start it and the tasks
  that stop it, over the module's static variables and the card. Every access to a variable another
  task uses is a step of its own, so the relation \<open>video_step\<close> has every interleaving of the tasks, the
  overlap of two starts included (\<open>serial\<close> excludes it); an operation of the card is one step. Writes go
  straight to the file (\<open>fflush\<close> is not visible), and delays are not modelled: a wait may time out at
  any moment.
\<close>

section \<open>State\<close>

text \<open>
  Where a video task is: not running, in its loop with a frame count, at the close of the clip, at
  the manifest line, at the read of the waiter, at the release of the handle, at the reset of the
  flag, at the notification. The last three hold the waiter they read.
\<close>

datatype vt_pc = V_NONE | V_RUN nat | V_FIN | V_CLOSED | V_LISTED | V_WAITER "nat option"
  | V_CLEAR "nat option" | V_NOTIFY "nat option"

text \<open>Where a call of \<open>video_stop\<close> is; the last two say whether the wait saw a notification.\<close>

datatype stop_pc = S_IDLE | S_CALLED | S_WAITER_SET | S_FLAG_DROPPED | S_WAITING | S_WOKEN bool
  | S_RETURNED bool

text \<open>
  Where a call of \<open>video_start\<close> is: called, past the two guards, mounted, with its sequence number,
  after the path, the time stamp and the directory, with the file open, after the flag and after the
  reset of the waiter; the undo of a task that could not be created; returned.
\<close>

datatype start_pc = ST_IDLE | ST_CALLED | ST_NOT_RECORDING | ST_NO_TASK | ST_MOUNTED | ST_SEQ u32
  | ST_NAMED | ST_STAMPED | ST_DIR | ST_OPEN | ST_FLAGGED | ST_READY | ST_NO_CREATE | ST_UNDONE
  | ST_RETURNED esp_err

text \<open>
  Tasks are numbers; \<open>start_ts\<close> is the argument of a start. Two fields are no variables of the
  program: \<open>stop_clip\<close> records the clip that was being recorded when a stopping task registered itself,
  \<open>append_result\<close> what \<open>sd_store_append\<close> returned for a clip's manifest line (\<open>merr\<close>).
\<close>

record video_state =
  s_recording :: bool
  s_task :: "nat option"
  s_stop_waiter :: "nat option"
  s_file :: "string option"
  s_path :: string
  s_seq :: u32
  s_start_rel_ts_ms :: u32
  v_card :: sd_card
  vt :: "nat \<Rightarrow> vt_pc"
  stopper :: "nat \<Rightarrow> stop_pc"
  notified :: "nat \<Rightarrow> nat"
  stop_clip :: "nat \<Rightarrow> string"
  starter :: "nat \<Rightarrow> start_pc"
  start_ts :: "nat \<Rightarrow> u32"
  append_result :: "string \<Rightarrow> esp_err option"

definition video_is_recording :: "video_state \<Rightarrow> bool" where
  "video_is_recording st = s_recording st"

section \<open>Start\<close>

record start_video_io =
  vi_mount :: mount_io
  vi_mkdir :: mkdir_result
  vi_fopen :: bool
  vi_task :: "nat option"

definition video_dir :: "u32 \<Rightarrow> string" where
  "video_dir boot = snprintf NAME_MAX_LEN (SD_VIDEO_DIR @ ''/'' @ dec (unat boot))"

text \<open>One step of \<open>video_start\<close> run by task \<open>m\<close>.\<close>

definition video_start_step :: "start_video_io \<Rightarrow> u32 \<Rightarrow> nat \<Rightarrow> video_state \<Rightarrow> video_state" where
  "video_start_step vi boot m st = (case starter st m of
     ST_IDLE \<Rightarrow> st
   | ST_CALLED \<Rightarrow> st\<lparr>starter := (starter st)
       (m := if s_recording st then ST_RETURNED ESP_OK else ST_NOT_RECORDING)\<rparr>
   | ST_NOT_RECORDING \<Rightarrow> st\<lparr>starter := (starter st)
       (m := if s_task st \<noteq> None then ST_RETURNED ESP_FAIL else ST_NO_TASK)\<rparr>
   | ST_NO_TASK \<Rightarrow>
       (let (err, c) = sd_store_mount (vi_mount vi) (v_card st)
        in st\<lparr>v_card := c, starter := (starter st)
              (m := if err \<noteq> ESP_OK then ST_RETURNED err else ST_MOUNTED)\<rparr>)
   | ST_MOUNTED \<Rightarrow> st\<lparr>s_seq := s_seq st + 1, starter := (starter st)(m := ST_SEQ (s_seq st))\<rparr>
   | ST_SEQ q \<Rightarrow> st\<lparr>s_path := video_path NAME_MAX_LEN boot (start_ts st m) q,
                  starter := (starter st)(m := ST_NAMED)\<rparr>
   | ST_NAMED \<Rightarrow> st\<lparr>s_start_rel_ts_ms := start_ts st m, starter := (starter st)(m := ST_STAMPED)\<rparr>
   | ST_STAMPED \<Rightarrow> st\<lparr>v_card := snd (sd_ensure_dir (vi_mkdir vi) (video_dir boot) (v_card st)),
                    starter := (starter st)(m := ST_DIR)\<rparr>
   | ST_DIR \<Rightarrow>
       if \<not> vi_fopen vi then st\<lparr>s_file := None, starter := (starter st)(m := ST_RETURNED ESP_FAIL)\<rparr>
       else st\<lparr>s_file := Some (s_path st),
               v_card := (v_card st)\<lparr>sd_files := (sd_files (v_card st))(s_path st \<mapsto> [])\<rparr>,
               starter := (starter st)(m := ST_OPEN)\<rparr>
   | ST_OPEN \<Rightarrow> st\<lparr>s_recording := True, starter := (starter st)(m := ST_FLAGGED)\<rparr>
   | ST_FLAGGED \<Rightarrow> st\<lparr>s_stop_waiter := None, starter := (starter st)(m := ST_READY)\<rparr>
   | ST_READY \<Rightarrow>
       (case vi_task vi of
          None \<Rightarrow> st\<lparr>starter := (starter st)(m := ST_NO_CREATE)\<rparr>
        | Some h \<Rightarrow> st\<lparr>s_task := Some h, vt := (vt st)(h := V_RUN 0),
                       starter := (starter st)(m := ST_RETURNED ESP_OK)\<rparr>)
   | ST_NO_CREATE \<Rightarrow> st\<lparr>s_file := None, starter := (starter st)(m := ST_UNDONE)\<rparr>
   | ST_UNDONE \<Rightarrow> st\<lparr>s_recording := False, starter := (starter st)(m := ST_RETURNED ESP_FAIL)\<rparr>
   | ST_RETURNED err \<Rightarrow> st)"

text \<open>The begin of a call.\<close>

definition start_call :: "nat \<Rightarrow> u32 \<Rightarrow> video_state \<Rightarrow> video_state" where
  "start_call m rel_ts_ms st =
     st\<lparr>starter := (starter st)(m := ST_CALLED), start_ts := (start_ts st)(m := rel_ts_ms)\<rparr>"

text \<open>The whole call when no other task runs in between: what its steps make (\<open>video_start_alone\<close>).\<close>

definition video_start :: "start_video_io \<Rightarrow> u32 \<Rightarrow> u32 \<Rightarrow> video_state \<Rightarrow> esp_err \<times> video_state" where
  "video_start vi boot rel_ts_ms st =
     (if s_recording st then (ESP_OK, st)
      else if s_task st \<noteq> None then (ESP_FAIL, st)
      else let (err, c1) = sd_store_mount (vi_mount vi) (v_card st) in
      if err \<noteq> ESP_OK then (err, st\<lparr>v_card := c1\<rparr>)
      else
        let path = video_path NAME_MAX_LEN boot rel_ts_ms (s_seq st);
            (_, c2) = sd_ensure_dir (vi_mkdir vi) (video_dir boot) c1;
            st1 = st\<lparr>s_seq := s_seq st + 1, s_path := path, s_start_rel_ts_ms := rel_ts_ms,
                     s_file := None, v_card := c2\<rparr>
        in if \<not> vi_fopen vi then (ESP_FAIL, st1)
        else
          let st2 = st1\<lparr>s_file := Some path, v_card := c2\<lparr>sd_files := (sd_files c2)(path \<mapsto> [])\<rparr>,
                        s_recording := True, s_stop_waiter := None\<rparr>
          in (case vi_task vi of
                None \<Rightarrow> (ESP_FAIL, st2\<lparr>s_file := None, s_recording := False\<rparr>)
              | Some h \<Rightarrow> (ESP_OK, st2\<lparr>s_task := Some h, vt := (vt st)(h := V_RUN 0)\<rparr>)))"

lemma video_start_alone:
  "(video_start_step vi boot m ^^ 13) (start_call m rel_ts_ms st)
     = (let (err, st') = video_start vi boot rel_ts_ms st
        in st'\<lparr>starter := (starter st)(m := ST_RETURNED err), start_ts := (start_ts st)(m := rel_ts_ms)\<rparr>)"
proof -
  obtain err c where m: "sd_store_mount (vi_mount vi) (v_card st) = (err, c)" by fastforce
  note simps = eval_nat_numeral video_start_step_def start_call_def video_start_def split_beta Let_def m
  show ?thesis
  proof (cases "s_recording st \<or> s_task st \<noteq> None \<or> err \<noteq> ESP_OK")
    case True
    then show ?thesis by (cases "s_recording st"; cases "s_task st") (simp_all add: simps)
  next
    case False
    then show ?thesis by (cases "vi_fopen vi"; cases "vi_task vi") (simp_all add: simps)
  qed
qed

section \<open>The video task\<close>

text \<open>
  \<open>jpg\<close> is what \<open>camera_capture_jpeg\<close> gave, \<open>wio\<close> and \<open>aio\<close> the outcomes of \<open>fwrite\<close> and the append. (A
  write to no file would crash the device; \<open>owner_file\<close>: with serial starts there is none.)
\<close>

definition clip_line :: "u32 \<Rightarrow> video_state \<Rightarrow> string" where
  "clip_line boot st =
     manifest_line (NAME_MAX_LEN + 32) (s_path st) (s_start_rel_ts_ms st) boot (CHR ''v'')"

definition video_task ::
  "u32 \<Rightarrow> string option \<Rightarrow> io \<Rightarrow> io \<Rightarrow> nat \<Rightarrow> video_state \<Rightarrow> video_state" where
  "video_task boot jpg wio aio t st = (case vt st t of
     V_NONE \<Rightarrow> st
   | V_RUN frame \<Rightarrow>
       if \<not> s_recording st then st\<lparr>vt := (vt st)(t := V_FIN)\<rparr>
       else (case (jpg, s_file st) of
          (Some data, Some p) \<Rightarrow>
            if data = [] then st
            else st\<lparr>v_card := (v_card st)\<lparr>sd_files := (sd_files (v_card st))
                       (p \<mapsto> contents (v_card st) p @ transferred wio data)\<rparr>,
                    vt := (vt st)(t := V_RUN (Suc frame))\<rparr>
        | _ \<Rightarrow> st)
   | V_FIN \<Rightarrow> st\<lparr>s_file := None, vt := (vt st)(t := V_CLOSED)\<rparr>
   | V_CLOSED \<Rightarrow>
       (let (merr, c) = sd_store_append aio SD_MANIFEST (clip_line boot st) (v_card st)
        in st\<lparr>v_card := c, append_result := (append_result st)(s_path st \<mapsto> merr),
              vt := (vt st)(t := V_LISTED)\<rparr>)
   | V_LISTED \<Rightarrow> st\<lparr>vt := (vt st)(t := V_WAITER (s_stop_waiter st))\<rparr>
   | V_WAITER w \<Rightarrow> st\<lparr>s_task := if s_task st = Some t then None else s_task st,
                     vt := (vt st)(t := V_CLEAR w)\<rparr>
   | V_CLEAR w \<Rightarrow> st\<lparr>s_recording := False, vt := (vt st)(t := V_NOTIFY w)\<rparr>
   | V_NOTIFY w \<Rightarrow> st\<lparr>notified := (case w of None \<Rightarrow> notified st
                      | Some m \<Rightarrow> (notified st)(m := Suc (notified st m))),
                     vt := (vt st)(t := V_NONE)\<rparr>)"

section \<open>Stop and record\<close>

text \<open>One step of \<open>video_stop\<close> run by task \<open>m\<close>; \<open>timeout\<close>: the five seconds are over.\<close>

definition video_stop :: "bool \<Rightarrow> nat \<Rightarrow> video_state \<Rightarrow> video_state" where
  "video_stop timeout m st = (case stopper st m of
     S_IDLE \<Rightarrow> st\<lparr>stopper := (stopper st)(m := if s_recording st then S_CALLED else S_RETURNED False)\<rparr>
   | S_CALLED \<Rightarrow> st\<lparr>s_stop_waiter := Some m, stop_clip := (stop_clip st)(m := s_path st),
                   stopper := (stopper st)(m := S_WAITER_SET)\<rparr>
   | S_WAITER_SET \<Rightarrow> st\<lparr>s_recording := False, stopper := (stopper st)(m := S_FLAG_DROPPED)\<rparr>
   | S_FLAG_DROPPED \<Rightarrow> st\<lparr>notified := (notified st)(m := 0), stopper := (stopper st)(m := S_WAITING)\<rparr>
   | S_WAITING \<Rightarrow>
       if notified st m > 0 then
         st\<lparr>notified := (notified st)(m := 0), stopper := (stopper st)(m := S_WOKEN True)\<rparr>
       else if timeout then st\<lparr>stopper := (stopper st)(m := S_WOKEN False)\<rparr>
       else st
   | S_WOKEN got \<Rightarrow> st\<lparr>s_stop_waiter := None, stopper := (stopper st)(m := S_RETURNED got)\<rparr>
   | S_RETURNED got \<Rightarrow> st)"

text \<open>
  \<open>video_stop_async\<close> and \<open>video_record\<close> create a task (\<open>task_ok\<close>); the record task starts and, if
  the start did not fail, stops \<open>duration_s\<close> later. The result of \<open>video_record\<close>: its error and the
  duration the created task runs.
\<close>

definition video_stop_async :: "bool \<Rightarrow> bool" where
  "video_stop_async task_ok = task_ok"

definition video_record :: "bool \<Rightarrow> bool \<Rightarrow> u32 \<Rightarrow> esp_err \<times> u32 option" where
  "video_record malloc_ok task_ok duration_s =
     (if duration_s = 0 then (ESP_ERR_INVALID_ARG, None)
      else let d = (if duration_s > 120 then 120 else duration_s) in
        if \<not> malloc_ok then (ESP_ERR_NO_MEM, None)
        else if \<not> task_ok then (ESP_FAIL, None)
        else (ESP_OK, Some d))"

definition record_task_begin :: "start_video_io \<Rightarrow> u32 \<Rightarrow> u32 \<Rightarrow> video_state \<Rightarrow> bool \<times> video_state" where
  "record_task_begin vi boot rel_ts_ms st =
     (let (err, st') = video_start vi boot rel_ts_ms st in (err = ESP_OK, st'))"

section \<open>Interleavings\<close>

text \<open>How far a start is; 0 outside a call.\<close>

fun start_rank :: "start_pc \<Rightarrow> nat" where
  "start_rank ST_IDLE = 0"
| "start_rank ST_CALLED = 1"
| "start_rank ST_NOT_RECORDING = 2"
| "start_rank ST_NO_TASK = 3"
| "start_rank ST_MOUNTED = 4"
| "start_rank (ST_SEQ q) = 5"
| "start_rank ST_NAMED = 6"
| "start_rank ST_STAMPED = 7"
| "start_rank ST_DIR = 8"
| "start_rank ST_OPEN = 9"
| "start_rank ST_FLAGGED = 10"
| "start_rank ST_READY = 11"
| "start_rank ST_NO_CREATE = 12"
| "start_rank ST_UNDONE = 13"
| "start_rank (ST_RETURNED e) = 0"

definition in_call :: "start_pc \<Rightarrow> bool" where
  "in_call p = (start_rank p \<noteq> 0)"

text \<open>The append wrote a part of the line.\<close>

definition torn :: "io \<Rightarrow> string \<Rightarrow> bool" where
  "torn aio line = (io_open aio \<and> transferred aio line \<noteq> [] \<and> transferred aio line \<noteq> line)"

text \<open>
  The steps: the call of a start, one at a time when \<open>serial\<close>; a step of a start (with a handle that
  is not in use, before the clip counter wraps); a step of a video task with any camera and write
  outcome, and an append that writes its line or nothing; a step of a stopping task, each of which
  stops once; the write of a photo and of its manifest line by the snapshot worker. (The trim of the
  manifest after a transfer, and its race with an append, is in \<open>Wifi_Transfer\<close>.)
\<close>

definition photo_line :: "u32 \<Rightarrow> u32 \<Rightarrow> u32 \<Rightarrow> string" where
  "photo_line boot ts q =
     manifest_line (NAME_MAX_LEN + 32) (snapshot_path NAME_MAX_LEN boot ts q) ts boot (CHR ''s'')"

inductive video_step :: "bool \<Rightarrow> u32 \<Rightarrow> video_state \<Rightarrow> video_state \<Rightarrow> bool"
  for serial :: bool and boot :: u32 where
  call: "\<not> in_call (starter st m) \<Longrightarrow> (serial \<longrightarrow> (\<forall>u. \<not> in_call (starter st u)))
    \<Longrightarrow> video_step serial boot st (start_call m rel_ts_ms st)"
| start: "(case vi_task vi of None \<Rightarrow> True | Some h \<Rightarrow> vt st h = V_NONE) \<Longrightarrow> s_seq st \<noteq> - 1
    \<Longrightarrow> video_step serial boot st (video_start_step vi boot m st)"
| task: "\<not> torn aio (clip_line boot st)
    \<Longrightarrow> video_step serial boot st (video_task boot jpg wio aio t st)"
| stop: "video_step serial boot st (video_stop timeout m st)"
| photo: "video_step serial boot st (st\<lparr>v_card :=
    snd (sd_store_write wio (snapshot_path NAME_MAX_LEN boot ts q) jpg (v_card st))\<rparr>)"
| photo_line: "\<not> torn aio (photo_line boot ts q) \<Longrightarrow> video_step serial boot st (st\<lparr>v_card :=
    snd (sd_store_append aio SD_MANIFEST (photo_line boot ts q) (v_card st))\<rparr>)"

text \<open>The states reachable after boot on a card whose manifest has no clip of this boot.\<close>

definition listed :: "video_state \<Rightarrow> string list" where
  "listed st = map fst (manifest_entries (contents (v_card st) SD_MANIFEST))"

definition video_boot :: "sd_card \<Rightarrow> video_state" where
  "video_boot c = \<lparr>s_recording = False, s_task = None, s_stop_waiter = None, s_file = None,
     s_path = [], s_seq = 0, s_start_rel_ts_ms = 0, v_card = c, vt = (\<lambda>_. V_NONE),
     stopper = (\<lambda>_. S_IDLE), notified = (\<lambda>_. 0), stop_clip = (\<lambda>_. []),
     starter = (\<lambda>_. ST_IDLE), start_ts = (\<lambda>_. 0), append_result = Map.empty\<rparr>"

definition fresh_card :: "u32 \<Rightarrow> sd_card \<Rightarrow> bool" where
  "fresh_card boot c = (whole_lines (contents c SD_MANIFEST)
     \<and> (\<forall>ts q. video_path NAME_MAX_LEN boot ts q \<notin> set (listed (video_boot c))))"

inductive video_reach :: "bool \<Rightarrow> u32 \<Rightarrow> sd_card \<Rightarrow> video_state \<Rightarrow> bool"
  for serial :: bool and boot :: u32 and c :: sd_card where
  boot: "video_reach serial boot c (video_boot c)"
| step: "video_reach serial boot c st \<Longrightarrow> video_step serial boot st st' \<Longrightarrow> video_reach serial boot c st'"

section \<open>Ownership of the clip\<close>

definition busy :: "vt_pc \<Rightarrow> bool" where
  "busy p = (case p of V_NONE \<Rightarrow> False | V_CLEAR _ \<Rightarrow> False | V_NOTIFY _ \<Rightarrow> False | _ \<Rightarrow> True)"

definition writing :: "vt_pc \<Rightarrow> bool" where
  "writing p = (case p of V_RUN _ \<Rightarrow> True | V_FIN \<Rightarrow> True | _ \<Rightarrow> False)"

definition in_loop :: "vt_pc \<Rightarrow> bool" where
  "in_loop p = (case p of V_RUN _ \<Rightarrow> True | _ \<Rightarrow> False)"

text \<open>What a start at a rank holds: it is past the guards, has a file open, has a name, set the flag.\<close>

definition past_guards :: "nat \<Rightarrow> bool" where
  "past_guards r = (3 \<le> r)"

definition has_file :: "nat \<Rightarrow> bool" where
  "has_file r = (9 \<le> r \<and> r \<le> 12)"

definition named :: "nat \<Rightarrow> bool" where
  "named r = (6 \<le> r)"

definition flagged :: "nat \<Rightarrow> bool" where
  "flagged r = (10 \<le> r)"

lemmas rank_defs = past_guards_def has_file_def named_def flagged_def in_call_def

definition some_start :: "(nat \<Rightarrow> bool) \<Rightarrow> video_state \<Rightarrow> bool" where
  "some_start P st = (\<exists>u. P (start_rank (starter st u)))"

definition one_start :: "video_state \<Rightarrow> bool" where
  "one_start st = (\<forall>u v. in_call (starter st u) \<longrightarrow> in_call (starter st v) \<longrightarrow> u = v)"

text \<open>
  The clip has one owner at a time: the start that is past its guards, then the task it created
  until that releases the handle.
\<close>

definition owner_inv :: "video_state \<Rightarrow> bool" where
  "owner_inv st = (one_start st \<and> (case s_task st of
     None \<Rightarrow> (\<forall>u. \<not> busy (vt st u)) \<and> (s_recording st \<longrightarrow> some_start flagged st)
       \<and> s_file st = (if some_start has_file st then Some (s_path st) else None)
   | Some t \<Rightarrow> busy (vt st t) \<and> (\<forall>u. u \<noteq> t \<longrightarrow> \<not> busy (vt st u)) \<and> \<not> some_start past_guards st
       \<and> (s_recording st \<longrightarrow> in_loop (vt st t))
       \<and> s_file st = (if writing (vt st t) then Some (s_path st) else None)))"

lemma busy_simps [simp]:
  "\<not> busy V_NONE" "busy (V_RUN n)" "busy V_FIN" "busy V_CLOSED" "busy V_LISTED" "busy (V_WAITER w)"
  "\<not> busy (V_CLEAR w)" "\<not> busy (V_NOTIFY w)"
  "\<not> writing V_NONE" "writing (V_RUN n)" "writing V_FIN" "\<not> writing V_CLOSED" "\<not> writing V_LISTED"
  "\<not> writing (V_WAITER w)" "\<not> writing (V_CLEAR w)" "\<not> writing (V_NOTIFY w)"
  "\<not> in_loop V_NONE" "in_loop (V_RUN n)" "\<not> in_loop V_FIN" "\<not> in_loop V_CLOSED"
  "\<not> in_loop V_LISTED" "\<not> in_loop (V_WAITER w)" "\<not> in_loop (V_CLEAR w)" "\<not> in_loop (V_NOTIFY w)"
  by (simp_all add: busy_def writing_def in_loop_def)

lemma some_start_same: "starter st' = starter st \<Longrightarrow> some_start P st' = some_start P st"
  by (simp add: some_start_def)

lemma some_start_mono: "some_start P st \<Longrightarrow> (\<And>r. P r \<Longrightarrow> Q r) \<Longrightarrow> some_start Q st"
  by (auto simp: some_start_def)

lemma one_start_same: "starter st' = starter st \<Longrightarrow> one_start st' = one_start st"
  by (simp add: one_start_def)

text \<open>A running start is the only one; so what some start holds is what this one holds.\<close>

lemma some_start_only:
  assumes "\<And>u. u \<noteq> m \<Longrightarrow> start_rank (starter st u) = 0" and "\<not> P 0"
  shows "some_start P st = P (start_rank (starter st m))"
  using assms unfolding some_start_def by metis

lemma one_start_others:
  "one_start st \<Longrightarrow> in_call (starter st m) \<Longrightarrow> u \<noteq> m \<Longrightarrow> start_rank (starter st u) = 0"
  by (auto simp: one_start_def in_call_def)

lemma start_step_others: "u \<noteq> m \<Longrightarrow> starter (video_start_step vi boot m st) u = starter st u"
  by (cases "starter st m") (auto simp: video_start_step_def split_beta split: option.split)

lemma start_step_idle: "\<not> in_call (starter st m) \<Longrightarrow> video_start_step vi boot m st = st"
  by (cases "starter st m") (simp_all add: video_start_step_def in_call_def)

lemma one_start_step:
  assumes "one_start st"
  shows "one_start (video_start_step vi boot m st)"
proof (cases "in_call (starter st m)")
  case True
  with assms one_start_others [OF assms True] show ?thesis
    unfolding one_start_def in_call_def by (metis start_step_others)
qed (simp add: assms start_step_idle)

lemma owner_busy:
  assumes "owner_inv st" and "busy (vt st t)"
  shows "s_task st = Some t"
proof (cases "s_task st")
  case None
  with assms show ?thesis by (simp add: owner_inv_def)
next
  case (Some u)
  with assms have "u = t" unfolding owner_inv_def by force
  with Some show ?thesis by simp
qed

lemma owner_file:
  assumes "owner_inv st" and "writing (vt st t)"
  shows "s_file st = Some (s_path st)"
proof -
  have "busy (vt st t)" using assms(2) by (cases "vt st t") simp_all
  with assms have "s_task st = Some t" by (simp add: owner_busy)
  with assms show ?thesis by (simp add: owner_inv_def)
qed

text \<open>A step of the owner, and of a task that is past the release.\<close>

lemma task_starter [simp]: "starter (video_task boot jpg wio aio t st) = starter st"
  by (cases "vt st t") (simp_all add: video_task_def split_beta split: option.split)

lemma owner_task:
  assumes "owner_inv st"
  shows "owner_inv (video_task boot jpg wio aio t st)"
proof (cases "busy (vt st t)")
  case True
  have t: "s_task st = Some t" by (rule owner_busy [OF assms True])
  have imp: "some_start has_file st \<Longrightarrow> some_start past_guards st"
    by (erule some_start_mono) (simp add: rank_defs)
  note same = some_start_same [OF task_starter] one_start_same [OF task_starter]
  show ?thesis
    using assms True t imp unfolding owner_inv_def same
    by (cases "vt st t") (auto simp: video_task_def split_beta split: option.split)
next
  case False
  with assms have t: "s_task st \<noteq> Some t" by (auto simp: owner_inv_def)
  note same = some_start_same [OF task_starter] one_start_same [OF task_starter]
  show ?thesis
    using False assms t unfolding owner_inv_def same
    by (cases "vt st t"; cases "s_task st") (auto simp: video_task_def)
qed

lemma owner_call:
  assumes "owner_inv st" and "\<And>u. \<not> in_call (starter st u)"
  shows "owner_inv (start_call m ts st)"
proof -
  have z: "start_rank (starter st u) = 0" for u using assms(2) [of u] by (simp add: in_call_def)
  have z': "start_rank (starter (start_call m ts st) u) = (if u = m then 1 else 0)" for u
    by (simp add: start_call_def z)
  have none: "\<not> some_start P st" "\<not> some_start P (start_call m ts st)" if "\<not> P 0" "\<not> P 1" for P
    unfolding some_start_def z z' using that by simp_all
  have one: "one_start (start_call m ts st)" unfolding one_start_def in_call_def z' by simp
  have no: "\<not> some_start flagged st" "\<not> some_start has_file st" "\<not> some_start flagged (start_call m ts st)"
    "\<not> some_start has_file (start_call m ts st)" "\<not> some_start past_guards (start_call m ts st)"
    by (rule none; simp add: rank_defs)+
  have "s_recording (start_call m ts st) = s_recording st" "s_task (start_call m ts st) = s_task st"
    "vt (start_call m ts st) = vt st" "s_file (start_call m ts st) = s_file st"
    "s_path (start_call m ts st) = s_path st"
    by (simp_all add: start_call_def)
  note same = this
  show ?thesis
    using assms(1) one no unfolding owner_inv_def same by (cases "s_task st") simp_all
qed

lemma owner_start:
  assumes "owner_inv st" and "\<And>h. vi_task vi = Some h \<Longrightarrow> vt st h = V_NONE"
  shows "owner_inv (video_start_step vi boot m st)"
proof (cases "in_call (starter st m)")
  case True
  let ?st' = "video_start_step vi boot m st"
  have one: "one_start st" using assms(1) by (simp add: owner_inv_def)
  have out: "start_rank (starter st u) = 0" "start_rank (starter ?st' u) = 0" if "u \<noteq> m" for u
    using one_start_others [OF one True that] that by (simp_all add: start_step_others)
  have zero: "\<not> flagged 0" "\<not> has_file 0" "\<not> past_guards 0" by (simp_all add: rank_defs)
  have only: "some_start P st = P (start_rank (starter st m))"
    "some_start P ?st' = P (start_rank (starter ?st' m))" if "\<not> P 0" for P
    using some_start_only [of m st P] some_start_only [of m ?st' P] out that by blast+
  note held = only [of flagged, OF zero(1)] only [of has_file, OF zero(2)] only [of past_guards, OF zero(3)]
  from one_start_step [OF one] have one': "one_start ?st'" .
  show ?thesis
    using assms True one' unfolding owner_inv_def held
    by (cases "starter st m"; cases "s_task st")
      (auto simp: video_start_step_def rank_defs split_beta split: option.split)
qed (simp add: assms start_step_idle)

lemma owner_stop: "owner_inv st \<Longrightarrow> owner_inv (video_stop timeout m st)"
proof -
  assume o: "owner_inv st"
  have "starter (video_stop timeout m st) = starter st"
    by (cases "stopper st m") (simp_all add: video_stop_def)
  note same = some_start_same [OF this] one_start_same [OF this]
  from o show ?thesis
    unfolding owner_inv_def same
    by (cases "stopper st m"; cases "s_task st") (auto simp: video_stop_def)
qed

section \<open>The manifest of clips\<close>

definition unlisted :: "vt_pc \<Rightarrow> bool" where
  "unlisted p = (case p of V_RUN _ \<Rightarrow> True | V_FIN \<Rightarrow> True | V_CLOSED \<Rightarrow> True | _ \<Rightarrow> False)"

definition clip_name :: "u32 \<Rightarrow> u32 \<Rightarrow> string \<Rightarrow> bool" where
  "clip_name boot n p = (\<exists>ts q. p = video_path NAME_MAX_LEN boot ts q \<and> unat q < unat n)"

text \<open>
  The listing is what the successful appends made it. A start that has its sequence number, and the
  clip until its append, have a name for which no append was made.
\<close>

definition list_inv :: "u32 \<Rightarrow> video_state \<Rightarrow> bool" where
  "list_inv boot st = (whole_lines (contents (v_card st) SD_MANIFEST)
     \<and> (\<forall>ts q. video_path NAME_MAX_LEN boot ts q \<in> set (listed st)
          \<longleftrightarrow> append_result st (video_path NAME_MAX_LEN boot ts q) = Some ESP_OK)
     \<and> (\<forall>ts q. count_list (listed st) (video_path NAME_MAX_LEN boot ts q) \<le> 1)
     \<and> (\<forall>p. append_result st p \<noteq> None \<longrightarrow> clip_name boot (s_seq st) p)
     \<and> (\<forall>u q. starter st u = ST_SEQ q \<longrightarrow> unat q < unat (s_seq st)
          \<and> (\<forall>ts. append_result st (video_path NAME_MAX_LEN boot ts q) = None))
     \<and> (some_start named st \<longrightarrow> clip_name boot (s_seq st) (s_path st) \<and> append_result st (s_path st) = None)
     \<and> (case s_task st of None \<Rightarrow> True | Some t \<Rightarrow> clip_name boot (s_seq st) (s_path st)
          \<and> (append_result st (s_path st) = None \<longleftrightarrow> unlisted (vt st t))))"

lemma clip_name_not_manifest: "clip_name boot n p \<Longrightarrow> p \<noteq> SD_MANIFEST"
  by (auto simp: clip_name_def)

lemma clip_name_mono: "clip_name boot n p \<Longrightarrow> unat n \<le> unat n' \<Longrightarrow> clip_name boot n' p"
  unfolding clip_name_def by (elim exE conjE, intro exI conjI) auto

lemma list_inv_same:
  assumes "list_inv boot st" and "sd_files (v_card st') SD_MANIFEST = sd_files (v_card st) SD_MANIFEST"
    and "s_seq st' = s_seq st" and "s_path st' = s_path st" and "append_result st' = append_result st"
    and "\<And>u q. starter st' u = ST_SEQ q \<Longrightarrow> starter st u = ST_SEQ q"
    and "some_start named st' \<Longrightarrow> some_start named st"
    and "s_task st' = None \<or> s_task st' = s_task st
      \<and> (\<forall>t. s_task st = Some t \<longrightarrow> unlisted (vt st' t) = unlisted (vt st t))"
  shows "list_inv boot st'"
proof -
  have l: "listed st' = listed st" "contents (v_card st') SD_MANIFEST = contents (v_card st) SD_MANIFEST"
    using assms(2) by (simp_all add: listed_def contents_def)
  have "case s_task st' of None \<Rightarrow> True | Some t \<Rightarrow> clip_name boot (s_seq st) (s_path st)
      \<and> (append_result st (s_path st) = None \<longleftrightarrow> unlisted (vt st' t))"
    using assms(1,8) by (auto simp: list_inv_def split: option.splits)
  with assms(1,6,7) show ?thesis unfolding list_inv_def l assms(3-5) by blast
qed

lemma unlisted_simps [simp]:
  "unlisted (V_RUN n)" "unlisted V_FIN" "unlisted V_CLOSED" "\<not> unlisted V_LISTED"
  "\<not> unlisted (V_WAITER w)" "\<not> unlisted (V_CLEAR w)" "\<not> unlisted (V_NOTIFY w)" "\<not> unlisted V_NONE"
  by (simp_all add: unlisted_def)

lemma stop_starter [simp]: "starter (video_stop timeout m st) = starter st"
  by (cases "stopper st m") (simp_all add: video_stop_def)

lemma list_stop: "list_inv boot st \<Longrightarrow> list_inv boot (video_stop timeout m st)"
  by (rule list_inv_same [of boot st]; (simp add: some_start_def; fail)?;
    cases "stopper st m"; simp add: video_stop_def some_start_def)

lemma list_call: "list_inv boot st \<Longrightarrow> list_inv boot (start_call m ts st)"
proof (rule list_inv_same [of boot st])
  assume "some_start named (start_call m ts st)"
  then obtain u where u: "named (start_rank (starter (start_call m ts st) u))"
    by (auto simp: some_start_def)
  then have "u \<noteq> m" by (auto simp: start_call_def rank_defs)
  with u show "some_start named st" by (auto simp: start_call_def some_start_def)
qed (auto simp: start_call_def split: if_splits)

text \<open>An append that is not torn: the path is listed when it succeeded, and nothing changes otherwise.\<close>

lemma line_append:
  assumes "whole_lines (contents k SD_MANIFEST)" and "path \<noteq> []" and "CHR ''|'' \<notin> set path"
    and "newline \<notin> set path" and "length path < NAME_MAX_LEN" and "kind = CHR ''s'' \<or> kind = CHR ''v''"
    and "\<not> torn aio (manifest_line (NAME_MAX_LEN + 32) path ts boot kind)"
    and "sd_store_append aio SD_MANIFEST (manifest_line (NAME_MAX_LEN + 32) path ts boot kind) k = (merr, c)"
  shows "map fst (manifest_entries (contents c SD_MANIFEST))
      = map fst (manifest_entries (contents k SD_MANIFEST)) @ (if merr = ESP_OK then [path] else [])"
    and "whole_lines (contents c SD_MANIFEST)"
proof -
  let ?l = "manifest_line (NAME_MAX_LEN + 32) path ts boot kind"
  have l: "?l \<noteq> []" by (simp add: manifest_line_def snprintf_def)
  have c: "contents c SD_MANIFEST = contents k SD_MANIFEST @ (if merr = ESP_OK then ?l else [])"
    using assms(7,8) l
    by (auto simp: sd_store_append_def contents_def torn_def Let_def transferred_full split: if_splits)
  note line = manifest_entries_line [OF assms(1-6)]
  show "map fst (manifest_entries (contents c SD_MANIFEST))
      = map fst (manifest_entries (contents k SD_MANIFEST)) @ (if merr = ESP_OK then [path] else [])"
    "whole_lines (contents c SD_MANIFEST)"
    by (simp_all add: c line assms(1))
qed

lemma clip_append:
  assumes "whole_lines (contents (v_card st) SD_MANIFEST)" and "clip_name boot n (s_path st)"
    and "\<not> torn aio (clip_line boot st)"
    and "sd_store_append aio SD_MANIFEST (clip_line boot st) (v_card st) = (merr, c)"
  shows "map fst (manifest_entries (contents c SD_MANIFEST))
      = listed st @ (if merr = ESP_OK then [s_path st] else [])"
    and "whole_lines (contents c SD_MANIFEST)"
proof -
  from assms(2) obtain t q where p: "s_path st = video_path NAME_MAX_LEN boot t q"
    by (auto simp: clip_name_def)
  from line_append [OF assms(1) _ _ _ _ _ assms(3,4) [unfolded clip_line_def]]
  show "map fst (manifest_entries (contents c SD_MANIFEST))
      = listed st @ (if merr = ESP_OK then [s_path st] else [])" "whole_lines (contents c SD_MANIFEST)"
    by (simp_all add: listed_def p media_paths_plain)
qed

lemma list_photo:
  assumes "list_inv boot st"
  shows "list_inv boot (st\<lparr>v_card := snd (sd_store_write wio (snapshot_path NAME_MAX_LEN boot ts q) jpg (v_card st))\<rparr>)"
  by (rule list_inv_same [OF assms]; simp add: sd_store_frame some_start_def media_paths_not_manifest(1) [symmetric])

lemma list_photo_line:
  assumes "list_inv boot st" and "\<not> torn aio (photo_line boot ts q)"
  shows "list_inv boot (st\<lparr>v_card := snd (sd_store_append aio SD_MANIFEST (photo_line boot ts q) (v_card st))\<rparr>)"
proof -
  let ?p = "snapshot_path NAME_MAX_LEN boot ts q"
  obtain merr c where a: "sd_store_append aio SD_MANIFEST (photo_line boot ts q) (v_card st) = (merr, c)"
    by fastforce
  have w: "whole_lines (contents (v_card st) SD_MANIFEST)" using assms(1) by (simp add: list_inv_def)
  note app = line_append [OF w media_paths_plain(3,1,2,4) disjI1 [OF refl]
      assms(2) [unfolded photo_line_def] a [unfolded photo_line_def]]
  have l: "listed (st\<lparr>v_card := c\<rparr>) = listed st @ (if merr = ESP_OK then [?p] else [])"
    using app(1) by (simp add: listed_def)
  have other: "video_path NAME_MAX_LEN boot ts' q' \<noteq> ?p" "?p \<noteq> video_path NAME_MAX_LEN boot ts' q'" for ts' q'
    by (simp_all add: snapshot_path_full(1) video_path_full(1))
  show ?thesis
    using assms(1) app(2) other unfolding list_inv_def a snd_conv l
    by (cases "s_task st") (simp_all add: some_start_def)
qed

lemma list_append:
  assumes "owner_inv st" and "list_inv boot st" and "\<not> torn aio (clip_line boot st)"
    and "vt st t = V_CLOSED"
  shows "list_inv boot (video_task boot jpg wio aio t st)"
proof -
  let ?st' = "video_task boot jpg wio aio t st"
  have t: "s_task st = Some t" using assms(1,4) owner_busy [of st t] by simp
  with assms(2,4) have c: "clip_name boot (s_seq st) (s_path st)"
    and new: "append_result st (s_path st) = None" and w: "whole_lines (contents (v_card st) SD_MANIFEST)"
    by (simp_all add: list_inv_def)
  obtain merr k where a: "sd_store_append aio SD_MANIFEST (clip_line boot st) (v_card st) = (merr, k)"
    by fastforce
  have st': "?st' = st\<lparr>v_card := k, append_result := (append_result st)(s_path st \<mapsto> merr),
      vt := (vt st)(t := V_LISTED)\<rparr>"
    using assms(4) a by (simp add: video_task_def)
  note app = clip_append [OF w c assms(3) a]
  have l: "listed ?st' = listed st @ (if merr = ESP_OK then [s_path st] else [])"
    by (simp add: st' listed_def [of "st\<lparr>v_card := k, append_result := _, vt := _\<rparr>"] app(1))
  obtain ts q where p: "s_path st = video_path NAME_MAX_LEN boot ts q" "unat q < unat (s_seq st)"
    using c by (auto simp: clip_name_def)
  have out: "s_path st \<notin> set (listed st)" using assms(2) new by (simp add: list_inv_def p(1))
  then have "count_list (listed st) (s_path st) = 0" by (simp add: count_list_0_iff)
  have no: "\<not> some_start past_guards st" using assms(1) t by (simp add: owner_inv_def)
  then have rank: "start_rank (starter st u) < 3" for u
    by (simp add: some_start_def past_guards_def not_le)
  have early: "starter st u \<noteq> ST_SEQ r" "\<not> some_start named st" for u r
  proof -
    show "starter st u \<noteq> ST_SEQ r" using rank [of u] by auto
    have "\<not> named (start_rank (starter st v))" for v using rank [of v] by (simp add: named_def)
    then show "\<not> some_start named st" by (simp add: some_start_def)
  qed
  have "\<not> some_start named ?st'" using early(2) by (simp add: some_start_def)
  moreover have "starter ?st' u \<noteq> ST_SEQ r" for u r using early(1) by simp
  moreover have "count_list (listed ?st') (video_path NAME_MAX_LEN boot ts' q') \<le> 1" for ts' q'
    using assms(2) \<open>count_list (listed st) (s_path st) = 0\<close> unfolding l by (auto simp: list_inv_def)
  moreover have "video_path NAME_MAX_LEN boot ts' q' \<in> set (listed ?st')
      \<longleftrightarrow> append_result ?st' (video_path NAME_MAX_LEN boot ts' q') = Some ESP_OK" for ts' q'
    using assms(2) out new unfolding l by (auto simp: list_inv_def st')
  moreover have "append_result ?st' p \<noteq> None \<longrightarrow> clip_name boot (s_seq ?st') p" for p
    using assms(2) c by (auto simp: list_inv_def st')
  moreover have "whole_lines (contents (v_card ?st') SD_MANIFEST)" using app(2) by (simp add: st')
  moreover have "s_task ?st' = Some t" "s_path ?st' = s_path st" "s_seq ?st' = s_seq st"
    "vt ?st' t = V_LISTED" "append_result ?st' (s_path st) \<noteq> None" using t by (simp_all add: st')
  ultimately show ?thesis using c unfolding list_inv_def by simp
qed

lemma list_task:
  assumes "owner_inv st" and "list_inv boot st" and "\<not> torn aio (clip_line boot st)"
  shows "list_inv boot (video_task boot jpg wio aio t st)"
proof (cases "vt st t = V_CLOSED")
  case True
  from list_append [OF assms True] show ?thesis .
next
  case False
  note start = some_start_same [OF task_starter]
  show ?thesis
  proof (cases "\<exists>f. vt st t = V_RUN f")
    case True
    then obtain f where r: "vt st t = V_RUN f" by blast
    with assms(1) have t: "s_task st = Some t" "s_file st = Some (s_path st)"
      using owner_busy [of st t] owner_file [of st t] by simp_all
    with assms(2) have "s_path st \<noteq> SD_MANIFEST"
      by (auto simp: list_inv_def dest: clip_name_not_manifest)
    with r t show ?thesis
      by (intro list_inv_same [OF assms(2)]; (simp add: start; fail)?)
        (auto simp: video_task_def split: option.split)
  next
    case run: False
    have "\<not> busy (vt st t) \<or> s_task st = Some t" using owner_busy [OF assms(1)] by blast
    then have same: "s_task (video_task boot jpg wio aio t st) = None
        \<or> s_task (video_task boot jpg wio aio t st) = s_task st
          \<and> (\<forall>u. s_task st = Some u \<longrightarrow> unlisted (vt (video_task boot jpg wio aio t st) u) = unlisted (vt st u))"
      using False run assms(1) by (cases "vt st t"; cases "s_task st") (auto simp: video_task_def owner_inv_def)
    show ?thesis
      by (rule list_inv_same [OF assms(2)]; (simp add: start; fail)?; (rule same)?)
        (use False run in \<open>cases "vt st t"; simp add: video_task_def\<close>)+
  qed
qed

lemma seq_step: "(q :: u32) \<noteq> - 1 \<Longrightarrow> unat (q + 1) = Suc (unat q)"
  using unatSuc [of q] by (simp add: add.commute add_eq_0_iff)

lemma video_paths_eq:
  "video_path NAME_MAX_LEN boot ts q = video_path NAME_MAX_LEN boot ts' q' \<Longrightarrow> q = q'"
  by (simp add: video_path_inject)

lemma list_start:
  assumes "owner_inv st" and "list_inv boot st" and "s_seq st \<noteq> - 1"
  shows "list_inv boot (video_start_step vi boot m st)"
proof (cases "in_call (starter st m)")
  case True
  let ?st' = "video_start_step vi boot m st"
  have one: "one_start st" using assms(1) by (simp add: owner_inv_def)
  have out: "start_rank (starter st u) = 0" if "u \<noteq> m" for u by (rule one_start_others [OF one True that])
  have others: "starter ?st' u = starter st u" if "u \<noteq> m" for u using that by (rule start_step_others)
  have zero: "\<not> named 0" by (simp add: rank_defs)
  have named: "some_start named st = named (start_rank (starter st m))"
    "some_start named ?st' = named (start_rank (starter ?st' m))"
    using some_start_only [of m st named] some_start_only [of m ?st' named] out others zero by auto
  have next_seq: "starter ?st' m = ST_SEQ q" if "starter ?st' u = ST_SEQ q" for u q
    using that out [of u] others [of u] by (cases "u = m") auto
  have free: "s_task st = None" if "3 \<le> start_rank (starter st m)"
    using that assms(1) by (auto simp: owner_inv_def some_start_def rank_defs split: option.splits)
  consider (seq) "starter st m = ST_MOUNTED" | (name) q where "starter st m = ST_SEQ q"
    | (task) "starter st m = ST_READY" | (other) "starter st m \<noteq> ST_MOUNTED" "starter st m \<noteq> ST_READY"
      "\<And>q. starter st m \<noteq> ST_SEQ q" by blast
  then show ?thesis
  proof cases
    case seq
    let ?q = "s_seq st"
    have st': "?st' = st\<lparr>s_seq := ?q + 1, starter := (starter st)(m := ST_SEQ ?q)\<rparr>"
      using seq by (simp add: video_start_step_def)
    have new: "append_result st (video_path NAME_MAX_LEN boot ts ?q) = None" for ts
    proof (rule ccontr)
      assume "append_result st (video_path NAME_MAX_LEN boot ts ?q) \<noteq> None"
      with assms(2) have "clip_name boot ?q (video_path NAME_MAX_LEN boot ts ?q)" by (simp add: list_inv_def)
      then show False by (auto simp: clip_name_def dest: video_paths_eq)
    qed
    have "clip_name boot (?q + 1) p" if "append_result st p \<noteq> None" for p
    proof (rule clip_name_mono)
      show "clip_name boot ?q p" using assms(2) that unfolding list_inv_def by blast
      show "unat ?q \<le> unat (?q + 1)" by (simp only: seq_step [OF assms(3)])
    qed
    moreover have "unat q < unat (?q + 1) \<and> (\<forall>ts. append_result st (video_path NAME_MAX_LEN boot ts q) = None)"
      if "starter ?st' u = ST_SEQ q" for u q
    proof -
      have "q = ?q" using next_seq [OF that] by (simp add: st')
      with new show ?thesis by (simp add: seq_step [OF assms(3)])
    qed
    moreover have "\<not> some_start named ?st'" unfolding named by (simp add: st' rank_defs)
    moreover have "s_task ?st' = None" using free seq by (simp add: st')
    moreover have "listed ?st' = listed st" "v_card ?st' = v_card st" by (simp_all add: st' listed_def)
    moreover have "append_result ?st' = append_result st" "s_seq ?st' = ?q + 1" by (simp_all add: st')
    ultimately show ?thesis
      using assms(2) unfolding list_inv_def by simp
  next
    case (name q)
    let ?p = "video_path NAME_MAX_LEN boot (start_ts st m) q"
    have st': "?st' = st\<lparr>s_path := ?p, starter := (starter st)(m := ST_NAMED)\<rparr>"
      using name by (simp add: video_start_step_def)
    have q: "unat q < unat (s_seq st)" "append_result st ?p = None"
      using assms(2) name by (simp_all add: list_inv_def)
    have "starter ?st' u \<noteq> ST_SEQ r" for u r
      using next_seq [of u r] by (auto simp: st')
    moreover have "clip_name boot (s_seq st) ?p" using q(1) by (auto simp: clip_name_def)
    moreover have "s_task ?st' = None" using free name by (simp add: st')
    moreover have "listed ?st' = listed st" "v_card ?st' = v_card st" by (simp_all add: st' listed_def)
    moreover have "append_result ?st' = append_result st" "s_seq ?st' = s_seq st" "s_path ?st' = ?p"
      by (simp_all add: st')
    ultimately show ?thesis
      using assms(2) q(2) unfolding list_inv_def by simp
  next
    case task
    have cur: "clip_name boot (s_seq st) (s_path st)" "append_result st (s_path st) = None"
      using assms(2) task named(1) by (simp_all add: list_inv_def rank_defs)
    have seqs: "starter ?st' u \<noteq> ST_SEQ r" for u r
      using next_seq [of u r] task by (auto simp: video_start_step_def split: option.splits)
    show ?thesis
    proof (cases "vi_task vi")
      case None
      then show ?thesis using task seqs named
        by (intro list_inv_same [OF assms(2)]) (simp_all add: video_start_step_def rank_defs)
    next
      case (Some h)
      then have st': "?st' = st\<lparr>s_task := Some h, vt := (vt st)(h := V_RUN 0),
          starter := (starter st)(m := ST_RETURNED ESP_OK)\<rparr>"
        using task by (simp add: video_start_step_def)
      have "\<not> some_start named ?st'" unfolding named by (simp add: st' rank_defs)
      moreover have "listed ?st' = listed st" "v_card ?st' = v_card st" by (simp_all add: st' listed_def)
      moreover have "append_result ?st' = append_result st" "s_seq ?st' = s_seq st" "s_path ?st' = s_path st"
        "s_task ?st' = Some h" "vt ?st' h = V_RUN 0" by (simp_all add: st')
      ultimately show ?thesis
        using assms(2) cur seqs unfolding list_inv_def by simp
    qed
  next
    case other
    have "starter ?st' u \<noteq> ST_SEQ r" for u r
      using next_seq [of u r] other
      by (cases "starter st m") (auto simp: video_start_step_def split_beta split: if_splits)
    moreover have "sd_files (v_card ?st') SD_MANIFEST = sd_files (v_card st) SD_MANIFEST"
    proof (cases "starter st m = ST_DIR")
      case True
      then have "s_path st \<noteq> SD_MANIFEST"
        using assms(2) named(1) by (auto simp: list_inv_def rank_defs dest: clip_name_not_manifest)
      with True show ?thesis by (simp add: video_start_step_def)
    next
      case False
      with other show ?thesis by (cases "starter st m") (auto simp: video_start_step_def split_beta)
    qed
    moreover have "some_start named ?st' \<Longrightarrow> some_start named st"
      unfolding named using other
      by (cases "starter st m") (auto simp: video_start_step_def rank_defs split_beta split: if_splits)
    ultimately show ?thesis
      by (intro list_inv_same [OF assms(2)];
        use other in \<open>cases "starter st m"; simp add: video_start_step_def split_beta\<close>)
  qed
qed (simp add: assms start_step_idle)

section \<open>Waiting for the clip\<close>

definition holds :: "vt_pc \<Rightarrow> nat option" where
  "holds p = (case p of V_WAITER w \<Rightarrow> w | V_CLEAR w \<Rightarrow> w | V_NOTIFY w \<Rightarrow> w | _ \<Rightarrow> None)"

lemma holds_simps [simp]:
  "holds V_NONE = None" "holds (V_RUN n) = None" "holds V_FIN = None" "holds V_CLOSED = None"
  "holds V_LISTED = None" "holds (V_WAITER w) = w" "holds (V_CLEAR w) = w" "holds (V_NOTIFY w) = w"
  by (simp_all add: holds_def)

definition not_registered :: "stop_pc \<Rightarrow> bool" where
  "not_registered p = (p = S_IDLE \<or> p = S_CALLED)"

text \<open>
  A registered waiter waits for the clip of the task, or of the start that is about to create it;
  whoever was or will be notified waits for a clip whose append was made.
\<close>

definition wait_inv :: "video_state \<Rightarrow> bool" where
  "wait_inv st = ((\<forall>m. not_registered (stopper st m) \<longrightarrow> notified st m = 0 \<and> s_stop_waiter st \<noteq> Some m
        \<and> (\<forall>t. holds (vt st t) \<noteq> Some m))
     \<and> (\<forall>m. s_stop_waiter st = Some m \<longrightarrow> s_task st \<noteq> None \<or> (\<exists>u. starter st u = ST_READY)
          \<longrightarrow> stop_clip st m = s_path st)
     \<and> (\<forall>t m. holds (vt st t) = Some m \<longrightarrow> append_result st (stop_clip st m) \<noteq> None)
     \<and> (\<forall>m. notified st m > 0 \<or> stopper st m = S_WOKEN True \<or> stopper st m = S_RETURNED True
          \<longrightarrow> append_result st (stop_clip st m) \<noteq> None))"

lemma wait_task:
  assumes "owner_inv st" and "list_inv boot st" and "wait_inv st"
  shows "wait_inv (video_task boot jpg wio aio t st)"
proof -
  let ?st' = "video_task boot jpg wio aio t st"
  have sub: "append_result st p \<noteq> None \<Longrightarrow> append_result ?st' p \<noteq> None" for p
    by (cases "vt st t") (simp_all add: video_task_def split_beta split: option.split)
  have fixed: "stopper ?st' = stopper st" "s_stop_waiter ?st' = s_stop_waiter st"
    "stop_clip ?st' = stop_clip st" "s_path ?st' = s_path st"
    by (cases "vt st t"; simp add: video_task_def split_beta split: option.split)+
  have task': "s_task ?st' = None \<or> s_task ?st' = s_task st"
    by (cases "vt st t") (simp_all add: video_task_def split_beta split: option.split)
  have others: "vt ?st' u = vt st u" if "u \<noteq> t" for u
    using that by (cases "vt st t") (simp_all add: video_task_def split_beta split: option.split)
  have held: "holds (vt ?st' t) = None \<or> holds (vt ?st' t) = holds (vt st t)
      \<or> vt st t = V_LISTED \<and> holds (vt ?st' t) = s_stop_waiter st"
    by (cases "vt st t") (auto simp: video_task_def split_beta split: option.split)
  have made: "append_result st (stop_clip st m) \<noteq> None" if "vt st t = V_LISTED" "s_stop_waiter st = Some m" for m
  proof -
    from that(1) assms(1) have t: "s_task st = Some t" using owner_busy [of st t] by simp
    with that assms(3) have "stop_clip st m = s_path st" by (simp add: wait_inv_def)
    with t that(1) assms(2) show ?thesis by (simp add: list_inv_def)
  qed
  have note': "notified ?st' m = notified st m \<or> holds (vt st t) = Some m" for m
    by (cases "vt st t") (auto simp: video_task_def split_beta split: option.split)
  have h: "holds (vt ?st' u) = Some m \<Longrightarrow> holds (vt st u) = Some m
      \<or> s_stop_waiter st = Some m \<and> vt st t = V_LISTED" for u m
    using others [of u] held by (cases "u = t") auto
  show ?thesis
    unfolding wait_inv_def fixed task_starter
  proof (intro conjI allI impI)
    fix m assume r: "not_registered (stopper st m)"
    then show "notified ?st' m = 0" "s_stop_waiter st \<noteq> Some m" "\<And>u. holds (vt ?st' u) \<noteq> Some m"
      using assms(3) note' [of m] h unfolding wait_inv_def by metis+
  next
    fix m assume "s_stop_waiter st = Some m" "s_task ?st' \<noteq> None \<or> (\<exists>u. starter st u = ST_READY)"
    with task' assms(3) show "stop_clip st m = s_path st" unfolding wait_inv_def by metis
  next
    fix u m assume "holds (vt ?st' u) = Some m"
    with h made assms(3) show "append_result ?st' (stop_clip st m) \<noteq> None"
      unfolding wait_inv_def by (metis sub)
  next
    fix m assume "notified ?st' m > 0 \<or> stopper st m = S_WOKEN True \<or> stopper st m = S_RETURNED True"
    with note' [of m] assms(3) show "append_result ?st' (stop_clip st m) \<noteq> None"
      unfolding wait_inv_def by (metis sub)
  qed
qed

lemma wait_stop:
  assumes "wait_inv st"
  shows "wait_inv (video_stop timeout m st)"
  using assms unfolding wait_inv_def stop_starter
  by (cases "stopper st m") (auto simp: video_stop_def not_registered_def)

lemma wait_call: "wait_inv st \<Longrightarrow> wait_inv (start_call m ts st)"
  unfolding wait_inv_def by (auto simp: start_call_def split: if_splits)

lemma wait_start:
  assumes "owner_inv st" and "wait_inv st" and "\<And>h. vi_task vi = Some h \<Longrightarrow> vt st h = V_NONE"
  shows "wait_inv (video_start_step vi boot m st)"
proof (cases "in_call (starter st m)")
  case True
  let ?st' = "video_start_step vi boot m st"
  have one: "one_start st" using assms(1) by (simp add: owner_inv_def)
  have fixed: "stopper ?st' = stopper st" "stop_clip ?st' = stop_clip st" "notified ?st' = notified st"
    "append_result ?st' = append_result st"
    by (cases "starter st m"; simp add: video_start_step_def split_beta split: option.split)+
  have v: "holds (vt ?st' u) = holds (vt st u)" for u
    using assms(3) by (cases "starter st m") (auto simp: video_start_step_def split_beta split: option.split)
  have w: "s_stop_waiter ?st' = None \<or> s_stop_waiter ?st' = s_stop_waiter st"
    by (cases "starter st m") (simp_all add: video_start_step_def split_beta split: option.split)
  have free: "s_task st = None" if "3 \<le> start_rank (starter st m)"
    using that assms(1) by (auto simp: owner_inv_def some_start_def rank_defs split: option.splits)
  have ready: "starter ?st' u = ST_READY \<Longrightarrow> u = m" for u
    using one_start_others [OF one True, of u] start_step_others [of u m vi boot st] by (cases "u = m") auto
  have "stop_clip st k = s_path ?st'"
    if k: "s_stop_waiter ?st' = Some k" "s_task ?st' \<noteq> None \<or> (\<exists>u. starter ?st' u = ST_READY)" for k
  proof -
    have s: "s_stop_waiter st = Some k" using w k(1) by auto
    have "s_task ?st' \<noteq> None \<or> starter ?st' m = ST_READY" using k(2) ready by blast
    then have "s_task st \<noteq> None \<or> starter st m = ST_READY" and "s_path ?st' = s_path st"
      using k(1) free by (cases "starter st m"; auto simp: video_start_step_def split_beta
          split: option.splits if_splits)+
    with s assms(2) show ?thesis unfolding wait_inv_def by metis
  qed
  note clip = this
  show ?thesis
    unfolding wait_inv_def fixed v
  proof (intro conjI allI impI)
    fix k assume "not_registered (stopper st k)"
    with assms(2) w show "notified st k = 0" "s_stop_waiter ?st' \<noteq> Some k" "\<And>u. holds (vt st u) \<noteq> Some k"
      by (auto simp: wait_inv_def)
  next
    fix k assume "s_stop_waiter ?st' = Some k" "s_task ?st' \<noteq> None \<or> (\<exists>u. starter ?st' u = ST_READY)"
    then show "stop_clip st k = s_path ?st'" by (rule clip)
  next
    fix u k assume "holds (vt st u) = Some k"
    with assms(2) show "append_result st (stop_clip st k) \<noteq> None" unfolding wait_inv_def by blast
  next
    fix k assume "0 < notified st k \<or> stopper st k = S_WOKEN True \<or> stopper st k = S_RETURNED True"
    with assms(2) show "append_result st (stop_clip st k) \<noteq> None" unfolding wait_inv_def by blast
  qed
qed (simp add: assms start_step_idle)

section \<open>Reachable states\<close>

text \<open>Only the card changes.\<close>

lemma photo_inv:
  "owner_inv (st\<lparr>v_card := k\<rparr>) = owner_inv st" "wait_inv (st\<lparr>v_card := k\<rparr>) = wait_inv st"
  by (cases "s_task st"; simp add: owner_inv_def wait_inv_def one_start_def some_start_def)+

lemma video_reach_inv:
  assumes "fresh_card boot c" and "video_reach True boot c st"
  shows "owner_inv st \<and> list_inv boot st \<and> wait_inv st"
  using assms(2)
proof (induction rule: video_reach.induct)
  case boot
  have "count_list l x \<le> 1" if "x \<notin> set l" for l :: "string list" and x
    using that by (simp add: count_list_0_iff [THEN iffD2])
  with assms(1) show ?case
    by (simp add: video_boot_def owner_inv_def list_inv_def wait_inv_def fresh_card_def one_start_def
        some_start_def rank_defs)
next
  case (step st st')
  from step.hyps(2) step.IH show ?case
    by (induction rule: video_step.induct)
      (auto split: option.splits intro: owner_call list_call wait_call owner_start list_start wait_start
        owner_task list_task wait_task owner_stop list_stop wait_stop list_photo list_photo_line
        simp: photo_inv)
qed

text \<open>The file that is open is the current clip, and no append was made for it.\<close>

lemma open_clip:
  assumes "owner_inv st" and "list_inv boot st" and "s_file st = Some p"
  shows "append_result st p = None \<and> clip_name boot (s_seq st) p"
proof (cases "s_task st")
  case None
  with assms(1,3) have "p = s_path st" "some_start has_file st"
    by (auto simp: owner_inv_def split: if_splits)
  moreover from this(2) have "some_start named st"
    by (rule some_start_mono) (simp add: rank_defs)
  ultimately show ?thesis using assms(2) by (simp add: list_inv_def)
next
  case (Some t)
  with assms(1,3) have "writing (vt st t)" "p = s_path st" by (auto simp: owner_inv_def split: if_splits)
  moreover from this(1) have "unlisted (vt st t)" by (cases "vt st t") simp_all
  ultimately show ?thesis using Some assms(2) by (simp add: list_inv_def)
qed

text \<open>
  C21: With one start at a time, however its steps, stops, frames, photos and failures interleave, the manifest
  lists a clip of this boot at most once, exactly when the append of its line succeeded, and never while
  its file is open: a reader of the manifest never meets a half-written clip. (An append that writes a
  part of a line is excluded; starts that overlap break it, \<open>overlapping_starts_list_twice\<close>.)
\<close>

theorem clips_listed_closed_and_once:
  assumes "fresh_card boot c" and "video_reach True boot c st"
  shows "count_list (listed st) (video_path NAME_MAX_LEN boot ts q) \<le> 1
    \<and> (video_path NAME_MAX_LEN boot ts q \<in> set (listed st)
        \<longleftrightarrow> append_result st (video_path NAME_MAX_LEN boot ts q) = Some ESP_OK)
    \<and> (\<forall>p. s_file st = Some p \<longrightarrow> p \<notin> set (listed st))"
proof -
  from video_reach_inv [OF assms] have o: "owner_inv st" and l: "list_inv boot st" by simp_all
  have "p \<notin> set (listed st)" if f: "s_file st = Some p" for p
  proof -
    from open_clip [OF o l f] obtain ts q where
      "p = video_path NAME_MAX_LEN boot ts q" "append_result st p = None" by (auto simp: clip_name_def)
    with l show ?thesis by (simp add: list_inv_def)
  qed
  with l show ?thesis unfolding list_inv_def by blast
qed

text \<open>
  C40: When \<open>video_stop\<close> returns because it was notified, and not because its five seconds ran out,
  the clip that was current when it registered is closed and the append of its manifest line was made:
  no notification of another stop or of an earlier clip can wake it. The clip is in the manifest exactly
  when that append succeeded; the waiter is woken in both cases. One start runs at a time.
\<close>

theorem stop_waits_for_its_clip:
  assumes "fresh_card boot c" and "video_reach True boot c st" and "stopper st m = S_RETURNED True"
  shows "\<exists>merr. append_result st (stop_clip st m) = Some merr
    \<and> (stop_clip st m \<in> set (listed st) \<longleftrightarrow> merr = ESP_OK) \<and> s_file st \<noteq> Some (stop_clip st m)"
proof -
  from video_reach_inv [OF assms(1,2)] have o: "owner_inv st" and i: "list_inv boot st"
    and w: "wait_inv st" by simp_all
  from w assms(3) obtain merr where a: "append_result st (stop_clip st m) = Some merr"
    unfolding wait_inv_def by blast
  with i have "clip_name boot (s_seq st) (stop_clip st m)" by (auto simp: list_inv_def)
  then obtain ts q where "stop_clip st m = video_path NAME_MAX_LEN boot ts q" by (auto simp: clip_name_def)
  with i a have "stop_clip st m \<in> set (listed st) \<longleftrightarrow> merr = ESP_OK" by (simp add: list_inv_def)
  moreover have "s_file st \<noteq> Some (stop_clip st m)" using open_clip [OF o i] a by auto
  ultimately show ?thesis using a by blast
qed

section \<open>Runs written out\<close>

datatype move = CALL nat | START nat nat | FRAME nat string | TASK nat | FAIL nat | STOP nat

definition start_ok :: "nat \<Rightarrow> start_video_io" where
  "start_ok h = \<lparr>vi_mount = \<lparr>spi_bus_initialize = ESP_OK, vfs_mount = ESP_OK,
     mkdir_snapshots = MKDIR_DONE, mkdir_video = MKDIR_DONE\<rparr>,
     vi_mkdir = MKDIR_DONE, vi_fopen = True, vi_task = Some h\<rparr>"

definition io_closed :: io where
  "io_closed = io_good\<lparr>io_open := False\<rparr>"

fun video_moves :: "bool \<Rightarrow> u32 \<Rightarrow> move list \<Rightarrow> video_state \<Rightarrow> video_state option" where
  "video_moves serial boot [] st = Some st"
| "video_moves serial boot (CALL m # ms) st =
     (if \<not> in_call (starter st m) \<and> (serial \<longrightarrow> (\<forall>u. \<not> in_call (starter st u)))
      then video_moves serial boot ms (start_call m 0 st) else None)"
| "video_moves serial boot (START m h # ms) st =
     (if vt st h = V_NONE \<and> s_seq st \<noteq> - 1
      then video_moves serial boot ms (video_start_step (start_ok h) boot m st) else None)"
| "video_moves serial boot (FRAME t data # ms) st =
     video_moves serial boot ms (video_task boot (Some data) io_good io_good t st)"
| "video_moves serial boot (TASK t # ms) st =
     video_moves serial boot ms (video_task boot None io_good io_good t st)"
| "video_moves serial boot (FAIL t # ms) st =
     video_moves serial boot ms (video_task boot None io_good io_closed t st)"
| "video_moves serial boot (STOP m # ms) st = video_moves serial boot ms (video_stop False m st)"

lemma untorn [simp]: "\<not> torn io_good line" "\<not> torn io_closed line"
  by (simp_all add: torn_def io_closed_def)

lemma video_moves_reach:
  "video_moves serial boot ms st = Some st' \<Longrightarrow> video_reach serial boot c st \<Longrightarrow> video_reach serial boot c st'"
proof (induction serial boot ms st rule: video_moves.induct)
  case (2 serial boot m ms st)
  then have "video_step serial boot st (start_call m 0 st)"
    by (intro video_step.call) (auto split: if_splits)
  with 2 show ?case by (auto intro: video_reach.step split: if_splits)
next
  case (3 serial boot m h ms st)
  then have "video_step serial boot st (video_start_step (start_ok h) boot m st)"
    by (intro video_step.start) (auto simp: start_ok_def split: if_splits)
  with 3 show ?case by (auto intro: video_reach.step split: if_splits)
next
  case (4 serial boot t data ms st)
  then show ?case using video_reach.step [OF "4.prems"(2) video_step.task] by auto
next
  case (5 serial boot t ms st)
  then show ?case using video_reach.step [OF "5.prems"(2) video_step.task] by auto
next
  case (6 serial boot t ms st)
  then show ?case using video_reach.step [OF "6.prems"(2) video_step.task] by auto
next
  case (7 serial boot m ms st)
  then show ?case using video_reach.step [OF "7.prems"(2) video_step.stop] by auto
qed simp

definition mounted_card :: sd_card where
  "mounted_card = (card_at_boot Map.empty)\<lparr>s_mounted := True\<rparr>"

lemma fresh_mounted: "fresh_card boot mounted_card"
  by (simp add: fresh_card_def listed_def video_boot_def mounted_card_def card_at_boot_def
      contents_def whole_lines_def)

text \<open>
  The runs below: a clip recorded and stopped in the intended order, with and without a failing
  append; the video task finishing between the drop of the flag and the draining of the notification;
  a second start between the release of the handle and the last reset of the flag; two starts that
  overlap.
\<close>

definition start_moves :: "nat \<Rightarrow> nat \<Rightarrow> move list" where
  "start_moves m h = CALL m # replicate 11 (START m h)"

definition run_intended :: "move \<Rightarrow> move list" where
  "run_intended list_move = start_moves 5 1 @ [FRAME 1 ''jpg'', STOP 9, STOP 9, STOP 9, STOP 9,
     TASK 1, TASK 1, list_move, TASK 1, TASK 1, TASK 1, TASK 1, STOP 9, STOP 9]"

definition run_drained :: "move list" where
  "run_drained = start_moves 5 1 @ [STOP 9, STOP 9, STOP 9,
     TASK 1, TASK 1, TASK 1, TASK 1, TASK 1, TASK 1, TASK 1, STOP 9]"

definition run_cut :: "move list" where
  "run_cut = start_moves 5 1 @ [STOP 9, STOP 9, STOP 9,
     TASK 1, TASK 1, TASK 1, TASK 1, TASK 1] @ start_moves 6 2"

definition run_overlap :: "move list" where
  "run_overlap = [CALL 5, CALL 6, START 5 1, START 5 1, START 6 2, START 6 2, START 5 1, START 5 1,
     START 6 2, START 6 2, START 5 1, START 6 2] @ replicate 6 (START 5 1) @ replicate 6 (START 6 2)
     @ [STOP 9, STOP 9, STOP 9, TASK 1, TASK 1, TASK 1, TASK 2, TASK 2, TASK 2]"

lemma no_call_upd: "(\<forall>u. \<not> in_call (if u = m then p else f u)) \<longleftrightarrow> \<not> in_call p \<and> (\<forall>u. u \<noteq> m \<longrightarrow> \<not> in_call (f u))"
  by auto

lemma in_call_simps [simp]:
  "\<not> in_call ST_IDLE" "\<not> in_call (ST_RETURNED e)"
  by (simp_all add: in_call_def)

lemma run_simps:
  "replicate 11 x = [x, x, x, x, x, x, x, x, x, x, x]" "replicate 6 x = [x, x, x, x, x, x]"
  by (simp_all add: eval_nat_numeral)

lemmas video_run_simps = start_moves_def run_simps start_call_def video_start_step_def video_task_def
  video_stop_def video_boot_def start_ok_def Let_def split_beta mounted_card_def card_at_boot_def no_call_upd
  sd_store_mount_def

lemma clips_listed_closed_and_once_witness:
  "\<exists>st. s_file st = Some (video_path NAME_MAX_LEN 7 0 0)
     \<and> video_path NAME_MAX_LEN 7 0 0 \<notin> set (listed st)"
proof -
  obtain st where st: "video_moves True 7 (start_moves 5 1) (video_boot mounted_card) = Some st"
    and f: "s_file st = Some (video_path NAME_MAX_LEN 7 0 0)"
    by (simp add: video_run_simps)
  from clips_listed_closed_and_once [OF fresh_mounted video_moves_reach [OF st video_reach.boot]] f
  show ?thesis by blast
qed

lemma stop_waits_for_its_clip_witness:
  "\<exists>st. stopper st 9 = S_RETURNED True \<and> video_path NAME_MAX_LEN 7 0 0 \<in> set (listed st)"
proof -
  obtain st where st: "video_moves True 7 (run_intended (TASK 1)) (video_boot mounted_card) = Some st"
    and f: "stopper st 9 = S_RETURNED True" "stop_clip st 9 = video_path NAME_MAX_LEN 7 0 0"
      "append_result st (video_path NAME_MAX_LEN 7 0 0) = Some ESP_OK"
    by (simp add: run_intended_def video_run_simps sd_store_append_def)
  from stop_waits_for_its_clip [OF fresh_mounted video_moves_reach [OF st video_reach.boot] f(1)] f
  show ?thesis by auto
qed

text \<open>
  When the append fails the clip stays unlisted, although its file is complete, and the stop is
  woken as if all were well.
\<close>

theorem failed_append_wakes:
  "\<exists>st. video_reach True 7 mounted_card st \<and> stopper st 9 = S_RETURNED True
     \<and> stop_clip st 9 = video_path NAME_MAX_LEN 7 0 0
     \<and> sd_files (v_card st) (video_path NAME_MAX_LEN 7 0 0) = Some ''jpg''
     \<and> video_path NAME_MAX_LEN 7 0 0 \<notin> set (listed st)"
proof -
  obtain st where st: "video_moves True 7 (run_intended (FAIL 1)) (video_boot mounted_card) = Some st"
    and f: "stopper st 9 = S_RETURNED True" "stop_clip st 9 = video_path NAME_MAX_LEN 7 0 0"
      "append_result st (video_path NAME_MAX_LEN 7 0 0) = Some ESP_FAIL"
      "sd_files (v_card st) (video_path NAME_MAX_LEN 7 0 0) = Some ''jpg''"
    by (simp add: run_intended_def video_run_simps sd_store_append_def io_closed_def contents_def)
  note r = video_moves_reach [OF st video_reach.boot]
  with video_reach_inv [OF fresh_mounted r] f show ?thesis by (auto simp: list_inv_def)
qed

text \<open>
  Two starts that overlap, one of the executor and one of a record task, both pass the guards before
  either sets the flag or the handle. Then the second path replaces the first before the first file is
  opened: both video tasks run on the second clip, which the manifest lists twice.
\<close>

theorem overlapping_starts_list_twice:
  "\<exists>st. video_reach False 7 mounted_card st
     \<and> count_list (listed st) (video_path NAME_MAX_LEN 7 0 1) = 2
     \<and> video_path NAME_MAX_LEN 7 0 0 \<notin> set (listed st) \<and> starter st 5 = ST_RETURNED ESP_OK"
proof -
  let ?p = "video_path NAME_MAX_LEN 7 0 1" and ?l = "manifest_line (NAME_MAX_LEN + 32) (video_path NAME_MAX_LEN 7 0 1) 0 7 (CHR ''v'')"
  obtain st where st: "video_moves False 7 run_overlap (video_boot mounted_card) = Some st"
    and f: "contents (v_card st) SD_MANIFEST = ?l @ ?l" "starter st 5 = ST_RETURNED ESP_OK"
    by (simp add: run_overlap_def video_run_simps sd_store_append_def clip_line_def contents_def)
  have w: "whole_lines []" by (simp add: whole_lines_def)
  note line = manifest_entries_line [OF _ media_paths_plain(7,5,6,8), where kind = "CHR ''v''"]
  have "listed st = [?p, ?p]"
    using line [of "[]" 7 0 1 0 7] line [of ?l 7 0 1 0 7] w by (simp add: listed_def f(1))
  then show ?thesis
    using video_moves_reach [OF st video_reach.boot] f(2) by (auto simp: video_path_inject)
qed

text \<open>
  The notification can be lost: if the video task finishes between the moment \<open>video_stop\<close> drops
  the flag and the moment it drains its notification value, the drain removes the very notification
  it is about to wait for. Then no video task is left to send another, and only the timeout of five
  seconds ends the wait.
\<close>

theorem stop_notification_lost:
  "\<exists>st. video_reach True 7 mounted_card st \<and> stopper st 9 = S_WAITING \<and> notified st 9 = 0
     \<and> (\<forall>t. vt st t = V_NONE) \<and> \<not> s_recording st
     \<and> (\<forall>jpg wio aio t. video_task 7 jpg wio aio t st = st)"
proof -
  obtain st where st: "video_moves True 7 run_drained (video_boot mounted_card) = Some st"
    and f: "stopper st 9 = S_WAITING" "notified st 9 = 0" "\<forall>t. vt st t = V_NONE" "\<not> s_recording st"
    by (simp add: run_drained_def video_run_simps)
  from f(3) have "video_task 7 jpg wio aio t st = st" for jpg wio aio t
    by (simp add: video_task_def)
  with f video_moves_reach [OF st video_reach.boot] show ?thesis by blast
qed

text \<open>
  The final \<open>s_recording = false\<close> of a finishing video task can end a recording that is not its
  own: a start that falls between the release of the handle and that assignment begins a new clip,
  which the old task then cuts off although nobody asked it to stop.
\<close>

theorem new_recording_cut:
  "\<exists>st. video_reach True 7 mounted_card st \<and> s_recording st \<and> s_task st = Some 2 \<and> vt st 2 = V_RUN 0
     \<and> \<not> s_recording (video_task 7 None io_good io_good 1 st)
     \<and> (\<forall>m. stopper st m \<noteq> S_CALLED \<and> stopper st m \<noteq> S_WAITER_SET)"
proof -
  obtain st where st: "video_moves True 7 run_cut (video_boot mounted_card) = Some st"
    and f: "s_recording st" "s_task st = Some 2" "vt st 2 = V_RUN 0" "vt st 1 = V_CLEAR (Some 9)"
      "\<forall>m. stopper st m \<noteq> S_CALLED \<and> stopper st m \<noteq> S_WAITER_SET"
    by (simp add: run_cut_def video_run_simps)
  from f(4) have "\<not> s_recording (video_task 7 None io_good io_good 1 st)"
    by (simp add: video_task_def)
  with f video_moves_reach [OF st video_reach.boot] show ?thesis by blast
qed

text \<open>
  \<open>record_video\<close> while a recording runs does not record: its start is accepted without effect,
  and when the duration is over its stop ends the recording that was running.
\<close>

theorem record_ends_running_clip:
  assumes "s_recording st" and "stopper st m = S_IDLE"
  shows "record_task_begin vi boot rel_ts_ms st = (True, st)
    \<and> \<not> s_recording ((video_stop False m ^^ 3) st)"
  using assms by (simp add: record_task_begin_def video_start_def video_stop_def eval_nat_numeral)

lemma record_ends_running_clip_witness:
  "\<not> s_recording ((video_stop False 5 ^^ 3) ((video_boot mounted_card)\<lparr>s_recording := True\<rparr>))"
  using record_ends_running_clip [of "(video_boot mounted_card)\<lparr>s_recording := True\<rparr>" 5]
  by (simp add: video_boot_def)

text \<open>
  A start that follows a stop before the old task has released its handle is refused without
  any change, so back-to-back \<open>stop_video\<close> and \<open>start_video\<close> commands leave nothing recording.
\<close>

theorem start_refused_while_finishing:
  assumes "\<not> s_recording st" and "s_task st = Some t"
  shows "video_start vi boot rel_ts_ms st = (ESP_FAIL, st)"
  using assms by (simp add: video_start_def)

end
