(* ===== verification/Ble_Link.thy ===== *)
theory Ble_Link
  imports Provisioning
begin

text \<open>
  The BLE link (\<open>main/ble_link.c\<close>): connection, subscriptions, advertising and the suspension for
  the WiFi transfer. The NimBLE stack is outside the repository: every call to it is a request, the
  answers are a function \<open>rc\<close> from requests to return codes, and the callbacks are an event type.
  Each operation gives the new state and the requests it made, in order.
\<close>

section \<open>Requests, events and state\<close>

text \<open>A 128-bit UUID in NimBLE's little-endian byte order; byte 12 selects the attribute.\<close>

definition OPENRECALL_UUID128 :: "u8 \<Rightarrow> u8 list" where
  "OPENRECALL_UUID128 variant = [0x10, 0x0a, 0x8f, 0x5e, 0x2d, 0x7c, 0x1a, 0x9b, 0x6e, 0x4f, 0xa3,
     0xb5, variant, 0x00, 0x9d, 0x6e]"

definition s_svc_uuid :: "u8 list" where "s_svc_uuid = OPENRECALL_UUID128 0x01"
definition s_audio_uuid :: "u8 list" where "s_audio_uuid = OPENRECALL_UUID128 0x02"
definition s_command_uuid :: "u8 list" where "s_command_uuid = OPENRECALL_UUID128 0x03"
definition s_ack_uuid :: "u8 list" where "s_ack_uuid = OPENRECALL_UUID128 0x04"
definition s_prov_svc_uuid :: "u8 list" where "s_prov_svc_uuid = OPENRECALL_UUID128 0x10"
definition s_prov_state_uuid :: "u8 list" where "s_prov_state_uuid = OPENRECALL_UUID128 0x11"
definition s_prov_key_uuid :: "u8 list" where "s_prov_key_uuid = OPENRECALL_UUID128 0x12"
definition s_prov_reset_uuid :: "u8 list" where "s_prov_reset_uuid = OPENRECALL_UUID128 0x13"

record adv_fields =
  af_flags_general_discoverable :: bool
  af_name :: string
  af_name_is_complete :: bool
  af_uuid :: "u8 list"

datatype ble_req = ADV_SET_FIELDS adv_fields | ADV_START nat nat "nat option" | ADV_STOP
  | TERMINATE u16 | NOTIFY u16 "u8 list"

type_synonym answers = "ble_req \<Rightarrow> int"

definition BLE_HS_EALREADY :: int where
  "BLE_HS_EALREADY = 2"

datatype gap_event = CONNECT int u16 | DISCONNECT int | SUBSCRIBE u16 bool | ADV_COMPLETE
  | CONN_UPDATE | OTHER_GAP_EVENT

text \<open>The static variables; the three handles are the ones the stack gave at registration.\<close>

record ble_state =
  s_conn_handle :: "u16 option"
  s_suspended :: bool
  s_audio_handle :: u16
  s_ack_handle :: u16
  s_prov_state_handle :: u16
  s_audio_subscribed :: bool
  s_ack_subscribed :: bool
  s_prov_state_subscribed :: bool

section \<open>Advertising\<close>

definition ADV_FAST :: ble_req where
  "ADV_FAST = ADV_START BLE_ADV_FAST_ITVL_MIN_UNITS BLE_ADV_FAST_ITVL_MAX_UNITS
     (Some BLE_ADV_FAST_WINDOW_MS)"

definition ADV_SLOW :: ble_req where
  "ADV_SLOW = ADV_START BLE_ADV_ITVL_MIN_UNITS BLE_ADV_ITVL_MAX_UNITS None"

definition adv_start_with :: "answers \<Rightarrow> nat \<Rightarrow> nat \<Rightarrow> nat option \<Rightarrow> int \<times> ble_req list" where
  "adv_start_with rc mn mx dur = (let r = ADV_START mn mx dur in (rc r, [r]))"

text \<open>\<open>fields.name_len\<close> is 5.\<close>

definition adv_data :: adv_fields where
  "adv_data = \<lparr>af_flags_general_discoverable = True, af_name = take 5 ''OpenRecall'',
     af_name_is_complete = True, af_uuid = s_svc_uuid\<rparr>"

definition start_advertising :: "answers \<Rightarrow> int \<times> ble_req list" where
  "start_advertising rc =
     (let r = ADV_SET_FIELDS adv_data in
      if rc r \<noteq> 0 then (rc r, [r])
      else let (e, rs) = adv_start_with rc BLE_ADV_FAST_ITVL_MIN_UNITS BLE_ADV_FAST_ITVL_MAX_UNITS
                 (Some BLE_ADV_FAST_WINDOW_MS)
           in (if e \<noteq> 0 then e else 0, r # rs))"

definition on_sync :: "answers \<Rightarrow> ble_req list" where
  "on_sync rc = snd (start_advertising rc)"

definition gap_event :: "answers \<Rightarrow> gap_event \<Rightarrow> ble_state \<Rightarrow> ble_state \<times> ble_req list" where
  "gap_event rc ev s = (case ev of
     CONNECT status handle \<Rightarrow>
       if status = 0 then (s\<lparr>s_conn_handle := Some handle\<rparr>, [])
       else (s, if \<not> s_suspended s then snd (start_advertising rc) else [])
   | DISCONNECT reason \<Rightarrow>
       (let s' = s\<lparr>s_conn_handle := None, s_audio_subscribed := False,
                   s_ack_subscribed := False, s_prov_state_subscribed := False\<rparr>
        in (s', if \<not> s_suspended s' then snd (start_advertising rc) else []))
   | SUBSCRIBE attr cur_notify \<Rightarrow>
       (if attr = s_audio_handle s then s\<lparr>s_audio_subscribed := cur_notify\<rparr>
        else if attr = s_ack_handle s then s\<lparr>s_ack_subscribed := cur_notify\<rparr>
        else if attr = s_prov_state_handle s then s\<lparr>s_prov_state_subscribed := cur_notify\<rparr>
        else s, [])
   | ADV_COMPLETE \<Rightarrow>
       if \<not> s_suspended s \<and> s_conn_handle s = None then
         (let (arc, rs) = adv_start_with rc BLE_ADV_ITVL_MIN_UNITS BLE_ADV_ITVL_MAX_UNITS None
          in (s, rs @ (if arc = 0 \<or> arc = BLE_HS_EALREADY then [] else snd (start_advertising rc))))
       else (s, [])
   | CONN_UPDATE \<Rightarrow> (s, [])
   | OTHER_GAP_EVENT \<Rightarrow> (s, []))"

section \<open>Notifications\<close>

text \<open>\<open>mbuf\<close> is whether a buffer could be taken from the pool.\<close>

definition notify ::
  "answers \<Rightarrow> bool \<Rightarrow> u16 \<Rightarrow> bool \<Rightarrow> u8 list \<Rightarrow> ble_state \<Rightarrow> int \<times> ble_req list" where
  "notify rc mbuf attr subscribed data s =
     (if s_conn_handle s = None \<or> \<not> subscribed then (- 2, [])
      else if \<not> mbuf then (- 1, [])
      else let r = NOTIFY attr data in if rc r \<noteq> 0 then (- 2, [r]) else (0, [r]))"

definition ble_link_notify_audio ::
  "answers \<Rightarrow> bool \<Rightarrow> u8 list \<Rightarrow> ble_state \<Rightarrow> int \<times> ble_req list" where
  "ble_link_notify_audio rc mbuf data s = notify rc mbuf (s_audio_handle s) (s_audio_subscribed s) data s"

definition ble_link_notify_ack ::
  "answers \<Rightarrow> bool \<Rightarrow> u8 list \<Rightarrow> ble_state \<Rightarrow> int \<times> ble_req list" where
  "ble_link_notify_ack rc mbuf data s = notify rc mbuf (s_ack_handle s) (s_ack_subscribed s) data s"

definition notify_prov_state :: "answers \<Rightarrow> bool \<Rightarrow> prov_core \<Rightarrow> ble_state \<Rightarrow> int \<times> ble_req list" where
  "notify_prov_state rc mbuf c s =
     notify rc mbuf (s_prov_state_handle s) (s_prov_state_subscribed s) [provisioning_state_byte c] s"

definition ble_link_connected :: "ble_state \<Rightarrow> bool" where
  "ble_link_connected s = (s_conn_handle s \<noteq> None)"

text \<open>\<open>ble_att_mtu\<close> is the stack's.\<close>

definition ble_link_att_mtu :: "(u16 \<Rightarrow> u16) \<Rightarrow> ble_state \<Rightarrow> u16" where
  "ble_link_att_mtu ble_att_mtu s = (case s_conn_handle s of None \<Rightarrow> 0 | Some h \<Rightarrow> ble_att_mtu h)"

section \<open>Writes to the command characteristic\<close>

definition BLE_CMD_MAX :: nat where
  "BLE_CMD_MAX = 512"

text \<open>\<open>flat\<close>: whether \<open>ble_hs_mbuf_to_flat\<close> succeeded; \<open>on_command\<close> the registered handler, if any.\<close>

definition command_write_access ::
  "(u8 list \<Rightarrow> 's \<Rightarrow> 's) option \<Rightarrow> bool \<Rightarrow> gatt_op \<Rightarrow> 's \<Rightarrow> att_result \<times> 's" where
  "command_write_access on_command flat op s = (case op of
     WRITE_CHR data \<Rightarrow>
       if length data = 0 \<or> length data > BLE_CMD_MAX then (ATT_INVALID_ATTR_VALUE_LEN, s)
       else if \<not> flat then (ATT_UNLIKELY, s)
       else (ATT_OK, case on_command of None \<Rightarrow> s | Some f \<Rightarrow> f data s)
   | _ \<Rightarrow> (ATT_UNLIKELY, s))"

definition chr_noop_access :: "gatt_op \<Rightarrow> 's \<Rightarrow> att_result \<times> 's" where
  "chr_noop_access op s = (ATT_OK, s)"

section \<open>Start, suspension and resumption\<close>

record start_io =
  nimble_port_init :: esp_err
  gatts_count_cfg :: int
  gatts_add_svcs :: int
  device_name_set :: int

text \<open>The device name set on success is ''OpenRecall''; the host task then calls \<open>on_sync\<close>.\<close>

definition ble_link_start :: "start_io \<Rightarrow> esp_err \<times> string option" where
  "ble_link_start io =
     (if nimble_port_init io \<noteq> ESP_OK then (nimble_port_init io, None)
      else if gatts_count_cfg io \<noteq> 0 then (ESP_FAIL, None)
      else if gatts_add_svcs io \<noteq> 0 then (ESP_FAIL, None)
      else if device_name_set io \<noteq> 0 then (ESP_FAIL, None)
      else (ESP_OK, Some ''OpenRecall''))"

definition ble_link_suspend :: "ble_state \<Rightarrow> ble_state \<times> ble_req list" where
  "ble_link_suspend s =
     (s\<lparr>s_suspended := True\<rparr>,
      ADV_STOP # (case s_conn_handle s of None \<Rightarrow> [] | Some h \<Rightarrow> [TERMINATE h]))"

definition ble_link_resume :: "answers \<Rightarrow> ble_state \<Rightarrow> ble_state \<times> ble_req list" where
  "ble_link_resume rc s =
     (s\<lparr>s_suspended := False\<rparr>,
      snd (adv_start_with rc BLE_ADV_FAST_ITVL_MIN_UNITS BLE_ADV_FAST_ITVL_MAX_UNITS
        (Some BLE_ADV_FAST_WINDOW_MS)))"

section \<open>The link and the radio together\<close>

text \<open>
  The radio advertises after a start request answered 0, until it is stopped, its window ends or a
  connection attempt uses it up.
\<close>

fun radio :: "answers \<Rightarrow> ble_req list \<Rightarrow> bool \<Rightarrow> bool" where
  "radio rc [] on = on"
| "radio rc (ADV_START mn mx dur # rs) on = radio rc rs (on \<or> rc (ADV_START mn mx dur) = 0)"
| "radio rc (ADV_STOP # rs) on = radio rc rs False"
| "radio rc (_ # rs) on = radio rc rs on"

text \<open>
  What the stack grants: with no phone connected, setting the fields and starting to advertise
  succeed, or the radio is advertising already. While a phone is connected a request may fail (the
  termination of the connection is still in flight).
\<close>

definition grants :: "answers \<Rightarrow> ble_state \<Rightarrow> bool \<Rightarrow> bool" where
  "grants rc s on = (s_conn_handle s = None \<longrightarrow> rc (ADV_SET_FIELDS adv_data) = 0
     \<and> (rc ADV_FAST = 0 \<or> on \<and> rc ADV_FAST = BLE_HS_EALREADY)
     \<and> (rc ADV_SLOW = 0 \<or> on \<and> rc ADV_SLOW = BLE_HS_EALREADY))"

text \<open>
  A step is a callback the stack can deliver in the current situation, or the transfer task's
  suspension or resumption. The radio's state before the requests: as it was, or off after a
  connection attempt and at the end of the window.
\<close>

inductive link_step :: "ble_state \<times> bool \<Rightarrow> ble_req list \<Rightarrow> ble_state \<times> bool \<Rightarrow> bool" where
  connect: "s_conn_handle s = None \<Longrightarrow> gap_event rc (CONNECT 0 h) s = (s', rs)
    \<Longrightarrow> link_step (s, on) rs (s', radio rc rs False)"
| connect_failed: "s_conn_handle s = None \<Longrightarrow> status \<noteq> 0 \<Longrightarrow> grants rc s False
    \<Longrightarrow> gap_event rc (CONNECT status h) s = (s', rs) \<Longrightarrow> link_step (s, on) rs (s', radio rc rs False)"
| disconnect: "s_conn_handle s = Some h \<Longrightarrow> gap_event rc (DISCONNECT reason) s = (s', rs)
    \<Longrightarrow> grants rc s' on \<Longrightarrow> link_step (s, on) rs (s', radio rc rs on)"
| subscribe: "s_conn_handle s = Some h \<Longrightarrow> gap_event rc (SUBSCRIBE attr cur) s = (s', rs)
    \<Longrightarrow> link_step (s, on) rs (s', radio rc rs on)"
| adv_complete: "grants rc s False \<Longrightarrow> gap_event rc ADV_COMPLETE s = (s', rs)
    \<Longrightarrow> link_step (s, on) rs (s', radio rc rs False)"
| suspend: "ble_link_suspend s = (s', rs) \<Longrightarrow> link_step (s, on) rs (s', radio rc rs on)"
| resume: "grants rc s on \<Longrightarrow> ble_link_resume rc s = (s', rs)
    \<Longrightarrow> link_step (s, on) rs (s', radio rc rs on)"

inductive_cases link_step_cases: "link_step (s, on) rs (s', on')"

text \<open>The link after boot and a sequence of steps, with all requests made.\<close>

definition link_boot :: "u16 \<Rightarrow> u16 \<Rightarrow> u16 \<Rightarrow> ble_state" where
  "link_boot a k p = \<lparr>s_conn_handle = None, s_suspended = False, s_audio_handle = a,
     s_ack_handle = k, s_prov_state_handle = p, s_audio_subscribed = False,
     s_ack_subscribed = False, s_prov_state_subscribed = False\<rparr>"

inductive link_steps :: "ble_state \<times> bool \<Rightarrow> ble_req list \<Rightarrow> ble_state \<times> bool \<Rightarrow> bool" where
  none: "link_steps x [] x"
| step: "link_steps x rs y \<Longrightarrow> link_step y qs z \<Longrightarrow> link_steps x (rs @ qs) z"

definition is_adv_start :: "ble_req \<Rightarrow> bool" where
  "is_adv_start r = (case r of ADV_START _ _ _ \<Rightarrow> True | _ \<Rightarrow> False)"

lemma start_advertising_grants:
  assumes "grants rc s on" and "s_conn_handle s = None"
  shows "radio rc (snd (start_advertising rc)) on"
  using assms
  by (auto simp: grants_def start_advertising_def adv_start_with_def ADV_FAST_def Let_def)

lemma radio_append: "radio rc (xs @ ys) on = radio rc ys (radio rc xs on)"
  by (induction rc xs on rule: radio.induct) simp_all

lemmas link_op_defs = gap_event_def ble_link_suspend_def ble_link_resume_def adv_start_with_def

text \<open>The invariant of the link.\<close>

definition link_inv :: "ble_state \<times> bool \<Rightarrow> bool" where
  "link_inv x = (case x of (s, on) \<Rightarrow>
     (\<not> s_suspended s \<and> s_conn_handle s = None \<longrightarrow> on)
     \<and> (s_conn_handle s = None \<longrightarrow> \<not> s_audio_subscribed s \<and> \<not> s_ack_subscribed s
          \<and> \<not> s_prov_state_subscribed s))"

lemma link_step_inv: "link_step x rs y \<Longrightarrow> link_inv x \<Longrightarrow> link_inv y"
proof (induction rule: link_step.induct)
  case (connect_failed s status rc h s' rs on)
  then show ?case
    using start_advertising_grants [of rc s False] by (auto simp: link_inv_def gap_event_def)
next
  case (disconnect s h rc reason s' rs on)
  then show ?case
    using start_advertising_grants [of rc s' on] by (auto simp: link_inv_def gap_event_def Let_def)
next
  case (adv_complete rc s s' rs on)
  then show ?case
    by (auto simp: link_inv_def link_op_defs radio_append grants_def ADV_SLOW_def split: if_splits)
next
  case (resume rc s on s' rs)
  then show ?case by (auto simp: link_inv_def link_op_defs grants_def ADV_FAST_def)
qed (auto simp: link_inv_def link_op_defs split: if_splits)

lemma link_steps_inv: "link_steps x rs y \<Longrightarrow> link_inv x \<Longrightarrow> link_inv y"
  by (induction rule: link_steps.induct) (blast intro: link_step_inv)+

text \<open>
  C25: The device stays discoverable: however connections, disconnections, failed attempts, ends
  of the fast window, suspensions and resumptions follow each other, whenever no phone is connected
  and no transfer window is open, the radio is advertising; and without a connection no
  characteristic is marked subscribed, so nothing is notified to nobody.
\<close>

theorem always_discoverable:
  assumes "link_steps (link_boot a k p, True) rs (s, on)" and "s_conn_handle s = None"
  shows "(\<not> s_suspended s \<longrightarrow> on) \<and> ble_link_notify_audio rc mbuf data s = (- 2, [])"
proof -
  have "link_inv (link_boot a k p, True)" by (simp add: link_inv_def link_boot_def)
  from link_steps_inv [OF assms(1) this] assms(2) show ?thesis
    by (simp add: link_inv_def ble_link_notify_audio_def notify_def)
qed

text \<open>A suspended link makes no request to advertise, and only the resumption ends a suspension.\<close>

lemma link_step_suspended:
  "link_step x rs y \<Longrightarrow> s_suspended (fst x) \<Longrightarrow> s_suspended (fst y) \<Longrightarrow> \<not> list_ex is_adv_start rs"
  by (induction rule: link_step.induct)
    (auto simp: link_op_defs is_adv_start_def split: if_splits option.splits)

inductive transfer_window :: "ble_state \<times> bool \<Rightarrow> ble_req list \<Rightarrow> ble_state \<times> bool \<Rightarrow> bool" where
  opens: "ble_link_suspend s = (s', rs) \<Longrightarrow> transfer_window (s, on) rs (s', radio rc rs on)"
| stays: "transfer_window x rs y \<Longrightarrow> link_step y qs z \<Longrightarrow> s_suspended (fst z)
    \<Longrightarrow> transfer_window x (rs @ qs) z"

lemma link_step_radio_off:
  "link_step x rs y \<Longrightarrow> s_suspended (fst x) \<Longrightarrow> s_suspended (fst y) \<Longrightarrow> \<not> snd x \<Longrightarrow> \<not> snd y"
  by (induction rule: link_step.induct)
    (auto simp: link_op_defs split: if_splits option.splits)

lemma transfer_window_inv:
  "transfer_window x rs y \<Longrightarrow> s_suspended (fst y) \<and> \<not> snd y \<and> \<not> list_ex is_adv_start rs"
proof (induction rule: transfer_window.induct)
  case (opens s s' rs on rc)
  then show ?case
    by (auto simp: ble_link_suspend_def is_adv_start_def split: option.splits)
next
  case (stays x rs y qs z)
  then show ?case using link_step_suspended [of y qs z] link_step_radio_off [of y qs z] by simp
qed

text \<open>
  From the suspension to the resumption the radio does not advertise, whatever callbacks
  arrive in between: the disconnection the suspension itself asked for, a late connection attempt,
  the end of an advertising window.
\<close>

theorem quiet_during_transfer:
  assumes "transfer_window x rs (s, on)"
  shows "\<not> on \<and> (\<forall>mn mx dur. ADV_START mn mx dur \<notin> set rs)"
  using transfer_window_inv [OF assms] by (auto simp: list_ex_iff is_adv_start_def)

lemma disconnect_while_suspended:
  "link_step (s\<lparr>s_suspended := True\<rparr>, False) [] (s\<lparr>s_suspended := True, s_conn_handle := None,
     s_audio_subscribed := False, s_ack_subscribed := False, s_prov_state_subscribed := False\<rparr>, False)"
  if "s_conn_handle s = Some h"
  using link_step.disconnect [of "s\<lparr>s_suspended := True\<rparr>" h "\<lambda>r. 0" 0 _ "[]" False] that
  by (simp add: gap_event_def Let_def grants_def)

lemma quiet_during_transfer_witness:
  "\<exists>s rs. transfer_window ((link_boot 1 2 3)\<lparr>s_conn_handle := Some 7\<rparr>, False) rs (s, False)
     \<and> s_conn_handle s = None \<and> (\<forall>mn mx dur. ADV_START mn mx dur \<notin> set rs)"
proof -
  let ?s = "(link_boot 1 2 3)\<lparr>s_conn_handle := Some 7\<rparr>"
  have "transfer_window (?s, False) [ADV_STOP, TERMINATE 7] (?s\<lparr>s_suspended := True\<rparr>, False)"
    using transfer_window.opens [of ?s _ _ False "\<lambda>r. 0"] by (simp add: ble_link_suspend_def)
  from transfer_window.stays [OF this disconnect_while_suspended [of ?s 7]]
  have w: "transfer_window (?s, False) [ADV_STOP, TERMINATE 7] (link_boot 1 2 3\<lparr>s_suspended := True\<rparr>, False)"
    by (simp add: link_boot_def)
  from quiet_during_transfer [OF this] w show ?thesis
    by (intro exI [of _ "link_boot 1 2 3\<lparr>s_suspended := True\<rparr>"]
          exI [of _ "[ADV_STOP, TERMINATE 7]"]) (simp add: link_boot_def)
qed

lemma always_discoverable_witness:
  "\<exists>s on. s_conn_handle s = None \<and> on \<and> \<not> s_suspended s
     \<and> link_steps (link_boot 1 2 3, True) [ADV_SET_FIELDS adv_data, ADV_FAST] (s, on)"
proof -
  let ?on = "radio (\<lambda>r. 0) [ADV_SET_FIELDS adv_data, ADV_FAST] False"
  have "link_step (link_boot 1 2 3, True) [ADV_SET_FIELDS adv_data, ADV_FAST] (link_boot 1 2 3, ?on)"
    by (rule link_step.connect_failed [of _ 1 "\<lambda>r. 0" 7])
      (simp_all add: grants_def link_boot_def gap_event_def start_advertising_def
        adv_start_with_def ADV_FAST_def Let_def)
  then have r: "link_steps (link_boot 1 2 3, True) [ADV_SET_FIELDS adv_data, ADV_FAST] (link_boot 1 2 3, ?on)"
    using link_steps.step [OF link_steps.none] by fastforce
  from always_discoverable [OF this, of "\<lambda>r. 0" True "[]"] r show ?thesis
    by (intro exI [of _ "link_boot 1 2 3"] exI [of _ ?on]) (simp add: link_boot_def)
qed

end
