(* ===== verification/Gatt.thy ===== *)
theory Gatt
  imports Ble_Link
begin

text \<open>
  The attribute table of \<open>main/ble_link.c\<close> (\<open>s_gatt_svcs\<close>) and the accesses a phone makes through
  it: every read or write goes to the callback the table names, on the state the provisioning and
  command modules share. The NimBLE server is outside the repository; of it the model uses the
  documented meaning of the flags: an operation without its flag never reaches a callback.
\<close>

section \<open>The table\<close>

datatype chr_flag = CHR_F_READ | CHR_F_WRITE | CHR_F_NOTIFY

datatype access_cb = CHR_NOOP_ACCESS | COMMAND_WRITE_ACCESS | PROV_STATE_ACCESS | PROV_KEY_ACCESS
  | PROV_RESET_ACCESS

datatype value_handle = S_AUDIO_HANDLE | S_ACK_HANDLE | S_PROV_STATE_HANDLE

record chr_def =
  chr_uuid :: "u8 list"
  chr_access :: access_cb
  chr_flags :: "chr_flag list"
  chr_val_handle :: "value_handle option"

definition s_gatt_svcs :: "(u8 list \<times> chr_def list) list" where
  "s_gatt_svcs =
    [(s_svc_uuid,
       [\<lparr>chr_uuid = s_audio_uuid, chr_access = CHR_NOOP_ACCESS, chr_flags = [CHR_F_NOTIFY],
          chr_val_handle = Some S_AUDIO_HANDLE\<rparr>,
        \<lparr>chr_uuid = s_command_uuid, chr_access = COMMAND_WRITE_ACCESS, chr_flags = [CHR_F_WRITE],
          chr_val_handle = None\<rparr>,
        \<lparr>chr_uuid = s_ack_uuid, chr_access = CHR_NOOP_ACCESS, chr_flags = [CHR_F_NOTIFY],
          chr_val_handle = Some S_ACK_HANDLE\<rparr>]),
     (s_prov_svc_uuid,
       [\<lparr>chr_uuid = s_prov_state_uuid, chr_access = PROV_STATE_ACCESS,
          chr_flags = [CHR_F_READ, CHR_F_NOTIFY], chr_val_handle = Some S_PROV_STATE_HANDLE\<rparr>,
        \<lparr>chr_uuid = s_prov_key_uuid, chr_access = PROV_KEY_ACCESS, chr_flags = [CHR_F_WRITE],
          chr_val_handle = None\<rparr>,
        \<lparr>chr_uuid = s_prov_reset_uuid, chr_access = PROV_RESET_ACCESS, chr_flags = [CHR_F_WRITE],
          chr_val_handle = None\<rparr>])]"

definition characteristics :: "chr_def list" where
  "characteristics = concat (map snd s_gatt_svcs)"

text \<open>The text of a UUID: the bytes reversed, in lower-case hexadecimal, in groups 4-2-2-2-6.\<close>

definition hex_digit :: "nat \<Rightarrow> char" where
  "hex_digit n = (''0123456789abcdef'' ! n)"

definition hex_byte :: "u8 \<Rightarrow> string" where
  "hex_byte b = [hex_digit (unat b div 16), hex_digit (unat b mod 16)]"

definition uuid_text :: "u8 list \<Rightarrow> string" where
  "uuid_text u = (let hs = map hex_byte (rev u); part = (\<lambda>a n. concat (take n (drop a hs)))
     in part 0 4 @ ''-'' @ part 4 2 @ ''-'' @ part 6 2 @ ''-'' @ part 8 2 @ ''-'' @ part 10 6)"

section \<open>Accesses\<close>

text \<open>The state behind the callbacks: provisioning, the command queue and the acks sent.\<close>

record ('m, 'q) gatt_device =
  gd_prov :: "'m prov_device"
  gd_queue :: 'q
  gd_acks :: "string list"

text \<open>What the firmware is linked against: NVS, the signature check, cJSON and the queue's send.\<close>

record ('m, 'n, 'q) firmware_env =
  fe_nvs :: "'m nvs_api"
  fe_verify :: "u8 list \<Rightarrow> u8 list \<Rightarrow> u8 list \<Rightarrow> bool"
  fe_cjson :: "'n cjson"
  fe_send :: "'q sender"

definition handle_command ::
  "('m, 'n, 'q) firmware_env \<Rightarrow> u8 list \<Rightarrow> ('m, 'q) gatt_device \<Rightarrow> ('m, 'q) gatt_device" where
  "handle_command env data g =
     (let (acks, cs, q) = commands_handle (fe_verify env) (fe_cjson env) (fe_send env) data
            (pd_commands (gd_prov g)) (gd_queue g)
      in g\<lparr>gd_prov := (gd_prov g)\<lparr>pd_commands := cs\<rparr>, gd_queue := q, gd_acks := gd_acks g @ acks\<rparr>)"

text \<open>One access: the result, the bytes appended to the response, the state.\<close>

definition chr_access_cb ::
  "('m, 'n, 'q) firmware_env \<Rightarrow> bool \<Rightarrow> access_cb \<Rightarrow> gatt_op \<Rightarrow> ('m, 'q) gatt_device
     \<Rightarrow> att_result \<times> u8 list \<times> ('m, 'q) gatt_device" where
  "chr_access_cb env flat cb op g = (case cb of
     CHR_NOOP_ACCESS \<Rightarrow> (let (r, g') = chr_noop_access op g in (r, [], g'))
   | COMMAND_WRITE_ACCESS \<Rightarrow>
       (let (r, g') = command_write_access (Some (handle_command env)) flat op g in (r, [], g'))
   | PROV_STATE_ACCESS \<Rightarrow> (let (r, bs) = prov_state_access op (gd_prov g) in (r, bs, g))
   | PROV_KEY_ACCESS \<Rightarrow>
       (let (r, d) = prov_key_access (fe_nvs env) flat op (gd_prov g) in (r, [], g\<lparr>gd_prov := d\<rparr>))
   | PROV_RESET_ACCESS \<Rightarrow>
       (let (r, d) = prov_reset_access (fe_nvs env) flat op (gd_prov g) in (r, [], g\<lparr>gd_prov := d\<rparr>)))"

definition permitted :: "chr_def \<Rightarrow> gatt_op \<Rightarrow> bool" where
  "permitted c op = (case op of
     READ_CHR \<Rightarrow> CHR_F_READ \<in> set (chr_flags c)
   | WRITE_CHR bs \<Rightarrow> CHR_F_WRITE \<in> set (chr_flags c)
   | OTHER_OP \<Rightarrow> False)"

text \<open>A session: the accesses of a phone, each to a characteristic of the table.\<close>

inductive session ::
  "('m, 'n, 'q) firmware_env \<Rightarrow> ('m, 'q) gatt_device \<Rightarrow> (chr_def \<times> gatt_op \<times> u8 list) list
     \<Rightarrow> ('m, 'q) gatt_device \<Rightarrow> bool"
  for env where
  begin_session: "session env g [] g"
| access: "session env g as h \<Longrightarrow> c \<in> set characteristics \<Longrightarrow> permitted c op
    \<Longrightarrow> chr_access_cb env flat (chr_access c) op h = (r, bs, h')
    \<Longrightarrow> session env g (as @ [(c, op, bs)]) h'"

section \<open>What the accesses keep\<close>

lemma characteristics_cases:
  assumes "c \<in> set characteristics" and "permitted c op"
  obtains data where "chr_access c = COMMAND_WRITE_ACCESS" "op = WRITE_CHR data"
  | "chr_access c = PROV_STATE_ACCESS" "op = READ_CHR"
  | bs where "chr_access c = PROV_KEY_ACCESS" "op = WRITE_CHR bs"
  | bs where "chr_access c = PROV_RESET_ACCESS" "op = WRITE_CHR bs"
  using assms
  by (auto simp: characteristics_def s_gatt_svcs_def permitted_def split: gatt_op.splits)

text \<open>The verifier's key is the core's, which is all zeros on an unprovisioned device.\<close>

definition key_live :: "'m prov_device \<Rightarrow> bool" where
  "key_live d = (s_pubkey (pd_commands d) = s_key (pd_core d) \<and> length (s_key (pd_core d)) = 32
     \<and> (s_state (pd_core d) = PROV_UNPROVISIONED \<longrightarrow> s_key (pd_core d) = zero_key))"

lemma key_live_commands:
  "key_live d \<Longrightarrow> s_pubkey cs = s_pubkey (pd_commands d) \<Longrightarrow> key_live (d\<lparr>pd_commands := cs\<rparr>)"
  by (simp add: key_live_def)

lemma key_live_key: "key_live d \<Longrightarrow> key_live (snd (prov_key_access nv flat op d))"
  by (auto simp: key_live_def prov_key_access_def provisioning_core_apply_key_def
      provisioning_notify_state_def commands_set_pubkey_def provisioning_core_server_key_def
      split: gatt_op.splits prod.splits)

lemma key_live_reset: "key_live d \<Longrightarrow> key_live (snd (prov_reset_access nv flat op d))"
  by (auto simp: key_live_def prov_reset_access_def provisioning_core_factory_reset_def
      provisioning_notify_state_def commands_set_pubkey_def zero_key_def
      split: gatt_op.splits prod.splits)

lemma key_live_command: "key_live (gd_prov g) \<Longrightarrow> key_live (gd_prov (handle_command env data g))"
  by (simp add: handle_command_def split_beta key_live_def)

lemma key_live_access:
  assumes "key_live (gd_prov g)" and "c \<in> set characteristics" and "permitted c op"
    and "chr_access_cb env flat (chr_access c) op g = (r, bs, h)"
  shows "key_live (gd_prov h) \<and> (bs = [] \<or> bs = [provisioning_state_byte (pd_core (gd_prov g))] \<and> h = g)"
  using assms(2,3)
proof (cases rule: characteristics_cases)
  case (1 data)
  with assms(1,4) show ?thesis
    by (auto simp: chr_access_cb_def command_write_access_def key_live_command split: if_splits)
next
  case 2
  with assms(1,4) show ?thesis by (auto simp: chr_access_cb_def prov_state_access_def)
next
  case (3 k)
  with assms(1,4) show ?thesis
    using key_live_key [of "gd_prov g" "fe_nvs env" flat op]
    by (auto simp: chr_access_cb_def split: prod.splits)
next
  case (4 k)
  with assms(1,4) show ?thesis
    using key_live_reset [of "gd_prov g" "fe_nvs env" flat op]
    by (auto simp: chr_access_cb_def split: prod.splits)
qed

lemma session_key_live:
  assumes "session env g as h" and "key_live (gd_prov g)"
  shows "key_live (gd_prov h)"
  using assms by (induction rule: session.induct) (auto dest: key_live_access)

lemma session_trans: "session env h bs k \<Longrightarrow> session env g as h \<Longrightarrow> session env g (as @ bs) k"
  by (induction rule: session.induct) (auto simp flip: append_assoc intro: session.access)

end
