(* ===== verification/Wifi_Transfer.thy ===== *)
theory Wifi_Transfer
  imports Snapshot Ble_Link
begin

text \<open>
  The WiFi transfer (\<open>main/transfer.c\<close>): the three HTTP handlers over the card, and the task that
  opens and closes the window. The HTTP server and the WiFi driver are outside the repository: what
  a request carries and what their calls return are arguments.
\<close>

section \<open>Responses and sizes\<close>

datatype response = Resp_err nat string | Resp string string

definition MANIFEST_BUF_CAP :: nat where
  "MANIFEST_BUF_CAP = 8192"

definition CONSUMED_BODY_CAP :: nat where
  "CONSUMED_BODY_CAP = 4096"

definition CONSUMED_MAX_NAMES :: nat where
  "CONSUMED_MAX_NAMES = 32"

definition ITEM_CHUNK_SIZE :: nat where
  "ITEM_CHUNK_SIZE = 4096"

definition LINE_BUF_CAP :: nat where
  "LINE_BUF_CAP = 128"

text \<open>A buffer read as a C string ends at its first NUL.\<close>

definition c_string :: "string \<Rightarrow> string" where
  "c_string s = takeWhile (\<lambda>c. c \<noteq> CHR 0x00) s"

section \<open>GET /manifest\<close>

definition manifest_handler :: "bool \<Rightarrow> io \<Rightarrow> sd_card \<Rightarrow> response" where
  "manifest_handler malloc_ok i c =
     (if \<not> malloc_ok then Resp_err 500 ''oom''
      else let (err, buf) = sd_store_read_manifest i MANIFEST_BUF_CAP c in
        if err \<noteq> ESP_OK then Resp_err 500 ''manifest read failed''
        else Resp ''text/plain'' buf)"

section \<open>GET /item\<close>

fun strstr_dots :: "string \<Rightarrow> bool" where
  "strstr_dots (a # b # s) = (a = CHR ''.'' \<and> b = CHR ''.'' \<or> strstr_dots (b # s))"
| "strstr_dots _ = False"

text \<open>The path a URI asks for, or the refusal.\<close>

definition item_path :: "string \<Rightarrow> response + string" where
  "item_path uri =
     (if take 6 uri \<noteq> ''/item/'' then Inl (Resp_err 404 ''not found'')
      else let name = takeWhile (\<lambda>c. c \<noteq> CHR ''?'') (drop 6 uri) in
        if length name = 0 \<or> length name \<ge> NAME_MAX_LEN then Inl (Resp_err 404 ''invalid name'')
        else let path = (if hd name = CHR ''/'' then name else CHR ''/'' # name) in
          if strstr_dots path then Inl (Resp_err 403 ''invalid path'')
          else if take 8 path \<noteq> ''/sdcard/'' then Inl (Resp_err 403 ''outside sdcard'')
          else Inr path)"

text \<open>\<open>strrchr(path, '.')\<close>: the suffix from the last dot.\<close>

definition extension :: "string \<Rightarrow> string option" where
  "extension path = (if CHR ''.'' \<in> set path
     then Some (CHR ''.'' # rev (takeWhile (\<lambda>c. c \<noteq> CHR ''.'') (rev path))) else None)"

definition content_type :: "string \<Rightarrow> string" where
  "content_type path = (case extension path of
     Some e \<Rightarrow> if e = ''.jpg'' \<or> e = ''.jpeg'' then ''image/jpeg''
        else if e = ''.mjpeg'' then ''video/x-mjpeg'' else ''application/octet-stream''
   | None \<Rightarrow> ''application/octet-stream'')"

text \<open>The chunk loop: \<open>send k\<close> says whether the \<open>k\<close>-th chunk could be sent.\<close>

function item_chunks :: "(nat \<Rightarrow> bool) \<Rightarrow> nat \<Rightarrow> string \<Rightarrow> string list" where
  "item_chunks send k s =
     (if s = [] then []
      else if send k then take ITEM_CHUNK_SIZE s # item_chunks send (Suc k) (drop ITEM_CHUNK_SIZE s)
      else [])"
  by pat_completeness auto
termination
  by (relation "measure (\<lambda>(send, k, s). length s)") (auto simp: ITEM_CHUNK_SIZE_def)

declare item_chunks.simps [simp del]

definition item_handler :: "bool \<Rightarrow> io \<Rightarrow> (nat \<Rightarrow> bool) \<Rightarrow> string \<Rightarrow> sd_card \<Rightarrow> response" where
  "item_handler malloc_ok i send uri c = (case item_path uri of
     Inl r \<Rightarrow> r
   | Inr path \<Rightarrow>
       if \<not> malloc_ok then Resp_err 500 ''oom''
       else (case sd_files c path of
          None \<Rightarrow> Resp_err 404 ''file not found''
        | Some s \<Rightarrow> if \<not> io_open i then Resp_err 404 ''file not found''
            else Resp (content_type path) (concat (item_chunks send 0 (transferred i s)))))"

section \<open>POST /consumed\<close>

text \<open>The receive loop: what arrives is a list of pieces; an empty or missing piece ends it.\<close>

fun recv_body :: "nat \<Rightarrow> string list \<Rightarrow> string" where
  "recv_body space [] = []"
| "recv_body space (p # ps) =
     (if space = 0 \<or> p = [] then []
      else if length p \<le> space then p @ recv_body (space - length p) ps
      else take space p)"

text \<open>The filter over the manifest's lines.\<close>

definition keep_line :: "string list \<Rightarrow> string \<Rightarrow> string" where
  "keep_line names line =
     (if line = [] then []
      else if length line < LINE_BUF_CAP then
        (case manifest_parse (c_string line) of
           Some (path, _) \<Rightarrow> if path \<in> set names then [] else line @ [newline]
         | None \<Rightarrow> line @ [newline])
      else line @ [newline])"

function trim_manifest :: "string list \<Rightarrow> string \<Rightarrow> string" where
  "trim_manifest names p =
     (if p = [] then []
      else let line = takeWhile (\<lambda>c. c \<noteq> newline) p; rest = dropWhile (\<lambda>c. c \<noteq> newline) p
        in keep_line names line @ (if rest = [] then [] else trim_manifest names (tl rest)))"
  by pat_completeness auto
termination
  by (relation "measure (\<lambda>(names, p). length p)") (simp_all add: tl_dropWhile_less del: length_tl)

declare trim_manifest.simps [simp del]

record consumed_io =
  co_malloc_body :: bool
  co_pieces :: "string list"
  co_removable :: "string \<Rightarrow> bool"
  co_malloc_manifests :: bool
  co_read :: io
  co_write :: io

text \<open>
  \<open>meanwhile\<close> is what the other tasks do to the card between the read of the manifest and its
  rewrite (nothing: \<open>id\<close>). The result: response, card, and whether the transfer task is notified;
  \<open>waiting\<close> is \<open>s_transfer_task \<noteq> NULL\<close>.
\<close>

definition consumed_handler ::
  "consumed_io \<Rightarrow> (sd_card \<Rightarrow> sd_card) \<Rightarrow> bool \<Rightarrow> sd_card \<Rightarrow> response \<times> sd_card \<times> bool" where
  "consumed_handler co meanwhile waiting c =
     (if \<not> co_malloc_body co then (Resp_err 500 ''oom'', c, False)
      else let body = recv_body (CONSUMED_BODY_CAP - 1) (co_pieces co) in
      case consumed_parse CONSUMED_MAX_NAMES 0 (c_string body) of
        None \<Rightarrow> (Resp_err 400 ''parse failed'', c, False)
      | Some names \<Rightarrow>
        let c1 = fold (\<lambda>n c. snd (sd_store_delete (co_removable co n) n c)) names c in
        if \<not> co_malloc_manifests co then (Resp_err 500 ''oom'', c1, False)
        else let manifest = snd (sd_store_read_manifest (co_read co) MANIFEST_BUF_CAP c1);
                 truncated = (length manifest = MANIFEST_BUF_CAP \<and> last manifest \<noteq> newline);
                 c2 = meanwhile c1
             in if truncated then (Resp ''text/html'' ''OK'', c2, False)
                else let new = trim_manifest names manifest;
                         (err, c3) = sd_store_write (co_write co) SD_MANIFEST new c2
                     in if err \<noteq> ESP_OK then (Resp_err 500 ''manifest rewrite failed'', c3, False)
                        else (Resp ''text/html'' ''OK'', c3, length new = 0 \<and> waiting))"

section \<open>What an item request can reach\<close>

lemma strstr_dots_append: "strstr_dots (xs @ CHR ''.'' # CHR ''.'' # ys)"
proof (induction xs)
  case (Cons x xs)
  then show ?case by (cases xs) auto
qed simp

lemma item_path_safe:
  assumes "item_path uri = Inr path"
  shows "\<exists>rest. path = ''/sdcard/'' @ rest" "\<nexists>xs ys. path = xs @ ''..'' @ ys"
    "length path \<le> NAME_MAX_LEN"
proof -
  from assms have t: "take 8 path = ''/sdcard/''" and d: "\<not> strstr_dots path"
    and l: "length path \<le> NAME_MAX_LEN"
    by (auto simp: item_path_def Let_def split: if_splits)
  have "path = take 8 path @ drop 8 path" by simp
  with t show "\<exists>rest. path = ''/sdcard/'' @ rest" by metis
  show "\<nexists>xs ys. path = xs @ ''..'' @ ys" using d strstr_dots_append by auto
  show "length path \<le> NAME_MAX_LEN" by (rule l)
qed

lemma concat_item_chunks:
  assumes "\<forall>j. send j"
  shows "concat (item_chunks send k s) = s"
proof -
  have "concat (item_chunks (\<lambda>_. True) k s) = s"
  proof (induction "\<lambda>_ :: nat. True" k s rule: item_chunks.induct)
    case (1 k s)
    then show ?case by (subst item_chunks.simps) simp
  qed
  moreover have "send = (\<lambda>_. True)" using assms by auto
  ultimately show ?thesis by simp
qed

lemma item_chunks_prefix: "\<exists>rest. s = concat (item_chunks send k s) @ rest"
proof (induction send k s rule: item_chunks.induct)
  case (1 send k s)
  show ?case
  proof (cases "s = [] \<or> \<not> send k")
    case False
    with 1 obtain rest
      where "drop ITEM_CHUNK_SIZE s = concat (item_chunks send (Suc k) (drop ITEM_CHUNK_SIZE s)) @ rest"
      by auto
    then have "s = take ITEM_CHUNK_SIZE s
        @ concat (item_chunks send (Suc k) (drop ITEM_CHUNK_SIZE s)) @ rest"
      by (metis append_take_drop_id)
    moreover have "item_chunks send k s
        = take ITEM_CHUNK_SIZE s # item_chunks send (Suc k) (drop ITEM_CHUNK_SIZE s)"
      using False by (subst item_chunks.simps) simp
    ultimately show ?thesis by (metis append.assoc concat.simps(2))
  next
    case True
    then have "item_chunks send k s = []" by (subst item_chunks.simps) auto
    then show ?thesis by simp
  qed
qed

lemma item_chunks_sizes: "ch \<in> set (item_chunks send k s) \<Longrightarrow> 0 < length ch \<and> length ch \<le> ITEM_CHUNK_SIZE"
proof (induction send k s rule: item_chunks.induct)
  case (1 send k s)
  then show ?case
    by (subst (asm) item_chunks.simps) (auto simp: ITEM_CHUNK_SIZE_def split: if_splits)
qed

text \<open>
  C29: A request for an item is answered with content only when the path lies under the card's mount
  point, without a parent reference, and names a file that exists; the content is then a prefix of
  that file, and the whole of it when every chunk could be sent.
\<close>

theorem item_request_confined:
  assumes "item_handler mem i send uri c = Resp ctype body"
  shows "\<exists>path s rest. item_path uri = Inr path \<and> take 8 path = ''/sdcard/''
      \<and> (\<nexists>xs ys. path = xs @ ''..'' @ ys) \<and> sd_files c path = Some s \<and> s = body @ rest
      \<and> ((\<forall>k. send k) \<longrightarrow> i = io_good \<longrightarrow> rest = [])"
proof -
  from assms obtain path s where p: "item_path uri = Inr path" "sd_files c path = Some s"
    and body: "body = concat (item_chunks send 0 (transferred i s))"
    by (auto simp: item_handler_def Let_def item_path_def split: sum.splits option.splits if_splits)
  obtain r1 where r1: "transferred i s = body @ r1"
    using item_chunks_prefix [of "transferred i s" send 0] body by auto
  define rest where "rest = drop (length body) s"
  have "s = body @ rest"
  proof -
    have "body = take (length body) (transferred i s)" by (simp add: r1)
    also have "\<dots> = take (min (length body) (io_count i (length s))) s" by (simp add: transferred_def)
    finally have "body = take (length body) s"
      using arg_cong [OF r1, of length] by (simp add: transferred_def min_def split: if_splits)
    then show ?thesis unfolding rest_def by (metis append_take_drop_id)
  qed
  moreover have "rest = []" if "\<forall>k. send k" "i = io_good"
    using that concat_item_chunks [of send 0 s] by (simp add: rest_def body)
  moreover have "take 8 path = ''/sdcard/''" using item_path_safe(1) [OF p(1)] by auto
  ultimately show ?thesis using p item_path_safe(2) [OF p(1)] by blast
qed

lemma item_request_confined_witness:
  "\<exists>path. item_path ''/item/sdcard/a.jpg'' = Inr path \<and> take 8 path = ''/sdcard/''"
proof -
  have "item_handler True io_good (\<lambda>k. True) ''/item/sdcard/a.jpg''
      (card_at_boot [''/sdcard/a.jpg'' \<mapsto> ''x'']) = Resp ''image/jpeg'' ''x''"
    by (simp add: item_handler_def item_path_def NAME_MAX_LEN_def card_at_boot_def
        content_type_def extension_def item_chunks.simps ITEM_CHUNK_SIZE_def)
  from item_request_confined [OF this] show ?thesis by blast
qed

section \<open>The trim as a filter on entries\<close>

lemma manifest_parse_Nil [simp]: "manifest_parse [] = None"
  by (simp add: manifest_parse_def scan_set79_def)

lemma trim_manifest_lines:
  "trim_manifest names m = concat (map (keep_line names) (split_lines m))"
proof (induction names m rule: trim_manifest.induct)
  case (1 names m)
  show ?case
  proof (cases "m = [] \<or> dropWhile (\<lambda>c. c \<noteq> newline) m = []")
    case True
    then show ?thesis
      by (subst trim_manifest.simps, subst split_lines.simps)
        (elim disjE; simp add: Let_def del: dropWhile_eq_Nil_conv)
  next
    case False
    with 1 have "trim_manifest names (tl (dropWhile (\<lambda>c. c \<noteq> newline) m))
        = concat (map (keep_line names) (split_lines (tl (dropWhile (\<lambda>c. c \<noteq> newline) m))))"
      by blast
    with False show ?thesis
      by (subst trim_manifest.simps, subst split_lines.simps) (simp add: Let_def del: dropWhile_eq_Nil_conv)
  qed
qed

definition plain_lines :: "string \<Rightarrow> bool" where
  "plain_lines m = list_all (\<lambda>l. length l < LINE_BUF_CAP \<and> CHR 0x00 \<notin> set l) (split_lines m)"

lemma c_string_plain: "CHR 0x00 \<notin> set l \<Longrightarrow> c_string l = l"
  by (auto simp: c_string_def takeWhile_eq_all_conv)

definition consumed_entry :: "string list \<Rightarrow> string \<Rightarrow> bool" where
  "consumed_entry names l = (case manifest_parse l of None \<Rightarrow> l = [] | Some e \<Rightarrow> fst e \<in> set names)"

lemma keep_line_plain:
  "length l < LINE_BUF_CAP \<Longrightarrow> CHR 0x00 \<notin> set l \<Longrightarrow>
     keep_line names l = (if consumed_entry names l then [] else l @ [newline])"
  by (cases "l = []") (auto simp: keep_line_def consumed_entry_def c_string_plain split: option.split)

lemma newline_notin_split: "l \<in> set (split_lines m) \<Longrightarrow> newline \<notin> set l"
proof (induction m rule: split_lines.induct)
  case (1 m)
  then show ?case
    by (subst (asm) split_lines.simps) (auto split: if_splits dest: set_takeWhileD)
qed

lemma manifest_entries_kept:
  assumes "list_all (\<lambda>l. length l < LINE_BUF_CAP \<and> CHR 0x00 \<notin> set l \<and> newline \<notin> set l) ls"
  shows "manifest_entries (concat (map (keep_line names) ls))
    = filter (\<lambda>e. fst e \<notin> set names) (List.map_filter manifest_parse ls)"
  using assms
proof (induction ls)
  case (Cons l ls)
  have "manifest_entries (l @ newline # rest)
      = (case manifest_parse l of None \<Rightarrow> [] | Some e \<Rightarrow> [e]) @ manifest_entries rest" for rest
    using Cons.prems
    by (simp add: manifest_entries_def split_lines_line List.map_filter_def split: option.split)
  with Cons show ?case
    by (auto simp: keep_line_plain consumed_entry_def List.map_filter_def split: option.splits)
qed (simp add: List.map_filter_def)

lemma trim_manifest_entries:
  "plain_lines m \<Longrightarrow>
     manifest_entries (trim_manifest names m) = filter (\<lambda>e. fst e \<notin> set names) (manifest_entries m)"
  unfolding trim_manifest_lines manifest_entries_def [of m]
  by (rule manifest_entries_kept) (auto simp: plain_lines_def list_all_iff newline_notin_split)

text \<open>The rewritten manifest fits its buffer of \<open>MANIFEST_BUF_CAP\<close> bytes.\<close>

lemma length_keep_line: "length (keep_line names l) \<le> Suc (length l)"
  by (auto simp: keep_line_def split: option.split)

lemma length_trim_manifest:
  "length (trim_manifest names m) \<le> Suc (length m)"
  "whole_lines m \<Longrightarrow> length (trim_manifest names m) \<le> length m"
proof -
  have "length (trim_manifest names m) \<le> (if whole_lines m then length m else Suc (length m))"
  proof (induction names m rule: trim_manifest.induct)
    case (1 names m)
    show ?case
    proof (cases "m = []")
      case False
      let ?l = "takeWhile (\<lambda>c. c \<noteq> newline) m" and ?r = "dropWhile (\<lambda>c. c \<noteq> newline) m"
      have m: "m = ?l @ ?r" by simp
      have k: "length (keep_line names ?l) \<le> Suc (length ?l)" by (rule length_keep_line)
      show ?thesis
      proof (cases ?r)
        case Nil
        then have "\<not> whole_lines m"
          using False last_in_set [of m] by (auto simp: whole_lines_def dropWhile_eq_Nil_conv)
        moreover have "length ?l \<le> length m" by (rule length_takeWhile_le)
        ultimately show ?thesis
          using Nil False k by (subst trim_manifest.simps) (simp add: Let_def del: dropWhile_eq_Nil_conv)
      next
        case (Cons c rest)
        with hd_dropWhile [of "\<lambda>c. c \<noteq> newline" m] have "c = newline" by simp
        with Cons m have w: "whole_lines m = whole_lines rest"
          by (auto simp: whole_lines_def) (metis last.simps last_appendR list.discI)+
        have len: "length m = Suc (length ?l + length rest)"
          using Cons arg_cong [OF m, of length] by simp
        have "length (trim_manifest names rest) \<le> (if whole_lines rest then length rest else Suc (length rest))"
          using "1.IH" [OF False refl refl] unfolding Cons list.sel by simp
        with w len k Cons False show ?thesis
          by (subst trim_manifest.simps) (auto simp: Let_def)
      qed
    qed (simp add: trim_manifest.simps)
  qed
  then show "length (trim_manifest names m) \<le> Suc (length m)"
    "whole_lines m \<Longrightarrow> length (trim_manifest names m) \<le> length m"
    by (auto split: if_splits)
qed

text \<open>
  The rewrite never overruns its 8192-byte buffer: whatever the manifest holds, the lines kept
  of the part that was read fit, because a read that fills the buffer is only trimmed when it ends
  with a newline.
\<close>

theorem manifest_rewrite_fits:
  assumes "length m \<le> MANIFEST_BUF_CAP" and "\<not> (length m = MANIFEST_BUF_CAP \<and> last m \<noteq> newline)"
  shows "length (trim_manifest names m) \<le> MANIFEST_BUF_CAP"
proof (cases "length m = MANIFEST_BUF_CAP")
  case True
  with assms(2) have "whole_lines m" by (auto simp: whole_lines_def)
  from length_trim_manifest(2) [OF this] assms(1) show ?thesis by (meson order.trans)
next
  case False
  with assms(1) length_trim_manifest(1) [of names m] show ?thesis by linarith
qed

lemma manifest_rewrite_fits_witness: "length (trim_manifest [] ''junk'') \<le> MANIFEST_BUF_CAP"
  by (rule manifest_rewrite_fits) (simp_all add: MANIFEST_BUF_CAP_def)

section \<open>What a consumed request does\<close>

definition consumed_names :: "consumed_io \<Rightarrow> string list option" where
  "consumed_names co = consumed_parse CONSUMED_MAX_NAMES 0
     (c_string (recv_body (CONSUMED_BODY_CAP - 1) (co_pieces co)))"

definition consumed_good :: "consumed_io \<Rightarrow> bool" where
  "consumed_good co = (co_malloc_body co \<and> co_malloc_manifests co \<and> co_read co = io_good
     \<and> co_write co = io_good \<and> co_removable co = (\<lambda>_. True))"

text \<open>The manifest as the handler reads it: its first 8192 bytes.\<close>

definition manifest_read :: "sd_card \<Rightarrow> string" where
  "manifest_read c = take MANIFEST_BUF_CAP (contents c SD_MANIFEST)"

lemma sd_store_read_manifest_good [simp]:
  "sd_store_read_manifest io_good MANIFEST_BUF_CAP c = (ESP_OK, manifest_read c)"
  by (simp add: sd_store_read_manifest_def manifest_read_def contents_def split: option.split)

lemma consumed_result:
  assumes "consumed_good co" and "consumed_names co = Some names" and "SD_MANIFEST \<notin> set names"
    and "whole_lines (manifest_read c)"
  obtains c' where "consumed_handler co meanwhile waiting c
      = (Resp ''text/html'' ''OK'', c', trim_manifest names (manifest_read c) = [] \<and> waiting)"
    "sd_files c' SD_MANIFEST = Some (trim_manifest names (manifest_read c))"
    "\<And>p. p \<noteq> SD_MANIFEST \<Longrightarrow> sd_files c' p = sd_files (meanwhile
        (fold (\<lambda>n c. snd (sd_store_delete True n c)) names c)) p"
proof -
  define c1 where "c1 = fold (\<lambda>n c. snd (sd_store_delete True n c)) names c"
  have "sd_files c1 SD_MANIFEST = sd_files c SD_MANIFEST"
    using assms(3) card.get_fold_del [of names c SD_MANIFEST] by (simp add: c1_def)
  then have m: "manifest_read c1 = manifest_read c" by (simp add: manifest_read_def contents_def)
  have t: "length (manifest_read c) = MANIFEST_BUF_CAP \<Longrightarrow> last (manifest_read c) = newline"
    using assms(4) by (auto simp: whole_lines_def MANIFEST_BUF_CAP_def)
  let ?new = "trim_manifest names (manifest_read c)"
  let ?c' = "snd (sd_store_write io_good SD_MANIFEST ?new (meanwhile c1))"
  have "consumed_handler co meanwhile waiting c
      = (Resp ''text/html'' ''OK'', ?c', ?new = [] \<and> waiting)"
    using assms(1,2) m t
    by (cases "length (manifest_read c) = MANIFEST_BUF_CAP")
      (simp_all add: consumed_handler_def consumed_good_def consumed_names_def c1_def Let_def split_beta
        sd_store_write_def)
  moreover have "sd_files ?c' SD_MANIFEST = Some ?new"
    using card.get_put [of SD_MANIFEST ?new "meanwhile c1" SD_MANIFEST] by simp
  moreover have "sd_files ?c' p = sd_files (meanwhile c1) p" if "p \<noteq> SD_MANIFEST" for p
    using that card.get_put [of SD_MANIFEST ?new "meanwhile c1" p] by simp
  ultimately show thesis by (intro that [of ?c']) (simp_all add: c1_def)
qed

text \<open>
  C30: A consumed request on a manifest that fits the buffer removes exactly the named files and
  exactly their entries: every other file and entry stays, in order, and the transfer task is woken
  for an early end precisely when no line is left.
\<close>

theorem consumed_removes_named:
  assumes "consumed_good co" and "consumed_names co = Some names" and "SD_MANIFEST \<notin> set names"
    and "length (contents c SD_MANIFEST) \<le> MANIFEST_BUF_CAP"
    and "whole_lines (contents c SD_MANIFEST)" and "plain_lines (contents c SD_MANIFEST)"
    and "consumed_handler co (\<lambda>c. c) waiting c = (r, c', woken)"
  shows "manifest_entries (contents c' SD_MANIFEST)
      = filter (\<lambda>e. fst e \<notin> set names) (manifest_entries (contents c SD_MANIFEST))
    \<and> (\<forall>p. p \<noteq> SD_MANIFEST \<longrightarrow> sd_files c' p = (if p \<in> set names then None else sd_files c p))
    \<and> woken = (waiting \<and> contents c' SD_MANIFEST = [])"
proof -
  have m: "manifest_read c = contents c SD_MANIFEST" using assms(4) by (simp add: manifest_read_def)
  from consumed_result [OF assms(1-3), where meanwhile = "\<lambda>c. c" and waiting = waiting and c = c] assms(5) m
  obtain d where d: "consumed_handler co (\<lambda>c. c) waiting c
      = (Resp ''text/html'' ''OK'', d, trim_manifest names (manifest_read c) = [] \<and> waiting)"
    "sd_files d SD_MANIFEST = Some (trim_manifest names (manifest_read c))"
    "\<And>p. p \<noteq> SD_MANIFEST \<Longrightarrow> sd_files d p
        = sd_files (fold (\<lambda>n c. snd (sd_store_delete True n c)) names c) p" by metis
  from d(1) assms(7) have "c' = d" "woken = (waiting \<and> trim_manifest names (manifest_read c) = [])" by auto
  with d(2,3) m assms(6) show ?thesis
    by (simp add: contents_def [of d] trim_manifest_entries card.get_fold_del)
qed

text \<open>
  A manifest longer than the buffer whose first 8192 bytes happen to end with a newline passes
  the truncation check, and the rewrite drops everything after them: the entries of the tail are
  lost although nobody consumed them.
\<close>

theorem manifest_tail_lost:
  assumes "consumed_good co" and "consumed_names co = Some names" and "SD_MANIFEST \<notin> set names"
    and "contents c SD_MANIFEST = m @ tail" and "length m = MANIFEST_BUF_CAP" and "last m = newline"
    and "plain_lines m" and "consumed_handler co (\<lambda>c. c) waiting c = (r, c', woken)"
  shows "manifest_entries (contents c' SD_MANIFEST)
      = filter (\<lambda>e. fst e \<notin> set names) (manifest_entries m)"
proof -
  have m: "manifest_read c = m" using assms(4,5) by (simp add: manifest_read_def)
  have "whole_lines (manifest_read c)" using assms(6) by (simp add: m whole_lines_def)
  from consumed_result [OF assms(1-3) this, where meanwhile = "\<lambda>c. c" and waiting = waiting] assms(8)
  have "sd_files c' SD_MANIFEST = Some (trim_manifest names m)" unfolding m by (metis Pair_inject)
  with assms(7) show ?thesis by (simp add: contents_def trim_manifest_entries)
qed

text \<open>
  The read and the rewrite of the manifest are not one step: whatever the video task or the
  snapshot worker does to the manifest in between (a clip's line, a photo's line) is overwritten.
\<close>

theorem append_during_trim_lost:
  assumes "consumed_good co" and "consumed_names co = Some names" and "SD_MANIFEST \<notin> set names"
    and "whole_lines (manifest_read c)"
  shows "sd_files (fst (snd (consumed_handler co
        (\<lambda>c. snd (sd_store_append io_good SD_MANIFEST line c)) waiting c))) SD_MANIFEST
    = Some (trim_manifest names (manifest_read c))"
  using consumed_result [OF assms, where waiting = waiting
      and meanwhile = "\<lambda>c. snd (sd_store_append io_good SD_MANIFEST line c)"]
  by (metis fst_conv snd_conv)

text \<open>Witnesses: one entry consumed, an empty request against a full buffer, a lost line.\<close>

definition consume :: "string \<Rightarrow> consumed_io" where
  "consume body = \<lparr>co_malloc_body = True, co_pieces = [body], co_removable = (\<lambda>_. True),
     co_malloc_manifests = True, co_read = io_good, co_write = io_good\<rparr>"

lemma consume_good: "consumed_good (consume body)"
  by (simp add: consumed_good_def consume_def)

lemma consume_none: "consumed_names (consume []) = Some []"
  by (simp add: consumed_names_def consume_def c_string_def)

lemma consume_one: "consumed_names (consume ''/sdcard/a.jpg'') = Some [''/sdcard/a.jpg'']"
  by (simp add: consumed_names_def consume_def c_string_def consumed_parse.simps newline_def
      NAME_MAX_LEN_def CONSUMED_BODY_CAP_def CONSUMED_MAX_NAMES_def Let_def)

lemma append_during_trim_lost_witness:
  "sd_files (fst (snd (consumed_handler (consume [])
      (\<lambda>c. snd (sd_store_append io_good SD_MANIFEST ''clip'' c)) True (card_at_boot Map.empty)))) SD_MANIFEST
    = Some []"
  using append_during_trim_lost [OF consume_good consume_none, of "card_at_boot Map.empty" "''clip''" True]
  by (simp add: manifest_read_def contents_def card_at_boot_def whole_lines_def trim_manifest.simps)

lemma consumed_removes_named_witness:
  "\<exists>r c' woken. consumed_handler (consume ''/sdcard/a.jpg'') (\<lambda>c. c) True
       (card_at_boot [''/sdcard/a.jpg'' \<mapsto> ''x'']) = (r, c', woken)
     \<and> sd_files c' ''/sdcard/a.jpg'' = None"
proof -
  let ?c = "card_at_boot [''/sdcard/a.jpg'' \<mapsto> ''x'']"
  have e: "contents ?c SD_MANIFEST = []" by (simp add: contents_def card_at_boot_def SD_MANIFEST_def)
  obtain r c' woken where h: "consumed_handler (consume ''/sdcard/a.jpg'') (\<lambda>c. c) True ?c = (r, c', woken)"
    by (metis prod_cases3)
  have n: "''/sdcard/a.jpg'' \<noteq> SD_MANIFEST" by (simp add: SD_MANIFEST_def)
  then have "sd_files c' ''/sdcard/a.jpg'' = None"
    using consumed_removes_named [OF consume_good consume_one _ _ _ _ h]
    by (simp add: e whole_lines_def plain_lines_def)
  with h show ?thesis by blast
qed

section \<open>The transfer task\<close>

text \<open>
  What the calls of one window return; \<open>ti_notified\<close> says for each second of the hold whether the
  task was notified in it, \<open>ti_link\<close> what the callbacks do to the link's variables meanwhile.
\<close>

record transfer_io =
  ti_mount :: mount_io
  ti_wifi_init :: esp_err
  ti_netif :: bool
  ti_set_mode :: esp_err
  ti_set_config :: esp_err
  ti_wifi_start :: esp_err
  ti_httpd_start :: esp_err
  ti_notified :: "bool list"
  ti_link :: "ble_state \<Rightarrow> ble_state"
  ti_timer_ok :: bool

datatype act = A_INTERVAL u32 | A_BLE ble_req | A_WIFI_INIT | A_NETIF | A_WIFI_DEINIT | A_SET_MODE
  | A_SET_CONFIG string nat | A_WIFI_START esp_err | A_HTTPD_START esp_err | A_HOLD nat
  | A_HTTPD_STOP | A_WIFI_STOP

record transfer_state =
  s_wifi_inited :: bool
  s_transfer_task :: bool
  ts_snapshot :: snapshot_state
  ts_link :: ble_state
  ts_card :: sd_card

definition s_resume_interval :: u32 where
  "s_resume_interval = of_nat SNAPSHOT_INTERVAL_S"

definition softap_ssid :: "u32 \<Rightarrow> string" where
  "softap_ssid boot = snprintf 32 (SOFTAP_SSID_PREFIX @ dec (unat boot))"

text \<open>The hold: the seconds waited, at most \<open>r\<close>, until a notification.\<close>

fun hold :: "nat \<Rightarrow> bool list \<Rightarrow> nat" where
  "hold 0 ns = 0"
| "hold (Suc r) [] = Suc (hold r [])"
| "hold (Suc r) (n # ns) = (if n then 0 else Suc (hold r ns))"

text \<open>
  Steps 4 to 7, up to the first \<open>goto teardown\<close>: \<open>s_wifi_inited\<close>, whether the server and WiFi were
  started, and the calls made.
\<close>

definition wifi_up :: "transfer_io \<Rightarrow> u32 \<Rightarrow> bool \<Rightarrow> bool \<times> bool \<times> bool \<times> act list" where
  "wifi_up ti boot inited =
     (let init_acts = (if inited then [] else if ti_wifi_init ti \<noteq> ESP_OK then [A_WIFI_INIT]
            else if \<not> ti_netif ti then [A_WIFI_INIT, A_NETIF, A_WIFI_DEINIT]
            else [A_WIFI_INIT, A_NETIF]);
          ready = (inited \<or> ti_wifi_init ti = ESP_OK \<and> ti_netif ti)
      in if \<not> ready then (False, False, False, init_acts)
      else let a1 = init_acts @ [A_SET_MODE] in
        if ti_set_mode ti \<noteq> ESP_OK then (True, False, False, a1)
      else let a2 = a1 @ [A_SET_CONFIG (softap_ssid boot) SOFTAP_CHANNEL] in
        if ti_set_config ti \<noteq> ESP_OK then (True, False, False, a2)
      else let a3 = a2 @ [A_WIFI_START (ti_wifi_start ti)] in
        if ti_wifi_start ti \<noteq> ESP_OK then (True, False, False, a3)
      else let a4 = a3 @ [A_HTTPD_START (ti_httpd_start ti)] in
        if ti_httpd_start ti \<noteq> ESP_OK then (True, False, True, a4)
      else (True, True, True, a4 @ [A_HOLD (hold WIFI_TRANSFER_WINDOW_S (ti_notified ti))]))"

definition transfer_task ::
  "transfer_io \<Rightarrow> answers \<Rightarrow> u32 \<Rightarrow> transfer_state \<Rightarrow> transfer_state \<times> act list" where
  "transfer_task ti rc boot st =
     (let sn1 = snapshot_set_interval (ti_timer_ok ti) 0 (ts_snapshot st);
          (l1, stop_reqs) = ble_link_suspend (ts_link st);
          (err, c1) = sd_store_mount (ti_mount ti) (ts_card st);
          (inited, server, wifi_started, up) =
            (if err \<noteq> ESP_OK then (s_wifi_inited st, False, False, [])
             else wifi_up ti boot (s_wifi_inited st));
          down = (if server then [A_HTTPD_STOP] else []) @ (if wifi_started then [A_WIFI_STOP] else []);
          (l2, resume_reqs) = ble_link_resume rc (ti_link ti l1);
          sn2 = snapshot_set_interval (ti_timer_ok ti) s_resume_interval sn1
      in (\<lparr>s_wifi_inited = inited, s_transfer_task = False, ts_snapshot = sn2, ts_link = l2,
           ts_card = c1\<rparr>,
          [A_INTERVAL 0] @ map A_BLE stop_reqs @ up @ down @ map A_BLE resume_reqs
            @ [A_INTERVAL s_resume_interval]))"

definition transfer_flush :: "bool \<Rightarrow> transfer_state \<Rightarrow> esp_err \<times> transfer_state" where
  "transfer_flush task_ok st =
     (if s_transfer_task st then (ESP_ERR_INVALID_STATE, st)
      else if \<not> task_ok then (ESP_FAIL, st\<lparr>s_transfer_task := False\<rparr>)
      else (ESP_OK, st\<lparr>s_transfer_task := True\<rparr>))"

section \<open>Every window is closed again\<close>

lemma hold_le: "hold r ns \<le> r"
  by (induction r ns rule: hold.induct) simp_all

lemma wifi_up_acts:
  assumes "wifi_up ti boot inited = (inited', server, started, up)"
  shows "(\<forall>r. A_BLE r \<notin> set up) \<and> A_HTTPD_STOP \<notin> set up \<and> A_WIFI_STOP \<notin> set up
    \<and> (started \<longleftrightarrow> A_WIFI_START ESP_OK \<in> set up) \<and> (server \<longleftrightarrow> A_HTTPD_START ESP_OK \<in> set up)
    \<and> (server \<longrightarrow> started) \<and> (\<forall>n. A_HOLD n \<in> set up \<longrightarrow> n \<le> WIFI_TRANSFER_WINDOW_S)"
  using assms hold_le [of WIFI_TRANSFER_WINDOW_S "ti_notified ti"]
  by (auto simp: wifi_up_def Let_def split: if_splits)

text \<open>
  C31: Whatever fails in a transfer window, the task first stops BLE, then opens what it can for at
  most ten minutes, then closes exactly what it opened, server before WiFi, and only then resumes
  BLE and the snapshots; at the end the link is not suspended and a new transfer can start.
\<close>

theorem transfer_window_closed:
  assumes "transfer_task ti rc boot st = (st', acts)"
  shows "\<exists>up down stops. acts = A_INTERVAL 0 # map A_BLE (ADV_STOP # stops) @ up @ down
        @ [A_BLE ADV_FAST, A_INTERVAL s_resume_interval]
      \<and> (\<forall>r. A_BLE r \<notin> set up)
      \<and> down = (if A_HTTPD_START ESP_OK \<in> set up then [A_HTTPD_STOP] else [])
            @ (if A_WIFI_START ESP_OK \<in> set up then [A_WIFI_STOP] else [])
      \<and> (\<forall>n. A_HOLD n \<in> set up \<longrightarrow> n \<le> 600)
      \<and> \<not> s_suspended (ts_link st') \<and> fst (transfer_flush True st') = ESP_OK"
proof -
  obtain err c1 where m: "sd_store_mount (ti_mount ti) (ts_card st) = (err, c1)" by fastforce
  define u where "u = (if err \<noteq> ESP_OK then (s_wifi_inited st, False, False, [])
    else wifi_up ti boot (s_wifi_inited st))"
  obtain inited server started up where u': "u = (inited, server, started, up)" by (metis prod_cases4)
  define stops where "stops = (case s_conn_handle (ts_link st) of None \<Rightarrow> [] | Some h \<Rightarrow> [TERMINATE h])"
  have props: "(\<forall>r. A_BLE r \<notin> set up) \<and> (started \<longleftrightarrow> A_WIFI_START ESP_OK \<in> set up)
      \<and> (server \<longleftrightarrow> A_HTTPD_START ESP_OK \<in> set up) \<and> (\<forall>n. A_HOLD n \<in> set up \<longrightarrow> n \<le> 600)"
    using u' wifi_up_acts [of ti boot "s_wifi_inited st" inited server started up]
    by (auto simp: u_def WIFI_TRANSFER_WINDOW_S_def split: if_splits)
  have "acts = A_INTERVAL 0 # map A_BLE (ADV_STOP # stops) @ up
      @ ((if server then [A_HTTPD_STOP] else []) @ (if started then [A_WIFI_STOP] else []))
      @ [A_BLE ADV_FAST, A_INTERVAL s_resume_interval]"
    and "\<not> s_suspended (ts_link st') \<and> \<not> s_transfer_task st'"
    using assms unfolding transfer_task_def m u_def [symmetric]
    by (auto simp: Let_def u' u_def [symmetric] ble_link_suspend_def ble_link_resume_def
        adv_start_with_def ADV_FAST_def stops_def)
  with props show ?thesis
    by (intro exI [of _ up] exI [of _ "(if server then [A_HTTPD_STOP] else [])
          @ (if started then [A_WIFI_STOP] else [])"] exI [of _ stops])
      (simp add: transfer_flush_def)
qed

definition idle_device :: transfer_state where
  "idle_device = \<lparr>s_wifi_inited = False, s_transfer_task = False,
     ts_snapshot = \<lparr>s_timer = RUNNING 30000, s_worker = True, pending = 0\<rparr>,
     ts_link = link_boot 1 2 3, ts_card = card_at_boot Map.empty\<rparr>"

definition all_well :: transfer_io where
  "all_well = \<lparr>ti_mount = \<lparr>spi_bus_initialize = ESP_OK, vfs_mount = ESP_OK,
       mkdir_snapshots = MKDIR_DONE, mkdir_video = MKDIR_DONE\<rparr>,
     ti_wifi_init = ESP_OK, ti_netif = True, ti_set_mode = ESP_OK, ti_set_config = ESP_OK,
     ti_wifi_start = ESP_OK, ti_httpd_start = ESP_FAIL, ti_notified = [], ti_link = (\<lambda>l. l),
     ti_timer_ok = True\<rparr>"

lemma transfer_window_closed_witness:
  "\<not> s_suspended (ts_link (fst (transfer_task all_well (\<lambda>r. 0) 7 idle_device)))
   \<and> A_WIFI_STOP \<in> set (snd (transfer_task all_well (\<lambda>r. 0) 7 idle_device))"
proof -
  obtain st' acts where t: "transfer_task all_well (\<lambda>r. 0) 7 idle_device = (st', acts)" by fastforce
  have "A_WIFI_STOP \<in> set acts"
    using t by (auto simp: transfer_task_def wifi_up_def all_well_def idle_device_def Let_def
        split_beta sd_store_mount_def card_at_boot_def)
  with t transfer_window_closed [OF t] show ?thesis by auto
qed

text \<open>
  A transfer forgets the snapshot interval the server had set: the task stops the timer and
  restarts it with the compile-time default, which is off, so ambient snapshots stay off afterwards.
\<close>

theorem transfer_forgets_interval:
  assumes "s_timer (ts_snapshot st) \<noteq> NO_TIMER" and "ti_timer_ok ti"
  shows "s_timer (ts_snapshot (fst (transfer_task ti rc boot st))) = STOPPED"
  using assms
  by (simp add: transfer_task_def Let_def split_beta snapshot_set_interval_def s_resume_interval_def
      SNAPSHOT_INTERVAL_S_def)

lemma transfer_forgets_interval_witness:
  "s_timer (ts_snapshot (fst (transfer_task all_well (\<lambda>r. 0) 7 idle_device))) = STOPPED"
  by (rule transfer_forgets_interval) (simp_all add: idle_device_def all_well_def)

text \<open>The SSID of a window is never cut: prefix and boot id fit its buffer.\<close>

lemma softap_ssid_full: "softap_ssid boot = ''OpenRecall-'' @ dec (unat boot)"
  using length_dec_u32 [of boot] by (simp add: softap_ssid_def snprintf_def SOFTAP_SSID_PREFIX_def)

end
