(* ===== verification/Battery.thy ===== *)
theory Battery
  imports Ble_Link Media_Index "HOL-Library.Multiset"
begin

text \<open>
  The battery monitor (\<open>main/battery.c\<close>): the oversampled reading, the charge estimate and the
  telemetry notification with its one-shot wake reason. The ADC driver is outside the repository:
  its results are arguments. C \<open>int\<close> and \<open>long\<close> hold every intermediate value of 12-bit samples.
\<close>

section \<open>Reading\<close>

record battery_state =
  s_adc :: bool
  s_cali :: bool
  s_latest_mv :: int
  s_wake_from_button :: bool

definition battery_init :: "esp_err \<Rightarrow> esp_err \<Rightarrow> esp_err \<Rightarrow> battery_state \<Rightarrow> esp_err \<times> battery_state" where
  "battery_init new_unit config_channel cali_scheme s =
     (if new_unit \<noteq> ESP_OK then (new_unit, s)
      else let s1 = s\<lparr>s_adc := True\<rparr> in
        if config_channel \<noteq> ESP_OK then (config_channel, s1)
        else (ESP_OK, s1\<lparr>s_cali := (cali_scheme = ESP_OK)\<rparr>))"

text \<open>The samples: a failed read counts as 0.\<close>

definition raw_samples :: "int option list \<Rightarrow> int list" where
  "raw_samples reads = map (\<lambda>r. case r of None \<Rightarrow> 0 | Some v \<Rightarrow> v) reads"

definition average_raw :: "int list \<Rightarrow> int" where
  "average_raw raw =
     (let mn = foldl min (hd raw) raw; mx = foldl max (hd raw) raw
      in (sum_list raw - mn - mx) sdiv (int BATTERY_OVERSAMPLE - 2))"

text \<open>
  \<open>(int)(vadc_mv * VBAT_DIVIDER + 0.5f)\<close> with \<open>VBAT_DIVIDER\<close> 2.0f: the float is exact for pin
  voltages below 2^22 mV, and the conversion truncates towards zero.
\<close>

definition apply_divider :: "int \<Rightarrow> int" where
  "apply_divider vadc_mv = (4 * vadc_mv + 1) sdiv 2"

text \<open>\<open>cali\<close>: what \<open>adc_cali_raw_to_voltage\<close> stores for a raw count.\<close>

definition battery_read_mv :: "(int \<Rightarrow> int) \<Rightarrow> int option list \<Rightarrow> battery_state \<Rightarrow> int" where
  "battery_read_mv cali reads s =
     (if \<not> s_adc s then 0
      else let avg = average_raw (raw_samples reads);
               vadc_mv = (if s_cali s then cali avg else (avg * 2500) sdiv 4095)
           in apply_divider vadc_mv)"

definition battery_percent :: "int \<Rightarrow> nat" where
  "battery_percent vbat_mv =
     (if vbat_mv \<le> int VBAT_MIN_MV then 0
      else if vbat_mv \<ge> int VBAT_FULL_MV then 100
      else let pct = (vbat_mv - int VBAT_MIN_MV) * 100 sdiv (int VBAT_FULL_MV - int VBAT_MIN_MV)
           in if pct < 0 then 0 else if pct > 100 then 100 else nat pct)"

section \<open>Telemetry\<close>

definition battery_mark_wake_from_button :: "battery_state \<Rightarrow> battery_state" where
  "battery_mark_wake_from_button s = s\<lparr>s_wake_from_button := True\<rparr>"

definition quote :: string where
  "quote = [CHR 0x22]"

definition field :: "string \<Rightarrow> string \<Rightarrow> string" where
  "field key val = quote @ key @ quote @ '':'' @ val"

definition text_value :: "string \<Rightarrow> string" where
  "text_value v = quote @ v @ quote"

text \<open>\<open>%02u\<close>\<close>

definition two_digits :: "nat \<Rightarrow> string" where
  "two_digits n = replicate (2 - length (dec n)) (CHR ''0'') @ dec n"

definition pct_string :: "nat \<Rightarrow> string" where
  "pct_string pct = (if pct \<ge> 100 then snprintf 8 ''1.00'' else snprintf 8 (''0.'' @ two_digits pct))"

definition telemetry_json :: "int \<Rightarrow> string \<Rightarrow> bool \<Rightarrow> string" where
  "telemetry_json mv st wake =
     ''{'' @ field ''type'' (text_value ''telemetry'') @ '','' @
     field ''battery_pct'' (pct_string (battery_percent mv)) @ '','' @ field ''state'' (text_value st) @
     (if wake then '','' @ field ''wake_reason'' (text_value ''button'') else []) @ ''}''"

text \<open>
  \<open>notify_ack\<close> is \<open>ble_link_notify_ack\<close>'s result on the frame. The frame passed to it, if the
  text fits its buffer of 128 bytes, and the new state.
\<close>

definition telemetry_notify ::
  "(string \<Rightarrow> int) \<Rightarrow> int \<Rightarrow> string \<Rightarrow> battery_state \<Rightarrow> string option \<times> battery_state" where
  "telemetry_notify notify_ack mv st s =
     (let n = telemetry_json mv st (s_wake_from_button s)
      in if 0 < length n \<and> length n < 128
         then (Some n, if notify_ack n = 0 then s\<lparr>s_wake_from_button := False\<rparr> else s)
         else (None, s))"

definition battery_notify_sleeping ::
  "(string \<Rightarrow> int) \<Rightarrow> battery_state \<Rightarrow> string option \<times> battery_state" where
  "battery_notify_sleeping notify_ack s =
     (if s_latest_mv s \<le> 0 then (None, s) else telemetry_notify notify_ack (s_latest_mv s) ''sleeping'' s)"

text \<open>One round of the monitor task.\<close>

definition battery_monitor ::
  "(string \<Rightarrow> int) \<Rightarrow> (int \<Rightarrow> int) \<Rightarrow> int option list \<Rightarrow> battery_state \<Rightarrow> string option \<times> battery_state"
where
  "battery_monitor notify_ack cali reads s =
     (let mv = battery_read_mv cali reads s
      in if mv > 0 then telemetry_notify notify_ack mv ''active'' (s\<lparr>s_latest_mv := mv\<rparr>) else (None, s))"

definition battery_latest_mv :: "battery_state \<Rightarrow> int" where
  "battery_latest_mv s = s_latest_mv s"

section \<open>The reading is robust\<close>

lemma foldl_min: "foldl min a xs = Min (set (a # xs))" for a :: int
proof -
  have "(\<lambda>x s. min s x) = (min :: int \<Rightarrow> int \<Rightarrow> int)" by (intro ext) (rule min.commute)
  then show ?thesis unfolding Min.set_eq_fold foldl_conv_fold by simp
qed

lemma foldl_max: "foldl max a xs = Max (set (a # xs))" for a :: int
proof -
  have "(\<lambda>x s. max s x) = (max :: int \<Rightarrow> int \<Rightarrow> int)" by (intro ext) (rule max.commute)
  then show ?thesis unfolding Max.set_eq_fold foldl_conv_fold by simp
qed

lemma sum_list_bounds:
  fixes xs :: "int list"
  assumes "\<forall>x \<in> set xs. lo \<le> x \<and> x \<le> hi"
  shows "lo * int (length xs) \<le> sum_list xs \<and> sum_list xs \<le> hi * int (length xs)"
  using assms by (induction xs) (auto simp: algebra_simps)

lemma sum_list_remove1: "m \<in> set xs \<Longrightarrow> sum_list xs - m = sum_list (remove1 m xs)" for m :: int
  by (induction xs) auto

lemma sum_list_without:
  fixes xs :: "int list"
  assumes "\<forall>x \<in> set xs. lo \<le> x \<and> x \<le> hi" and "length xs = 63" and "m \<in> set xs"
  shows "lo * 62 \<le> sum_list xs - m \<and> sum_list xs - m \<le> hi * 62"
proof -
  have "\<forall>x \<in> set (remove1 m xs). lo \<le> x \<and> x \<le> hi" using assms(1) by (meson notin_set_remove1)
  moreover have "length (remove1 m xs) = 62" using assms(2,3) by (simp add: length_remove1)
  ultimately show ?thesis
    using sum_list_bounds [of "remove1 m xs" lo hi] by (simp add: sum_list_remove1 [OF assms(3)])
qed

lemma sdiv_pos: "0 \<le> (a :: int) \<Longrightarrow> 0 < b \<Longrightarrow> a sdiv b = a div b"
  by (simp add: signed_divide_int_def sgn_if)

lemma average_raw_sum:
  assumes "mset raw = mset (w # xs)" and "xs \<noteq> []"
  shows "average_raw raw
    = (w + sum_list xs - min w (Min (set xs)) - max w (Max (set xs))) sdiv 62"
proof -
  have s: "set raw = insert w (set xs)" using arg_cong [OF assms(1), of set_mset] by simp
  have "raw \<noteq> []" using assms(1) by auto
  then have "hd raw \<in> set raw" by simp
  then have "foldl min (hd raw) raw = Min (set raw)" "foldl max (hd raw) raw = Max (set raw)"
    by (simp_all add: foldl_min foldl_max insert_absorb)
  moreover have "sum_list raw = w + sum_list xs"
    using arg_cong [OF assms(1), of sum_mset] by (simp only: sum_mset_sum_list) simp
  ultimately show ?thesis
    using assms(2) by (simp add: average_raw_def Let_def BATTERY_OVERSAMPLE_def s)
qed

text \<open>
  One wild sample does not disturb the reading: when all but one of the 64 samples lie between
  two bounds, so does the average, whatever the other sample was.
\<close>

theorem average_ignores_outlier:
  assumes "mset raw = mset (wild # xs)" and "length xs = 63" and "0 \<le> lo"
    and "\<forall>x \<in> set xs. lo \<le> x \<and> x \<le> hi"
  shows "lo \<le> average_raw raw \<and> average_raw raw \<le> hi"
proof -
  have ne: "xs \<noteq> []" using assms(2) by auto
  let ?mn = "Min (set xs)" and ?mx = "Max (set xs)"
  let ?sum = "wild + sum_list xs - min wild ?mn - max wild ?mx"
  have "?mn \<in> set xs" "?mx \<in> set xs" using ne by simp_all
  then have b: "lo * 62 \<le> sum_list xs - ?mn" "sum_list xs - ?mn \<le> hi * 62"
    "lo * 62 \<le> sum_list xs - ?mx" "sum_list xs - ?mx \<le> hi * 62"
    using sum_list_without [OF assms(4,2)] by simp_all
  have "?mn \<le> ?mx" using ne by simp
  with b have sum: "lo * 62 \<le> ?sum" "?sum \<le> hi * 62" by (simp_all add: min_def max_def)
  have "0 \<le> ?sum" using sum(1) assms(3) by linarith
  then have "average_raw raw = ?sum div 62"
    unfolding average_raw_sum [OF assms(1) ne] by (rule sdiv_pos) simp
  moreover have "lo \<le> ?sum div 62" using zdiv_mono1 [OF sum(1), of 62] by simp
  moreover have "?sum div 62 \<le> hi" using zdiv_mono1 [OF sum(2), of 62] by simp
  ultimately show ?thesis by simp
qed

lemma average_ignores_outlier_witness:
  "2000 \<le> average_raw (0 # replicate 63 2000) \<and> average_raw (0 # replicate 63 2000) \<le> 2000"
  by (rule average_ignores_outlier [of _ 0 "replicate 63 2000"]) simp_all

section \<open>The charge estimate\<close>

lemma battery_percent_middle:
  "3000 < mv \<Longrightarrow> mv < 4100 \<Longrightarrow> battery_percent mv = nat ((mv - 3000) * 100 div 1100)"
  by (auto simp: battery_percent_def VBAT_MIN_MV_def VBAT_FULL_MV_def Let_def sdiv_pos)

text \<open>
  The charge estimate is a percentage that never falls when the voltage rises, is 0 exactly up
  to 3010 mV and 100 exactly from 4100 mV.
\<close>

theorem battery_percent_monotone:
  "battery_percent mv \<le> 100 \<and> (mv \<le> mv' \<longrightarrow> battery_percent mv \<le> battery_percent mv')
   \<and> (battery_percent mv = 0 \<longleftrightarrow> mv \<le> 3010) \<and> (battery_percent mv = 100 \<longleftrightarrow> mv \<ge> 4100)"
proof -
  have lo: "battery_percent v = 0" if "v \<le> 3000" for v
    using that by (simp add: battery_percent_def VBAT_MIN_MV_def)
  have hi: "battery_percent v = 100" if "v \<ge> 4100" for v
    using that by (simp add: battery_percent_def VBAT_MIN_MV_def VBAT_FULL_MV_def)
  have mid: "battery_percent v = nat ((v - 3000) * 100 div 1100) \<and> battery_percent v < 100"
    if "3000 < v" "v < 4100" for v
    using that by (simp add: battery_percent_middle)
  have le: "battery_percent v \<le> 100" for v
    using lo [of v] hi [of v] mid [of v] by linarith
  have "battery_percent mv \<le> battery_percent mv'" if "mv \<le> mv'"
  proof (cases "mv \<le> 3000 \<or> mv' \<ge> 4100")
    case True
    then show ?thesis using lo [of mv] hi [of mv'] le [of mv] by auto
  next
    case False
    with that mid [of mv] mid [of mv'] show ?thesis
      using zdiv_mono1 [of "(mv - 3000) * 100" "(mv' - 3000) * 100" 1100] by simp
  qed
  moreover have "battery_percent mv = 0 \<longleftrightarrow> mv \<le> 3010"
    using lo [of mv] hi [of mv] mid [of mv] by (cases "mv \<le> 3000 \<or> mv \<ge> 4100") auto
  moreover have "battery_percent mv = 100 \<longleftrightarrow> mv \<ge> 4100"
    using lo [of mv] hi [of mv] mid [of mv] by (cases "mv \<le> 3000 \<or> mv \<ge> 4100") auto
  ultimately show ?thesis using le [of mv] by blast
qed

lemma battery_percent_monotone_witness: "battery_percent 3500 \<le> battery_percent 3600"
  using battery_percent_monotone [of 3500 3600] by simp

section \<open>The wake reason is reported once\<close>

lemma length_dec_100: "n \<le> 100 \<Longrightarrow> length (dec n) \<le> 3"
  using length_dec_le [of n 2] by simp

lemma telemetry_fits:
  "length st \<le> 8 \<Longrightarrow> 0 < length (telemetry_json mv st wake) \<and> length (telemetry_json mv st wake) < 128"
  using length_dec_100 [of "battery_percent mv"] battery_percent_monotone [of mv mv]
  by (auto simp: telemetry_json_def field_def text_value_def quote_def pct_string_def snprintf_def
      two_digits_def)

text \<open>
  A sequence of rounds, each with a positive reading and whether the link delivered: whether each
  frame carried the wake reason.
\<close>

fun telemetry_rounds :: "(int \<times> bool) list \<Rightarrow> battery_state \<Rightarrow> string option list" where
  "telemetry_rounds [] s = []"
| "telemetry_rounds ((mv, delivered) # rs) s =
     (let (frame, s') = telemetry_notify (\<lambda>_. if delivered then 0 else - 2) mv ''active'' s
      in frame # telemetry_rounds rs s')"

fun reported :: "bool \<Rightarrow> (int \<times> bool) list \<Rightarrow> string option list" where
  "reported wake [] = []"
| "reported wake ((mv, delivered) # rs) =
     Some (telemetry_json mv ''active'' wake) # reported (wake \<and> \<not> delivered) rs"

lemma telemetry_round:
  "telemetry_notify (\<lambda>_. if delivered then 0 else - 2) mv ''active'' s
     = (Some (telemetry_json mv ''active'' (s_wake_from_button s)),
        s\<lparr>s_wake_from_button := s_wake_from_button s \<and> \<not> delivered\<rparr>)"
  using telemetry_fits [of "''active''" mv "s_wake_from_button s"]
  by (cases s) (simp add: telemetry_notify_def Let_def)

text \<open>
  Telemetry is never cut by its 128-byte buffer, and after a wake by the button the frames carry
  the wake reason up to and including the first that the link delivers, and no later one: the server
  learns of the wake exactly once.
\<close>

theorem wake_reported_once:
  "telemetry_rounds rs s = reported (s_wake_from_button s) rs"
proof (induction rs arbitrary: s)
  case (Cons r rs)
  then show ?case by (cases r) (simp add: telemetry_round)
qed simp

end
