(* ===== verification/Executor.thy ===== *)
theory Executor
  imports Commands Wifi_Transfer Video Button "HOL-Library.Sublist"
begin

text \<open>
  The command executor's task (\<open>main/executor.c\<close>), the audio gate (\<open>main/audio_gate.c\<close>) and the
  button's dispatch (\<open>main/button_task.c\<close>): a request goes through a bounded queue to the handler of
  its type. FreeRTOS queues are outside the repository; what the executor needs of one is the locale
  \<open>message_queue\<close>, interpreted on the bounded list the model uses.
\<close>

section \<open>Queues\<close>

locale message_queue =
  fixes send :: "'a \<Rightarrow> 'q \<Rightarrow> bool \<times> 'q"
    and receive :: "'q \<Rightarrow> ('a \<times> 'q) option"
    and items :: "'q \<Rightarrow> 'a list"
    and depth :: nat
  assumes send_accepts: "fst (send x q) \<longleftrightarrow> length (items q) < depth"
    and send_items: "items (snd (send x q)) = (if length (items q) < depth then items q @ [x] else items q)"
    and receive_none: "receive q = None \<Longrightarrow> items q = []"
    and receive_some: "receive q = Some (x, q') \<Longrightarrow> items q = x # items q'"
begin

lemma items_send: "items (snd (send x q)) = items q @ (if fst (send x q) then [x] else [])"
  by (simp add: send_items send_accepts)

lemma send_room: "length (items q) < depth \<Longrightarrow> send x q = (True, snd (send x q))"
  using send_accepts [of x q] by (cases "send x q") simp

lemma items_bounded: "length (items q) \<le> depth \<Longrightarrow> length (items (snd (send x q))) \<le> depth"
  by (simp add: send_items)

end

definition queue_send :: "nat \<Rightarrow> 'a \<Rightarrow> 'a list \<Rightarrow> bool \<times> 'a list" where
  "queue_send depth x q = (if length q < depth then (True, q @ [x]) else (False, q))"

definition queue_receive :: "'a list \<Rightarrow> ('a \<times> 'a list) option" where
  "queue_receive q = (case q of [] \<Rightarrow> None | x # q' \<Rightarrow> Some (x, q'))"

interpretation cmdq: message_queue "queue_send EXECUTOR_QUEUE_DEPTH" queue_receive "\<lambda>q. q"
  EXECUTOR_QUEUE_DEPTH
  by unfold_locales (auto simp: queue_send_def queue_receive_def split: list.splits)

interpretation replayq: message_queue "queue_send DRAIN_REPLAY_QUEUE_DEPTH" queue_receive "\<lambda>q. q"
  DRAIN_REPLAY_QUEUE_DEPTH
  by unfold_locales (auto simp: queue_send_def queue_receive_def split: list.splits)

section \<open>The device the handlers act on\<close>

definition audio_gate_set :: "bool \<Rightarrow> bool \<Rightarrow> bool" where
  "audio_gate_set paused s_paused = paused"

definition audio_gate_paused :: "bool \<Rightarrow> bool" where
  "audio_gate_paused s_paused = s_paused"

text \<open>
  \<open>dv_replay\<close> is the drainer's replay queue, \<open>None\<close> before \<open>ble_drain_start\<close>; \<open>dv_spawned\<close> the
  short-lived tasks the handlers created.
\<close>

datatype spawned = SPAWN_RECORD u32 u32 | SPAWN_STOP | SPAWN_TRANSFER

record device =
  s_paused :: bool
  dv_replay :: "u32 list option"
  dv_transfer :: transfer_state
  dv_video :: video_state
  dv_spawned :: "spawned list"

record exec_io =
  ex_now :: u32
  ex_boot :: u32
  ex_video :: start_video_io
  ex_malloc :: bool
  ex_task :: bool
  ex_timer :: bool

text \<open>
  One round of \<open>executor_task\<close> on a received request. A start of video runs to its end here; its
  interleavings with other tasks are in \<open>Video\<close>.
\<close>

definition executor_dispatch :: "exec_io \<Rightarrow> cmd_request \<Rightarrow> device \<Rightarrow> device" where
  "executor_dispatch x req d =
     (if cr_status req \<noteq> EXEC_OK then d
      else case cr_type req of
        CMD_START_AUDIO \<Rightarrow> d\<lparr>s_paused := audio_gate_set False (s_paused d)\<rparr>
      | CMD_STOP_AUDIO \<Rightarrow> d\<lparr>s_paused := audio_gate_set True (s_paused d)\<rparr>
      | CMD_REQUEST_BUFFER \<Rightarrow>
          (case dv_replay d of
             None \<Rightarrow> d
           | Some rq \<Rightarrow> d\<lparr>dv_replay := Some (snd (queue_send DRAIN_REPLAY_QUEUE_DEPTH (cr_seconds req) rq))\<rparr>)
      | CMD_CAPTURE_PHOTO \<Rightarrow>
          d\<lparr>dv_transfer := (dv_transfer d)\<lparr>ts_snapshot := snapshot_capture_async (ts_snapshot (dv_transfer d))\<rparr>\<rparr>
      | CMD_RECORD_VIDEO \<Rightarrow>
          (case snd (video_record (ex_malloc x) (ex_task x) (cr_duration_s req)) of
             None \<Rightarrow> d
           | Some dur \<Rightarrow> d\<lparr>dv_spawned := dv_spawned d @ [SPAWN_RECORD dur (ex_now x)]\<rparr>)
      | CMD_START_VIDEO \<Rightarrow> d\<lparr>dv_video := snd (video_start (ex_video x) (ex_boot x) (ex_now x) (dv_video d))\<rparr>
      | CMD_STOP_VIDEO \<Rightarrow>
          (if video_stop_async (ex_task x) then d\<lparr>dv_spawned := dv_spawned d @ [SPAWN_STOP]\<rparr> else d)
      | CMD_FLUSH_SNAPSHOTS \<Rightarrow>
          (let (e, t) = transfer_flush (ex_task x) (dv_transfer d)
           in d\<lparr>dv_transfer := t,
                dv_spawned := dv_spawned d @ (if e = ESP_OK then [SPAWN_TRANSFER] else [])\<rparr>)
      | CMD_SET_SNAPSHOT_INTERVAL \<Rightarrow>
          d\<lparr>dv_transfer := (dv_transfer d)\<lparr>ts_snapshot := snapshot_set_interval (ex_timer x)
               (cr_snapshot_interval_s req) (ts_snapshot (dv_transfer d))\<rparr>\<rparr>
      | CMD_UNKNOWN \<Rightarrow> d)"

text \<open>\<open>executor_init\<close>: the queue, then the task; a failed task deletes the queue.\<close>

definition executor_init :: "bool \<Rightarrow> bool \<Rightarrow> esp_err \<times> cmd_request list option" where
  "executor_init queue_ok task_ok =
     (if \<not> queue_ok then (ESP_FAIL, None)
      else if \<not> task_ok then (ESP_FAIL, None)
      else (ESP_OK, Some []))"

section \<open>The queue and the task together\<close>

text \<open>
  An event: a command arrives (\<open>executor_submit\<close> with its type and parameters), another task submits
  a request of its own (\<open>executor_dispatch_local\<close>, the button), or the executor task runs a round if
  there is a request. \<open>executor_init\<close> has succeeded, so the queue exists.
\<close>

datatype 'n exec_event = SUBMIT string "'n option" | LOCAL "cmd_request option" | ROUND exec_io

definition exec_submit :: "'n cjson \<Rightarrow> 'n exec_event \<Rightarrow> cmd_request list \<Rightarrow> bool \<times> cmd_request list" where
  "exec_submit cj e q = (case e of
     SUBMIT type params \<Rightarrow> executor_submit cj (queue_send EXECUTOR_QUEUE_DEPTH) type params q
   | LOCAL r \<Rightarrow> executor_dispatch_local (queue_send EXECUTOR_QUEUE_DEPTH) r q
   | ROUND x \<Rightarrow> (False, q))"

text \<open>The request an event asks for, whether there is room for it or not.\<close>

definition requested :: "'n cjson \<Rightarrow> 'n exec_event \<Rightarrow> cmd_request list" where
  "requested cj e = (case e of
     SUBMIT type params \<Rightarrow> [executor_parse_and_validate cj type params]
   | LOCAL (Some r) \<Rightarrow> if cr_status r = EXEC_OK then [r] else []
   | _ \<Rightarrow> [])"

text \<open>
  The run: the requests accepted (the answer of the submission was true) and the requests
  dispatched, in order, then the queue and the device.
\<close>

fun exec_run :: "'n cjson \<Rightarrow> 'n exec_event list \<Rightarrow> cmd_request list \<Rightarrow> device
    \<Rightarrow> cmd_request list \<times> (exec_io \<times> cmd_request) list \<times> cmd_request list \<times> device" where
  "exec_run cj [] q d = ([], [], q, d)"
| "exec_run cj (ROUND x # es) q d =
     (case queue_receive q of
        None \<Rightarrow> exec_run cj es q d
      | Some (r, q') \<Rightarrow>
          (let (acc, dispatched, q'', d') = exec_run cj es q' (executor_dispatch x r d)
           in (acc, (x, r) # dispatched, q'', d')))"
| "exec_run cj (e # es) q d =
     (let (ok, q') = exec_submit cj e q;
          (acc, dispatched, q'', d') = exec_run cj es q' d
      in ((if ok then requested cj e else []) @ acc, dispatched, q'', d'))"

definition dispatch_all :: "(exec_io \<times> cmd_request) list \<Rightarrow> device \<Rightarrow> device" where
  "dispatch_all xs d = fold (\<lambda>(x, r). executor_dispatch x r) xs d"

lemma dispatch_all_simps [simp]:
  "dispatch_all [] d = d"
  "dispatch_all ((x, r) # xs) d = dispatch_all xs (executor_dispatch x r d)"
  "dispatch_all (xs @ [(x, r)]) d = executor_dispatch x r (dispatch_all xs d)"
  by (simp_all add: dispatch_all_def)

lemma exec_submit_cases:
  assumes "exec_submit cj e q = (ok, q')" and "length q \<le> EXECUTOR_QUEUE_DEPTH"
  shows "q' = q @ (if ok then requested cj e else [])" and "length q' \<le> EXECUTOR_QUEUE_DEPTH"
    and "length q + length (requested cj e) \<le> EXECUTOR_QUEUE_DEPTH \<Longrightarrow> ok \<or> requested cj e = []"
  using assms
  by (auto simp: exec_submit_def requested_def executor_submit_def executor_dispatch_local_def
      queue_send_def split: exec_event.splits option.splits if_splits)

lemma exec_run_event:
  assumes "\<And>x. e \<noteq> ROUND x"
  shows "exec_run cj (e # es) q d =
    (let (ok, q') = exec_submit cj e q; (acc, dispatched, q'', d') = exec_run cj es q' d
     in ((if ok then requested cj e else []) @ acc, dispatched, q'', d'))"
  using assms by (cases e) (auto simp: split_beta Let_def)

text \<open>The queue between the submitters and the task.\<close>

lemma exec_run_queue:
  assumes "exec_run cj es q d = (acc, dispatched, q', d')" and "length q \<le> EXECUTOR_QUEUE_DEPTH"
  shows "q @ acc = map snd dispatched @ q' \<and> length q' \<le> EXECUTOR_QUEUE_DEPTH
    \<and> d' = dispatch_all dispatched d \<and> subseq acc (concat (map (requested cj) es))
    \<and> (length q + length (concat (map (requested cj) es)) \<le> EXECUTOR_QUEUE_DEPTH
        \<longrightarrow> acc = concat (map (requested cj) es))"
  using assms
proof (induction es arbitrary: q d acc dispatched q' d')
  case (Cons e es)
  show ?case
  proof (cases "\<exists>x. e = ROUND x")
    case False
    obtain ok q1 where s: "exec_submit cj e q = (ok, q1)" by fastforce
    obtain a1 l1 q2 d2 where t: "exec_run cj es q1 d = (a1, l1, q2, d2)" by (metis prod_cases4)
    from Cons.prems(1) have eqs: "acc = (if ok then requested cj e else []) @ a1" "dispatched = l1"
      "q' = q2" "d' = d2"
      using exec_run_event [of e cj es q d] False by (simp_all add: s t)
    note sub = exec_submit_cases [OF s Cons.prems(2)]
    have "subseq (if ok then requested cj e else []) (requested cj e)" by (cases ok) simp_all
    with Cons.IH [OF t sub(2)] sub(1,3) show ?thesis
      unfolding eqs by (auto intro: list_emb_append_mono)
  next
    case True
    then obtain x where e: "e = ROUND x" by blast
    have none: "requested cj e = []" by (simp add: e requested_def)
    show ?thesis
    proof (cases "queue_receive q")
      case None
      with Cons.IH [of q d] Cons.prems show ?thesis by (simp add: e none [unfolded e])
    next
      case (Some p)
      then obtain r q1 where p: "queue_receive q = Some (r, q1)" by (cases p) simp
      obtain a1 l1 q2 d2 where t: "exec_run cj es q1 (executor_dispatch x r d) = (a1, l1, q2, d2)"
        by (metis prod_cases4)
      from Cons.prems(1) have eqs: "acc = a1" "dispatched = (x, r) # l1" "q' = q2" "d' = d2"
        by (simp_all add: e p t)
      from cmdq.receive_some [OF p] have q: "q = r # q1" .
      with Cons.IH [OF t] Cons.prems(2) show ?thesis unfolding eqs q by (simp add: none)
    qed
  qed
qed simp

section \<open>The audio gate\<close>

definition audio_command :: "cmd_request \<Rightarrow> bool" where
  "audio_command r = (cr_status r = EXEC_OK \<and> cr_type r \<in> {CMD_START_AUDIO, CMD_STOP_AUDIO})"

lemma executor_dispatch_paused:
  "s_paused (executor_dispatch x r d)
     = (if audio_command r then cr_type r = CMD_STOP_AUDIO else s_paused d)"
  by (cases "cr_type r")
    (auto simp: executor_dispatch_def audio_command_def audio_gate_set_def Let_def split_beta
      split: option.split)

text \<open>
  The audio gate is set by the last executed audio command and by nothing else: after any
  sequence of commands capture is paused exactly when the last valid one of \<open>start_audio\<close> and
  \<open>stop_audio\<close> was a stop, or, without one, when it was paused before.
\<close>

theorem gate_follows_last_command:
  "s_paused (dispatch_all xs d)
     = (case rev (filter audio_command (map snd xs)) of
          [] \<Rightarrow> s_paused d
        | r # _ \<Rightarrow> cr_type r = CMD_STOP_AUDIO)"
proof (induction xs rule: rev_induct)
  case (snoc x xs)
  then show ?case by (cases x) (simp add: executor_dispatch_paused)
qed simp

section \<open>The other parts of the device\<close>

definition does :: "cmd_type \<Rightarrow> exec_io \<times> cmd_request \<Rightarrow> bool" where
  "does c xr = (cr_status (snd xr) = EXEC_OK \<and> cr_type (snd xr) = c)"

text \<open>Each handler changes its own part: what one dispatch does to each of them.\<close>

lemma executor_dispatch_replay:
  "dv_replay (executor_dispatch x r d) = (if does CMD_REQUEST_BUFFER (x, r)
     then map_option (\<lambda>rq. snd (queue_send DRAIN_REPLAY_QUEUE_DEPTH (cr_seconds r) rq)) (dv_replay d)
     else dv_replay d)"
  by (cases "cr_type r")
    (auto simp: executor_dispatch_def does_def Let_def split_beta split: option.split)

lemma executor_dispatch_video:
  "dv_video (executor_dispatch x r d) = (if does CMD_START_VIDEO (x, r)
     then snd (video_start (ex_video x) (ex_boot x) (ex_now x) (dv_video d)) else dv_video d)"
  by (cases "cr_type r")
    (auto simp: executor_dispatch_def does_def Let_def split_beta split: option.split)

lemma executor_dispatch_snapshot:
  "pending (ts_snapshot (dv_transfer (executor_dispatch x r d))) =
     pending (ts_snapshot (dv_transfer d))
       + (if s_worker (ts_snapshot (dv_transfer d)) \<and> does CMD_CAPTURE_PHOTO (x, r) then 1 else 0)"
  "s_worker (ts_snapshot (dv_transfer (executor_dispatch x r d)))
     = s_worker (ts_snapshot (dv_transfer d))"
  "s_timer (ts_snapshot (dv_transfer (executor_dispatch x r d))) =
     (if s_timer (ts_snapshot (dv_transfer d)) \<noteq> NO_TIMER \<and> ex_timer x
         \<and> does CMD_SET_SNAPSHOT_INTERVAL (x, r)
      then (if cr_snapshot_interval_s r = 0 then STOPPED else RUNNING (cr_snapshot_interval_s r * 1000))
      else s_timer (ts_snapshot (dv_transfer d)))"
  by (cases "cr_type r"; auto simp: executor_dispatch_def does_def snapshot_capture_async_def
      snapshot_set_interval_def transfer_flush_def Let_def split_beta split: option.split)+

text \<open>The short-lived tasks a dispatched command creates, apart from the transfer.\<close>

definition spawns :: "exec_io \<times> cmd_request \<Rightarrow> spawned list" where
  "spawns xr = (let (x, r) = xr in
     if does CMD_RECORD_VIDEO xr \<and> cr_duration_s r \<noteq> 0 \<and> ex_malloc x \<and> ex_task x
       then [SPAWN_RECORD (min 120 (cr_duration_s r)) (ex_now x)]
     else if does CMD_STOP_VIDEO xr \<and> ex_task x then [SPAWN_STOP] else [])"

definition flushes :: "exec_io \<times> cmd_request \<Rightarrow> bool" where
  "flushes xr = (does CMD_FLUSH_SNAPSHOTS xr \<and> ex_task (fst xr))"

lemma executor_dispatch_spawned:
  "dv_spawned (executor_dispatch x r d) = dv_spawned d @ spawns (x, r)
     @ (if flushes (x, r) \<and> \<not> s_transfer_task (dv_transfer d)
        then [SPAWN_TRANSFER] else [])"
  "s_transfer_task (dv_transfer (executor_dispatch x r d))
     = (s_transfer_task (dv_transfer d) \<or> flushes (x, r))"
  by (cases "cr_type r"; auto simp: executor_dispatch_def spawns_def flushes_def does_def video_record_def
      video_stop_async_def transfer_flush_def Let_def split_beta min_def split: option.split)+

lemma queue_send_take:
  "snd (queue_send n x (take n ys)) = take n (ys @ [x])"
  by (simp add: queue_send_def)

lemma dispatch_all_replay:
  assumes "\<And>rq. dv_replay d = Some rq \<Longrightarrow> length rq \<le> DRAIN_REPLAY_QUEUE_DEPTH"
  shows "dv_replay (dispatch_all xs d) = map_option (\<lambda>rq. take DRAIN_REPLAY_QUEUE_DEPTH
      (rq @ map (cr_seconds \<circ> snd) (filter (does CMD_REQUEST_BUFFER) xs))) (dv_replay d)"
proof (induction xs rule: rev_induct)
  case Nil
  with assms show ?case by (cases "dv_replay d") simp_all
next
  case (snoc xr xs)
  then show ?case
    by (cases xr; cases "dv_replay d")
      (simp_all add: executor_dispatch_replay queue_send_take del: take_append)
qed

lemma dispatch_all_video:
  "dv_video (dispatch_all xs d) = fold (\<lambda>(x, r) v. snd (video_start (ex_video x) (ex_boot x) (ex_now x) v))
     (filter (does CMD_START_VIDEO) xs) (dv_video d)"
  by (induction xs rule: rev_induct) (auto simp: executor_dispatch_video)

lemma dispatch_all_snapshot:
  "pending (ts_snapshot (dv_transfer (dispatch_all xs d))) = pending (ts_snapshot (dv_transfer d))
     + (if s_worker (ts_snapshot (dv_transfer d)) then length (filter (does CMD_CAPTURE_PHOTO) xs) else 0)"
  "s_worker (ts_snapshot (dv_transfer (dispatch_all xs d))) = s_worker (ts_snapshot (dv_transfer d))"
  by (induction xs rule: rev_induct) (auto simp: executor_dispatch_snapshot)

text \<open>The last interval command whose timer call succeeded.\<close>

lemma dispatch_all_timer:
  "s_timer (ts_snapshot (dv_transfer (dispatch_all xs d))) =
     (case rev (filter (\<lambda>xr. does CMD_SET_SNAPSHOT_INTERVAL xr \<and> ex_timer (fst xr)) xs) of
        [] \<Rightarrow> s_timer (ts_snapshot (dv_transfer d))
      | (x, r) # _ \<Rightarrow> if s_timer (ts_snapshot (dv_transfer d)) = NO_TIMER then NO_TIMER
          else if cr_snapshot_interval_s r = 0 then STOPPED else RUNNING (cr_snapshot_interval_s r * 1000))"
proof (induction xs rule: rev_induct)
  case (snoc xr xs)
  then show ?case
    by (cases xr) (auto simp: executor_dispatch_snapshot split: list.splits)
qed simp

lemma dispatch_all_spawned:
  "filter (\<lambda>s. s \<noteq> SPAWN_TRANSFER) (dv_spawned (dispatch_all xs d))
     = filter (\<lambda>s. s \<noteq> SPAWN_TRANSFER) (dv_spawned d) @ concat (map spawns xs)"
  "count_list (dv_spawned (dispatch_all xs d)) SPAWN_TRANSFER = count_list (dv_spawned d) SPAWN_TRANSFER
     + (if \<not> s_transfer_task (dv_transfer d) \<and> (\<exists>xr \<in> set xs. flushes xr)
        then 1 else 0)
   \<and> s_transfer_task (dv_transfer (dispatch_all xs d)) = (s_transfer_task (dv_transfer d)
       \<or> (\<exists>xr \<in> set xs. flushes xr))"
proof -
  have s: "filter (\<lambda>s. s \<noteq> SPAWN_TRANSFER) (spawns xr) = spawns xr" "count_list (spawns xr) SPAWN_TRANSFER = 0" for xr
    by (simp_all add: spawns_def Let_def split_beta)
  show "filter (\<lambda>s. s \<noteq> SPAWN_TRANSFER) (dv_spawned (dispatch_all xs d))
     = filter (\<lambda>s. s \<noteq> SPAWN_TRANSFER) (dv_spawned d) @ concat (map spawns xs)"
    by (induction xs rule: rev_induct) (auto simp: executor_dispatch_spawned s)
  show "count_list (dv_spawned (dispatch_all xs d)) SPAWN_TRANSFER = count_list (dv_spawned d) SPAWN_TRANSFER
     + (if \<not> s_transfer_task (dv_transfer d) \<and> (\<exists>xr \<in> set xs. flushes xr)
        then 1 else 0)
   \<and> s_transfer_task (dv_transfer (dispatch_all xs d)) = (s_transfer_task (dv_transfer d)
       \<or> (\<exists>xr \<in> set xs. flushes xr))"
  proof (induction xs rule: rev_induct)
    case (snoc xr xs)
    then show ?case
      by (cases xr; cases "\<exists>xr \<in> set xs. flushes xr")
        (simp_all add: executor_dispatch_spawned s count_list_append)
  qed simp
qed

text \<open>
  C33: Accepted commands take effect, once each and in the order they were accepted, and refused or
  malformed ones take none. However submissions and rounds of the executor interleave: the accepted
  requests are among those asked for, all of them while the queue has room; the dispatched ones and
  those still queued are exactly the accepted ones in order; and each part of the device follows from
  the dispatched commands: capture is paused by the last audio command, the drainer's replay queue got
  the seconds of the \<open>request_buffer\<close> commands in order up to its depth, a photo is pending for each
  \<open>capture_photo\<close>, the snapshot timer has the last interval set, clips and stops have their tasks in
  order (a clip of at most 120 seconds), at most one transfer runs, and the starts of video ran in order.
  No other task acts on the device in the run.
\<close>

theorem executor_runs_accepted:
  assumes "exec_run cj es [] d = (acc, done_by, q', d')"
    and "\<And>rq. dv_replay d = Some rq \<Longrightarrow> length rq \<le> DRAIN_REPLAY_QUEUE_DEPTH"
  shows "subseq acc (concat (map (requested cj) es))
    \<and> (length (concat (map (requested cj) es)) \<le> EXECUTOR_QUEUE_DEPTH
        \<longrightarrow> acc = concat (map (requested cj) es))
    \<and> acc = map snd done_by @ q' \<and> length q' \<le> EXECUTOR_QUEUE_DEPTH
    \<and> s_paused d' = (case rev (filter audio_command (map snd done_by)) of
          [] \<Rightarrow> s_paused d
        | r # _ \<Rightarrow> cr_type r = CMD_STOP_AUDIO)
    \<and> dv_replay d' = map_option (\<lambda>rq. take DRAIN_REPLAY_QUEUE_DEPTH
          (rq @ map (cr_seconds \<circ> snd) (filter (does CMD_REQUEST_BUFFER) done_by))) (dv_replay d)
    \<and> pending (ts_snapshot (dv_transfer d')) = pending (ts_snapshot (dv_transfer d))
        + (if s_worker (ts_snapshot (dv_transfer d)) then length (filter (does CMD_CAPTURE_PHOTO) done_by) else 0)
    \<and> s_timer (ts_snapshot (dv_transfer d')) =
        (case rev (filter (\<lambda>xr. does CMD_SET_SNAPSHOT_INTERVAL xr \<and> ex_timer (fst xr)) done_by) of
           [] \<Rightarrow> s_timer (ts_snapshot (dv_transfer d))
         | (x, r) # _ \<Rightarrow> if s_timer (ts_snapshot (dv_transfer d)) = NO_TIMER then NO_TIMER
             else if cr_snapshot_interval_s r = 0 then STOPPED else RUNNING (cr_snapshot_interval_s r * 1000))
    \<and> filter (\<lambda>s. s \<noteq> SPAWN_TRANSFER) (dv_spawned d')
        = filter (\<lambda>s. s \<noteq> SPAWN_TRANSFER) (dv_spawned d) @ concat (map spawns done_by)
    \<and> count_list (dv_spawned d') SPAWN_TRANSFER = count_list (dv_spawned d) SPAWN_TRANSFER
        + (if \<not> s_transfer_task (dv_transfer d)
              \<and> (\<exists>xr \<in> set done_by. flushes xr) then 1 else 0)
    \<and> dv_video d' = fold (\<lambda>(x, r) v. snd (video_start (ex_video x) (ex_boot x) (ex_now x) v))
        (filter (does CMD_START_VIDEO) done_by) (dv_video d)"
proof -
  have q: "acc = map snd done_by @ q'" "length q' \<le> EXECUTOR_QUEUE_DEPTH" "d' = dispatch_all done_by d"
    "subseq acc (concat (map (requested cj) es))"
    "length (concat (map (requested cj) es)) \<le> EXECUTOR_QUEUE_DEPTH \<longrightarrow> acc = concat (map (requested cj) es)"
    using exec_run_queue [OF assms(1)] unfolding append_Nil list.size(3) by auto
  have replay: "dv_replay (dispatch_all done_by d) = map_option (\<lambda>rq. take DRAIN_REPLAY_QUEUE_DEPTH
      (rq @ map (cr_seconds \<circ> snd) (filter (does CMD_REQUEST_BUFFER) done_by))) (dv_replay d)"
    using assms(2) by (rule dispatch_all_replay)
  show ?thesis
    unfolding q(3) replay gate_follows_last_command dispatch_all_snapshot(1) dispatch_all_timer
      dispatch_all_spawned(1) dispatch_all_spawned(2) [THEN conjunct1] dispatch_all_video
    by (intro conjI refl q(1,2,4,5))
qed

definition exec_io_ok :: exec_io where
  "exec_io_ok = \<lparr>ex_now = 0, ex_boot = 7, ex_video = start_ok 1, ex_malloc = True, ex_task = True,
     ex_timer = True\<rparr>"

definition device_boot :: device where
  "device_boot = \<lparr>s_paused = False, dv_replay = None, dv_transfer = idle_device,
     dv_video = video_boot mounted_card, dv_spawned = []\<rparr>"

text \<open>A stop of the audio and a mark by the button, both run; the parameters are absent.\<close>

lemma executor_runs_accepted_witness:
  "\<exists>d'. exec_run doc_cjson [SUBMIT ''stop_audio'' None,
        LOCAL (Some ((request0 CMD_REQUEST_BUFFER EXEC_OK)\<lparr>cr_seconds := 60\<rparr>)), ROUND exec_io_ok, ROUND exec_io_ok]
      [] (device_boot\<lparr>dv_replay := Some []\<rparr>)
     = ([request0 CMD_STOP_AUDIO EXEC_OK, (request0 CMD_REQUEST_BUFFER EXEC_OK)\<lparr>cr_seconds := 60\<rparr>],
        [(exec_io_ok, request0 CMD_STOP_AUDIO EXEC_OK),
         (exec_io_ok, (request0 CMD_REQUEST_BUFFER EXEC_OK)\<lparr>cr_seconds := 60\<rparr>)], [], d')
     \<and> s_paused d' \<and> dv_replay d' = Some [60]"
proof -
  let ?mark = "(request0 CMD_REQUEST_BUFFER EXEC_OK)\<lparr>cr_seconds := 60\<rparr>"
  let ?es = "[SUBMIT ''stop_audio'' None, LOCAL (Some ?mark), ROUND exec_io_ok, ROUND exec_io_ok]"
  obtain d' where r: "exec_run doc_cjson ?es [] (device_boot\<lparr>dv_replay := Some []\<rparr>)
     = ([request0 CMD_STOP_AUDIO EXEC_OK, ?mark],
        [(exec_io_ok, request0 CMD_STOP_AUDIO EXEC_OK), (exec_io_ok, ?mark)], [], d')"
    by (simp add: queue_send_def queue_receive_def EXECUTOR_QUEUE_DEPTH_def exec_submit_def requested_def
        executor_submit_def executor_dispatch_local_def executor_parse_and_validate_def parse_plain_def
        params_only_allowed_def request0_def split_beta)
  have "s_paused d'" "dv_replay d' = Some [60]"
    using executor_runs_accepted [OF r]
    by (simp_all add: request0_def audio_command_def does_def DRAIN_REPLAY_QUEUE_DEPTH_def)
  with r show ?thesis by blast
qed

section \<open>The button's dispatch (button_task.c)\<close>

text \<open>
  What a gesture leads to: a request for the executor's queue, or the deep sleep (the telemetry of
  \<open>battery_notify_sleeping\<close>, then the wake source, then no return).
\<close>

datatype button_action = NO_ACTION | DISPATCH cmd_request | DEEP_SLEEP

definition dispatch_gesture :: "button_gesture \<Rightarrow> bool \<Rightarrow> button_action" where
  "dispatch_gesture g was_paused = (case g of
     BTN_SHORT \<Rightarrow> DISPATCH ((request0 CMD_REQUEST_BUFFER EXEC_OK)\<lparr>cr_seconds := 60\<rparr>)
   | BTN_DOUBLE \<Rightarrow> if was_paused then DISPATCH (request0 CMD_START_AUDIO EXEC_OK)
       else DISPATCH (request0 CMD_STOP_AUDIO EXEC_OK)
   | BTN_LONG \<Rightarrow> DISPATCH (request0 CMD_CAPTURE_PHOTO EXEC_OK)
   | BTN_VERY_LONG \<Rightarrow> DEEP_SLEEP
   | BTN_NONE \<Rightarrow> NO_ACTION)"

text \<open>
  One poll of \<open>button_task\<close>: the GPIO level (0 is pressed) and the clock; the classifier, the queue,
  and whether the device went to sleep.
\<close>

definition button_poll ::
  "int \<Rightarrow> u32 \<Rightarrow> bool \<Rightarrow> button_classifier \<times> cmd_request list \<Rightarrow> (button_classifier \<times> cmd_request list) \<times> bool"
where
  "button_poll level now paused s =
     (let (cls, q) = s; (g, cls') = button_classifier_event cls (level = 0) now
      in if g = BTN_NONE then ((cls', q), False)
         else case dispatch_gesture g (audio_gate_paused paused) of
           NO_ACTION \<Rightarrow> ((cls', q), False)
         | DEEP_SLEEP \<Rightarrow> ((cls', q), True)
         | DISPATCH r \<Rightarrow> ((cls', snd (executor_dispatch_local (queue_send EXECUTOR_QUEUE_DEPTH) (Some r) q)), False))"

text \<open>\<open>button_task\<close>'s set-up and \<open>button_start\<close>.\<close>

definition button_task_start :: "esp_err \<Rightarrow> u32 \<Rightarrow> button_classifier option" where
  "button_task_start gpio_config now =
     (if gpio_config \<noteq> ESP_OK then None else Some (button_classifier_init now))"

definition button_start :: "bool \<Rightarrow> esp_err" where
  "button_start task_ok = (if \<not> task_ok then ESP_FAIL else ESP_OK)"

text \<open>A double tap whose command runs before the next gesture.\<close>

definition double_tap :: "exec_io \<Rightarrow> device \<Rightarrow> device" where
  "double_tap x d = (case dispatch_gesture BTN_DOUBLE (audio_gate_paused (s_paused d)) of
     DISPATCH r \<Rightarrow> executor_dispatch x r d | _ \<Rightarrow> d)"

lemma double_tap_toggles: "s_paused (double_tap x d) = (\<not> s_paused d)"
  by (simp add: double_tap_def dispatch_gesture_def audio_gate_paused_def executor_dispatch_paused
      audio_command_def request0_def)

text \<open>
  The button toggles on the gate as it is when the gesture ends, not as the queue will leave it:
  each double tap that runs before the next one flips the gate, but two double taps that are both
  resolved before the executor runs queue the same command twice, so the second has no effect.
\<close>

theorem quick_double_taps:
  "s_paused (double_tap x (double_tap y d)) = s_paused d
   \<and> (\<forall>r1 r2. dispatch_gesture BTN_DOUBLE (audio_gate_paused (s_paused d)) = DISPATCH r1
        \<longrightarrow> dispatch_gesture BTN_DOUBLE (audio_gate_paused (s_paused d)) = DISPATCH r2
        \<longrightarrow> s_paused (dispatch_all [(x, r1), (y, r2)] d) = (\<not> s_paused d))"
  by (auto simp: double_tap_toggles dispatch_all_def dispatch_gesture_def audio_gate_paused_def
      executor_dispatch_paused audio_command_def request0_def split: if_splits)

lemma quick_double_taps_witness:
  "s_paused (dispatch_all [(exec_io_ok, request0 CMD_STOP_AUDIO EXEC_OK),
     (exec_io_ok, request0 CMD_STOP_AUDIO EXEC_OK)] device_boot)"
  using quick_double_taps [of exec_io_ok exec_io_ok device_boot]
  by (simp add: dispatch_gesture_def audio_gate_paused_def device_boot_def)

text \<open>
  A short press before the drainer has created its replay queue is lost: the request is accepted
  and dispatched, and nothing changes. (The button task is started before \<open>ble_drain_start\<close>.)
\<close>

theorem early_mark_lost:
  assumes "dv_replay d = None" and "dispatch_gesture BTN_SHORT p = DISPATCH r"
  shows "fst (executor_dispatch_local (queue_send EXECUTOR_QUEUE_DEPTH) (Some r) [])
    \<and> executor_dispatch x r d = d"
  using assms
  by (auto simp: dispatch_gesture_def executor_dispatch_local_def queue_send_def
      EXECUTOR_QUEUE_DEPTH_def executor_dispatch_def request0_def)

lemma early_mark_lost_witness:
  "executor_dispatch exec_io_ok ((request0 CMD_REQUEST_BUFFER EXEC_OK)\<lparr>cr_seconds := 60\<rparr>) device_boot
     = device_boot"
  using early_mark_lost [of device_boot False _ exec_io_ok]
  by (simp add: device_boot_def dispatch_gesture_def)

end
