(* ===== verification/App_Main.thy ===== *)
theory App_Main
  imports Gatt Executor Battery Snapshot Audio_Task
begin

text \<open>
  The boot sequence (\<open>app_main\<close> of \<open>main/openrecall_sensor.c\<close>): the order in which the modules are
  initialised, which failures end the boot (\<open>ESP_ERROR_CHECK\<close> restarts the device) and which are
  only logged, and the composition of boot, provisioning and commands: which key a device that has
  booted obeys.
\<close>

section \<open>What the boot meets\<close>

text \<open>
  The result of every call that leaves the repository; \<open>flash_init\<close> and \<open>flash_erase\<close> act on the
  NVS partition. The last three: whether the audio task could be created, the wake-up cause, and
  the attribute handles the BLE stack assigns.
\<close>

record 'm boot_io =
  bo_flash_init :: "'m \<Rightarrow> esp_err"
  bo_flash_erase :: "'m \<Rightarrow> esp_err \<times> 'm"
  bo_nvs :: "'m nvs_api"
  bo_boot_open :: esp_err
  bo_boot_got :: "esp_err \<times> u32"
  bo_boot_set :: esp_err
  bo_psram :: bool
  bo_i2s_channel :: esp_err
  bo_i2s_std :: "capture_config \<Rightarrow> esp_err"
  bo_i2s_enable :: esp_err
  bo_opus :: bool
  bo_sodium :: bool
  bo_exec_queue :: bool
  bo_exec_task :: bool
  bo_adc_unit :: esp_err
  bo_adc_channel :: esp_err
  bo_adc_cali :: esp_err
  bo_battery_task :: bool
  bo_button_task :: bool
  bo_mount :: mount_io
  bo_camera :: "camera_config \<Rightarrow> esp_err"
  bo_snap_task :: bool
  bo_snap_timer :: bool
  bo_snap_start :: bool
  bo_drain_queue :: bool
  bo_drain_task :: bool
  bo_link :: start_io
  bo_audio_task :: bool
  bo_woke_by_ext0 :: bool
  bo_handles :: "u16 \<times> u16 \<times> u16"

text \<open>The tasks in the order they are created, and the state of each module after the boot.\<close>

datatype task = EXECUTOR_TASK | BATTERY_TASK | BUTTON_TASK | SNAPSHOT_WORKER | AUDIO_TASK
  | DRAIN_TASK | HOST_TASK

record 'm booted =
  bt_boot_id :: u32
  bt_ring :: ring
  bt_gatt :: "('m, cmd_request list option) gatt_device"
  bt_battery :: battery_state
  bt_card :: sd_card
  bt_camera_up :: bool
  bt_snapshot :: snapshot_state
  bt_replay :: "u32 list option"
  bt_link :: ble_state
  bt_tasks :: "task list"

section \<open>The parts of the boot\<close>

text \<open>NVS: a full or newer partition is erased and initialised again. \<open>None\<close> is a failed check.\<close>

definition nvs_up :: "'m boot_io \<Rightarrow> 'm \<Rightarrow> 'm option" where
  "nvs_up io m =
     (let nv = bo_flash_init io m in
      if nv = ESP_ERR_NVS_NO_FREE_PAGES \<or> nv = ESP_ERR_NVS_NEW_VERSION_FOUND then
        (let (e, m') = bo_flash_erase io m in
         if e \<noteq> ESP_OK then None else if bo_flash_init io m' \<noteq> ESP_OK then None else Some m')
      else if nv \<noteq> ESP_OK then None else Some m)"

text \<open>The static variables of \<open>commands.c\<close> before any call.\<close>

definition commands_static :: commands_state where
  "commands_static = \<lparr>s_pubkey = replicate 32 0, s_ack = False,
     s_seen = replicate CMD_DEDUPE_N [], s_seen_head = 0\<rparr>"

text \<open>
  Provisioning and the command module: the stored key is installed, \<open>commands_init\<close> replaces it by
  the compiled-in one, and a provisioned device installs the stored key again.
\<close>

definition install_keys :: "'m boot_io \<Rightarrow> 'm \<Rightarrow> 'm prov_device" where
  "install_keys io m =
     (let (core, cs1) = provisioning_init (bo_nvs io) m commands_static;
          cs2 = (case commands_init (bo_sodium io) SERVER_ED25519_PUBKEY True of
                   None \<Rightarrow> cs1 | Some cs \<Rightarrow> cs);
          cs3 = (if provisioning_state_byte core = 1
                 then commands_set_pubkey (provisioning_core_server_key core) cs2 else cs2)
      in \<lparr>pd_core = core, pd_commands = cs3, pd_nvs = m, pd_notified = []\<rparr>)"

text \<open>The battery monitor, with the wake-up reason marked before the monitor's first telemetry.\<close>

definition start_battery :: "'m boot_io \<Rightarrow> battery_state \<times> task list" where
  "start_battery io =
     (let (e, b) = battery_init (bo_adc_unit io) (bo_adc_channel io) (bo_adc_cali io)
            \<lparr>s_adc = False, s_cali = False, s_latest_mv = 0, s_wake_from_button = False\<rparr>
      in if e = ESP_OK
         then (if bo_woke_by_ext0 io then battery_mark_wake_from_button b else b,
               if bo_battery_task io then [BATTERY_TASK] else [])
         else (b, []))"

text \<open>The camera and, when it is up, the snapshot timer and its worker.\<close>

definition start_camera :: "'m boot_io \<Rightarrow> bool \<times> snapshot_state \<times> task list" where
  "start_camera io =
     (let off = \<lparr>s_timer = NO_TIMER, s_worker = False, pending = 0\<rparr> in
      if camera_init (bo_camera io) \<noteq> ESP_OK then (False, off, [])
      else let (_, sn) = snapshot_init (bo_snap_task io) (bo_snap_timer io) (bo_snap_start io) off
           in (True, sn, if s_worker sn then [SNAPSHOT_WORKER] else []))"

text \<open>The checked initialisations of ring, microphones and encoder; \<open>None\<close> restarts the device.\<close>

definition audio_up :: "'m boot_io \<Rightarrow> ring option" where
  "audio_up io = (case ring_buffer_init (bo_psram io) of
     None \<Rightarrow> None
   | Some r \<Rightarrow>
       if audio_capture_init (bo_i2s_channel io) (bo_i2s_std io) (bo_i2s_enable io) \<noteq> ESP_OK then None
       else if fst (opus_stream_init (\<lambda>_ _. if bo_opus io then Some () else None) (\<lambda>_ e. e)) \<noteq> ESP_OK
       then None else Some r)"

definition app_main :: "'m boot_io \<Rightarrow> sd_card \<Rightarrow> 'm \<Rightarrow> 'm booted option" where
  "app_main io sd m = (case nvs_up io m of
     None \<Rightarrow> None
   | Some m' \<Rightarrow>
       (let (_, boot_id, _) = boot_id_init (bo_boot_open io) (bo_boot_got io) (bo_boot_set io) 0 in
        case audio_up io of
          None \<Rightarrow> None
        | Some r \<Rightarrow>
            (let prov = install_keys io m';
                 (ex, queue) = executor_init (bo_exec_queue io) (bo_exec_task io);
                 (batt, ts_batt) = start_battery io;
                 ts_button = (if button_start (bo_button_task io) = ESP_OK then [BUTTON_TASK] else []);
                 (_, card') = sd_store_mount (bo_mount io) sd;
                 (cam, snap, ts_snap) = start_camera io
             in if \<not> ble_drain_start (bo_drain_queue io) (bo_drain_task io) then None
                else case ble_link_start (bo_link io) of
                  (e, _) \<Rightarrow>
                    if e \<noteq> ESP_OK then None
                    else Some \<lparr>bt_boot_id = boot_id_get boot_id, bt_ring = r,
                       bt_gatt = \<lparr>gd_prov = prov, gd_queue = queue, gd_acks = []\<rparr>,
                       bt_battery = batt, bt_card = card', bt_camera_up = cam, bt_snapshot = snap,
                       bt_replay = Some [],
                       bt_link = (case bo_handles io of (a, k, p) \<Rightarrow> link_boot a k p),
                       bt_tasks = (if ex = ESP_OK then [EXECUTOR_TASK] else []) @ ts_batt @ ts_button
                         @ ts_snap @ (if bo_audio_task io then [AUDIO_TASK] else [])
                         @ [DRAIN_TASK, HOST_TASK]\<rparr>)))"

section \<open>Which boots complete\<close>

lemma ring_init_some: "ring_buffer_init ok = None \<longleftrightarrow> \<not> ok"
  by (simp add: ring_buffer_init_def)

lemma audio_up_some:
  "audio_up io \<noteq> None \<longleftrightarrow> bo_psram io
    \<and> audio_capture_init (bo_i2s_channel io) (bo_i2s_std io) (bo_i2s_enable io) = ESP_OK \<and> bo_opus io"
  by (auto simp: audio_up_def opus_stream_init_def ring_buffer_init_def split: option.splits)

lemma app_main_some:
  "app_main io sd m \<noteq> None \<longleftrightarrow> nvs_up io m \<noteq> None \<and> audio_up io \<noteq> None
    \<and> ble_drain_start (bo_drain_queue io) (bo_drain_task io) \<and> fst (ble_link_start (bo_link io)) = ESP_OK"
  by (simp add: app_main_def split_beta Let_def split: option.split)

text \<open>
  The boot completes exactly when the flash, the ring, the microphones, the encoder, the drainer
  and the link come up; provisioning, libsodium, the executor, the battery monitor, the button, the
  card and the camera may each fail without keeping the device from streaming.
\<close>

theorem boot_completes_iff:
  "app_main io sd m \<noteq> None \<longleftrightarrow>
    nvs_up io m \<noteq> None \<and> bo_psram io
    \<and> audio_capture_init (bo_i2s_channel io) (bo_i2s_std io) (bo_i2s_enable io) = ESP_OK \<and> bo_opus io
    \<and> bo_drain_queue io \<and> bo_drain_task io \<and> fst (ble_link_start (bo_link io)) = ESP_OK"
  unfolding app_main_some audio_up_some ble_drain_start_def by auto

section \<open>The key a booted device obeys\<close>

lemma install_keys_live: "key_live (install_keys io m)"
  by (auto simp: install_keys_def provisioning_init_def provisioning_core_init_def s_store_def
      nvs_get_def key_live_def provisioning_state_byte_def commands_set_pubkey_def zero_key_def
      provisioning_core_server_key_def provisioning_core_state_def commands_init_def
      commands_static_def SERVER_ED25519_PUBKEY_def split_beta Let_def
      split: option.splits if_splits)

lemma app_main_prov:
  assumes "app_main io sd m = Some b"
  obtains m' where "nvs_up io m = Some m'" "gd_prov (bt_gatt b) = install_keys io m'"
  using assms by (auto simp: app_main_def split_beta Let_def split: option.splits if_splits)

text \<open>A boot where everything comes up, from a flash whose writes succeed.\<close>

definition good_boot :: "flash boot_io" where
  "good_boot = \<lparr>bo_flash_init = (\<lambda>_. ESP_OK), bo_flash_erase = (\<lambda>m. (ESP_OK, (None, None))),
     bo_nvs = flash_nvs True, bo_boot_open = ESP_OK, bo_boot_got = (ESP_ERR_NVS_NOT_FOUND, 0),
     bo_boot_set = ESP_OK, bo_psram = True, bo_i2s_channel = ESP_OK, bo_i2s_std = (\<lambda>_. ESP_OK),
     bo_i2s_enable = ESP_OK, bo_opus = True, bo_sodium = True, bo_exec_queue = True,
     bo_exec_task = True, bo_adc_unit = ESP_OK, bo_adc_channel = ESP_OK, bo_adc_cali = ESP_OK,
     bo_battery_task = True, bo_button_task = True,
     bo_mount = \<lparr>spi_bus_initialize = ESP_OK, vfs_mount = ESP_OK, mkdir_snapshots = MKDIR_DONE,
       mkdir_video = MKDIR_DONE\<rparr>,
     bo_camera = (\<lambda>_. ESP_OK), bo_snap_task = True, bo_snap_timer = True, bo_snap_start = True,
     bo_drain_queue = True, bo_drain_task = True,
     bo_link = \<lparr>nimble_port_init = ESP_OK, gatts_count_cfg = 0, gatts_add_svcs = 0,
       device_name_set = 0\<rparr>,
     bo_audio_task = True, bo_woke_by_ext0 = False, bo_handles = (1, 2, 3)\<rparr>"

definition boot_env :: "(flash, (string \<times> py_value) list + py_value, cmd_request list option) firmware_env"
where
  "boot_env = \<lparr>fe_nvs = flash_nvs True, fe_verify = (\<lambda>sig payload key. key = replicate 32 7),
     fe_cjson = one_command ''c1'', fe_send = (\<lambda>r q. (True, map_option (\<lambda>rs. rs @ [r]) q))\<rparr>"

lemma good_boot_completes:
  obtains b where "app_main good_boot sd m = Some b"
proof -
  have "audio_up good_boot \<noteq> None"
    unfolding audio_up_some by (simp add: good_boot_def audio_capture_init_def)
  then have "app_main good_boot sd m \<noteq> None"
    unfolding app_main_some
    by (simp add: good_boot_def nvs_up_def ble_link_start_def ble_drain_start_def)
  then show ?thesis using that by blast
qed

text \<open>
  C27: On a device that has booted, whatever a phone reads and writes on any characteristic, the key
  commands are checked against is the provisioned one, or all zeros while none is provisioned; and
  no read returns more than the one byte of the provisioning state.
\<close>

theorem live_key_mirrors_core:
  assumes "app_main io sd m = Some b" and "session env (bt_gatt b) as g"
  shows "s_pubkey (pd_commands (gd_prov g)) = s_key (pd_core (gd_prov g))
    \<and> (s_state (pd_core (gd_prov g)) = PROV_UNPROVISIONED \<longrightarrow> s_key (pd_core (gd_prov g)) = zero_key)
    \<and> (\<forall>(c, op, bs) \<in> set as. length bs \<le> 1)"
proof -
  have boot: "key_live (gd_prov (bt_gatt b))"
    using assms(1) by (rule app_main_prov) (simp add: install_keys_live)
  from assms(2) boot have "\<forall>(c, op, bs) \<in> set as. length bs \<le> 1"
  proof (induction rule: session.induct)
    case (access g as h c op flat r bs h')
    then have "key_live (gd_prov h)" using session_key_live by blast
    with access show ?case by (auto dest: key_live_access)
  qed simp
  with session_key_live [OF assms(2) boot] show ?thesis by (auto simp: key_live_def)
qed

text \<open>
  C20: A booted device obeys its provisioned key only: a frame changes anything (the queue, the acks,
  the remembered ids) only on a provisioned device and with a signature that verifies under the
  provisioned key, given that the signature check refuses the all-zero key.
\<close>

theorem only_provisioned_key_commands:
  assumes "app_main io sd m = Some b" and "session env (bt_gatt b) as g"
    and "\<forall>sig payload. \<not> fe_verify env sig payload zero_key"
    and "handle_command env data g \<noteq> g"
  shows "s_state (pd_core (gd_prov g)) = PROV_PROVISIONED
    \<and> fe_verify env (take 64 data) (drop 64 data) (s_key (pd_core (gd_prov g)))"
proof -
  have "key_live (gd_prov (bt_gatt b))"
    using assms(1) by (rule app_main_prov) (simp add: install_keys_live)
  then have live: "key_live (gd_prov g)" using assms(2) session_key_live by blast
  obtain cid type doc where "command_frame (fe_verify env) (fe_cjson env)
      (s_pubkey (pd_commands (gd_prov g))) data cid type doc"
  proof (cases rule: handle_cases [where verify = "fe_verify env" and cj = "fe_cjson env"
        and s = "pd_commands (gd_prov g)" and data = data and send = "fe_send env" and q = "gd_queue g"])
    case drop
    with assms(4) show ?thesis by (simp add: handle_command_def)
  qed
  then have "fe_verify env (take 64 data) (drop 64 data) (s_key (pd_core (gd_prov g)))"
    using live by (simp add: command_frame_def ED25519_SIG_LEN_def key_live_def)
  moreover from this assms(3) live have "s_state (pd_core (gd_prov g)) \<noteq> PROV_UNPROVISIONED"
    by (auto simp: key_live_def)
  ultimately show ?thesis by (cases "s_state (pd_core (gd_prov g))") simp_all
qed

text \<open>A key written over the air to a fresh device, then a command signed with it.\<close>

lemma one_command_frame':
  "command_frame (\<lambda>sig payload key. key = replicate 32 7) (one_command cid) (s_pubkey s) (replicate 70 0)
     cid ''start_audio'' (Inl [(''command_id'', PyStr cid), (''type'', PyStr ''start_audio'')])"
  if "s_pubkey s = replicate 32 7"
  using one_command_frame [of cid "s_pubkey s"] that by (simp add: command_frame_def)

lemma key_then_command:
  assumes "app_main good_boot sd (None, None) = Some b"
  obtains g as where "session boot_env (bt_gatt b) as g"
    "s_state (pd_core (gd_prov g)) = PROV_PROVISIONED" "s_key (pd_core (gd_prov g)) = replicate 32 7"
    "handle_command boot_env (replicate 70 0) g \<noteq> g"
proof -
  define c where "c = characteristics ! 4"
  have c: "c \<in> set characteristics" "permitted c (WRITE_CHR k)" "chr_access c = PROV_KEY_ACCESS" for k
    by (simp_all add: c_def characteristics_def s_gatt_svcs_def permitted_def)
  define p where "p = install_keys good_boot (None, None)"
  have p: "pd_core p = \<lparr>s_state = PROV_UNPROVISIONED, s_key = zero_key\<rparr>" "pd_nvs p = (None, None)"
    "pd_commands p = \<lparr>s_pubkey = zero_key, s_ack = True, s_seen = replicate 16 [], s_seen_head = 0\<rparr>"
    by (simp_all add: commands_init_def SERVER_ED25519_PUBKEY_def zero_key_def CMD_DEDUPE_N_def
        provisioning_state_byte_def provisioning_core_state_def p_def install_keys_def good_boot_def provisioning_init_def
        provisioning_core_init_def s_store_def nvs_get_def flash_nvs_def split_beta Let_def)
  have b: "gd_prov (bt_gatt b) = p"
    using assms by (rule app_main_prov) (simp add: p_def nvs_up_def good_boot_def)
  define d where "d = snd (prov_key_access (flash_nvs True) True (WRITE_CHR (replicate 32 7)) p)"
  define g where "g = (bt_gatt b)\<lparr>gd_prov := d\<rparr>"
  have d: "s_state (pd_core d) = PROV_PROVISIONED" "s_key (pd_core d) = replicate 32 7"
    "pd_commands d = \<lparr>s_pubkey = replicate 32 7, s_ack = True, s_seen = replicate 16 [], s_seen_head = 0\<rparr>"
    by (simp_all add: d_def prov_key_access_def provisioning_core_apply_key_def p s_store_def
        nvs_set_def flash_nvs_def provisioning_notify_state_def commands_set_pubkey_def
        provisioning_core_server_key_def)
  have "session boot_env (bt_gatt b) [] (bt_gatt b)" by (rule begin_session)
  from session.access [OF this c(1,2), where flat = True]
  have "session boot_env (bt_gatt b) ([] @ [(c, WRITE_CHR (replicate 32 7), [])]) g"
    by (simp add: chr_access_cb_def c b boot_env_def split_beta d_def g_def)
  moreover have "handle_command boot_env (replicate 70 0) g \<noteq> g"
  proof
    assume same: "handle_command boot_env (replicate 70 0) g = g"
    have "\<not> already_seen ''c1'' (pd_commands d)"
      by (simp add: d already_seen_def strncmp_eq_def CMD_ID_MAX_def list_ex_iff)
    moreover have "s_pubkey (pd_commands d) = replicate 32 7" by (simp add: d)
    ultimately have "pd_commands (gd_prov (handle_command boot_env (replicate 70 0) g))
        = remember ''c1'' (pd_commands d)"
      by (simp add: handle_command_def boot_env_def g_def split_beta
          handle_frame [OF one_command_frame'])
    with same have "s_seen_head (remember ''c1'' (pd_commands d)) = s_seen_head (pd_commands d)"
      by (simp add: g_def)
    then show False by (simp add: d remember_def CMD_DEDUPE_N_def)
  qed
  ultimately show ?thesis using d that [of _ g] by (simp add: g_def)
qed

theorem live_key_mirrors_core_witness:
  "\<exists>b as g. app_main good_boot (card_at_boot Map.empty) (None, None) = Some b
    \<and> session boot_env (bt_gatt b) as g \<and> s_pubkey (pd_commands (gd_prov g)) = replicate 32 7"
proof -
  obtain b where b: "app_main good_boot (card_at_boot Map.empty) (None, None) = Some b"
    by (rule good_boot_completes)
  obtain as g where g: "session boot_env (bt_gatt b) as g" "s_key (pd_core (gd_prov g)) = replicate 32 7"
    using b by (rule key_then_command)
  with b live_key_mirrors_core [OF b g(1)] show ?thesis by auto
qed

theorem only_provisioned_key_commands_witness:
  "\<exists>b as g. app_main good_boot (card_at_boot Map.empty) (None, None) = Some b
    \<and> session boot_env (bt_gatt b) as g \<and> handle_command boot_env (replicate 70 0) g \<noteq> g
    \<and> fe_verify boot_env (replicate 64 0) (replicate 6 0) (s_key (pd_core (gd_prov g)))"
proof -
  obtain b where b: "app_main good_boot (card_at_boot Map.empty) (None, None) = Some b"
    by (rule good_boot_completes)
  obtain as g where g: "session boot_env (bt_gatt b) as g" "handle_command boot_env (replicate 70 0) g \<noteq> g"
    using b by (rule key_then_command)
  have "\<forall>sig payload. \<not> fe_verify boot_env sig payload zero_key"
    by (simp add: boot_env_def zero_key_def)
  from only_provisioned_key_commands [OF b g(1) this g(2)] b g show ?thesis by auto
qed

end
