(* ===== verification/Selftest.thy ===== *)
theory Selftest
  imports Audio_Task Battery Snapshot
begin

text \<open>
  The hardware self-test firmware (\<open>openrecall_selftest/main\<close>): the four component tests, the
  summary with its LED and the live meter. It reuses the production capture and camera drivers, and
  their models here. Only the verdicts are modelled, not the texts printed beside them. \<open>long\<close> is
  32 bits wide on the ESP32-S3 (ILP32), so the sums of squares wrap.
\<close>

section \<open>Results and constants (selftest.h, selftest_config.h)\<close>

datatype selftest_status = ST_PASS | ST_FAIL | ST_SKIP

definition ST_VBAT_MIN_MV :: int where "ST_VBAT_MIN_MV = 3000"
definition ST_VBAT_MAX_MV :: int where "ST_VBAT_MAX_MV = 4250"
definition BUTTON_TIMEOUT_MS :: nat where "BUTTON_TIMEOUT_MS = 10000"
definition ST_BUTTON_DEBOUNCE_MS :: nat where "ST_BUTTON_DEBOUNCE_MS = 20"
definition AUDIO_TEST_FRAMES :: nat where "AUDIO_TEST_FRAMES = 150"
definition AUDIO_RMS_FLOOR :: int where "AUDIO_RMS_FLOOR = 200"
definition AUDIO_STEREO_FLOOR :: int where "AUDIO_STEREO_FLOOR = 20"
definition CAMERA_LUMA_STD_FLOOR :: int where "CAMERA_LUMA_STD_FLOOR = 20"
definition CAMERA_JPEG_MIN_BYTES :: nat where "CAMERA_JPEG_MIN_BYTES = 2000"
definition CAMERA_JPEG_MAX_BYTES :: nat where "CAMERA_JPEG_MAX_BYTES = 200000"
definition LIVE_METER_FRAMES :: nat where "LIVE_METER_FRAMES = 25"
definition LED_GPIO :: int where "LED_GPIO = 21"
definition LED_ON :: int where "LED_ON = 0"
definition LED_OFF :: int where "LED_OFF = 1"
definition BAT_SAMPLES :: nat where "BAT_SAMPLES = 64"

section \<open>Microphones (test_audio.c)\<close>

record audio_acc =
  sq_p :: int
  sq_r :: int
  sq_d :: int
  peak_p :: int
  peak_r :: int
  acc_n :: int

text \<open>One pair of samples; a square and its \<open>long\<close> are exact, the sums wrap at 32 bits.\<close>

definition acc_sample :: "i16 \<times> i16 \<Rightarrow> audio_acc \<Rightarrow> audio_acc" where
  "acc_sample s a =
     (let p = sint (fst s); rr = sint (snd s); d = p - rr; ap = \<bar>p\<bar>; ar = \<bar>rr\<bar> in
      a\<lparr>sq_p := i32 (sq_p a + i32 (p * p)), sq_r := i32 (sq_r a + i32 (rr * rr)),
        sq_d := i32 (sq_d a + i32 (d * d)),
        peak_p := (if ap > peak_p a then ap else peak_p a),
        peak_r := (if ar > peak_r a then ar else peak_r a), acc_n := i32 (acc_n a + 1)\<rparr>)"

definition acc_frame :: "i16 list \<times> i16 list \<Rightarrow> audio_acc \<Rightarrow> audio_acc" where
  "acc_frame f a = fold acc_sample (zip (fst f) (snd f)) a"

text \<open>The capture loop: \<open>None\<close> on the first failed read.\<close>

fun acc_frames :: "(i16 list \<times> i16 list) option list \<Rightarrow> audio_acc \<Rightarrow> audio_acc option" where
  "acc_frames [] a = Some a"
| "acc_frames (None # fs) a = None"
| "acc_frames (Some f # fs) a = acc_frames fs (acc_frame f a)"

definition acc0 :: audio_acc where
  "acc0 = \<lparr>sq_p = 0, sq_r = 0, sq_d = 0, peak_p = 0, peak_r = 0, acc_n = 0\<rparr>"

text \<open>
  \<open>sqrt((double)sq / n) > F\<close>: a negative sum gives NaN, whose comparison is false. For
  \<open>sq < 2^31\<close> and \<open>n = 48000\<close> the quotients on either side of \<open>F^2\<close> differ by far more than the
  rounding of the division and of the square root, so the test is the integer one.
\<close>

definition rms_above :: "int \<Rightarrow> int \<Rightarrow> int \<Rightarrow> bool" where
  "rms_above sq n F = (0 \<le> sq \<and> F * F * n < sq)"

definition test_audio :: "esp_err \<Rightarrow> (nat \<Rightarrow> (i16 list \<times> i16 list) option) \<Rightarrow> selftest_status" where
  "test_audio init frame =
     (if init \<noteq> ESP_OK then ST_FAIL
      else case acc_frames (map frame [0..<AUDIO_TEST_FRAMES]) acc0 of
        None \<Rightarrow> ST_FAIL
      | Some a \<Rightarrow>
          if rms_above (sq_p a) (acc_n a) AUDIO_RMS_FLOOR \<and> rms_above (sq_r a) (acc_n a) AUDIO_RMS_FLOOR
            \<and> rms_above (sq_d a) (acc_n a) AUDIO_STEREO_FLOOR
          then ST_PASS else ST_FAIL)"

section \<open>Battery (test_battery.c)\<close>

definition bat_average :: "int list \<Rightarrow> int" where
  "bat_average raw =
     (let mn = foldl min (hd raw) raw; mx = foldl max (hd raw) raw
      in (sum_list raw - mn - mx) sdiv (int BAT_SAMPLES - 2))"

definition test_battery ::
  "esp_err \<Rightarrow> esp_err \<Rightarrow> esp_err \<Rightarrow> (int \<Rightarrow> int) \<Rightarrow> int option list \<Rightarrow> selftest_status" where
  "test_battery new_unit config_channel cali_scheme cali reads =
     (if new_unit \<noteq> ESP_OK then ST_FAIL
      else if config_channel \<noteq> ESP_OK then ST_FAIL
      else if cali_scheme \<noteq> ESP_OK then ST_FAIL
      else let vbat_mv = apply_divider (cali (bat_average (raw_samples reads)))
        in if ST_VBAT_MIN_MV \<le> vbat_mv \<and> vbat_mv \<le> ST_VBAT_MAX_MV then ST_PASS else ST_FAIL)"

section \<open>Button (test_button.c)\<close>

text \<open>
  \<open>level t\<close> is the pin at \<open>t\<close> ms after the wait began. The outer loop ends at the first confirmed
  press, with its time, or at the deadline.
\<close>

function await_press :: "(nat \<Rightarrow> int) \<Rightarrow> nat \<Rightarrow> nat option" where
  "await_press level t =
     (if t \<ge> BUTTON_TIMEOUT_MS then None
      else if level t = 0 then
        (if level (t + ST_BUTTON_DEBOUNCE_MS) = 0 then Some (t + ST_BUTTON_DEBOUNCE_MS)
         else await_press level (t + ST_BUTTON_DEBOUNCE_MS + 10))
      else await_press level (t + 10))"
  by pat_completeness auto
termination by (relation "measure (\<lambda>(level, t). BUTTON_TIMEOUT_MS - t)") auto

declare await_press.simps [simp del]

text \<open>The wait for the release has no deadline: it may not return.\<close>

partial_function (option) await_release :: "(nat \<Rightarrow> int) \<Rightarrow> nat \<Rightarrow> nat option" where
  "await_release level t = (if level t \<noteq> 0 then Some t else await_release level (t + 10))"

text \<open>The verdict; \<open>None\<close> is a test that does not return.\<close>

definition test_button :: "esp_err \<Rightarrow> (nat \<Rightarrow> int) \<Rightarrow> selftest_status option" where
  "test_button gpio_config level =
     (if gpio_config \<noteq> ESP_OK then Some ST_FAIL
      else case await_press level 0 of
        None \<Rightarrow> Some ST_FAIL
      | Some t \<Rightarrow> map_option (\<lambda>_. ST_PASS) (await_release level t))"

section \<open>Camera (test_camera.c)\<close>

definition luma :: "u16 \<Rightarrow> int" where
  "luma v =
     (let rv = uint v div 2048 mod 32; gv = uint v div 32 mod 64; bv = uint v mod 32;
          r = rv * 255 div 31; g = gv * 255 div 63; b = bv * 255 div 31
      in (r + 2 * g + b) div 4)"

text \<open>
  \<open>std < CAMERA_LUMA_STD_FLOOR\<close> with the two sums (exact in a double): the variance over \<open>cnt\<close>
  pixels is below the floor's square, or there is no pixel (NaN, taken as 0). The rounding of the
  mean and the variance, which matters only at a variance of exactly 400, is not modelled.
\<close>

definition too_uniform :: "u16 list \<Rightarrow> bool" where
  "too_uniform px =
     (let n = int (length px); s = sum_list (map luma px); q = sum_list (map (\<lambda>v. luma v * luma v) px)
      in n = 0 \<or> n * q - s * s < CAMERA_LUMA_STD_FLOOR * CAMERA_LUMA_STD_FLOOR * (n * n))"

text \<open>
  The test's camera configuration differs from the production one in three fields.
  \<open>fb1\<close>: the first frame, if any, with whether it is RGB565 and its pixels.
\<close>

definition rgb565_cfg :: camera_config where
  "rgb565_cfg = camera_cfg\<lparr>pixel_format := PIXFORMAT_RGB565, frame_size := FRAMESIZE_QVGA,
     jpeg_quality := 12\<rparr>"

definition stage_rgb565 :: "(camera_config \<Rightarrow> esp_err) \<Rightarrow> (bool \<times> u16 list) option \<Rightarrow> bool" where
  "stage_rgb565 init fb1 =
     (if init rgb565_cfg \<noteq> ESP_OK then False
      else case fb1 of
        None \<Rightarrow> False
      | Some (rgb, px) \<Rightarrow> rgb \<and> \<not> too_uniform px)"

definition jpeg_ok :: "string \<Rightarrow> bool" where
  "jpeg_ok buf =
     (let n = length buf in
      CAMERA_JPEG_MIN_BYTES \<le> n \<and> n \<le> CAMERA_JPEG_MAX_BYTES
      \<and> buf ! 0 = CHR 0xFF \<and> buf ! 1 = CHR 0xD8 \<and> buf ! (n - 2) = CHR 0xFF \<and> buf ! (n - 1) = CHR 0xD9)"

definition stage_jpeg :: "(camera_config \<Rightarrow> esp_err) \<Rightarrow> bool \<Rightarrow> camera_fb option \<Rightarrow> bool" where
  "stage_jpeg esp_camera_init malloc_ok fb =
     (if camera_init esp_camera_init \<noteq> ESP_OK then False
      else case fst (camera_capture_jpeg malloc_ok fb) of
        (e, None) \<Rightarrow> False
      | (e, Some buf) \<Rightarrow> e = ESP_OK \<and> jpeg_ok buf)"

definition test_camera ::
  "(camera_config \<Rightarrow> esp_err) \<Rightarrow> (bool \<times> u16 list) option \<Rightarrow> (camera_config \<Rightarrow> esp_err) \<Rightarrow> bool
     \<Rightarrow> camera_fb option \<Rightarrow> selftest_status" where
  "test_camera rgb_init fb1 esp_camera_init malloc_ok fb =
     (if \<not> stage_rgb565 rgb_init fb1 then ST_FAIL
      else if \<not> stage_jpeg esp_camera_init malloc_ok fb then ST_FAIL
      else ST_PASS)"

section \<open>The run (selftest_main.c)\<close>

text \<open>One cycle of the failure blink: levels of the LED pin with their durations in ms.\<close>

definition blink_cycle :: "nat \<Rightarrow> (int \<times> nat) list" where
  "blink_cycle n = concat (replicate n [(LED_ON, 200), (LED_OFF, 200)]) @ [(LED_OFF, 1500)]"

datatype led = LED_ALL_PASS | LED_FAIL_BLINK nat

text \<open>The LED's output pin and its level at the start: off.\<close>

definition selftest_led_init :: "int \<times> int" where
  "selftest_led_init = (LED_GPIO, LED_OFF)"

text \<open>What the task shows: the level over time, for as many cycles as are looked at.\<close>

definition led_levels :: "nat \<Rightarrow> led \<Rightarrow> int list" where
  "led_levels cycles l = snd selftest_led_init # (case l of
     LED_ALL_PASS \<Rightarrow> [LED_ON]
   | LED_FAIL_BLINK n \<Rightarrow> concat (replicate cycles (map fst (blink_cycle n))))"

definition status_str :: "selftest_status \<Rightarrow> string" where
  "status_str s = (if s = ST_PASS then ''PASS'' else if s = ST_FAIL then ''FAIL'' else ''SKIP'')"

text \<open>\<open>%-7s\<close>, a row of the summary, and its last line.\<close>

definition pad_right :: "nat \<Rightarrow> string \<Rightarrow> string" where
  "pad_right n s = s @ replicate (n - length s) (CHR '' '')"

definition summary_row :: "string \<Rightarrow> selftest_status \<Rightarrow> string \<Rightarrow> string" where
  "summary_row name s detail =
     ''  '' @ pad_right 7 name @ '' '' @ pad_right 4 (status_str s) @ '' '' @ detail"

definition verdict_line :: "nat \<Rightarrow> string" where
  "verdict_line fails =
     (if fails = 0 then ''ALL PASS - safe to seal the device.''
      else dec fails @ '' FAIL(s) - do NOT seal.'')"

text \<open>\<open>run_one\<close> picks the test by name; the tests' results are the arguments.\<close>

definition run_one ::
  "selftest_status \<Rightarrow> selftest_status \<Rightarrow> selftest_status \<Rightarrow> selftest_status \<Rightarrow> string \<Rightarrow> selftest_status"
where
  "run_one audio camera button battery name =
     (if name = ''audio'' then audio else if name = ''camera'' then camera
      else if name = ''button'' then button else battery)"

definition selftest_main ::
  "selftest_status \<Rightarrow> selftest_status \<Rightarrow> selftest_status \<Rightarrow> selftest_status
     \<Rightarrow> selftest_status list \<times> led" where
  "selftest_main audio camera button battery =
     (let res = map (run_one audio camera button battery) [''audio'', ''camera'', ''button'', ''battery''];
          fails = length (filter (\<lambda>s. s \<noteq> ST_PASS) res)
      in (res, if fails = 0 then LED_ALL_PASS else LED_FAIL_BLINK fails))"

text \<open>
  One report of the live meter: the sums over at most 25 frames while the button is up; a failed
  read drops the sums but keeps the count, so it reports 0.
\<close>

fun live_meter :: "nat \<Rightarrow> (int \<times> (i16 list \<times> i16 list) option) list \<Rightarrow> int \<times> int \<times> int \<Rightarrow> int \<times> int \<times> int"
where
  "live_meter 0 rounds acc = acc"
| "live_meter (Suc k) [] acc = acc"
| "live_meter (Suc k) ((level, frame) # rounds) acc =
     (if level = 0 then acc
      else case frame of
        None \<Rightarrow> (0, 0, snd (snd acc))
      | Some (p, rr) \<Rightarrow>
          live_meter k rounds (fold (\<lambda>(x, y) (a, b, n).
            (i32 (a + i32 (sint x * sint x)), i32 (b + i32 (sint y * sint y)), i32 (n + 1)))
            (zip p rr) acc))"

section \<open>The microphone test measures modulo 2^32\<close>

definition energy :: "i16 list \<Rightarrow> int" where
  "energy xs = (\<Sum>x\<leftarrow>xs. sint x * sint x)"

definition diff_energy :: "(i16 \<times> i16) list \<Rightarrow> int" where
  "diff_energy ss = (\<Sum>s\<leftarrow>ss. (sint (fst s) - sint (snd s)) * (sint (fst s) - sint (snd s)))"

declare i32_add [simp]

lemma fold_acc_sample:
  "sq_p (fold acc_sample ss a) = (if ss = [] then sq_p a else i32 (sq_p a + energy (map fst ss)))
  \<and> sq_r (fold acc_sample ss a) = (if ss = [] then sq_r a else i32 (sq_r a + energy (map snd ss)))
  \<and> sq_d (fold acc_sample ss a) = (if ss = [] then sq_d a else i32 (sq_d a + diff_energy ss))
  \<and> acc_n (fold acc_sample ss a) = (if ss = [] then acc_n a else i32 (acc_n a + int (length ss)))"
  by (induction ss arbitrary: a)
    (auto simp: acc_sample_def Let_def energy_def diff_energy_def add.assoc algebra_simps)

lemma acc_frames_some:
  "acc_frames (map (\<lambda>k. Some (ps k, rs k)) ks) a
    = Some (fold acc_sample (concat (map (\<lambda>k. zip (ps k) (rs k)) ks)) a)"
  by (induction ks arbitrary: a) (simp_all add: acc_frame_def)

text \<open>A capture: 150 frames of 320 samples on each channel, all read without error.\<close>

definition captured :: "(nat \<Rightarrow> (i16 list \<times> i16 list) option) \<Rightarrow> (i16 \<times> i16) list \<Rightarrow> bool" where
  "captured frame ss = (\<exists>ps rs. (\<forall>k < AUDIO_TEST_FRAMES. frame k = Some (ps k, rs k)
       \<and> length (ps k) = FRAME_SAMPLES \<and> length (rs k) = FRAME_SAMPLES)
     \<and> ss = concat (map (\<lambda>k. zip (ps k) (rs k)) [0..<AUDIO_TEST_FRAMES]))"

lemma test_audio_sums:
  assumes "captured frame ss"
  shows "test_audio ESP_OK frame =
     (if rms_above (i32 (energy (map fst ss))) 48000 200 \<and> rms_above (i32 (energy (map snd ss))) 48000 200
        \<and> rms_above (i32 (diff_energy ss)) 48000 20 then ST_PASS else ST_FAIL)"
proof -
  from assms obtain ps rs where f: "\<And>k. k < AUDIO_TEST_FRAMES \<Longrightarrow> frame k = Some (ps k, rs k)
       \<and> length (ps k) = FRAME_SAMPLES \<and> length (rs k) = FRAME_SAMPLES"
    and ss: "ss = concat (map (\<lambda>k. zip (ps k) (rs k)) [0..<AUDIO_TEST_FRAMES])"
    by (auto simp: captured_def)
  have "map frame [0..<AUDIO_TEST_FRAMES] = map (\<lambda>k. Some (ps k, rs k)) [0..<AUDIO_TEST_FRAMES]"
    by (rule map_cong) (use f in auto)
  then have acc: "acc_frames (map frame [0..<AUDIO_TEST_FRAMES]) acc0 = Some (fold acc_sample ss acc0)"
    by (simp only: acc_frames_some ss)
  have "map (\<lambda>k. length (zip (ps k) (rs k))) [0..<AUDIO_TEST_FRAMES]
      = map (\<lambda>_. FRAME_SAMPLES) [0..<AUDIO_TEST_FRAMES]"
    by (rule map_cong) (use f in auto)
  then have len: "length ss = 48000"
    by (simp add: ss length_concat comp_def AUDIO_TEST_FRAMES_def FRAME_SAMPLES_def map_replicate_const
        sum_list_replicate config_simps)
  then have "ss \<noteq> []" by auto
  then show ?thesis
    unfolding test_audio_def acc
    by (simp add: fold_acc_sample acc0_def len AUDIO_RMS_FLOOR_def AUDIO_STEREO_FLOOR_def i32_id)
qed

text \<open>
  While the true energies fit 32 bits the microphone test decides what its comment says: it passes
  exactly when both channels are louder than RMS 200 and their difference than RMS 20.
\<close>

theorem audio_test_exact:
  assumes "captured frame ss" and "energy (map fst ss) < 2147483648" and "energy (map snd ss) < 2147483648"
    and "diff_energy ss < 2147483648"
  shows "test_audio ESP_OK frame = ST_PASS \<longleftrightarrow> 200\<^sup>2 * 48000 < energy (map fst ss)
    \<and> 200\<^sup>2 * 48000 < energy (map snd ss) \<and> 20\<^sup>2 * 48000 < diff_energy ss"
proof -
  have e: "0 \<le> energy xs" for xs unfolding energy_def by (induction xs) simp_all
  have d: "0 \<le> diff_energy ss" unfolding diff_energy_def by (induction ss) simp_all
  have "i32 (energy (map fst ss)) = energy (map fst ss)" "i32 (energy (map snd ss)) = energy (map snd ss)"
    "i32 (diff_energy ss) = diff_energy ss"
    using assms(2-4) e [of "map fst ss"] e [of "map snd ss"] d by (intro i32_id; linarith)+
  then show ?thesis using d by (auto simp: test_audio_sums [OF assms(1)] rms_above_def e)
qed

text \<open>
  A good primary microphone at an RMS between 212 and 299 fails: its energy over the three
  seconds exceeds the 32-bit \<open>long\<close>, the sum goes negative, and the verdict is FAIL whatever the
  samples are.
\<close>

theorem audio_test_rejects_speech:
  assumes "captured frame ss" and "212\<^sup>2 * 48000 \<le> energy (map fst ss)"
    and "energy (map fst ss) \<le> 299\<^sup>2 * 48000"
  shows "test_audio ESP_OK frame = ST_FAIL"
proof -
  let ?e = "energy (map fst ss)"
  have "i32 ?e = i32 (?e - 4294967296)"
    using mod_add_self2 [of "?e - 2147483648" 4294967296]
    by (simp add: i32_def signed_take_bit_eq_take_bit_shift take_bit_eq_mod add.commute)
  also have "\<dots> = ?e - 4294967296" using assms(2,3) by (intro i32_id) simp_all
  finally have "i32 ?e < 0" using assms(3) by simp
  then show ?thesis by (simp add: test_audio_sums [OF assms(1)] rms_above_def)
qed

text \<open>Witnesses: the same frame 150 times, first quiet enough, then at an RMS of 250.\<close>

lemma captured_repeat:
  assumes "length p = FRAME_SAMPLES" and "length r = FRAME_SAMPLES"
  shows "captured (\<lambda>_. Some (p, r)) (concat (replicate AUDIO_TEST_FRAMES (zip p r)))"
  unfolding captured_def using assms
  by (intro exI [of _ "\<lambda>_. p"] exI [of _ "\<lambda>_. r"]) (simp add: map_replicate_const)

lemma energy_repeat: "energy (map f (concat (replicate n ss))) = int n * energy (map f ss)"
  by (induction n) (simp_all add: energy_def algebra_simps)

lemma diff_energy_repeat: "diff_energy (concat (replicate n ss)) = int n * diff_energy ss"
  by (induction n) (simp_all add: diff_energy_def algebra_simps)

lemmas repeat_simps = energy_def diff_energy_def sum_list_replicate
  FRAME_SAMPLES_def AUDIO_TEST_FRAMES_def config_simps

lemma audio_test_exact_witness:
  "test_audio ESP_OK (\<lambda>_. Some (replicate 288 205 @ replicate 32 205,
      replicate 288 205 @ replicate 32 (- 205))) = ST_PASS"
proof -
  let ?p = "replicate 288 205 @ replicate 32 205 :: i16 list"
  let ?r = "replicate 288 205 @ replicate 32 (- 205) :: i16 list"
  have "length ?p = FRAME_SAMPLES" "length ?r = FRAME_SAMPLES" by (simp_all add: repeat_simps)
  note c = captured_repeat [OF this]
  show ?thesis by (subst audio_test_exact [OF c]) (simp_all only: energy_repeat diff_energy_repeat, simp_all add: repeat_simps)
qed

lemma audio_test_rejects_speech_witness:
  "test_audio ESP_OK (\<lambda>_. Some (replicate 320 250, replicate 320 (- 250))) = ST_FAIL"
proof -
  have "length (replicate 320 250 :: i16 list) = FRAME_SAMPLES"
    "length (replicate 320 (- 250) :: i16 list) = FRAME_SAMPLES" by (simp_all add: repeat_simps)
  note c = captured_repeat [OF this]
  show ?thesis
    by (rule audio_test_rejects_speech [OF c]) (simp_all only: energy_repeat, simp_all add: repeat_simps)
qed

section \<open>The uniformity test of the camera\<close>

text \<open>
  Values within \<open>[a, b]\<close> have a variance of at most a quarter of \<open>(b - a)^2\<close>.
\<close>

lemma popoviciu:
  fixes f :: "'a \<Rightarrow> int"
  assumes "\<forall>x \<in> set xs. a \<le> f x \<and> f x \<le> b"
  defines "n \<equiv> int (length xs)" and "s \<equiv> sum_list (map f xs)" and "q \<equiv> sum_list (map (\<lambda>x. f x * f x) xs)"
  shows "4 * (n * q - s * s) \<le> n * n * ((b - a) * (b - a))"
proof -
  have "q \<le> (a + b) * s - n * (a * b)"
    unfolding n_def s_def q_def using assms(1)
  proof (induction xs)
    case (Cons x xs)
    then have "0 \<le> (f x - a) * (b - f x)" by (intro mult_nonneg_nonneg) auto
    with Cons show ?case by (simp add: algebra_simps)
  qed simp
  then have "n * q \<le> n * ((a + b) * s - n * (a * b))"
    by (intro mult_left_mono) (simp_all add: n_def)
  moreover have "0 \<le> (2 * s - n * (a + b)) * (2 * s - n * (a + b))" by (rule zero_le_square)
  ultimately show ?thesis by (simp add: algebra_simps)
qed

text \<open>
  The camera test rejects a covered lens: a frame whose brightness varies by at most 39 of 255
  levels over all its pixels fails, whatever the noise.
\<close>

theorem camera_rejects_uniform:
  assumes "\<forall>v \<in> set px. a \<le> luma v \<and> luma v \<le> a + 39"
  shows "test_camera rgb_init (Some (rgb, px)) esp_camera_init malloc_ok fb = ST_FAIL"
proof -
  let ?n = "int (length px)"
  have "4 * (?n * sum_list (map (\<lambda>v. luma v * luma v) px) - sum_list (map luma px) * sum_list (map luma px))
      \<le> ?n * ?n * ((a + 39 - a) * (a + 39 - a))"
    using assms by (rule popoviciu)
  then have q: "4 * (?n * sum_list (map (\<lambda>v. luma v * luma v) px)
        - sum_list (map luma px) * sum_list (map luma px)) \<le> 1521 * (?n * ?n)"
    by (simp add: mult.commute)
  have "too_uniform px"
  proof (cases "px = []")
    case False
    then have "0 < ?n * ?n" by simp
    moreover have "4 * u \<le> 1521 * m \<Longrightarrow> 0 < m \<Longrightarrow> u < 400 * m" for u m :: int by linarith
    ultimately have "?n * sum_list (map (\<lambda>v. luma v * luma v) px)
        - sum_list (map luma px) * sum_list (map luma px) < 400 * (?n * ?n)"
      using q by blast
    then show ?thesis by (simp add: too_uniform_def CAMERA_LUMA_STD_FLOOR_def)
  qed (simp add: too_uniform_def)
  then show ?thesis by (simp add: test_camera_def stage_rgb565_def)
qed

lemma camera_rejects_uniform_witness:
  "test_camera (\<lambda>_. ESP_OK) (Some (True, [0, 1, 2])) (\<lambda>_. ESP_OK) True None = ST_FAIL"
  by (rule camera_rejects_uniform [of _ 0]) (simp add: luma_def)

section \<open>The button test\<close>

text \<open>Consecutive polls are at most 30 ms apart: a press of 50 ms is seen, and still there 20 ms later.\<close>

lemma await_press_sees:
  assumes "\<forall>u. s \<le> u \<and> u \<le> s + 50 \<longrightarrow> level u = 0" and "s + 30 < BUTTON_TIMEOUT_MS" and "t \<le> s + 30"
  shows "\<exists>t'. await_press level t = Some t'"
  using assms
proof (induction level t rule: await_press.induct)
  case (1 level t)
  show ?case
  proof (cases "level t = 0 \<and> level (t + ST_BUTTON_DEBOUNCE_MS) = 0")
    case False
    have before: "level t \<noteq> 0 \<Longrightarrow> t < s" "level (t + 20) \<noteq> 0 \<Longrightarrow> t < s"
      using "1.prems"(1) [rule_format, of t] "1.prems"(1) [rule_format, of "t + 20"] "1.prems"(3)
      by linarith+
    have t: "\<not> t \<ge> BUTTON_TIMEOUT_MS" using "1.prems"(2,3) by simp
    show ?thesis
    proof (cases "level t = 0")
      case True
      with False before(2) have "t + ST_BUTTON_DEBOUNCE_MS + 10 \<le> s + 30"
        by (simp add: ST_BUTTON_DEBOUNCE_MS_def)
      with 1 t True False show ?thesis by (subst await_press.simps) simp
    next
      case f: False
      with before(1) have "t + 10 \<le> s + 30" by simp
      with 1 t f show ?thesis by (subst await_press.simps) simp
    qed
  qed (use 1 in \<open>subst await_press.simps, simp\<close>)
qed

lemma await_release_returns:
  assumes "\<forall>u \<ge> r. level u \<noteq> 0"
  shows "\<exists>t'. await_release level t = Some t'"
proof (induction "r - t" arbitrary: t rule: less_induct)
  case less
  show ?case
  proof (cases "level t = 0")
    case True
    then have "t < r" using assms by (meson linorder_not_less)
    then have "\<exists>t'. await_release level (t + 10) = Some t'" by (intro less) simp
    with True show ?thesis by (subst await_release.simps) simp
  qed (subst await_release.simps, simp)
qed

lemma await_release_some: "await_release level t = Some t' \<Longrightarrow> t \<le> t' \<and> level t' \<noteq> 0"
  by (rule await_release.raw_induct [of "\<lambda>level t t'. t \<le> t' \<and> level t' \<noteq> 0"])
    (fastforce split: if_splits)+

text \<open>
  A press of at least 50 ms that begins 31 ms or more before the ten seconds are over is
  recognised whatever the pin did before, and the test returns PASS once the button stays released.
\<close>

theorem button_press_recognised:
  assumes "\<forall>u. s \<le> u \<and> u \<le> s + 50 \<longrightarrow> level u = 0" and "s + 30 < BUTTON_TIMEOUT_MS"
    and "\<forall>u \<ge> r. level u \<noteq> 0"
  shows "test_button ESP_OK level = Some ST_PASS"
proof -
  obtain t where "await_press level 0 = Some t" using await_press_sees [OF assms(1,2), of 0] by auto
  moreover obtain t' where "await_release level t = Some t'"
    using await_release_returns [OF assms(3)] by blast
  ultimately show ?thesis by (simp add: test_button_def)
qed

lemma button_press_recognised_witness:
  "test_button ESP_OK (\<lambda>t. if 9900 \<le> t \<and> t \<le> 9960 then 0 else 1) = Some ST_PASS"
  by (rule button_press_recognised [of 9900 _ 9961]) (simp_all add: BUTTON_TIMEOUT_MS_def)

text \<open>A pin that is stuck low is not reported: the wait for its release has no time limit.\<close>

lemma stuck_button_hangs:
  assumes "\<forall>u. level u = 0"
  shows "test_button ESP_OK level = None"
proof -
  obtain t where "await_press level 0 = Some t"
    using await_press_sees [of 0 level 0] assms by (auto simp: BUTTON_TIMEOUT_MS_def)
  moreover have "await_release level t = None"
    using await_release_some [of level t] assms by (cases "await_release level t") auto
  ultimately show ?thesis by (simp add: test_button_def)
qed

section \<open>The summary\<close>

text \<open>
  The light tells the verdict apart: it is steadily on exactly when all four tests passed, and
  otherwise each cycle switches it on once per test that did not pass.
\<close>

lemma all_pass_led:
  "snd (selftest_main audio camera button battery) = LED_ALL_PASS
    \<longleftrightarrow> {audio, camera, button, battery} = {ST_PASS}"
  by (auto simp: selftest_main_def run_one_def)

lemma blink_count: "count_list (map fst (blink_cycle n)) LED_ON = n"
  by (induction n) (simp_all add: blink_cycle_def LED_ON_def LED_OFF_def)

lemma led_on_count:
  assumes "selftest_main audio camera button battery = (res, led)"
  shows "count_list (led_levels k led) LED_ON
    = (if \<forall>s \<in> set res. s = ST_PASS then 1 else k * length (filter (\<lambda>s. s \<noteq> ST_PASS) res))"
proof -
  let ?f = "length (filter (\<lambda>s. s \<noteq> ST_PASS) res)"
  have led: "led = (if ?f = 0 then LED_ALL_PASS else LED_FAIL_BLINK ?f)"
    using assms by (auto simp: selftest_main_def Let_def)
  have "count_list (concat (replicate k (map fst (blink_cycle n)))) LED_ON = k * n" for n
    by (induction k) (simp_all add: blink_count)
  moreover have "LED_OFF \<noteq> LED_ON" by (simp add: LED_ON_def LED_OFF_def)
  moreover have "?f = 0 \<longleftrightarrow> (\<forall>s \<in> set res. s = ST_PASS)" by (auto simp: filter_empty_conv)
  ultimately show ?thesis using led
    by (auto simp: led_levels_def selftest_led_init_def)
qed

lemma verdict_line_pass: "verdict_line fails = verdict_line 0 \<longleftrightarrow> fails = 0"
proof -
  have "\<not> is_digit (CHR ''A'')" by (simp add: is_digit_def digits10_def)
  then show ?thesis using dec_digits [of fails]
    by (cases "dec fails") (auto simp: verdict_line_def)
qed

end
