(* ===== verification/Range_Coder.thy ===== *)
theory Range_Coder
  imports Prelude
begin

text \<open>
  The entropy coder of the Opus codec that packs every voiced frame
  (\<open>components/opus/opus-1.5.2/celt\<close>: \<open>entcode.c\<close>, \<open>entenc.c\<close>, \<open>entdec.c\<close> and their headers): the
  range coder, which fills the packet from the front, and the raw bits, which fill it from the back.
  Encoder and decoder share one context. Registers of 32 bits are integers, brought back to their
  width by \<open>u32w\<close> after every operation that could leave it; offsets are natural numbers (they never
  pass the size of the buffer). A renormalisation would not end with an empty range, so it is a
  partial function; \<open>None\<close> is a call that does not return.
\<close>

unbundle bit_operations_syntax

section \<open>Context and constants (entcode.h, mfrngcod.h)\<close>

definition u32w :: "int \<Rightarrow> int" where
  "u32w x = x mod 2 ^ 32"

definition EC_WINDOW_SIZE :: int where "EC_WINDOW_SIZE = 32"
definition EC_UINT_BITS :: nat where "EC_UINT_BITS = 8"
definition BITRES :: nat where "BITRES = 3"
definition EC_SYM_BITS :: nat where "EC_SYM_BITS = 8"
definition EC_CODE_BITS :: nat where "EC_CODE_BITS = 32"
definition EC_SYM_MAX :: int where "EC_SYM_MAX = 2 ^ EC_SYM_BITS - 1"
definition EC_CODE_SHIFT :: nat where "EC_CODE_SHIFT = EC_CODE_BITS - EC_SYM_BITS - 1"
definition EC_CODE_TOP :: int where "EC_CODE_TOP = 2 ^ (EC_CODE_BITS - 1)"
definition EC_CODE_BOT :: int where "EC_CODE_BOT = EC_CODE_TOP div 2 ^ EC_SYM_BITS"
definition EC_CODE_EXTRA :: nat where "EC_CODE_EXTRA = (EC_CODE_BITS - 2) mod EC_SYM_BITS + 1"

named_theorems ec_const \<open>the constants of the coder, evaluated\<close>

lemma ec_constants [ec_const]:
  "EC_WINDOW_SIZE = 32" "EC_UINT_BITS = 8" "EC_SYM_BITS = 8" "EC_CODE_BITS = 32" "EC_SYM_MAX = 255"
  "EC_CODE_SHIFT = 23" "EC_CODE_TOP = 2147483648" "EC_CODE_BOT = 8388608" "EC_CODE_EXTRA = 7"
  by (simp_all add: EC_WINDOW_SIZE_def EC_UINT_BITS_def EC_SYM_BITS_def EC_CODE_BITS_def EC_SYM_MAX_def
      EC_CODE_SHIFT_def EC_CODE_TOP_def EC_CODE_BOT_def EC_CODE_EXTRA_def)

record ec_ctx =
  ec_buf :: "u8 list"
  ec_storage :: nat
  ec_end_offs :: nat
  ec_end_window :: int
  ec_nend_bits :: int
  ec_nbits_total :: int
  ec_offs :: nat
  ec_rng :: int
  ec_val :: int
  ec_ext :: int
  ec_rem :: int
  ec_error :: int

text \<open>\<open>EC_ILOG\<close>: the number of bits of a value (on this target from the count of leading zeros).\<close>

function EC_ILOG :: "int \<Rightarrow> nat" where
  "EC_ILOG n = (if n \<le> 0 then 0 else Suc (EC_ILOG (n div 2)))"
  by pat_completeness auto
termination by (relation "measure nat") auto

declare EC_ILOG.simps [simp del]

text \<open>The fallback without a count of leading zeros, branch-free on 32 bits.\<close>

definition ec_ilog :: "int \<Rightarrow> nat" where
  "ec_ilog v =
     (let ret = of_bool (v \<noteq> 0);
          m = 16 * of_bool (v AND 0xFFFF0000 \<noteq> 0); v = v div 2 ^ m; ret = ret OR m;
          m = 8 * of_bool (v AND 0xFF00 \<noteq> 0); v = v div 2 ^ m; ret = ret OR m;
          m = 4 * of_bool (v AND 0xF0 \<noteq> 0); v = v div 2 ^ m; ret = ret OR m;
          m = 2 * of_bool (v AND 0xC \<noteq> 0); v = v div 2 ^ m; ret = ret OR m
      in ret + of_bool (v AND 0x2 \<noteq> 0))"

definition ec_range_bytes :: "ec_ctx \<Rightarrow> nat" where
  "ec_range_bytes c = ec_offs c"

definition ec_tell :: "ec_ctx \<Rightarrow> int" where
  "ec_tell c = ec_nbits_total c - int (EC_ILOG (ec_rng c))"

definition correction :: "int list" where
  "correction = [35733, 38967, 42495, 46340, 50535, 55109, 60097, 65535]"

definition ec_tell_frac :: "ec_ctx \<Rightarrow> int" where
  "ec_tell_frac c =
     (let nbits = u32w (ec_nbits_total c * 2 ^ BITRES); l = EC_ILOG (ec_rng c);
          r = ec_rng c div 2 ^ (l - 16); b = r div 2 ^ 12 - 8;
          b' = b + (if r > correction ! nat b then 1 else 0)
      in u32w (nbits - (int l * 8 + b')))"

text \<open>
  The version it replaces (kept in the source under \<open>#else\<close>): three squarings give three more bits of
  the logarithm of the range.
\<close>

fun log_bits :: "nat \<Rightarrow> int \<Rightarrow> int \<Rightarrow> int" where
  "log_bits 0 l r = l"
| "log_bits (Suc i) l r =
     (let r' = u32w (r * r) div 2 ^ 15; b = r' div 2 ^ 16 in log_bits i (2 * l + b) (r' div 2 ^ nat b))"

definition ec_tell_frac_squaring :: "ec_ctx \<Rightarrow> int" where
  "ec_tell_frac_squaring c =
     (let l = EC_ILOG (ec_rng c)
      in u32w (u32w (ec_nbits_total c * 2 ^ BITRES) - log_bits BITRES (int l) (ec_rng c div 2 ^ (l - 16))))"

section \<open>Encoder (entenc.c)\<close>

definition ec_write_byte :: "int \<Rightarrow> ec_ctx \<Rightarrow> int \<times> ec_ctx" where
  "ec_write_byte v c =
     (if ec_offs c + ec_end_offs c \<ge> ec_storage c then (- 1, c)
      else (0, c\<lparr>ec_buf := (ec_buf c)[ec_offs c := word_of_int v], ec_offs := ec_offs c + 1\<rparr>))"

definition ec_write_byte_at_end :: "int \<Rightarrow> ec_ctx \<Rightarrow> int \<times> ec_ctx" where
  "ec_write_byte_at_end v c =
     (if ec_offs c + ec_end_offs c \<ge> ec_storage c then (- 1, c)
      else (0, c\<lparr>ec_buf := (ec_buf c)[ec_storage c - (ec_end_offs c + 1) := word_of_int v],
                 ec_end_offs := ec_end_offs c + 1\<rparr>))"

text \<open>\<open>_this->error |= ...\<close>\<close>

definition or_error :: "int \<times> ec_ctx \<Rightarrow> ec_ctx" where
  "or_error rc = (snd rc)\<lparr>ec_error := ec_error (snd rc) OR fst rc\<rparr>"

definition ec_enc_carry_out :: "int \<Rightarrow> ec_ctx \<Rightarrow> ec_ctx" where
  "ec_enc_carry_out x c =
     (if x \<noteq> EC_SYM_MAX then
        (let carry = asr x EC_SYM_BITS;
             c1 = (if ec_rem c \<ge> 0 then or_error (ec_write_byte (ec_rem c + carry) c) else c);
             sym = (EC_SYM_MAX + carry) AND EC_SYM_MAX;
             c2 = ((\<lambda>c. or_error (ec_write_byte sym c)) ^^ nat (ec_ext c1)) c1
         in c2\<lparr>ec_ext := 0, ec_rem := x AND EC_SYM_MAX\<rparr>)
      else c\<lparr>ec_ext := ec_ext c + 1\<rparr>)"

text \<open>One round of the renormalisation.\<close>

definition enc_shift :: "ec_ctx \<Rightarrow> ec_ctx" where
  "enc_shift c = (ec_enc_carry_out (ec_val c div 2 ^ EC_CODE_SHIFT) c)
     \<lparr>ec_val := u32w (ec_val c * 2 ^ EC_SYM_BITS) AND (EC_CODE_TOP - 1),
      ec_rng := u32w (ec_rng c * 2 ^ EC_SYM_BITS),
      ec_nbits_total := ec_nbits_total c + int EC_SYM_BITS\<rparr>"

partial_function (option) ec_enc_normalize :: "ec_ctx \<Rightarrow> ec_ctx option" where
  "ec_enc_normalize c =
     (if ec_rng c \<le> EC_CODE_BOT then ec_enc_normalize (enc_shift c) else Some c)"

declare ec_enc_normalize.simps [code]

definition ec_enc_init :: "u8 list \<Rightarrow> ec_ctx" where
  "ec_enc_init buf = \<lparr>ec_buf = buf, ec_storage = length buf, ec_end_offs = 0, ec_end_window = 0,
     ec_nend_bits = 0, ec_nbits_total = int EC_CODE_BITS + 1, ec_offs = 0, ec_rng = EC_CODE_TOP,
     ec_val = 0, ec_ext = 0, ec_rem = - 1, ec_error = 0\<rparr>"

text \<open>
  The common step of all encoders: with \<open>r\<close> the width of one unit, \<open>hi\<close> the units above the symbol's
  low end (absent for the first symbol) and \<open>lo\<close> those above its high end.
\<close>

definition enc_range :: "int \<Rightarrow> int option \<Rightarrow> int \<Rightarrow> ec_ctx \<Rightarrow> ec_ctx option" where
  "enc_range r hi lo c = ec_enc_normalize (case hi of
     Some t \<Rightarrow> c\<lparr>ec_val := u32w (ec_val c + (ec_rng c - r * t)), ec_rng := u32w (r * (t - lo))\<rparr>
   | None \<Rightarrow> c\<lparr>ec_rng := u32w (ec_rng c - r * lo)\<rparr>)"

definition ec_encode :: "int \<Rightarrow> int \<Rightarrow> int \<Rightarrow> ec_ctx \<Rightarrow> ec_ctx option" where
  "ec_encode fl fh ft c =
     enc_range (ec_rng c div ft) (if fl > 0 then Some (ft - fl) else None) (ft - fh) c"

definition ec_encode_bin :: "int \<Rightarrow> int \<Rightarrow> nat \<Rightarrow> ec_ctx \<Rightarrow> ec_ctx option" where
  "ec_encode_bin fl fh bits c =
     enc_range (ec_rng c div 2 ^ bits) (if fl > 0 then Some (2 ^ bits - fl) else None) (2 ^ bits - fh) c"

definition ec_enc_bit_logp :: "bool \<Rightarrow> nat \<Rightarrow> ec_ctx \<Rightarrow> ec_ctx option" where
  "ec_enc_bit_logp v logp c =
     (let s = ec_rng c div 2 ^ logp; r = ec_rng c - s
      in ec_enc_normalize (if v then c\<lparr>ec_val := u32w (ec_val c + r), ec_rng := s\<rparr> else c\<lparr>ec_rng := r\<rparr>))"

definition ec_enc_icdf :: "nat \<Rightarrow> int list \<Rightarrow> nat \<Rightarrow> ec_ctx \<Rightarrow> ec_ctx option" where
  "ec_enc_icdf s icdf ftb c =
     enc_range (ec_rng c div 2 ^ ftb) (if s > 0 then Some (icdf ! (s - 1)) else None) (icdf ! s) c"

text \<open>The same with a table of 16-bit entries.\<close>

definition ec_enc_icdf16 :: "nat \<Rightarrow> int list \<Rightarrow> nat \<Rightarrow> ec_ctx \<Rightarrow> ec_ctx option" where
  "ec_enc_icdf16 s icdf ftb c =
     enc_range (ec_rng c div 2 ^ ftb) (if s > 0 then Some (icdf ! (s - 1)) else None) (icdf ! s) c"

text \<open>The bytes of the window that are complete go to the back of the buffer.\<close>

function flush_window :: "ec_ctx \<Rightarrow> int \<Rightarrow> int \<Rightarrow> int \<times> int \<times> ec_ctx" where
  "flush_window c window used =
     (if used \<ge> int EC_SYM_BITS
      then flush_window (or_error (ec_write_byte_at_end (window AND EC_SYM_MAX) c))
             (window div 2 ^ EC_SYM_BITS) (used - int EC_SYM_BITS)
      else (window, used, c))"
  by pat_completeness auto
termination by (relation "measure (\<lambda>(c, window, used). nat used)") (auto simp: ec_const)

declare flush_window.simps [simp del]

definition ec_enc_bits :: "int \<Rightarrow> nat \<Rightarrow> ec_ctx \<Rightarrow> ec_ctx" where
  "ec_enc_bits fl bits c =
     (let (window, used, c1) =
            (if ec_nend_bits c + int bits > EC_WINDOW_SIZE
             then flush_window (or_error (ec_write_byte_at_end (ec_end_window c AND EC_SYM_MAX) c))
                    (ec_end_window c div 2 ^ EC_SYM_BITS) (ec_nend_bits c - int EC_SYM_BITS)
             else (ec_end_window c, ec_nend_bits c, c))
      in c1\<lparr>ec_end_window := window OR u32w (fl * 2 ^ nat used), ec_nend_bits := used + int bits,
            ec_nbits_total := ec_nbits_total c1 + int bits\<rparr>)"

definition ec_enc_uint :: "int \<Rightarrow> int \<Rightarrow> ec_ctx \<Rightarrow> ec_ctx option" where
  "ec_enc_uint fl ft c =
     (let ft1 = ft - 1; ftb = EC_ILOG ft1 in
      if ftb > EC_UINT_BITS then
        (let ftb' = ftb - EC_UINT_BITS; ft' = ft1 div 2 ^ ftb' + 1; fl' = fl div 2 ^ ftb'
         in map_option (ec_enc_bits (fl AND (2 ^ ftb' - 1)) ftb') (ec_encode fl' (fl' + 1) ft' c))
      else ec_encode fl (fl + 1) (ft1 + 1) c)"

text \<open>The first bits of the packet set after the fact (the assertion is \<open>nbits \<le> 8\<close>).\<close>

definition ec_enc_patch_initial_bits :: "int \<Rightarrow> nat \<Rightarrow> ec_ctx \<Rightarrow> ec_ctx" where
  "ec_enc_patch_initial_bits v nbits c =
     (let shift = EC_SYM_BITS - nbits; mask = (2 ^ nbits - 1) * 2 ^ shift in
      if ec_offs c > 0
      then c\<lparr>ec_buf := (ec_buf c)[0 := word_of_int ((uint (ec_buf c ! 0) AND NOT mask) OR v * 2 ^ shift)]\<rparr>
      else if ec_rem c \<ge> 0 then c\<lparr>ec_rem := (ec_rem c AND NOT mask) OR v * 2 ^ shift\<rparr>
      else if ec_rng c \<le> EC_CODE_TOP div 2 ^ nbits
      then c\<lparr>ec_val := (ec_val c AND NOT (mask * 2 ^ EC_CODE_SHIFT)) OR v * 2 ^ (EC_CODE_SHIFT + shift)\<rparr>
      else c\<lparr>ec_error := - 1\<rparr>)"

text \<open>The back of the buffer moves to the new end (the assertion: the two ends still fit).\<close>

definition ec_enc_shrink :: "nat \<Rightarrow> ec_ctx \<Rightarrow> ec_ctx" where
  "ec_enc_shrink sz c =
     (let tail = take (ec_end_offs c) (drop (ec_storage c - ec_end_offs c) (ec_buf c))
      in c\<lparr>ec_buf := take (sz - ec_end_offs c) (ec_buf c) @ tail, ec_storage := sz\<rparr>)"

text \<open>The loop of \<open>ec_enc_done\<close> that writes the chosen code value, eight bits a round.\<close>

function enc_flush :: "int \<Rightarrow> int \<Rightarrow> ec_ctx \<Rightarrow> int \<times> ec_ctx" where
  "enc_flush l end c =
     (if l > 0
      then enc_flush (l - int EC_SYM_BITS) (u32w (end * 2 ^ EC_SYM_BITS) AND (EC_CODE_TOP - 1))
             (ec_enc_carry_out (end div 2 ^ EC_CODE_SHIFT) c)
      else (l, c))"
  by pat_completeness auto
termination by (relation "measure (\<lambda>(l, end, c). nat l)") (auto simp: ec_const)

declare enc_flush.simps [simp del]

text \<open>The shortest code value in the range: how many of its bits count, and the value.\<close>

definition final_code :: "ec_ctx \<Rightarrow> int \<times> int" where
  "final_code c =
     (let l = EC_CODE_BITS - EC_ILOG (ec_rng c); msk = (EC_CODE_TOP - 1) div 2 ^ l;
          end = u32w (ec_val c + msk) AND NOT msk
      in if end OR msk \<ge> u32w (ec_val c + ec_rng c)
         then (let msk' = msk div 2 in (int l + 1, u32w (ec_val c + msk') AND NOT msk'))
         else (int l, end))"

text \<open>The bytes between the two ends are cleared; the last raw bits join the last byte.\<close>

definition clear_gap :: "ec_ctx \<Rightarrow> ec_ctx" where
  "clear_gap c = c\<lparr>ec_buf := take (ec_offs c) (ec_buf c)
     @ replicate (ec_storage c - ec_offs c - ec_end_offs c) 0
     @ drop (ec_storage c - ec_end_offs c) (ec_buf c)\<rparr>"

definition merge_window :: "int \<Rightarrow> int \<Rightarrow> int \<Rightarrow> ec_ctx \<Rightarrow> ec_ctx" where
  "merge_window l window used c =
     (if ec_end_offs c \<ge> ec_storage c then c\<lparr>ec_error := - 1\<rparr>
      else let l' = - l; busted = (ec_offs c + ec_end_offs c \<ge> ec_storage c \<and> l' < used);
               w = (if busted then window AND (2 ^ nat l' - 1) else window);
               i = ec_storage c - ec_end_offs c - 1
           in c\<lparr>ec_error := (if busted then - 1 else ec_error c),
                ec_buf := (ec_buf c)[i := ec_buf c ! i OR word_of_int w]\<rparr>)"

definition ec_enc_done :: "ec_ctx \<Rightarrow> ec_ctx" where
  "ec_enc_done c =
     (let (l, end) = final_code c;
          (l', c1) = enc_flush l end c;
          c2 = (if ec_rem c1 \<ge> 0 \<or> ec_ext c1 > 0 then ec_enc_carry_out 0 c1 else c1);
          (window, used, c3) = flush_window c2 (ec_end_window c2) (ec_nend_bits c2)
      in if ec_error c3 \<noteq> 0 then c3
         else if used > 0 then merge_window l' window used (clear_gap c3) else clear_gap c3)"

section \<open>Decoder (entdec.c)\<close>

definition ec_read_byte :: "ec_ctx \<Rightarrow> int \<times> ec_ctx" where
  "ec_read_byte c =
     (if ec_offs c < ec_storage c
      then (uint (ec_buf c ! ec_offs c), c\<lparr>ec_offs := ec_offs c + 1\<rparr>) else (0, c))"

definition ec_read_byte_from_end :: "ec_ctx \<Rightarrow> int \<times> ec_ctx" where
  "ec_read_byte_from_end c =
     (if ec_end_offs c < ec_storage c
      then (uint (ec_buf c ! (ec_storage c - (ec_end_offs c + 1))), c\<lparr>ec_end_offs := ec_end_offs c + 1\<rparr>)
      else (0, c))"

definition dec_shift :: "ec_ctx \<Rightarrow> ec_ctx" where
  "dec_shift c =
     (let (b, c1) = ec_read_byte c;
          sym = (ec_rem c * 2 ^ EC_SYM_BITS OR b) div 2 ^ (EC_SYM_BITS - EC_CODE_EXTRA)
      in c1\<lparr>ec_nbits_total := ec_nbits_total c + int EC_SYM_BITS,
            ec_rng := u32w (ec_rng c * 2 ^ EC_SYM_BITS), ec_rem := b,
            ec_val := u32w (ec_val c * 2 ^ EC_SYM_BITS + (EC_SYM_MAX AND NOT sym)) AND (EC_CODE_TOP - 1)\<rparr>)"

partial_function (option) ec_dec_normalize :: "ec_ctx \<Rightarrow> ec_ctx option" where
  "ec_dec_normalize c =
     (if ec_rng c \<le> EC_CODE_BOT then ec_dec_normalize (dec_shift c) else Some c)"

declare ec_dec_normalize.simps [code]

definition ec_dec_init :: "u8 list \<Rightarrow> ec_ctx option" where
  "ec_dec_init buf =
     (let c = \<lparr>ec_buf = buf, ec_storage = length buf, ec_end_offs = 0, ec_end_window = 0,
            ec_nend_bits = 0,
            ec_nbits_total = int (EC_CODE_BITS + 1
              - (EC_CODE_BITS - EC_CODE_EXTRA) div EC_SYM_BITS * EC_SYM_BITS),
            ec_offs = 0, ec_rng = 2 ^ EC_CODE_EXTRA, ec_val = 0, ec_ext = 0, ec_rem = 0, ec_error = 0\<rparr>;
          (b, c1) = ec_read_byte c
      in ec_dec_normalize (c1\<lparr>ec_rem := b,
           ec_val := ec_rng c1 - 1 - b div 2 ^ (EC_SYM_BITS - EC_CODE_EXTRA)\<rparr>))"

definition ec_decode :: "int \<Rightarrow> ec_ctx \<Rightarrow> int \<times> ec_ctx" where
  "ec_decode ft c =
     (let e = ec_rng c div ft; s = ec_val c div e in (ft - min (s + 1) ft, c\<lparr>ec_ext := e\<rparr>))"

definition ec_decode_bin :: "nat \<Rightarrow> ec_ctx \<Rightarrow> int \<times> ec_ctx" where
  "ec_decode_bin bits c =
     (let e = ec_rng c div 2 ^ bits; s = ec_val c div e in (2 ^ bits - min (s + 1) (2 ^ bits), c\<lparr>ec_ext := e\<rparr>))"

definition ec_dec_update :: "int \<Rightarrow> int \<Rightarrow> int \<Rightarrow> ec_ctx \<Rightarrow> ec_ctx option" where
  "ec_dec_update fl fh ft c =
     (let s = ec_ext c * (ft - fh)
      in ec_dec_normalize (c\<lparr>ec_val := u32w (ec_val c - s),
           ec_rng := (if fl > 0 then u32w (ec_ext c * (fh - fl)) else u32w (ec_rng c - s))\<rparr>))"

definition ec_dec_bit_logp :: "nat \<Rightarrow> ec_ctx \<Rightarrow> (bool \<times> ec_ctx) option" where
  "ec_dec_bit_logp logp c =
     (let r = ec_rng c; d = ec_val c; s = r div 2 ^ logp; ret = d < s
      in map_option (Pair ret) (ec_dec_normalize
           (if ret then c\<lparr>ec_rng := s\<rparr> else c\<lparr>ec_val := d - s, ec_rng := r - s\<rparr>)))"

text \<open>
  The search of the symbol in the table of inverse frequencies: the symbol, the old and the new
  bound; \<open>None\<close> when the search leaves the table.
\<close>

fun icdf_search :: "int \<Rightarrow> int \<Rightarrow> nat \<Rightarrow> int \<Rightarrow> int list \<Rightarrow> (nat \<times> int \<times> int) option" where
  "icdf_search r d ret s [] = None"
| "icdf_search r d ret s (x # icdf) =
     (let s' = u32w (r * x) in if d < s' then icdf_search r d (ret + 1) s' icdf else Some (ret, s, s'))"

definition ec_dec_icdf :: "int list \<Rightarrow> nat \<Rightarrow> ec_ctx \<Rightarrow> (nat \<times> ec_ctx) option" where
  "ec_dec_icdf icdf ftb c =
     (case icdf_search (ec_rng c div 2 ^ ftb) (ec_val c) 0 (ec_rng c) icdf of
        None \<Rightarrow> None
      | Some (ret, t, s) \<Rightarrow>
          map_option (Pair ret) (ec_dec_normalize (c\<lparr>ec_val := ec_val c - s, ec_rng := t - s\<rparr>)))"

definition ec_dec_icdf16 :: "int list \<Rightarrow> nat \<Rightarrow> ec_ctx \<Rightarrow> (nat \<times> ec_ctx) option" where
  "ec_dec_icdf16 icdf ftb c =
     (case icdf_search (ec_rng c div 2 ^ ftb) (ec_val c) 0 (ec_rng c) icdf of
        None \<Rightarrow> None
      | Some (ret, t, s) \<Rightarrow>
          map_option (Pair ret) (ec_dec_normalize (c\<lparr>ec_val := ec_val c - s, ec_rng := t - s\<rparr>)))"

text \<open>The window of the raw bits is filled from the back of the buffer.\<close>

function fill_window :: "ec_ctx \<Rightarrow> int \<Rightarrow> int \<Rightarrow> int \<times> int \<times> ec_ctx" where
  "fill_window c window available =
     (let (b, c') = ec_read_byte_from_end c; w = window OR u32w (b * 2 ^ nat available);
          a = available + int EC_SYM_BITS
      in if a \<le> EC_WINDOW_SIZE - int EC_SYM_BITS then fill_window c' w a else (w, a, c'))"
  by pat_completeness auto
termination by (relation "measure (\<lambda>(c, window, available). nat (32 - available))") (auto simp: ec_const)

declare fill_window.simps [simp del]

definition ec_dec_bits :: "nat \<Rightarrow> ec_ctx \<Rightarrow> int \<times> ec_ctx" where
  "ec_dec_bits bits c =
     (let (window, available, c1) =
            (if ec_nend_bits c < int bits then fill_window c (ec_end_window c) (ec_nend_bits c)
             else (ec_end_window c, ec_nend_bits c, c))
      in (window AND (2 ^ bits - 1),
          c1\<lparr>ec_end_window := window div 2 ^ bits, ec_nend_bits := available - int bits,
             ec_nbits_total := ec_nbits_total c1 + int bits\<rparr>))"

definition ec_dec_uint :: "int \<Rightarrow> ec_ctx \<Rightarrow> (int \<times> ec_ctx) option" where
  "ec_dec_uint ft c =
     (let ft1 = ft - 1; ftb = EC_ILOG ft1 in
      if ftb > EC_UINT_BITS then
        (let ftb' = ftb - EC_UINT_BITS; ft' = ft1 div 2 ^ ftb' + 1; (s, c1) = ec_decode ft' c
         in case ec_dec_update s (s + 1) ft' c1 of
              None \<Rightarrow> None
            | Some c2 \<Rightarrow>
                (let (low, c3) = ec_dec_bits ftb' c2; t = u32w (s * 2 ^ ftb') OR low
                 in if t \<le> ft1 then Some (t, c3) else Some (ft1, c3\<lparr>ec_error := 1\<rparr>)))
      else (let (s, c1) = ec_decode (ft1 + 1) c
            in map_option (Pair s) (ec_dec_update s (s + 1) (ft1 + 1) c1)))"

end
