(* ===== verification/Range_Coding.thy ===== *)
theory Range_Coding
  imports Range_Coder
begin

text \<open>
  The range coder's correctness. The digits a context has put out (the bytes in the buffer, the
  buffered byte, the bytes waiting for a carry) are one number; together with \<open>val\<close> it is the exact
  low end of the range. The invariant \<open>enc_inv\<close> keeps carries off the digits that cannot take them.
  A stream of bytes holds a context when the value it denotes lies in the context's range (\<open>holds\<close>),
  and a decoder is in step with an encoder (\<open>sync\<close>) when its \<open>val\<close> is the distance from the stream's
  value to the top of the same range.
\<close>

section \<open>Bits of integers\<close>

lemma u32w_id: "0 \<le> x \<Longrightarrow> x < 4294967296 \<Longrightarrow> u32w x = x"
  by (simp add: u32w_def)

lemma and_exp_minus_1: "(x :: int) AND (2 ^ n - 1) = x mod 2 ^ n"
  using take_bit_eq_mask [of n x] by (simp add: mask_eq_exp_minus_1 take_bit_eq_mod)

lemma and_255: "(x :: int) AND 255 = x mod 256"
  using and_exp_minus_1 [of x 8] by simp

lemma and_mask31: "(x :: int) AND 2147483647 = x mod 2147483648"
  using and_exp_minus_1 [of x 31] by simp

lemma mask_and_not: "(2 ^ n - 1 :: int) AND NOT x = 2 ^ n - 1 - x mod 2 ^ n"
  using take_bit_not_eq_mask_diff [of n x] take_bit_eq_mask [of n "NOT x"]
  by (simp add: mask_eq_exp_minus_1 take_bit_eq_mod ac_simps)

lemma or_low:
  assumes "0 \<le> b" and "b < 2 ^ n"
  shows "(a * 2 ^ n :: int) OR b = a * 2 ^ n + b"
proof -
  have "push_bit n a AND take_bit n b = 0" by (rule bit_eqI) (simp add: bit_simps)
  then show ?thesis using assms disjunctive_add_eq_or [of "push_bit n a" "take_bit n b"]
    by (simp add: push_bit_eq_mult take_bit_int_eq_self)
qed

lemma and_not_mask: "(x :: int) AND NOT (2 ^ n - 1) = x div 2 ^ n * 2 ^ n"
proof -
  have "x AND NOT (mask n) = push_bit n (drop_bit n x)"
    by (rule bit_eqI) (auto simp: bit_simps)
  then show ?thesis by (simp add: mask_eq_exp_minus_1 push_bit_eq_mult drop_bit_eq_div)
qed

lemma nine_bits:
  assumes "0 \<le> x" and "x < 512"
  shows "x div 256 = (if x < 256 then 0 else 1)" and "x mod 256 = (if x < 256 then x else x - 256 :: int)"
  using assms div_pos_geq [of 256 x] minus_div_mult_eq_mod [of x 256] by auto

section \<open>Digits\<close>

text \<open>A list of digits read as a number, most significant digit first.\<close>

definition digits_num :: "int list \<Rightarrow> int" where
  "digits_num ds = foldl (\<lambda>a d. a * 256 + d) 0 ds"

lemma digits_num_Nil [simp]: "digits_num [] = 0"
  and digits_num_single [simp]: "digits_num [d] = d"
  and digits_num_snoc [simp]: "digits_num (ds @ [d]) = digits_num ds * 256 + d"
  by (simp_all add: digits_num_def)

lemma digits_num_255: "digits_num (ds @ replicate n 255) = (digits_num ds + 1) * 256 ^ n - 1"
  by (induction n) (simp_all add: replicate_append_same [symmetric] algebra_simps flip: append_assoc)

lemma digits_num_0: "digits_num (ds @ replicate n 0) = digits_num ds * 256 ^ n"
  by (induction n) (simp_all add: replicate_append_same [symmetric] algebra_simps flip: append_assoc)

text \<open>What the context has put out, and the low end of its range.\<close>

definition front :: "ec_ctx \<Rightarrow> u8 list" where
  "front c = take (ec_offs c) (ec_buf c)"

definition digits :: "ec_ctx \<Rightarrow> int list" where
  "digits c = map uint (front c) @ (if ec_rem c \<ge> 0 then [ec_rem c] else []) @ replicate (nat (ec_ext c)) 255"

definition low :: "ec_ctx \<Rightarrow> int" where
  "low c = digits_num (digits c) * 2147483648 + ec_val c"

section \<open>Writing bytes\<close>

definition buf_ok :: "ec_ctx \<Rightarrow> bool" where
  "buf_ok c = (length (ec_buf c) = ec_storage c \<and> ec_offs c + ec_end_offs c \<le> ec_storage c
     \<and> 0 \<le> ec_ext c \<and> - 1 \<le> ec_rem c \<and> ec_rem c \<le> 255)"

text \<open>\<open>c'\<close> is \<open>c\<close> after the bytes \<open>bs\<close> were written at the front; the back is as before.\<close>

definition wrote :: "ec_ctx \<Rightarrow> u8 list \<Rightarrow> ec_ctx \<Rightarrow> bool" where
  "wrote c bs c' = (c' = c\<lparr>ec_buf := ec_buf c', ec_offs := ec_offs c + length bs\<rparr>
     \<and> length (ec_buf c') = length (ec_buf c) \<and> front c' = front c @ bs
     \<and> drop (ec_storage c - ec_end_offs c) (ec_buf c') = drop (ec_storage c - ec_end_offs c) (ec_buf c)
     \<and> ec_offs c + length bs + ec_end_offs c \<le> ec_storage c)"

lemma wrote_Nil: "buf_ok c \<Longrightarrow> wrote c [] c"
  by (simp add: wrote_def buf_ok_def front_def)

lemma wrote_trans: "wrote c bs c' \<Longrightarrow> wrote c' bs' c'' \<Longrightarrow> wrote c (bs @ bs') c''"
  unfolding wrote_def by (cases c, cases c', cases c'') (auto simp: add.assoc)

lemma wrote_state:
  assumes "wrote c bs c'"
  shows "ec_ext c' = ec_ext c" "ec_rem c' = ec_rem c"
proof -
  have "c' = c\<lparr>ec_buf := ec_buf c', ec_offs := ec_offs c + length bs\<rparr>" using assms by (simp add: wrote_def)
  then show "ec_ext c' = ec_ext c" "ec_rem c' = ec_rem c" by (cases c, cases c', simp)+
qed

text \<open>A byte written with \<open>|=\<close> on the error: no error afterwards means it is there.\<close>

lemma put_byte:
  assumes "buf_ok c" and "ec_error (or_error (ec_write_byte v c)) = 0"
  shows "ec_error c = 0" and "wrote c [word_of_int v] (or_error (ec_write_byte v c))"
proof -
  from assms(2) have room: "ec_offs c + ec_end_offs c < ec_storage c" and err: "ec_error c = 0"
    by (auto simp: or_error_def ec_write_byte_def split: if_splits)
  from err show "ec_error c = 0" .
  let ?b = "(ec_buf c)[ec_offs c := word_of_int v]"
  have "take (Suc (ec_offs c)) ?b = take (ec_offs c) (ec_buf c) @ [word_of_int v]"
    using room assms(1) by (simp add: buf_ok_def take_Suc_conv_app_nth)
  then show "wrote c [word_of_int v] (or_error (ec_write_byte v c))"
    using room err assms(1) by (cases c)
      (auto simp: wrote_def or_error_def ec_write_byte_def buf_ok_def front_def drop_update_cancel)
qed

lemma wrote_buf_ok: "wrote c bs c' \<Longrightarrow> buf_ok c \<Longrightarrow> buf_ok c'"
  unfolding wrote_def by (cases c, cases c') (auto simp: buf_ok_def)

lemma put_bytes:
  assumes "buf_ok c" and "ec_error (((\<lambda>c. or_error (ec_write_byte v c)) ^^ n) c) = 0"
  shows "ec_error c = 0" and "wrote c (replicate n (word_of_int v)) (((\<lambda>c. or_error (ec_write_byte v c)) ^^ n) c)"
proof -
  have "ec_error c = 0 \<and> wrote c (replicate n (word_of_int v)) (((\<lambda>c. or_error (ec_write_byte v c)) ^^ n) c)"
    using assms(2)
  proof (induction n)
    case (Suc n)
    let ?c = "((\<lambda>c. or_error (ec_write_byte v c)) ^^ n) c"
    have "ec_error ?c = 0" using Suc.prems by (auto simp: or_error_def ec_write_byte_def split: if_splits)
    with Suc.IH have ih: "ec_error c = 0" "wrote c (replicate n (word_of_int v)) ?c" by simp_all
    have "wrote ?c [word_of_int v] (or_error (ec_write_byte v ?c))"
      using put_byte(2) [OF wrote_buf_ok [OF ih(2) assms(1)]] Suc.prems by simp
    from wrote_trans [OF ih(2) this] ih(1) show ?case
      by (simp add: replicate_append_same)
  qed (simp add: wrote_Nil assms(1))
  then show "ec_error c = 0" and "wrote c (replicate n (word_of_int v)) (((\<lambda>c. or_error (ec_write_byte v c)) ^^ n) c)"
    by simp_all
qed

section \<open>Carries\<close>

text \<open>
  Putting out a symbol of up to nine bits appends it to the number put out, carry included: the
  digits that can still take the carry are exactly the buffered ones.
\<close>

definition carry_safe :: "ec_ctx \<Rightarrow> bool" where
  "carry_safe c = (ec_rem c \<noteq> - 1 \<and> ec_rem c \<noteq> 255)"

lemma put_state [simp]:
  "ec_val (or_error (ec_write_byte v c)) = ec_val c"
  "ec_rng (or_error (ec_write_byte v c)) = ec_rng c"
  "ec_storage (or_error (ec_write_byte v c)) = ec_storage c"
  "ec_end_offs (or_error (ec_write_byte v c)) = ec_end_offs c"
  "ec_end_window (or_error (ec_write_byte v c)) = ec_end_window c"
  "ec_nend_bits (or_error (ec_write_byte v c)) = ec_nend_bits c"
  "ec_nbits_total (or_error (ec_write_byte v c)) = ec_nbits_total c"
  by (simp_all add: or_error_def ec_write_byte_def)

lemma put_bytes_state [simp]:
  "ec_val (((\<lambda>c. or_error (ec_write_byte v c)) ^^ n) c) = ec_val c"
  "ec_rng (((\<lambda>c. or_error (ec_write_byte v c)) ^^ n) c) = ec_rng c"
  "ec_storage (((\<lambda>c. or_error (ec_write_byte v c)) ^^ n) c) = ec_storage c"
  "ec_end_offs (((\<lambda>c. or_error (ec_write_byte v c)) ^^ n) c) = ec_end_offs c"
  "ec_end_window (((\<lambda>c. or_error (ec_write_byte v c)) ^^ n) c) = ec_end_window c"
  "ec_nend_bits (((\<lambda>c. or_error (ec_write_byte v c)) ^^ n) c) = ec_nend_bits c"
  "ec_nbits_total (((\<lambda>c. or_error (ec_write_byte v c)) ^^ n) c) = ec_nbits_total c"
  by (induction n) simp_all

lemma carry_out_state [simp]:
  "ec_val (ec_enc_carry_out x c) = ec_val c"
  "ec_rng (ec_enc_carry_out x c) = ec_rng c"
  "ec_storage (ec_enc_carry_out x c) = ec_storage c"
  "ec_end_offs (ec_enc_carry_out x c) = ec_end_offs c"
  "ec_end_window (ec_enc_carry_out x c) = ec_end_window c"
  "ec_nend_bits (ec_enc_carry_out x c) = ec_nend_bits c"
  "ec_nbits_total (ec_enc_carry_out x c) = ec_nbits_total c"
  by (simp_all add: ec_enc_carry_out_def Let_def)

lemma put_error: "ec_error (or_error (ec_write_byte v c)) = 0 \<Longrightarrow> ec_error c = 0"
  by (simp add: or_error_def ec_write_byte_def split: if_splits)

lemma put_bytes_error: "ec_error (((\<lambda>c. or_error (ec_write_byte v c)) ^^ n) c) = 0 \<Longrightarrow> ec_error c = 0"
  by (induction n) (auto dest: put_error)

text \<open>A symbol other than 255 flushes the buffered byte and the waiting ones, the carry added.\<close>

lemma carry_out_flush:
  assumes "buf_ok c" and "x \<noteq> 255" and "0 \<le> x" and "x < 512" and "ec_error (ec_enc_carry_out x c) = 0"
  defines "bs \<equiv> (if ec_rem c \<ge> 0 then [word_of_int (ec_rem c + x div 256)] else [])
      @ replicate (nat (ec_ext c)) (word_of_int ((255 + x div 256) mod 256)) :: u8 list"
  shows "ec_error c = 0 \<and> wrote c bs ((ec_enc_carry_out x c)\<lparr>ec_ext := ec_ext c, ec_rem := ec_rem c\<rparr>)
    \<and> ec_ext (ec_enc_carry_out x c) = 0 \<and> ec_rem (ec_enc_carry_out x c) = x mod 256"
proof -
  let ?w = "\<lambda>v c. or_error (ec_write_byte v c)" and ?carry = "x div 256"
  define c1 where "c1 = (if ec_rem c \<ge> 0 then ?w (ec_rem c + ?carry) c else c)"
  define c2 where "c2 = (?w ((255 + ?carry) mod 256) ^^ nat (ec_ext c1)) c1"
  have out: "ec_enc_carry_out x c = c2\<lparr>ec_ext := 0, ec_rem := x mod 256\<rparr>"
    using assms(2) by (simp add: ec_enc_carry_out_def c2_def c1_def ec_const asr_def and_255 Let_def)
  have err2: "ec_error c2 = 0" using assms(5) out by simp
  have err1: "ec_error c1 = 0" using err2 unfolding c2_def by (rule put_bytes_error)
  have w1: "ec_error c = 0 \<and> wrote c (if ec_rem c \<ge> 0 then [word_of_int (ec_rem c + ?carry)] else []) c1"
  proof (cases "ec_rem c \<ge> 0")
    case True
    with err1 show ?thesis using put_byte [OF assms(1), of "ec_rem c + ?carry"] by (simp add: c1_def del: of_int_add)
  qed (use err1 wrote_Nil [OF assms(1)] in \<open>simp add: c1_def\<close>)
  then have "buf_ok c1" using wrote_buf_ok assms(1) by blast
  then have "wrote c1 (replicate (nat (ec_ext c1)) (word_of_int ((255 + ?carry) mod 256))) c2"
    using put_bytes(2) err2 unfolding c2_def by blast
  moreover have "ec_ext c1 = ec_ext c" using w1 wrote_state(1) by blast
  ultimately have w: "wrote c bs c2" using wrote_trans w1 unfolding bs_def by metis
  then have "c2\<lparr>ec_ext := ec_ext c, ec_rem := ec_rem c\<rparr> = c2"
    using wrote_state [OF w] by simp
  with w w1 show ?thesis by (simp add: out)
qed

lemma carry_out_flushed:
  assumes "buf_ok c" and "x \<noteq> 255" and "0 \<le> x" and "x < 512" and "ec_error (ec_enc_carry_out x c) = 0"
  shows "ec_error c = 0" and "buf_ok (ec_enc_carry_out x c)"
    and "drop (ec_storage c - ec_end_offs c) (ec_buf (ec_enc_carry_out x c))
      = drop (ec_storage c - ec_end_offs c) (ec_buf c)"
    and "digits (ec_enc_carry_out x c) = map uint (front c)
      @ (if ec_rem c \<ge> 0 then [(ec_rem c + x div 256) mod 256] else [])
      @ replicate (nat (ec_ext c)) ((255 + x div 256) mod 256) @ [x mod 256]"
    and "ec_rem (ec_enc_carry_out x c) = x mod 256"
proof -
  note flush = carry_out_flush [OF assms]
  then show "ec_error c = 0" and rem: "ec_rem (ec_enc_carry_out x c) = x mod 256" by blast+
  from flush have "buf_ok ((ec_enc_carry_out x c)\<lparr>ec_ext := ec_ext c, ec_rem := ec_rem c\<rparr>)"
    using wrote_buf_ok assms(1) by blast
  with flush assms(3) show "buf_ok (ec_enc_carry_out x c)"
    using nine_bits(2) [OF assms(3,4)] assms(4) by (auto simp: buf_ok_def)
  from flush show "drop (ec_storage c - ec_end_offs c) (ec_buf (ec_enc_carry_out x c))
      = drop (ec_storage c - ec_end_offs c) (ec_buf c)"
    by (simp add: wrote_def)
  from flush have "front ((ec_enc_carry_out x c)\<lparr>ec_ext := ec_ext c, ec_rem := ec_rem c\<rparr>)
      = front c @ (if ec_rem c \<ge> 0 then [word_of_int (ec_rem c + x div 256)] else [])
        @ replicate (nat (ec_ext c)) (word_of_int ((255 + x div 256) mod 256))"
    unfolding wrote_def by blast
  then have "front (ec_enc_carry_out x c)
      = front c @ (if ec_rem c \<ge> 0 then [word_of_int (ec_rem c + x div 256)] else [])
        @ replicate (nat (ec_ext c)) (word_of_int ((255 + x div 256) mod 256))"
    by (simp add: front_def del: of_int_add)
  moreover have "ec_ext (ec_enc_carry_out x c) = 0" using flush by blast
  ultimately show "digits (ec_enc_carry_out x c) = map uint (front c)
      @ (if ec_rem c \<ge> 0 then [(ec_rem c + x div 256) mod 256] else [])
      @ replicate (nat (ec_ext c)) ((255 + x div 256) mod 256) @ [x mod 256]"
    by (simp add: digits_def rem uint_word_of_int del: of_int_add)
qed

lemma carry_out:
  assumes "buf_ok c" and "0 \<le> x" and "x < 512" and "x < 256 \<or> carry_safe c"
    and "ec_error (ec_enc_carry_out x c) = 0"
  shows "ec_error c = 0" and "buf_ok (ec_enc_carry_out x c)"
    and "drop (ec_storage c - ec_end_offs c) (ec_buf (ec_enc_carry_out x c))
      = drop (ec_storage c - ec_end_offs c) (ec_buf c)"
    and "length (digits (ec_enc_carry_out x c)) = Suc (length (digits c))"
    and "digits_num (digits (ec_enc_carry_out x c)) = digits_num (digits c) * 256 + x"
    and "carry_safe (ec_enc_carry_out x c) \<or> (x = 255 \<and> \<not> carry_safe c) \<or> x = 511"
proof -
  let ?c' = "ec_enc_carry_out x c"
  have "ec_error c = 0 \<and> buf_ok ?c'
    \<and> drop (ec_storage c - ec_end_offs c) (ec_buf ?c') = drop (ec_storage c - ec_end_offs c) (ec_buf c)
    \<and> length (digits ?c') = Suc (length (digits c))
    \<and> digits_num (digits ?c') = digits_num (digits c) * 256 + x
    \<and> (carry_safe ?c' \<or> (x = 255 \<and> \<not> carry_safe c) \<or> x = 511)"
  proof (cases "x = 255")
    case True
    have "digits ?c' = digits c @ [255]" using True assms(1)
      by (simp add: ec_enc_carry_out_def ec_const digits_def front_def buf_ok_def nat_add_distrib
          replicate_append_same)
    with True assms(1,5) show ?thesis
      by (auto simp: ec_enc_carry_out_def ec_const buf_ok_def carry_safe_def)
  next
    case False
    note flushed = carry_out_flushed [OF assms(1) False assms(2,3,5)]
    have "digits_num (digits ?c') = digits_num (digits c) * 256 + x"
    proof (cases "x < 256")
      case True
      then have "digits ?c' = digits c @ [x]" unfolding flushed(4) using assms(1,2)
        by (simp add: digits_def buf_ok_def)
      then show ?thesis by simp
    next
      case carry: False
      then have x: "x div 256 = 1" "x mod 256 = x - 256" using nine_bits [OF assms(2,3)] by simp_all
      with carry assms(1,4) have rem: "0 \<le> ec_rem c" "ec_rem c < 255"
        by (auto simp: carry_safe_def buf_ok_def)
      then have "digits ?c' = ((map uint (front c) @ [ec_rem c + 1]) @ replicate (nat (ec_ext c)) 0) @ [x - 256]"
        by (simp add: flushed(4) x)
      moreover have "digits c = (map uint (front c) @ [ec_rem c]) @ replicate (nat (ec_ext c)) 255"
        using rem by (simp add: digits_def)
      ultimately show ?thesis
        by (simp only: digits_num_snoc digits_num_0 digits_num_255) (simp add: algebra_simps)
    qed
    moreover have "length (digits ?c') = Suc (length (digits c))"
      by (simp add: flushed(4)) (simp add: digits_def)
    moreover have "carry_safe ?c' \<or> x = 511"
      using False assms(2,3) nine_bits(2) [OF assms(2,3)] by (auto simp: carry_safe_def flushed(5))
    ultimately show ?thesis using flushed(1-3) by blast
  qed
  then show "ec_error c = 0" and "buf_ok ?c'"
    and "drop (ec_storage c - ec_end_offs c) (ec_buf ?c') = drop (ec_storage c - ec_end_offs c) (ec_buf c)"
    and "length (digits ?c') = Suc (length (digits c))"
    and "digits_num (digits ?c') = digits_num (digits c) * 256 + x"
    and "carry_safe ?c' \<or> (x = 255 \<and> \<not> carry_safe c) \<or> x = 511"
    by blast+
qed

section \<open>The invariant\<close>

text \<open>
  The range never passes the 32-bit register, and a carry out of it is possible only while the
  buffered byte can take it. The raw bits: the window holds fewer bits than its register, all below
  \<open>nend_bits\<close>; the bits put out so far are one little-endian number, growing from the back.
\<close>

definition enc_inv :: "ec_ctx \<Rightarrow> bool" where
  "enc_inv c = (buf_ok c \<and> 0 \<le> ec_val c \<and> 0 < ec_rng c \<and> ec_rng c \<le> 2147483648
     \<and> ec_val c + ec_rng c < 4294967296 \<and> (carry_safe c \<or> ec_val c + ec_rng c \<le> 2147483648)
     \<and> 0 \<le> ec_nend_bits c \<and> ec_nend_bits c \<le> 32
     \<and> 0 \<le> ec_end_window c \<and> ec_end_window c < 2 ^ nat (ec_nend_bits c))"

definition raw_len :: "ec_ctx \<Rightarrow> nat" where
  "raw_len c = 8 * ec_end_offs c + nat (ec_nend_bits c)"

definition raw_num :: "ec_ctx \<Rightarrow> int" where
  "raw_num c = digits_num (map uint (drop (ec_storage c - ec_end_offs c) (ec_buf c)))
     + ec_end_window c * 2 ^ (8 * ec_end_offs c)"

lemma shift_arith:
  assumes "0 \<le> v" and "v < 4294967296"
  shows "u32w (v * 2 ^ EC_SYM_BITS) AND (EC_CODE_TOP - 1) = v mod 8388608 * 256"
proof -
  have "v * 256 mod 4294967296 mod 2147483648 = v * 256 mod 2147483648"
    by (simp add: mod_mod_cancel)
  also have "\<dots> = v mod 8388608 * 256" using mult_mod_right [of 256 v 8388608] by (simp add: mult.commute)
  finally show ?thesis by (simp add: ec_const and_mask31 u32w_def)
qed

lemma enc_shift:
  assumes "enc_inv c" and "ec_rng c \<le> EC_CODE_BOT" and "ec_error (enc_shift c) = 0"
  shows "ec_error c = 0" and "enc_inv (enc_shift c)" and "low (enc_shift c) = 256 * low c"
    and "ec_rng (enc_shift c) = 256 * ec_rng c"
    and "length (digits (enc_shift c)) = Suc (length (digits c))"
    and "raw_len (enc_shift c) = raw_len c" and "raw_num (enc_shift c) = raw_num c"
proof -
  let ?x = "ec_val c div 8388608"
  have val: "0 \<le> ec_val c" "ec_val c < 4294967296" using assms(1) by (simp_all add: enc_inv_def)
  then have x: "0 \<le> ?x" "?x < 512" by auto
  have safe: "?x < 256 \<or> carry_safe c" using assms(1) by (auto simp: enc_inv_def)
  have shift: "enc_shift c = (ec_enc_carry_out ?x c)\<lparr>ec_val := ec_val c mod 8388608 * 256,
      ec_rng := 256 * ec_rng c, ec_nbits_total := ec_nbits_total c + 8\<rparr>"
    using assms(1,2) shift_arith [OF val]
    by (simp add: enc_shift_def ec_const u32w_def enc_inv_def mult.commute)
  have ok: "buf_ok c" using assms(1) by (simp add: enc_inv_def)
  have err: "ec_error (ec_enc_carry_out ?x c) = 0" using assms(3) by (simp add: shift)
  note out = carry_out [OF ok x safe err]
  show "ec_error c = 0" by (rule out(1))
  have digits: "digits (enc_shift c) = digits (ec_enc_carry_out ?x c)"
    by (simp add: shift digits_def front_def)
  show "length (digits (enc_shift c)) = Suc (length (digits c))" unfolding digits by (rule out(4))
  have num: "digits_num (digits (enc_shift c)) = digits_num (digits c) * 256 + ?x"
    unfolding digits by (rule out(5))
  show "ec_rng (enc_shift c) = 256 * ec_rng c" by (simp add: shift)
  have split: "ec_val c mod 8388608 = ec_val c - ?x * 8388608" by (simp add: minus_div_mult_eq_mod)
  show "low (enc_shift c) = 256 * low c"
    by (simp add: low_def num) (simp add: shift split)
  show "raw_len (enc_shift c) = raw_len c" by (simp add: shift raw_len_def)
  show "raw_num (enc_shift c) = raw_num c" using out(3) by (simp add: shift raw_num_def)
  have "carry_safe (enc_shift c) \<or> ?x = 255 \<and> ec_val c + ec_rng c \<le> 2147483648 \<or> ?x = 511"
    using out(6) assms(1) by (auto simp: shift carry_safe_def enc_inv_def)
  then have "carry_safe (enc_shift c) \<or> ec_val (enc_shift c) + ec_rng (enc_shift c) \<le> 2147483648"
    using assms(1) by (auto simp: shift split enc_inv_def)
  moreover have "buf_ok (enc_shift c)" using out(2) by (simp add: shift buf_ok_def)
  moreover have "ec_val c mod 8388608 < 8388608" "0 \<le> ec_val c mod 8388608" by simp_all
  ultimately show "enc_inv (enc_shift c)" using assms(1,2)
    unfolding enc_inv_def by (simp add: shift ec_const)
qed

section \<open>Streams\<close>

text \<open>
  A buffer read as an endless stream: its bytes, then zeros. \<open>code_at buf k\<close> is the value the decoder
  compares with after \<open>k\<close> shifts: the first \<open>8 * k + 31\<close> bits.
\<close>

definition byte_at :: "u8 list \<Rightarrow> nat \<Rightarrow> int" where
  "byte_at buf n = (if n < length buf then uint (buf ! n) else 0)"

primrec stream_num :: "u8 list \<Rightarrow> nat \<Rightarrow> int" where
  "stream_num buf 0 = 0"
| "stream_num buf (Suc n) = stream_num buf n * 256 + byte_at buf n"

definition code_at :: "u8 list \<Rightarrow> nat \<Rightarrow> int" where
  "code_at buf k = stream_num buf (k + 4) div 2"

lemma byte_at_range: "0 \<le> byte_at buf n" "byte_at buf n < 256"
  using uint_bounded [of "buf ! n"] by (simp_all add: byte_at_def)

lemma stream_num_step:
  "stream_num buf (Suc (Suc n)) div 2 = stream_num buf (Suc n) div 2 * 256
     + (byte_at buf n * 256 + byte_at buf (Suc n)) div 2 mod 256"
proof -
  let ?t = "stream_num buf (Suc n)" and ?a = "byte_at buf n" and ?h = "byte_at buf (Suc n) div 2"
  have h: "0 \<le> ?h" "?h < 128" using byte_at_range [of buf "Suc n"] by simp_all
  have par: "?t mod 2 = ?a mod 2" by (simp add: mod_simps) presburger
  have "(?t * 256 + byte_at buf (Suc n)) div 2 = ?t * 128 + ?h"
    using div_mult_self1 [of 2 "byte_at buf (Suc n)" "?t * 128"] by (simp add: ac_simps)
  also have "\<dots> = ?t div 2 * 256 + (?a mod 2 * 128 + ?h)"
    using div_mult_mod_eq [of ?t 2] par by linarith
  also have "?a mod 2 * 128 + ?h = (?a * 128 + ?h) mod 256"
  proof -
    have "?a * 128 + ?h = ?a div 2 * 256 + (?a mod 2 * 128 + ?h)" using div_mult_mod_eq [of ?a 2] by linarith
    moreover have "0 \<le> ?a mod 2 * 128 + ?h" "?a mod 2 * 128 + ?h < 256" using h by auto
    ultimately show ?thesis by (simp only: mod_mult_self3 mod_pos_pos_trivial)
  qed
  also have "?a * 128 + ?h = (?a * 256 + byte_at buf (Suc n)) div 2"
    using div_mult_self1 [of 2 "byte_at buf (Suc n)" "?a * 128"] by (simp add: ac_simps)
  finally show ?thesis by simp
qed

text \<open>The stream's value lies in the context's range; its end has the context's raw bits.\<close>

definition holds :: "u8 list \<Rightarrow> ec_ctx \<Rightarrow> bool" where
  "holds buf c = (low c \<le> code_at buf (length (digits c))
     \<and> code_at buf (length (digits c)) < low c + ec_rng c
     \<and> digits_num (map uint buf) mod 2 ^ raw_len c = raw_num c)"

definition sync :: "u8 list \<Rightarrow> ec_ctx \<Rightarrow> ec_ctx \<Rightarrow> bool" where
  "sync buf c d = (ec_buf d = buf \<and> ec_storage d = length buf \<and> ec_error d = 0
     \<and> ec_rng d = ec_rng c \<and> ec_nbits_total d = ec_nbits_total c
     \<and> ec_val d = low c + ec_rng c - 1 - code_at buf (length (digits c))
     \<and> ec_rem d = byte_at buf (length (digits c) + 3)
     \<and> ec_offs d = min (length (digits c) + 4) (length buf)
     \<and> (\<exists>n. ec_end_offs d = min n (length buf) \<and> 0 \<le> ec_nend_bits d
          \<and> 8 * n = raw_len c + nat (ec_nend_bits d)
          \<and> ec_end_window d = digits_num (map uint buf) div 2 ^ raw_len c mod 2 ^ nat (ec_nend_bits d)))"

lemma holds_shift:
  assumes "enc_inv c" and "ec_rng c \<le> EC_CODE_BOT" and "ec_error (enc_shift c) = 0"
    and "holds buf (enc_shift c)"
  shows "holds buf c"
proof -
  note shift = enc_shift [OF assms(1-3)]
  let ?k = "length (digits c)"
  have "code_at buf (Suc ?k) = code_at buf ?k * 256
      + (byte_at buf (?k + 3) * 256 + byte_at buf (?k + 4)) div 2 mod 256"
    using stream_num_step [of buf "?k + 3"] by (simp add: code_at_def eval_nat_numeral)
  moreover have "0 \<le> (byte_at buf (?k + 3) * 256 + byte_at buf (?k + 4)) div 2 mod 256"
    "(byte_at buf (?k + 3) * 256 + byte_at buf (?k + 4)) div 2 mod 256 < 256" by simp_all
  moreover have "256 * low c \<le> code_at buf (Suc ?k)" "code_at buf (Suc ?k) < 256 * low c + 256 * ec_rng c"
    using assms(4) by (simp_all add: holds_def shift)
  ultimately show ?thesis using assms(4) by (simp add: holds_def shift) linarith
qed

text \<open>One round of the decoder's renormalisation, on its own.\<close>

lemma dec_shift_state:
  assumes "ec_buf d = buf" and "ec_storage d = length buf" and "ec_rem d = byte_at buf n"
    and "ec_offs d = min (Suc n) (length buf)" and "0 < ec_rng d" and "ec_rng d \<le> EC_CODE_BOT"
    and "0 \<le> ec_val d" and "ec_val d < ec_rng d"
  shows "dec_shift d = d\<lparr>ec_nbits_total := ec_nbits_total d + 8, ec_rng := 256 * ec_rng d,
      ec_rem := byte_at buf (Suc n), ec_offs := min (Suc (Suc n)) (length buf),
      ec_val := ec_val d * 256 + 255 - (byte_at buf n * 256 + byte_at buf (Suc n)) div 2 mod 256\<rparr>"
proof -
  have read: "ec_read_byte d = (byte_at buf (Suc n), d\<lparr>ec_offs := min (Suc (Suc n)) (length buf)\<rparr>)"
    using assms(1,2,4) by (cases d) (auto simp: ec_read_byte_def byte_at_def min_def split: if_splits)
  have sym: "ec_rem d * 256 OR byte_at buf (Suc n) = byte_at buf n * 256 + byte_at buf (Suc n)"
    using or_low [of "byte_at buf (Suc n)" 8] byte_at_range [of buf "Suc n"] assms(3) by simp
  let ?s = "(byte_at buf n * 256 + byte_at buf (Suc n)) div 2 mod 256"
  have s: "0 \<le> ?s" "?s < 256" by simp_all
  have "255 AND NOT ((byte_at buf n * 256 + byte_at buf (Suc n)) div 2) = 255 - ?s"
    using mask_and_not [of 8] by simp
  moreover have "u32w (ec_val d * 256 + (255 - ?s)) AND 2147483647 = ec_val d * 256 + 255 - ?s"
  proof -
    have "ec_val d * 256 + 255 < 2147483648" using assms(6,8) by (simp add: ec_const)
    with s assms(7) have "0 \<le> ec_val d * 256 + 255 - ?s" "ec_val d * 256 + 255 - ?s < 2147483648"
      by linarith+
    then show ?thesis by (simp add: u32w_id and_mask31 add_diff_eq)
  qed
  moreover have "u32w (ec_rng d * 256) = 256 * ec_rng d"
    using assms(5,6) by (simp add: u32w_id ec_const)
  ultimately show ?thesis
    by (simp add: dec_shift_def read sym ec_const)
qed

lemma sync_shift:
  assumes "enc_inv c" and "ec_rng c \<le> EC_CODE_BOT" and "ec_error (enc_shift c) = 0"
    and "holds buf c" and "sync buf c d"
  shows "sync buf (enc_shift c) (dec_shift d)"
proof -
  note shift = enc_shift [OF assms(1-3)]
  let ?k = "length (digits c)"
  have "dec_shift d = d\<lparr>ec_nbits_total := ec_nbits_total d + 8, ec_rng := 256 * ec_rng d,
      ec_rem := byte_at buf (Suc (?k + 3)), ec_offs := min (Suc (Suc (?k + 3))) (length buf),
      ec_val := ec_val d * 256 + 255 - (byte_at buf (?k + 3) * 256 + byte_at buf (Suc (?k + 3))) div 2 mod 256\<rparr>"
    using assms by (intro dec_shift_state) (auto simp: sync_def holds_def enc_inv_def)
  moreover have "code_at buf (Suc ?k) = code_at buf ?k * 256
      + (byte_at buf (?k + 3) * 256 + byte_at buf (Suc (?k + 3))) div 2 mod 256"
    using stream_num_step [of buf "?k + 3"] by (simp add: code_at_def eval_nat_numeral)
  moreover have "ec_nbits_total (enc_shift c) = ec_nbits_total c + 8" by (simp add: enc_shift_def ec_const)
  ultimately show ?thesis using assms(5)
    by (simp add: sync_def shift eval_nat_numeral algebra_simps)
qed

section \<open>Renormalisation in step\<close>

text \<open>Between two operations the range is renormalised.\<close>

definition alive :: "ec_ctx \<Rightarrow> bool" where
  "alive c = (EC_CODE_BOT < ec_rng c \<and> ec_rng c \<le> EC_CODE_TOP)"

definition ready :: "ec_ctx \<Rightarrow> bool" where
  "ready c = (enc_inv c \<and> alive c)"

lemma enc_normalize_total:
  assumes "0 < ec_rng c" and "ec_rng c \<le> EC_CODE_TOP"
  shows "\<exists>c'. ec_enc_normalize c = Some c' \<and> alive c'"
  using assms
proof (induction "nat (EC_CODE_TOP - ec_rng c)" arbitrary: c rule: less_induct)
  case less
  show ?case
  proof (cases "ec_rng c \<le> EC_CODE_BOT")
    case True
    then have "ec_rng (enc_shift c) = 256 * ec_rng c"
      using less.prems by (simp add: enc_shift_def u32w_id ec_const)
    with True less show ?thesis by (subst ec_enc_normalize.simps) (auto simp: ec_const)
  next
    case False
    with less.prems show ?thesis by (subst ec_enc_normalize.simps) (simp add: alive_def)
  qed
qed

text \<open>
  What an operation \<open>f\<close> of the encoder and the decoder's \<open>g\<close> owe each other: \<open>f\<close> always returns and
  never clears an error, and when it did not run out of space, a stream that holds the new context held the old one, and on
  such a stream a decoder in step reads \<open>v\<close> and stays in step.
\<close>

definition follows :: "ec_ctx \<Rightarrow> ec_ctx \<Rightarrow> (ec_ctx \<Rightarrow> ('v \<times> ec_ctx) option) \<Rightarrow> 'v \<Rightarrow> bool" where
  "follows c c' g v = (ec_error c = 0 \<and> ready c' \<and> (\<forall>buf. holds buf c' \<longrightarrow> holds buf c
     \<and> (\<forall>d. sync buf c d \<longrightarrow> (\<exists>d'. g d = Some (v, d') \<and> sync buf c' d'))))"

definition lockstep :: "(ec_ctx \<Rightarrow> ec_ctx option) \<Rightarrow> (ec_ctx \<Rightarrow> ('v \<times> ec_ctx) option) \<Rightarrow> 'v \<Rightarrow> bool" where
  "lockstep f g v = ((\<forall>c. alive c \<longrightarrow> (\<exists>c'. f c = Some c' \<and> alive c'))
     \<and> (\<forall>c c'. alive c \<longrightarrow> f c = Some c' \<longrightarrow> ec_error c' = 0 \<longrightarrow> ec_error c = 0)
     \<and> (\<forall>c c'. ready c \<longrightarrow> f c = Some c' \<longrightarrow> ec_error c' = 0 \<longrightarrow> follows c c' g v))"

lemma carry_out_error:
  assumes "ec_error (ec_enc_carry_out x c) = 0"
  shows "ec_error c = 0"
proof (cases "x = EC_SYM_MAX")
  case False
  define c1 where "c1 = (if ec_rem c \<ge> 0 then or_error (ec_write_byte (ec_rem c + asr x EC_SYM_BITS) c) else c)"
  have "ec_error c1 = 0"
    using assms False by (simp add: ec_enc_carry_out_def Let_def c1_def [symmetric]) (rule put_bytes_error)
  then show ?thesis by (auto simp: c1_def split: if_splits dest: put_error)
qed (use assms in \<open>simp add: ec_enc_carry_out_def\<close>)

lemma normalize_error:
  assumes "ec_enc_normalize c = Some c'" and "ec_error c' = 0"
  shows "ec_error c = 0"
proof -
  have "ec_error c' = 0 \<longrightarrow> ec_error c = 0"
  proof (rule ec_enc_normalize.raw_induct [where P = "\<lambda>c c'. ec_error c' = 0 \<longrightarrow> ec_error c = 0",
        OF _ assms(1)])
    fix f c c'
    assume "\<And>c c'. f c = Some c' \<Longrightarrow> ec_error c' = 0 \<longrightarrow> ec_error c = 0"
      and "(if ec_rng c \<le> EC_CODE_BOT then f (enc_shift c) else Some c) = Some c'"
    then show "ec_error c' = 0 \<longrightarrow> ec_error c = 0"
      by (fastforce simp: enc_shift_def split: if_splits dest: carry_out_error)
  qed
  with assms(2) show ?thesis by simp
qed

lemma follows_shift:
  assumes "enc_inv c" and "ec_rng c \<le> EC_CODE_BOT" and "ec_error (enc_shift c) = 0"
    and "follows (enc_shift c) c' (\<lambda>d. map_option (Pair ()) (ec_dec_normalize d)) ()"
  shows "follows c c' (\<lambda>d. map_option (Pair ()) (ec_dec_normalize d)) ()"
proof -
  have dec: "ec_dec_normalize d = ec_dec_normalize (dec_shift d)" if "sync buf c d" for buf d
    using assms(2) that by (subst ec_dec_normalize.simps) (simp add: sync_def)
  show ?thesis unfolding follows_def
  proof (intro conjI allI impI)
    show "ec_error c = 0" by (rule enc_shift(1) [OF assms(1-3)])
    show "ready c'" using assms(4) by (simp add: follows_def)
    fix buf assume "holds buf c'"
    with assms(4) have step: "holds buf (enc_shift c)"
      "\<And>d. sync buf (enc_shift c) d \<Longrightarrow> \<exists>d'. ec_dec_normalize d = Some d' \<and> sync buf c' d'"
      by (auto simp: follows_def)
    show held: "holds buf c" by (rule holds_shift [OF assms(1-3) step(1)])
    fix d assume d: "sync buf c d"
    from step(2) [OF sync_shift [OF assms(1-3) held d]] dec [OF d]
    show "\<exists>d'. map_option (Pair ()) (ec_dec_normalize d) = Some ((), d') \<and> sync buf c' d'" by auto
  qed
qed

lemma normalize_follows:
  assumes "ec_enc_normalize c = Some c'" and "enc_inv c" and "ec_error c' = 0"
  shows "follows c c' (\<lambda>d. map_option (Pair ()) (ec_dec_normalize d)) ()"
proof -
  let ?P = "\<lambda>c c'. ec_enc_normalize c = Some c' \<longrightarrow> enc_inv c \<longrightarrow> ec_error c' = 0
      \<longrightarrow> follows c c' (\<lambda>d. map_option (Pair ()) (ec_dec_normalize d)) ()"
  have "?P c c'" if "ec_rng c = r" "0 < r" "r \<le> EC_CODE_TOP" for r
    using that
  proof (induction "nat (EC_CODE_TOP - r)" arbitrary: c r rule: less_induct)
    case less
    show ?case
    proof (cases "ec_rng c \<le> EC_CODE_BOT")
      case True
      have rng: "ec_rng (enc_shift c) = 256 * r"
        using True less.prems by (simp add: enc_shift_def u32w_id ec_const)
      have eq: "ec_enc_normalize c = ec_enc_normalize (enc_shift c)"
        using True by (subst ec_enc_normalize.simps) simp
      show ?thesis unfolding eq
      proof (intro impI)
        assume ret: "ec_enc_normalize (enc_shift c) = Some c'" and inv: "enc_inv c" and err: "ec_error c' = 0"
        have e: "ec_error (enc_shift c) = 0" by (rule normalize_error [OF ret err])
        have "?P (enc_shift c) c'"
          using True less.prems by (intro less.hyps [OF _ rng]) (auto simp: ec_const)
        with ret err enc_shift(2) [OF inv True e]
        show "follows c c' (\<lambda>d. map_option (Pair ()) (ec_dec_normalize d)) ()"
          by (intro follows_shift [OF inv True e]) simp
      qed
    next
      case False
      have "ec_dec_normalize d = Some d" if "sync buf c d" for buf d
        using False that by (subst ec_dec_normalize.simps) (simp add: sync_def)
      with False show ?thesis
        by (subst ec_enc_normalize.simps)
          (auto simp: follows_def ready_def alive_def enc_inv_def ec_const)
    qed
  qed
  with assms show ?thesis by (auto simp: enc_inv_def ec_const)
qed

section \<open>One symbol\<close>

text \<open>
  Every operation narrows the range to \<open>b\<close> values from offset \<open>a\<close> on and renormalises. The decoder
  finds its \<open>val\<close> in the corresponding part, counted from the top.
\<close>

lemma narrow:
  assumes "ready c" and "0 \<le> a" and "0 < b" and "a + b \<le> ec_rng c"
    and "ec_enc_normalize (c\<lparr>ec_val := ec_val c + a, ec_rng := b\<rparr>) = Some c'" and "ec_error c' = 0"
    and "\<And>buf d. sync buf c d \<Longrightarrow> a \<le> ec_rng c - 1 - ec_val d \<Longrightarrow> ec_rng c - 1 - ec_val d < a + b \<Longrightarrow>
      \<exists>e. g d = map_option (Pair v) (ec_dec_normalize
        (d\<lparr>ec_val := ec_val d - (ec_rng c - a - b), ec_rng := b, ec_ext := e\<rparr>))"
  shows "follows c c' g v"
proof -
  let ?c = "c\<lparr>ec_val := ec_val c + a, ec_rng := b\<rparr>"
  have "enc_inv ?c" using assms(1-4)
    by (auto simp: ready_def enc_inv_def buf_ok_def carry_safe_def)
  from normalize_follows [OF assms(5) this assms(6)]
  have f: "follows ?c c' (\<lambda>d. map_option (Pair ()) (ec_dec_normalize d)) ()" .
  have same: "digits ?c = digits c" "low ?c = low c + a" "raw_len ?c = raw_len c" "raw_num ?c = raw_num c"
    by (simp_all add: digits_def front_def low_def raw_len_def raw_num_def)
  show ?thesis unfolding follows_def
  proof (intro conjI allI impI)
    show "ec_error c = 0" "ready c'" using f by (simp_all add: follows_def)
    fix buf assume held: "holds buf c'"
    with f have h: "holds buf ?c" by (simp add: follows_def)
    with assms(2-4) show "holds buf c" by (simp add: holds_def same)
    fix d assume d: "sync buf c d"
    then have val: "ec_val d = low c + ec_rng c - 1 - code_at buf (length (digits c))"
      by (simp add: sync_def)
    have "a \<le> ec_rng c - 1 - ec_val d" "ec_rng c - 1 - ec_val d < a + b"
      using h unfolding val by (simp_all add: holds_def same)
    from assms(7) [OF d this] obtain e where g: "g d = map_option (Pair v) (ec_dec_normalize
        (d\<lparr>ec_val := ec_val d - (ec_rng c - a - b), ec_rng := b, ec_ext := e\<rparr>))" by blast
    have "sync buf ?c (d\<lparr>ec_val := ec_val d - (ec_rng c - a - b), ec_rng := b, ec_ext := e\<rparr>)"
      using d by (simp add: sync_def same)
    with f held show "\<exists>d'. g d = Some (v, d') \<and> sync buf c' d'"
      unfolding g follows_def by auto
  qed
qed

lemma unit_bounds:
  assumes "EC_CODE_BOT < R" and "0 \<le> fl" and "fl < fh" and "fh \<le> ft" and "ft \<le> 8388608"
  shows "0 < R div ft" and "R div ft * (ft - fl) \<le> R" and "0 \<le> R div ft * (ft - fh)"
    and "R div ft * (fh - fl) = R div ft * (ft - fl) - R div ft * (ft - fh)"
    and "R div ft * (ft - fh) < R div ft * (ft - fl)" and "R div ft * (ft - fh) < R"
proof -
  show pos: "0 < R div ft" using assms by (simp add: pos_imp_zdiv_pos_iff ec_const)
  have "R div ft * (ft - fl) \<le> R div ft * ft" using pos assms(2) by (intro mult_left_mono) simp_all
  also have "\<dots> \<le> R" using div_mult_mod_eq [of R ft] assms(2-4) pos_mod_sign [of ft R] by linarith
  finally show le: "R div ft * (ft - fl) \<le> R" .
  show "0 \<le> R div ft * (ft - fh)" using pos assms(4) by simp
  show "R div ft * (fh - fl) = R div ft * (ft - fl) - R div ft * (ft - fh)" by (simp add: algebra_simps)
  show "R div ft * (ft - fh) < R div ft * (ft - fl)" using pos assms(3) by simp
  with le show "R div ft * (ft - fh) < R" by linarith
qed

lemma int_div_bounds:
  assumes "0 < (q :: int)"
  shows "b * q \<le> a \<Longrightarrow> b \<le> a div q" and "a < b * q \<Longrightarrow> a div q < b"
proof -
  show "b * q \<le> a \<Longrightarrow> b \<le> a div q" using zdiv_mono1 [of "b * q" a q] assms by simp
  have "b * q \<le> a" if "b \<le> a div q"
    using mult_right_mono [OF that, of q] assms div_mult_mod_eq [of a q] pos_mod_sign [OF assms, of a]
    by linarith
  then show "a < b * q \<Longrightarrow> a div q < b" by force
qed

text \<open>The decoder of a symbol that occupies \<open>[fl, fh)\<close> of \<open>ft\<close>: its look-up must land there.\<close>

definition dec_symbol :: "int \<Rightarrow> int \<Rightarrow> int \<Rightarrow> ec_ctx \<Rightarrow> (unit \<times> ec_ctx) option" where
  "dec_symbol fl fh ft d =
     (let (s, d1) = ec_decode ft d
      in if fl \<le> s \<and> s < fh then map_option (Pair ()) (ec_dec_update fl fh ft d1) else None)"

definition enc_low :: "int \<Rightarrow> int \<Rightarrow> ec_ctx \<Rightarrow> int" where
  "enc_low fl ft c = (if fl > 0 then ec_rng c - ec_rng c div ft * (ft - fl) else 0)"

definition enc_width :: "int \<Rightarrow> int \<Rightarrow> int \<Rightarrow> ec_ctx \<Rightarrow> int" where
  "enc_width fl fh ft c = (if fl > 0 then ec_rng c div ft * (fh - fl) else ec_rng c - ec_rng c div ft * (ft - fh))"

lemma enc_narrow:
  assumes "alive c" and "0 \<le> fl" and "fl < fh" and "fh \<le> ft" and "ft \<le> 8388608"
  shows "0 \<le> enc_low fl ft c" and "0 < enc_width fl fh ft c"
    and "enc_low fl ft c + enc_width fl fh ft c = ec_rng c - ec_rng c div ft * (ft - fh)"
    and "enc_low fl ft c + enc_width fl fh ft c \<le> ec_rng c"
proof -
  have "EC_CODE_BOT < ec_rng c" using assms(1) by (simp add: alive_def)
  note u = unit_bounds [OF this assms(2-5)]
  show "0 \<le> enc_low fl ft c" "0 < enc_width fl fh ft c"
    "enc_low fl ft c + enc_width fl fh ft c = ec_rng c - ec_rng c div ft * (ft - fh)"
    "enc_low fl ft c + enc_width fl fh ft c \<le> ec_rng c"
    unfolding enc_low_def enc_width_def using u by (auto simp: algebra_simps split: if_splits)
qed

lemma ec_encode_width:
  assumes "alive c" and "0 \<le> fl" and "fl < fh" and "fh \<le> ft" and "ft \<le> 8388608"
  shows "ec_encode fl fh ft c = ec_enc_normalize (c\<lparr>
    ec_val := if fl > 0 then u32w (ec_val c + enc_low fl ft c) else ec_val c,
    ec_rng := enc_width fl fh ft c\<rparr>)"
proof -
  have "u32w (enc_width fl fh ft c) = enc_width fl fh ft c"
    using enc_narrow [OF assms] assms(1) by (intro u32w_id) (auto simp: alive_def ec_const)
  moreover have "c\<lparr>ec_val := ec_val c, ec_rng := w\<rparr> = c\<lparr>ec_rng := w\<rparr>" for w by (cases c) simp
  ultimately show ?thesis
    by (cases "fl > 0") (simp_all add: ec_encode_def enc_range_def enc_low_def enc_width_def)
qed

lemma ec_encode_narrow:
  assumes "ready c" and "0 \<le> fl" and "fl < fh" and "fh \<le> ft" and "ft \<le> 8388608"
  shows "ec_encode fl fh ft c = ec_enc_normalize
    (c\<lparr>ec_val := ec_val c + enc_low fl ft c, ec_rng := enc_width fl fh ft c\<rparr>)"
proof -
  have alive: "alive c" using assms(1) by (simp add: ready_def)
  have "u32w (ec_val c + enc_low fl ft c) = ec_val c + enc_low fl ft c"
    using enc_narrow [OF alive assms(2-5)] assms(1) by (intro u32w_id) (auto simp: ready_def enc_inv_def)
  then show ?thesis
    by (cases "fl > 0") (simp_all add: ec_encode_width [OF alive assms(2-5)] enc_low_def)
qed

lemma dec_symbol_narrow:
  assumes "alive c" and "0 \<le> fl" and "fl < fh" and "fh \<le> ft" and "ft \<le> 8388608" and "sync buf c d"
    and "enc_low fl ft c \<le> ec_rng c - 1 - ec_val d"
    and "ec_rng c - 1 - ec_val d < enc_low fl ft c + enc_width fl fh ft c"
  shows "dec_symbol fl fh ft d = map_option (Pair ()) (ec_dec_normalize
      (d\<lparr>ec_val := ec_val d - (ec_rng c - enc_low fl ft c - enc_width fl fh ft c),
         ec_rng := enc_width fl fh ft c, ec_ext := ec_rng c div ft\<rparr>))"
proof -
  let ?r = "ec_rng c div ft" and ?D = "ec_val d"
  have bot: "EC_CODE_BOT < ec_rng c" and top: "ec_rng c \<le> 2147483648"
    using assms(1) by (simp_all add: alive_def ec_const)
  note u = unit_bounds [OF bot assms(2-5)]
  note n = enc_narrow [OF assms(1-5)]
  have rng: "ec_rng d = ec_rng c" using assms(6) by (simp add: sync_def)
  have lo: "?r * (ft - fh) \<le> ?D" and hi: "fl > 0 \<Longrightarrow> ?D < ?r * (ft - fl)"
    using assms(7,8) n(3) by (auto simp: enc_low_def)
  have D: "0 \<le> ?D" "?D < 2147483648" using lo u(3) assms(7) n(1) top by linarith+
  have "ft - fh \<le> ?D div ?r" using lo int_div_bounds(1) [OF u(1)] by (simp add: ac_simps)
  moreover have "?D div ?r < ft - fl" if "fl > 0"
    using hi [OF that] int_div_bounds(2) [OF u(1)] by (simp add: ac_simps)
  ultimately have "fl \<le> ft - min (?D div ?r + 1) ft" "ft - min (?D div ?r + 1) ft < fh"
    using assms(2-4) by (cases "fl > 0", auto simp: min_def)+
  then have dec: "dec_symbol fl fh ft d
      = map_option (Pair ()) (ec_dec_update fl fh ft (d\<lparr>ec_ext := ?r\<rparr>))"
    by (simp add: dec_symbol_def ec_decode_def rng Let_def)
  have val: "u32w (?D - ?r * (ft - fh)) = ?D - (ec_rng c - enc_low fl ft c - enc_width fl fh ft c)"
    using lo D u(3) n(3) by (subst u32w_id) auto
  have width: "(if fl > 0 then u32w (?r * (fh - fl)) else u32w (ec_rng c - ?r * (ft - fh)))
      = enc_width fl fh ft c"
    using n(1,2,4) top by (auto simp: enc_width_def intro!: u32w_id)
  have "ec_dec_update fl fh ft (d\<lparr>ec_ext := ?r\<rparr>) = ec_dec_normalize (d\<lparr>ec_ext := ?r,
      ec_val := ?D - (ec_rng c - enc_low fl ft c - enc_width fl fh ft c), ec_rng := enc_width fl fh ft c\<rparr>)"
    using width by (cases "fl > 0") (simp_all add: ec_dec_update_def Let_def rng val)
  moreover have "d\<lparr>ec_ext := e, ec_val := v, ec_rng := b\<rparr> = d\<lparr>ec_val := v, ec_rng := b, ec_ext := e\<rparr>" for e v b
    by (cases d) simp
  ultimately show ?thesis by (simp add: dec)
qed

text \<open>\<open>ec_encode\<close> and any decoder that finds its symbol there and narrows its range likewise.\<close>

lemma encode_lockstep:
  assumes "0 \<le> fl" and "fl < fh" and "fh \<le> ft" and "ft \<le> 8388608"
    and "\<And>c buf d. alive c \<Longrightarrow> sync buf c d \<Longrightarrow> enc_low fl ft c \<le> ec_rng c - 1 - ec_val d \<Longrightarrow>
      ec_rng c - 1 - ec_val d < enc_low fl ft c + enc_width fl fh ft c \<Longrightarrow>
      \<exists>e. g d = map_option (Pair v) (ec_dec_normalize
        (d\<lparr>ec_val := ec_val d - (ec_rng c - enc_low fl ft c - enc_width fl fh ft c),
           ec_rng := enc_width fl fh ft c, ec_ext := e\<rparr>))"
  shows "lockstep (ec_encode fl fh ft) g v"
  unfolding lockstep_def
proof (intro conjI allI impI)
  fix c assume alive: "alive c"
  then show "\<exists>c'. ec_encode fl fh ft c = Some c' \<and> alive c'"
    unfolding ec_encode_width [OF alive assms(1-4)] using enc_narrow [OF alive assms(1-4)]
    by (intro enc_normalize_total) (auto simp: alive_def)
next
  fix c c' assume "ec_encode fl fh ft c = Some c'" "ec_error c' = 0"
  then show "ec_error c = 0" using normalize_error
    by (cases "fl > 0") (fastforce simp: ec_encode_def enc_range_def)+
next
  fix c c' assume ready: "ready c" and enc: "ec_encode fl fh ft c = Some c'" and err: "ec_error c' = 0"
  then have alive: "alive c" by (simp add: ready_def)
  note n = enc_narrow [OF alive assms(1-4)]
  show "follows c c' g v"
  proof (rule narrow [OF ready n(1,2,4) _ err])
    show "ec_enc_normalize (c\<lparr>ec_val := ec_val c + enc_low fl ft c, ec_rng := enc_width fl fh ft c\<rparr>) = Some c'"
      using enc by (simp add: ec_encode_narrow [OF ready assms(1-4)])
  qed (rule assms(5) [OF alive])
qed

lemma symbol_lockstep:
  assumes "0 \<le> fl" and "fl < fh" and "fh \<le> ft" and "ft \<le> 8388608"
  shows "lockstep (ec_encode fl fh ft) (dec_symbol fl fh ft) ()"
  using dec_symbol_narrow [OF _ assms] by (intro encode_lockstep [OF assms]) blast

end
