(* ===== verification/Range_Raw.thy ===== *)
theory Range_Raw
  imports Range_Coding
begin

text \<open>
  The raw bits of a packet, written from its back: what the encoder puts out is one little-endian
  number that grows at its high end, and the decoder's window is the next piece of the number that
  the received buffer is. \<open>bits_lockstep\<close> is the law of \<open>ec_enc_bits\<close> and \<open>ec_dec_bits\<close>.
\<close>

unbundle bit_operations_syntax

section \<open>Raw bits\<close>

lemma digits_num_Cons: "digits_num (d # ds) = d * 256 ^ length ds + digits_num ds"
  by (induction ds rule: rev_induct) (simp_all add: algebra_simps flip: append_Cons)

lemma digits_num_bounds:
  "(\<And>d. d \<in> set ds \<Longrightarrow> 0 \<le> d \<and> d < 256) \<Longrightarrow> 0 \<le> digits_num ds \<and> digits_num ds < 256 ^ length ds"
proof (induction ds rule: rev_induct)
  case (snoc d ds)
  then have "0 \<le> digits_num ds" "digits_num ds + 1 \<le> 256 ^ length ds" "0 \<le> d" "d < 256"
    by fastforce+
  then show ?case by simp
qed simp

lemma bytes_num_bounds: "0 \<le> digits_num (map uint (bs :: u8 list))" "digits_num (map uint bs) < 256 ^ length bs"
  using digits_num_bounds [of "map uint bs"] uint_bounded [where 'a = 8] by force+

lemma pow256: "(256 :: int) ^ n = 2 ^ (8 * n)"
  by (simp add: power_mult)

text \<open>The raw bits put out, with \<open>w\<close> as the bits that wait.\<close>

definition raw_at :: "ec_ctx \<Rightarrow> int \<Rightarrow> int" where
  "raw_at c w = digits_num (map uint (drop (ec_storage c - ec_end_offs c) (ec_buf c))) + w * 2 ^ (8 * ec_end_offs c)"

lemma raw_num_at: "raw_num c = raw_at c (ec_end_window c)"
  by (simp add: raw_num_def raw_at_def)

text \<open>\<open>c'\<close> is \<open>c\<close> with more bytes at the back.\<close>

definition backed :: "ec_ctx \<Rightarrow> ec_ctx \<Rightarrow> bool" where
  "backed c c' = (c' = c\<lparr>ec_buf := ec_buf c', ec_end_offs := ec_end_offs c'\<rparr>
     \<and> front c' = front c \<and> buf_ok c')"

lemma backed_state:
  assumes "backed c c'"
  shows "ec_storage c' = ec_storage c" "ec_offs c' = ec_offs c" "ec_rng c' = ec_rng c" "ec_val c' = ec_val c"
    "ec_ext c' = ec_ext c" "ec_rem c' = ec_rem c" "ec_error c' = ec_error c"
    "ec_end_window c' = ec_end_window c" "ec_nend_bits c' = ec_nend_bits c"
    "ec_nbits_total c' = ec_nbits_total c" "front c' = front c" "buf_ok c'"
proof -
  have "c' = c\<lparr>ec_buf := ec_buf c', ec_end_offs := ec_end_offs c'\<rparr>" using assms by (simp add: backed_def)
  then show "ec_storage c' = ec_storage c" "ec_offs c' = ec_offs c" "ec_rng c' = ec_rng c" "ec_val c' = ec_val c"
    "ec_ext c' = ec_ext c" "ec_rem c' = ec_rem c" "ec_error c' = ec_error c"
    "ec_end_window c' = ec_end_window c" "ec_nend_bits c' = ec_nend_bits c"
    "ec_nbits_total c' = ec_nbits_total c" by (cases c, cases c', simp)+
  show "front c' = front c" "buf_ok c'" using assms by (simp_all add: backed_def)
qed

lemma backed_refl: "buf_ok c \<Longrightarrow> backed c c"
  by (simp add: backed_def)

lemma backed_trans: "backed c c' \<Longrightarrow> backed c' c'' \<Longrightarrow> backed c c''"
  unfolding backed_def by (cases c, cases c', cases c'') auto

lemma put_end_error: "ec_error (or_error (ec_write_byte_at_end v c)) = 0 \<Longrightarrow> ec_error c = 0"
  by (simp add: or_error_def ec_write_byte_at_end_def split: if_splits)

lemma put_end:
  assumes "buf_ok c" and "ec_error (or_error (ec_write_byte_at_end (w mod 256) c)) = 0"
  defines "c' \<equiv> or_error (ec_write_byte_at_end (w mod 256) c)"
  shows "backed c c'" and "ec_end_offs c' = Suc (ec_end_offs c)" and "raw_at c' (w div 256) = raw_at c w"
proof -
  let ?i = "ec_storage c - Suc (ec_end_offs c)" and ?b = "word_of_int (w mod 256) :: u8"
  have room: "ec_offs c + ec_end_offs c < ec_storage c" and err: "ec_error c = 0"
    using assms(2) by (auto simp: or_error_def ec_write_byte_at_end_def split: if_splits)
  have len: "length (ec_buf c) = ec_storage c" using assms(1) by (simp add: buf_ok_def)
  have c': "c' = c\<lparr>ec_buf := (ec_buf c)[?i := ?b], ec_end_offs := Suc (ec_end_offs c)\<rparr>"
    using room err unfolding c'_def by (cases c) (simp add: or_error_def ec_write_byte_at_end_def)
  show "backed c c'" using room assms(1) by (simp add: backed_def c' front_def buf_ok_def)
  show "ec_end_offs c' = Suc (ec_end_offs c)" by (simp add: c')
  have "drop ?i ((ec_buf c)[?i := ?b]) = ?b # drop (Suc ?i) (ec_buf c)"
    using room len by (simp add: drop_update_swap Cons_nth_drop_Suc [symmetric])
  moreover have "Suc ?i = ec_storage c - ec_end_offs c" using room by simp
  ultimately have "raw_at c' (w div 256) = (w mod 256) * 256 ^ ec_end_offs c
      + digits_num (map uint (drop (ec_storage c - ec_end_offs c) (ec_buf c))) + w div 256 * 256 ^ Suc (ec_end_offs c)"
    using room len by (simp add: raw_at_def c' digits_num_Cons uint_word_of_int pow256 power_add)
  also have "\<dots> = raw_at c w"
  proof -
    have "m * p + s + k * (p * 256) = s + (k * 256 + m) * p" for m p k s :: int by (simp add: algebra_simps)
    from this [of "w mod 256" "256 ^ ec_end_offs c" _ "w div 256"]
    show ?thesis by (simp only: raw_at_def pow256 [symmetric] power_Suc2 div_mult_mod_eq)
  qed
  finally show "raw_at c' (w div 256) = raw_at c w" .
qed

lemma flush_window_error: "ec_error (snd (snd (flush_window c w u))) = 0 \<Longrightarrow> ec_error c = 0"
  by (induction c w u rule: flush_window.induct, subst (asm) (2) flush_window.simps)
    (auto dest: put_end_error split: if_splits)

lemma ec_enc_bits_error: "ec_error (ec_enc_bits fl bits c) = 0 \<Longrightarrow> ec_error c = 0"
  by (auto simp: ec_enc_bits_def split_beta split: if_splits dest!: flush_window_error put_end_error)

lemma flush_window:
  assumes "flush_window c w u = (w', u', c')" and "ec_error c' = 0" and "buf_ok c" and "0 \<le> u"
    and "0 \<le> w" and "w < 2 ^ nat u"
  shows "backed c c' \<and> raw_at c' w' = raw_at c w
    \<and> 8 * ec_end_offs c' + nat u' = 8 * ec_end_offs c + nat u
    \<and> 0 \<le> u' \<and> u' < 8 \<and> 0 \<le> w' \<and> w' < 2 ^ nat u'"
  using assms
proof (induction c w u arbitrary: w' u' c' rule: flush_window.induct)
  case (1 c w u)
  show ?case
  proof (cases "8 \<le> u")
    case True
    let ?c = "or_error (ec_write_byte_at_end (w mod 256) c)"
    have rec: "flush_window ?c (w div 256) (u - 8) = (w', u', c')"
      using 1(2) True by (subst (asm) flush_window.simps) (simp add: ec_const and_255)
    have "ec_error ?c = 0" using rec 1(3) flush_window_error [of ?c "w div 256" "u - 8"] by simp
    note put = put_end [OF 1(4) this]
    have "(2 :: int) ^ nat u = 2 ^ nat (u - 8) * 256"
      using True power_add [of "2 :: int" "nat (u - 8)" 8] by (simp add: nat_diff_distrib)
    then have "w div 256 < 2 ^ nat (u - 8)" using 1(7) int_div_bounds(2) [of 256] by simp
    from 1(1) [of w' u' c'] rec 1(3,6) True put(1) this
    have "backed ?c c' \<and> raw_at c' w' = raw_at ?c (w div 256)
      \<and> 8 * ec_end_offs c' + nat u' = 8 * ec_end_offs ?c + nat (u - 8)
      \<and> 0 \<le> u' \<and> u' < 8 \<and> 0 \<le> w' \<and> w' < 2 ^ nat u'"
      by (simp add: ec_const and_255 backed_state)
    with put True show ?thesis by (auto intro: backed_trans simp: nat_diff_distrib)
  next
    case False
    with 1 show ?thesis
      by (subst (asm) flush_window.simps) (auto simp: ec_const backed_refl)
  qed
qed

lemma raw_num_bounds:
  assumes "enc_inv c"
  shows "0 \<le> raw_num c" and "raw_num c < 2 ^ raw_len c"
proof -
  let ?bs = "drop (ec_storage c - ec_end_offs c) (ec_buf c)"
  have len: "length ?bs = ec_end_offs c" using assms by (simp add: enc_inv_def buf_ok_def)
  note b = bytes_num_bounds [of ?bs, unfolded len]
  have w: "0 \<le> ec_end_window c" "ec_end_window c + 1 \<le> 2 ^ nat (ec_nend_bits c)"
    using assms by (simp_all add: enc_inv_def)
  show "0 \<le> raw_num c" using b w by (simp add: raw_num_def)
  have "raw_num c < (ec_end_window c + 1) * 2 ^ (8 * ec_end_offs c)"
    using b(2) by (simp add: raw_num_def pow256 [symmetric] distrib_right)
  also have "\<dots> \<le> 2 ^ nat (ec_nend_bits c) * 2 ^ (8 * ec_end_offs c)"
    using w by (intro mult_right_mono) simp_all
  finally show "raw_num c < 2 ^ raw_len c" by (simp add: raw_len_def power_add mult.commute)
qed

lemma ec_enc_bits_add:
  assumes "enc_inv c" and "0 < bits" and "bits \<le> 25" and "0 \<le> fl" and "fl < 2 ^ bits"
    and "ec_error (ec_enc_bits fl bits c) = 0"
  shows "ec_error c = 0" and "enc_inv (ec_enc_bits fl bits c)" and "digits (ec_enc_bits fl bits c) = digits c"
    and "low (ec_enc_bits fl bits c) = low c" and "ec_rng (ec_enc_bits fl bits c) = ec_rng c"
    and "ec_nbits_total (ec_enc_bits fl bits c) = ec_nbits_total c + int bits"
    and "raw_len (ec_enc_bits fl bits c) = raw_len c + bits"
    and "raw_num (ec_enc_bits fl bits c) = raw_num c + fl * 2 ^ raw_len c"
proof -
  obtain w u c1 where flush: "(if ec_nend_bits c + int bits > 32
      then flush_window c (ec_end_window c) (ec_nend_bits c)
      else (ec_end_window c, ec_nend_bits c, c)) = (w, u, c1)" by (rule prod_cases3)
  have "flush_window c (ec_end_window c) (ec_nend_bits c)
      = flush_window (or_error (ec_write_byte_at_end (ec_end_window c AND 255) c))
          (ec_end_window c div 256) (ec_nend_bits c - 8)" if "ec_nend_bits c + int bits > 32"
    using that assms(3) by (subst flush_window.simps) (simp add: ec_const)
  then have "ec_enc_bits fl bits c = (case (if ec_nend_bits c + int bits > 32
        then flush_window c (ec_end_window c) (ec_nend_bits c)
        else (ec_end_window c, ec_nend_bits c, c)) of (w, u, c1) \<Rightarrow>
      c1\<lparr>ec_end_window := w OR u32w (fl * 2 ^ nat u),
        ec_nend_bits := u + int bits, ec_nbits_total := ec_nbits_total c1 + int bits\<rparr>)"
    by (simp add: ec_enc_bits_def ec_const)
  then have res: "ec_enc_bits fl bits c = c1\<lparr>ec_end_window := w OR u32w (fl * 2 ^ nat u),
      ec_nend_bits := u + int bits, ec_nbits_total := ec_nbits_total c1 + int bits\<rparr>"
    by (simp only: flush prod.case)
  have ok: "buf_ok c" "0 \<le> ec_nend_bits c" "ec_nend_bits c \<le> 32" "0 \<le> ec_end_window c"
    "ec_end_window c < 2 ^ nat (ec_nend_bits c)" using assms(1) by (simp_all add: enc_inv_def)
  have "backed c c1 \<and> raw_at c1 w = raw_num c \<and> 8 * ec_end_offs c1 + nat u = raw_len c
      \<and> 0 \<le> u \<and> u + int bits \<le> 32 \<and> 0 \<le> w \<and> w < 2 ^ nat u"
  proof (cases "ec_nend_bits c + int bits > 32")
    case True
    with flush have f: "flush_window c (ec_end_window c) (ec_nend_bits c) = (w, u, c1)" by simp
    moreover have "ec_error c1 = 0" using assms(6) by (simp add: res)
    ultimately show ?thesis using flush_window [OF f _ ok(1,2,4,5)] assms(3)
      by (auto simp: raw_num_at raw_len_def)
  next
    case False
    with flush have "w = ec_end_window c" "u = ec_nend_bits c" "c1 = c" by auto
    with False ok show ?thesis by (simp add: backed_refl raw_num_at raw_len_def)
  qed
  then have b: "backed c c1" and raw: "raw_at c1 w = raw_num c" "8 * ec_end_offs c1 + nat u = raw_len c"
    and u: "0 \<le> u" "u + int bits \<le> 32" and w: "0 \<le> w" "w < 2 ^ nat u" by blast+
  note st = backed_state [OF b]
  show err: "ec_error c = 0" using assms(6) by (simp add: res st)
  have sum: "fl * 2 ^ nat u + 2 ^ nat u \<le> 2 ^ nat (u + int bits)"
  proof -
    have "(fl + 1) * 2 ^ nat u \<le> 2 ^ bits * 2 ^ nat u" using assms(5) by (intro mult_right_mono) simp_all
    then show ?thesis using u(1) by (simp add: nat_add_distrib power_add distrib_right mult.commute)
  qed
  moreover have "(2 :: int) ^ nat (u + int bits) \<le> 4294967296"
    using power_increasing [of "nat (u + int bits)" 32 "2 :: int"] u by simp
  moreover have "(0 :: int) < 2 ^ nat u" by simp
  ultimately have small: "fl * 2 ^ nat u < 4294967296" by linarith
  then have win: "w OR u32w (fl * 2 ^ nat u) = fl * 2 ^ nat u + w"
    using or_low [of w "nat u" fl] w assms(4) by (simp add: u32w_id or.commute)
  let ?r = "ec_enc_bits fl bits c"
  have "digits ?r = digits c1" by (simp add: res digits_def front_def)
  then show digits: "digits ?r = digits c" by (simp add: digits_def st)
  then show "low ?r = low c" by (simp add: low_def) (simp add: res st)
  show "ec_rng ?r = ec_rng c" "ec_nbits_total ?r = ec_nbits_total c + int bits" by (simp_all add: res st)
  show "raw_len ?r = raw_len c + bits" using raw(2) u(1) by (simp add: res raw_len_def nat_add_distrib)
  have "raw_num ?r = raw_at c1 w + fl * (2 ^ nat u * 2 ^ (8 * ec_end_offs c1))"
    by (simp add: raw_num_at res win) (simp add: raw_at_def distrib_right)
  also have "(2 :: int) ^ nat u * 2 ^ (8 * ec_end_offs c1) = 2 ^ raw_len c"
    by (simp add: raw(2) [symmetric] power_add)
  finally show "raw_num ?r = raw_num c + fl * 2 ^ raw_len c" by (simp add: raw(1))
  have "buf_ok ?r" "carry_safe ?r = carry_safe c"
    using st by (simp_all add: res buf_ok_def carry_safe_def)
  moreover have "0 \<le> fl * 2 ^ nat u + w" "fl * 2 ^ nat u + w < 2 ^ nat (u + int bits)"
    using w assms(4) sum by simp_all
  ultimately show "enc_inv ?r" using assms(1) u
    by (simp add: enc_inv_def) (simp add: res st win)
qed


text \<open>The decoder's window: the next bits of the number that the buffer is, read from its end.\<close>

definition window_ok :: "u8 list \<Rightarrow> nat \<Rightarrow> ec_ctx \<Rightarrow> int \<Rightarrow> int \<Rightarrow> bool" where
  "window_ok buf len d w a = (ec_buf d = buf \<and> ec_storage d = length buf \<and> 0 \<le> a
     \<and> (\<exists>n. ec_end_offs d = min n (length buf) \<and> 8 * n = len + nat a)
     \<and> w = digits_num (map uint buf) div 2 ^ len mod 2 ^ nat a)"

lemma digits_num_byte:
  "digits_num (map uint (bs :: u8 list)) div 256 ^ n mod 256
    = (if n < length bs then uint (bs ! (length bs - Suc n)) else 0)"
proof (induction bs arbitrary: n rule: rev_induct)
  case (snoc b bs)
  have b: "0 \<le> uint b" "uint b < 256" using uint_bounded [of b] by simp_all
  show ?case
  proof (cases n)
    case (Suc m)
    have "(digits_num (map uint bs) * 256 + uint b) div 256 = digits_num (map uint bs)" using b by simp
    then have "(digits_num (map uint bs) * 256 + uint b) div 256 ^ n = digits_num (map uint bs) div 256 ^ m"
      by (simp add: Suc zdiv_zmult2_eq)
    then show ?thesis using snoc [of m] by (cases "m < length bs") (auto simp: Suc nth_append)
  qed (use b in simp)
qed simp

lemma read_end:
  assumes "window_ok buf len d w a" and "a \<le> 24"
  shows "\<exists>e. ec_read_byte_from_end d
    = (digits_num (map uint buf) div 2 ^ (len + nat a) mod 256, d\<lparr>ec_end_offs := e\<rparr>)
    \<and> window_ok buf len (d\<lparr>ec_end_offs := e\<rparr>)
        (w OR u32w (digits_num (map uint buf) div 2 ^ (len + nat a) mod 256 * 2 ^ nat a)) (a + 8)"
proof -
  let ?Z = "digits_num (map uint buf)"
  let ?b = "?Z div 2 ^ (len + nat a) mod 256"
  obtain n where n: "ec_end_offs d = min n (length buf)" "8 * n = len + nat a"
    using assms(1) by (auto simp: window_ok_def)
  have d: "ec_buf d = buf" "ec_storage d = length buf" "0 \<le> a" "w = ?Z div 2 ^ len mod 2 ^ nat a"
    using assms(1) by (simp_all add: window_ok_def)
  have "(2 :: int) ^ (len + nat a) = 256 ^ n" by (simp add: n(2) [symmetric] power_mult)
  then have b: "?b = (if n < length buf then uint (buf ! (length buf - Suc n)) else 0)"
    by (simp add: digits_num_byte)
  let ?e = "min (Suc n) (length buf)"
  have "ec_read_byte_from_end d = (?b, d\<lparr>ec_end_offs := ?e\<rparr>)"
    unfolding b using n(1) d(1,2) by (cases d) (auto simp: ec_read_byte_from_end_def min_def)
  moreover have "w OR u32w (?b * 2 ^ nat a) = ?Z div 2 ^ len mod 2 ^ nat (a + 8)"
  proof -
    have w: "0 \<le> w" "w < 2 ^ nat a" by (simp_all add: d(4))
    have "(2 :: int) ^ nat a \<le> 2 ^ 24" using assms(2) by (intro power_increasing) auto
    moreover have "0 \<le> ?b" "?b \<le> 255" by (simp, use pos_mod_bound [of 256 "?Z div 2 ^ (len + nat a)"] in linarith)
    ultimately have "0 \<le> ?b * 2 ^ nat a" "?b * 2 ^ nat a \<le> 255 * 2 ^ 24" by (simp, intro mult_mono) simp_all
    then have "w OR u32w (?b * 2 ^ nat a) = ?b * 2 ^ nat a + w"
      using or_low [OF w, of ?b] by (simp add: u32w_id or.commute)
    also have "\<dots> = ?Z div 2 ^ len mod (2 ^ nat a * 256)"
      by (simp add: d(4) zmod_zmult2_eq mult.commute power_add zdiv_zmult2_eq)
    also have "(2 :: int) ^ nat a * 256 = 2 ^ nat (a + 8)"
      using d(3) by (simp add: nat_add_distrib power_add)
    finally show ?thesis .
  qed
  moreover have "8 * Suc n = len + nat (a + 8)" using n(2) d(3) by simp
  ultimately show ?thesis using d
    by (intro exI [of _ ?e] conjI) (auto simp: window_ok_def intro!: exI [of _ "Suc n"])
qed

lemma fill_window:
  assumes "window_ok buf len d w a" and "a \<le> 24"
  shows "\<exists>w' a' e. fill_window d w a = (w', a', d\<lparr>ec_end_offs := e\<rparr>)
    \<and> window_ok buf len (d\<lparr>ec_end_offs := e\<rparr>) w' a' \<and> 24 < a'"
  using assms
proof (induction d w a rule: fill_window.induct)
  case (1 d w a)
  let ?b = "digits_num (map uint buf) div 2 ^ (len + nat a) mod 256"
  obtain e where read: "ec_read_byte_from_end d = (?b, d\<lparr>ec_end_offs := e\<rparr>)"
    and ok: "window_ok buf len (d\<lparr>ec_end_offs := e\<rparr>) (w OR u32w (?b * 2 ^ nat a)) (a + 8)"
    using read_end [OF 1(2,3)] by blast
  show ?case
  proof (cases "a + 8 \<le> 24")
    case True
    from 1(1) [OF refl read [symmetric] refl refl] ok True obtain w' a' e' where "fill_window (d\<lparr>ec_end_offs := e\<rparr>) (w OR u32w (?b * 2 ^ nat a)) (a + 8)
        = (w', a', d\<lparr>ec_end_offs := e'\<rparr>)" "window_ok buf len (d\<lparr>ec_end_offs := e'\<rparr>) w' a'" "24 < a'"
      by (auto simp: ec_const)
    with read True show ?thesis by (subst fill_window.simps) (auto simp: ec_const)
  next
    case False
    with read ok show ?thesis by (subst fill_window.simps) (auto simp: ec_const)
  qed
qed


lemma ec_dec_bits_next:
  assumes "window_ok buf len d (ec_end_window d) (ec_nend_bits d)" and "bits \<le> 25"
  shows "\<exists>d'. ec_dec_bits bits d = (digits_num (map uint buf) div 2 ^ len mod 2 ^ bits, d')
    \<and> window_ok buf (len + bits) d' (ec_end_window d') (ec_nend_bits d')
    \<and> ec_rng d' = ec_rng d \<and> ec_val d' = ec_val d \<and> ec_rem d' = ec_rem d \<and> ec_offs d' = ec_offs d
    \<and> ec_error d' = ec_error d \<and> ec_nbits_total d' = ec_nbits_total d + int bits"
proof -
  let ?Z = "digits_num (map uint buf)"
  obtain w a e where fill: "(if ec_nend_bits d < int bits then fill_window d (ec_end_window d) (ec_nend_bits d)
      else (ec_end_window d, ec_nend_bits d, d)) = (w, a, d\<lparr>ec_end_offs := e\<rparr>)"
    and ok: "window_ok buf len (d\<lparr>ec_end_offs := e\<rparr>) w a" and a: "int bits \<le> a"
  proof (cases "ec_nend_bits d < int bits")
    case True
    then have "ec_nend_bits d \<le> 24" using assms(2) by simp
    from fill_window [OF assms(1) this] True assms(2) show thesis by (auto intro: that)
  next
    case False
    have "d\<lparr>ec_end_offs := ec_end_offs d\<rparr> = d" by (cases d) simp
    with False assms(1) show thesis using that [of "ec_end_window d" "ec_nend_bits d" "ec_end_offs d"] by simp
  qed
  let ?d = "d\<lparr>ec_end_offs := e, ec_end_window := w div 2 ^ bits, ec_nend_bits := a - int bits,
      ec_nbits_total := ec_nbits_total d + int bits\<rparr>"
  have w: "w = ?Z div 2 ^ len mod 2 ^ nat a" using ok by (simp add: window_ok_def)
  have split: "nat a = bits + nat (a - int bits)" using a by simp
  have "?Z div 2 ^ len mod 2 ^ nat a mod 2 ^ bits = ?Z div 2 ^ len mod 2 ^ bits"
    by (simp add: split mod_mod_cancel le_imp_power_dvd del: add_diff_inverse_nat)
  moreover have "ec_dec_bits bits d = (w AND (2 ^ bits - 1), ?d)"
    unfolding ec_dec_bits_def fill Let_def prod.case by simp
  ultimately have "ec_dec_bits bits d = (?Z div 2 ^ len mod 2 ^ bits, ?d)"
    by (simp only: and_exp_minus_1 w)
  moreover have "w div 2 ^ bits = ?Z div 2 ^ (len + bits) mod 2 ^ nat (a - int bits)"
  proof -
    have "w = ?Z div 2 ^ len mod (2 ^ bits * 2 ^ nat (a - int bits))"
      unfolding w by (subst split) (simp add: power_add)
    then show ?thesis by (simp add: zmod_zmult2_eq power_add zdiv_zmult2_eq)
  qed
  moreover have "len + nat a = len + bits + nat (a - int bits)" using split by linarith
  ultimately show ?thesis using ok a
    by (intro exI [of _ ?d]) (auto simp: window_ok_def)
qed

lemma sync_window:
  "sync buf c d \<Longrightarrow> window_ok buf (raw_len c) d (ec_end_window d) (ec_nend_bits d)"
  by (auto simp: sync_def window_ok_def)

lemma bits_lockstep:
  assumes "0 < bits" and "bits \<le> 25" and "0 \<le> fl" and "fl < 2 ^ bits"
  shows "lockstep (\<lambda>c. Some (ec_enc_bits fl bits c)) (\<lambda>d. Some (ec_dec_bits bits d)) fl"
  unfolding lockstep_def
proof (intro conjI allI impI)
  fix c assume "alive c"
  moreover have "ec_rng (snd (snd (flush_window c w u))) = ec_rng c" for w u c
    by (induction c w u rule: flush_window.induct, subst flush_window.simps)
      (auto simp: or_error_def ec_write_byte_at_end_def)
  ultimately show "\<exists>c'. Some (ec_enc_bits fl bits c) = Some c' \<and> alive c'"
    by (auto simp: alive_def ec_enc_bits_def split_beta or_error_def ec_write_byte_at_end_def)
next
  fix c c' assume "Some (ec_enc_bits fl bits c) = Some c'" and "ec_error c' = 0"
  then show "ec_error c = 0" using ec_enc_bits_error by auto
next
  fix c c' assume "ready c" and "Some (ec_enc_bits fl bits c) = Some c'" and "ec_error c' = 0"
  then have inv: "enc_inv c" "alive c" and c': "c' = ec_enc_bits fl bits c" "ec_error (ec_enc_bits fl bits c) = 0"
    by (auto simp: ready_def)
  note add = ec_enc_bits_add [OF inv(1) assms c'(2), folded c'(1)]
  show "follows c c' (\<lambda>d. Some (ec_dec_bits bits d)) fl" unfolding follows_def
  proof (intro conjI allI impI)
    show "ec_error c = 0" by (rule add(1))
    show "ready c'" using add inv(2) by (simp add: ready_def alive_def)
    fix buf assume h: "holds buf c'"
    let ?Z = "digits_num (map uint buf)" and ?p = "(2 :: int) ^ raw_len c"
    note raw = raw_num_bounds [OF inv(1)]
    have Z: "?Z mod (?p * 2 ^ bits) = raw_num c + fl * ?p"
      using h by (simp add: holds_def add power_add)
    have "?Z mod ?p = ?Z mod (?p * 2 ^ bits) mod ?p" by (simp add: mod_mod_cancel)
    also have "\<dots> = raw_num c" using raw by (simp add: Z)
    finally show held: "holds buf c" using h by (simp add: holds_def add)
    have "?Z div ?p mod 2 ^ bits = ?Z mod (?p * 2 ^ bits) div ?p"
      by (simp add: zmod_zmult2_eq)
    also have "\<dots> = fl" using raw by (simp add: Z)
    finally have fl: "?Z div ?p mod 2 ^ bits = fl" .
    fix d assume d: "sync buf c d"
    from ec_dec_bits_next [OF sync_window [OF d] assms(2)] fl obtain d' where
      "ec_dec_bits bits d = (fl, d')"
      "window_ok buf (raw_len c + bits) d' (ec_end_window d') (ec_nend_bits d')"
      "ec_rng d' = ec_rng d" "ec_val d' = ec_val d" "ec_rem d' = ec_rem d" "ec_offs d' = ec_offs d"
      "ec_error d' = ec_error d" "ec_nbits_total d' = ec_nbits_total d + int bits" by auto
    with d show "\<exists>d'. Some (ec_dec_bits bits d) = Some (fl, d') \<and> sync buf c' d'"
      by (auto simp: sync_def add window_ok_def)
  qed
qed

end
