(* ===== verification/Range_Codec.thy ===== *)
theory Range_Codec
  imports Range_Raw
begin

text \<open>
  The operations of the entropy coder as pairs of an encoder and its decoder: each keeps the two in
  step (\<open>lockstep\<close>), and so does every sequence of them.
\<close>

unbundle bit_operations_syntax

section \<open>Composition\<close>

lemma lockstep_total: "lockstep f g v \<Longrightarrow> alive c \<Longrightarrow> \<exists>c'. f c = Some c' \<and> alive c'"
  and lockstep_follows: "lockstep f g v \<Longrightarrow> ready c \<Longrightarrow> f c = Some c' \<Longrightarrow> ec_error c' = 0 \<Longrightarrow> follows c c' g v"
  unfolding lockstep_def by blast+

lemma lockstep_cong:
  "lockstep f g v \<Longrightarrow> (\<And>c. alive c \<Longrightarrow> f' c = f c) \<Longrightarrow> lockstep f' g v"
  by (simp add: lockstep_def ready_def)

lemma lockstep_decoder:
  "lockstep f g v \<Longrightarrow> (\<And>d d'. g d = Some (v, d') \<Longrightarrow> g' d = Some (v', d')) \<Longrightarrow> lockstep f g' v'"
  unfolding lockstep_def follows_def by blast

lemma lockstep_bind:
  assumes "lockstep f g v" and "lockstep f' (g' v) v'"
  shows "lockstep (\<lambda>c. Option.bind (f c) f') (\<lambda>d. Option.bind (g d) (\<lambda>(v, d). g' v d)) v'"
  unfolding lockstep_def
proof (intro conjI allI impI)
  fix c assume "alive c"
  with assms show "\<exists>c'. Option.bind (f c) f' = Some c' \<and> alive c'"
    unfolding lockstep_def by fastforce
next
  fix c c' assume "alive c" and "Option.bind (f c) f' = Some c'" and "ec_error c' = 0"
  with assms show "ec_error c = 0" unfolding lockstep_def
    by (metis bind_eq_Some_conv option.inject)
next
  fix c c' assume ready: "ready c" and ret: "Option.bind (f c) f' = Some c'" and err: "ec_error c' = 0"
  then obtain c1 where c1: "f c = Some c1" "f' c1 = Some c'" by (auto simp: bind_eq_Some_conv)
  have "alive c1" using assms(1) c1(1) ready by (force simp: lockstep_def ready_def)
  with assms(2) c1(2) err have e1: "ec_error c1 = 0" by (simp add: lockstep_def)
  with assms(1) ready c1 have s1: "follows c c1 g v" by (simp add: lockstep_def)
  then have "ready c1" by (simp add: follows_def)
  with assms(2) c1 err have s2: "follows c1 c' (g' v) v'" by (simp add: lockstep_def)
  show "follows c c' (\<lambda>d. Option.bind (g d) (\<lambda>(v, d). g' v d)) v'"
    using s1 s2 unfolding follows_def by fastforce
qed

lemma lockstep_return: "lockstep Some (\<lambda>d. Some (v, d)) v"
  by (auto simp: lockstep_def follows_def)

section \<open>Bits and tables\<close>

lemma EC_ILOG_pos: "0 < n \<Longrightarrow> 2 ^ (EC_ILOG n - 1) \<le> n \<and> n < 2 ^ EC_ILOG n"
proof (induction n rule: EC_ILOG.induct)
  case (1 n)
  show ?case
  proof (cases "n div 2 = 0")
    case True
    with 1 have "n = 1" by simp
    then show ?thesis by (simp add: EC_ILOG.simps)
  next
    case False
    with 1 have n: "0 < n div 2" by (simp add: pos_imp_zdiv_nonneg_iff order_less_le)
    with 1 have ih: "2 ^ (EC_ILOG (n div 2) - 1) \<le> n div 2" "n div 2 < 2 ^ EC_ILOG (n div 2)" by simp_all
    have "0 < EC_ILOG (n div 2)" using n by (subst EC_ILOG.simps) simp
    then obtain k where k: "EC_ILOG (n div 2) = Suc k" by (cases "EC_ILOG (n div 2)") auto
    have "EC_ILOG n = Suc (Suc k)" using "1.prems" k by (subst EC_ILOG.simps) simp
    moreover have "n div 2 * 2 \<le> n" "n < n div 2 * 2 + 2" by simp_all
    ultimately show ?thesis using ih k by simp
  qed
qed

text \<open>A bit of probability \<open>2^-logp\<close> is a symbol of the power-of-two coder.\<close>

lemma bit_logp_encode:
  assumes alive: "alive c" and "0 < logp" and "logp \<le> 23"
  shows "ec_enc_bit_logp v logp c
    = ec_encode (if v then 2 ^ logp - 1 else 0) (if v then 2 ^ logp else 2 ^ logp - 1) (2 ^ logp) c"
proof -
  let ?ft = "2 ^ logp :: int"
  have ft: "2 \<le> ?ft" using power_increasing [of 1 logp "2 :: int"] assms(2) by simp
  have "ec_rng c div ?ft \<le> ec_rng c" "0 \<le> ec_rng c div ?ft"
    using alive ft zdiv_mono2 [of "ec_rng c" 1 ?ft]
    by (auto simp: alive_def ec_const pos_imp_zdiv_nonneg_iff)
  then have "u32w (ec_rng c div ?ft) = ec_rng c div ?ft"
    "u32w (ec_rng c - ec_rng c div ?ft) = ec_rng c - ec_rng c div ?ft"
    using alive by (auto simp: alive_def ec_const intro!: u32w_id)
  then show ?thesis using ft by (simp add: ec_enc_bit_logp_def ec_encode_def enc_range_def Let_def)
qed

lemma bit_logp_lockstep:
  assumes "0 < logp" and "logp \<le> 23"
  shows "lockstep (ec_enc_bit_logp v logp) (ec_dec_bit_logp logp) v"
proof -
  let ?ft = "2 ^ logp :: int"
  let ?fl = "if v then ?ft - 1 else 0" and ?fh = "if v then ?ft else ?ft - 1"
  have ft: "2 \<le> ?ft" "?ft \<le> 8388608"
    using power_increasing [of 1 logp "2 :: int"] power_increasing [of logp 23 "2 :: int"] assms by simp_all
  then have sym: "0 \<le> ?fl" "?fl < ?fh" "?fh \<le> ?ft" "?ft \<le> 8388608" by auto
  have "lockstep (ec_encode ?fl ?fh ?ft) (ec_dec_bit_logp logp) v"
  proof (rule encode_lockstep [OF sym])
    fix c buf d
    assume "alive c" and d: "sync buf c d" and lo: "enc_low ?fl ?ft c \<le> ec_rng c - 1 - ec_val d"
      and hi: "ec_rng c - 1 - ec_val d < enc_low ?fl ?ft c + enc_width ?fl ?fh ?ft c"
    have rng: "ec_rng d = ec_rng c" using d by (simp add: sync_def)
    have "(ec_val d < ec_rng c div ?ft) = v"
      using lo hi ft by (cases v) (simp_all add: enc_low_def enc_width_def)
    moreover have "d\<lparr>ec_val := ec_val d, ec_rng := w, ec_ext := ec_ext d\<rparr> = d\<lparr>ec_rng := w\<rparr>"
      "d\<lparr>ec_val := x, ec_rng := w, ec_ext := ec_ext d\<rparr> = d\<lparr>ec_val := x, ec_rng := w\<rparr>" for w x
      by (cases d, simp)+
    ultimately show "\<exists>e. ec_dec_bit_logp logp d = map_option (Pair v) (ec_dec_normalize
        (d\<lparr>ec_val := ec_val d - (ec_rng c - enc_low ?fl ?ft c - enc_width ?fl ?fh ?ft c),
           ec_rng := enc_width ?fl ?fh ?ft c, ec_ext := e\<rparr>))"
      using ft by (intro exI [of _ "ec_ext d"]) (cases v, simp_all add: ec_dec_bit_logp_def Let_def rng
          enc_low_def enc_width_def)
  qed
  then show ?thesis by (rule lockstep_cong) (rule bit_logp_encode [OF _ assms])
qed

text \<open>
  A table of inverse frequencies out of \<open>2 ^ ftb\<close>: it does not increase, and symbol \<open>s\<close> has a
  non-empty share.
\<close>

definition icdf_valid :: "nat \<Rightarrow> int list \<Rightarrow> nat \<Rightarrow> bool" where
  "icdf_valid s icdf ftb = (ftb \<le> 23 \<and> s < length icdf \<and> 0 \<le> icdf ! s \<and> icdf ! s < 2 ^ ftb
     \<and> (\<forall>i < s. icdf ! s < icdf ! i \<and> icdf ! (s - 1) \<le> icdf ! i \<and> icdf ! i < 2 ^ ftb))"

definition icdf_fl :: "nat \<Rightarrow> int list \<Rightarrow> nat \<Rightarrow> int" where
  "icdf_fl s icdf ftb = (if s > 0 then 2 ^ ftb - icdf ! (s - 1) else 0)"

lemma icdf_search_finds:
  assumes "s < length icdf" and "\<And>i. i < s \<Longrightarrow> d < u32w (r * icdf ! i)" and "u32w (r * icdf ! s) \<le> d"
  shows "icdf_search r d k t icdf
    = Some (k + s, (if s > 0 then u32w (r * icdf ! (s - 1)) else t), u32w (r * icdf ! s))"
  using assms
proof (induction icdf arbitrary: s k t)
  case (Cons x icdf)
  show ?case
  proof (cases s)
    case (Suc s')
    have "d < u32w (r * icdf ! i)" if "i < s'" for i
      using Cons.prems(2) [of "Suc i"] that Suc by simp
    then have "icdf_search r d (Suc k) (u32w (r * x)) icdf = Some (Suc k + s',
        (if s' > 0 then u32w (r * icdf ! (s' - 1)) else u32w (r * x)), u32w (r * icdf ! s'))"
      using Cons.prems(1,3) Suc by (intro Cons.IH) simp_all
    moreover have "d < u32w (r * x)" using Cons.prems(2) [of 0] Suc by simp
    ultimately show ?thesis by (simp add: Suc Let_def nth_Cons')
  qed (use Cons.prems in \<open>simp add: Let_def\<close>)
qed simp

lemma icdf_bounds:
  assumes "icdf_valid s icdf ftb"
  shows "0 \<le> icdf_fl s icdf ftb" and "icdf_fl s icdf ftb < 2 ^ ftb - icdf ! s" and "2 ^ ftb - icdf ! s \<le> 2 ^ ftb"
    and "(2 :: int) ^ ftb \<le> 8388608"
    and "ec_enc_icdf s icdf ftb = ec_encode (icdf_fl s icdf ftb) (2 ^ ftb - icdf ! s) (2 ^ ftb)"
proof -
  have prev: "0 < s \<Longrightarrow> icdf ! s < icdf ! (s - 1) \<and> icdf ! (s - 1) < 2 ^ ftb"
    using assms by (simp add: icdf_valid_def)
  have s: "0 < s \<Longrightarrow> 0 < icdf_fl s icdf ftb" "s = 0 \<Longrightarrow> icdf_fl s icdf ftb = 0"
    using prev by (auto simp: icdf_fl_def)
  show "(2 :: int) ^ ftb \<le> 8388608" using power_increasing [of ftb 23 "2 :: int"] assms by (simp add: icdf_valid_def)
  show "0 \<le> icdf_fl s icdf ftb" "icdf_fl s icdf ftb < 2 ^ ftb - icdf ! s" "2 ^ ftb - icdf ! s \<le> 2 ^ ftb"
    using assms prev by (cases "s = 0", auto simp: icdf_valid_def icdf_fl_def)+
  show "ec_enc_icdf s icdf ftb = ec_encode (icdf_fl s icdf ftb) (2 ^ ftb - icdf ! s) (2 ^ ftb)"
    using s by (cases "s = 0") (simp_all add: fun_eq_iff ec_enc_icdf_def ec_encode_def icdf_fl_def)
qed

lemma icdf_lockstep:
  assumes "icdf_valid s icdf ftb"
  shows "lockstep (ec_enc_icdf s icdf ftb) (ec_dec_icdf icdf ftb) s"
proof -
  let ?ft = "2 ^ ftb :: int" and ?fl = "icdf_fl s icdf ftb" and ?fh = "2 ^ ftb - icdf ! s"
  note sym = icdf_bounds(1-4) [OF assms] and enc = icdf_bounds(5) [OF assms]
  have ft: "0 < ?ft" "?ft \<le> 8388608" using sym(4) by simp_all
  have prev: "0 < s \<Longrightarrow> icdf ! s < icdf ! (s - 1) \<and> icdf ! (s - 1) < ?ft"
    using assms by (simp add: icdf_valid_def)
  have s: "0 \<le> icdf ! s" "icdf ! s < ?ft" "0 < s \<Longrightarrow> 0 < ?fl" "s = 0 \<Longrightarrow> ?fl = 0"
    using assms prev by (cases "s = 0", auto simp: icdf_valid_def icdf_fl_def)+
  show ?thesis unfolding enc
  proof (rule encode_lockstep [OF sym])
    fix c buf d
    assume alive: "alive c" and d: "sync buf c d" and lo: "enc_low ?fl ?ft c \<le> ec_rng c - 1 - ec_val d"
      and hi: "ec_rng c - 1 - ec_val d < enc_low ?fl ?ft c + enc_width ?fl ?fh ?ft c"
    let ?r = "ec_rng c div ?ft"
    have rng: "ec_rng d = ec_rng c" using d by (simp add: sync_def)
    have "EC_CODE_BOT < ec_rng c" and top: "ec_rng c \<le> 2147483648"
      using alive by (simp_all add: alive_def ec_const)
    from unit_bounds [OF this(1) sym] have r: "0 < ?r" by simp
    have u: "u32w (?r * x) = ?r * x" if "0 \<le> x" "x \<le> ?ft" for x
    proof (rule u32w_id)
      show "0 \<le> ?r * x" using r that(1) by simp
      have "?r * x \<le> ?r * ?ft" using r that(2) by (intro mult_left_mono) simp_all
      also have "\<dots> \<le> ec_rng c"
        using div_mult_mod_eq [of "ec_rng c" ?ft] pos_mod_sign [OF ft(1), of "ec_rng c"] by linarith
      finally show "?r * x < 4294967296" using top by linarith
    qed
    have below: "ec_val d < ?r * icdf ! (s - 1)" if "0 < s"
      using lo s(3) [OF that] that by (simp add: enc_low_def icdf_fl_def)
    have above: "?r * icdf ! s \<le> ec_val d"
      using hi enc_narrow(3) [OF alive sym] by simp
    have "icdf_search ?r (ec_val d) 0 (ec_rng c) icdf
        = Some (0 + s, (if s > 0 then u32w (?r * icdf ! (s - 1)) else ec_rng c), u32w (?r * icdf ! s))"
    proof (rule icdf_search_finds)
      show "s < length icdf" using assms by (simp add: icdf_valid_def)
      show "u32w (?r * icdf ! s) \<le> ec_val d" using above s(1,2) by (simp add: u)
      fix i assume i: "i < s"
      then have x: "icdf ! (s - 1) \<le> icdf ! i" "0 \<le> icdf ! i" "icdf ! i \<le> ?ft"
        using assms by (fastforce simp: icdf_valid_def)+
      have "?r * icdf ! (s - 1) \<le> ?r * icdf ! i" using x(1) r by simp
      with below i show "ec_val d < u32w (?r * icdf ! i)" unfolding u [OF x(2,3)] by simp
    qed
    then have D: "ec_dec_icdf icdf ftb d = map_option (Pair s) (ec_dec_normalize
        (d\<lparr>ec_val := ec_val d - u32w (?r * icdf ! s), ec_rng := (if s > 0 then u32w (?r * icdf ! (s - 1)) else ec_rng c)
          - u32w (?r * icdf ! s)\<rparr>))"
      by (simp add: ec_dec_icdf_def rng)
    have us: "u32w (?r * icdf ! s) = ?r * icdf ! s" using s(1,2) by (simp add: u)
    have top: "ec_rng c - enc_low ?fl ?ft c - enc_width ?fl ?fh ?ft c = u32w (?r * icdf ! s)"
      using enc_narrow(3) [OF alive sym] by (simp add: us)
    have width: "enc_width ?fl ?fh ?ft c
        = (if s > 0 then u32w (?r * icdf ! (s - 1)) else ec_rng c) - u32w (?r * icdf ! s)"
    proof (cases "s = 0")
      case False
      then have "u32w (?r * icdf ! (s - 1)) = ?r * icdf ! (s - 1)" using prev s(1) by (simp add: u)
      then show ?thesis using False s(3) unfolding us
        by (simp add: enc_width_def icdf_fl_def right_diff_distrib)
    qed (use s(4) us in \<open>simp add: enc_width_def\<close>)
    have upd: "d\<lparr>ec_val := x, ec_rng := w, ec_ext := ec_ext d\<rparr> = d\<lparr>ec_val := x, ec_rng := w\<rparr>" for x w
      by (cases d) simp
    show "\<exists>e. ec_dec_icdf icdf ftb d = map_option (Pair s) (ec_dec_normalize
        (d\<lparr>ec_val := ec_val d - (ec_rng c - enc_low ?fl ?ft c - enc_width ?fl ?fh ?ft c),
           ec_rng := enc_width ?fl ?fh ?ft c, ec_ext := e\<rparr>))"
      unfolding top unfolding width by (intro exI [of _ "ec_ext d"]) (simp only: upd D)
  qed
qed

section \<open>Symbols and integers\<close>

text \<open>
  The caller of \<open>ec_decode\<close> looks up which interval of the total the returned point is in, and says so to
  \<open>ec_dec_update\<close>.
\<close>

definition dec_lookup :: "int \<Rightarrow> (int \<Rightarrow> int \<times> int) \<Rightarrow> ec_ctx \<Rightarrow> ((int \<times> int) \<times> ec_ctx) option" where
  "dec_lookup ft look d =
     (let (s, d1) = ec_decode ft d; (fl, fh) = look s in map_option (Pair (fl, fh)) (ec_dec_update fl fh ft d1))"

lemma lookup_lockstep:
  assumes "0 \<le> fl" and "fl < fh" and "fh \<le> ft" and "ft \<le> 8388608"
    and "\<And>x. fl \<le> x \<Longrightarrow> x < fh \<Longrightarrow> look x = (fl, fh)"
  shows "lockstep (ec_encode fl fh ft) (dec_lookup ft look) (fl, fh)"
  using symbol_lockstep [OF assms(1-4)]
proof (rule lockstep_decoder)
  fix d d' assume "dec_symbol fl fh ft d = Some ((), d')"
  then show "dec_lookup ft look d = Some ((fl, fh), d')"
    by (auto simp: dec_symbol_def dec_lookup_def split_beta assms(5) split: if_splits)
qed

text \<open>A point of the total on its own, and an integer split into such a point and raw bits.\<close>

definition dec_point :: "int \<Rightarrow> ec_ctx \<Rightarrow> (int \<times> ec_ctx) option" where
  "dec_point ft d = (let (s, d1) = ec_decode ft d in map_option (Pair s) (ec_dec_update s (s + 1) ft d1))"

lemma point_lockstep:
  assumes "0 \<le> fl" and "fl < ft" and "ft \<le> 8388608"
  shows "lockstep (ec_encode fl (fl + 1) ft) (dec_point ft) fl"
proof (rule lockstep_decoder)
  show "lockstep (ec_encode fl (fl + 1) ft) (dec_symbol fl (fl + 1) ft) ()"
    using assms by (intro symbol_lockstep) simp_all
  fix d d' assume "dec_symbol fl (fl + 1) ft d = Some ((), d')"
  moreover have "s = fl" if "fl \<le> s" "s < fl + 1" for s using that by simp
  ultimately show "dec_point ft d = Some (fl, d')"
    by (auto simp: dec_symbol_def dec_point_def split_beta split: if_splits)
qed

lemma uint_split:
  assumes "2 \<le> ft" and "ft \<le> 4294967296" and "0 \<le> fl" and "fl < ft" and "EC_ILOG (ft - 1) = 8 + k" and "0 < k"
  shows "k \<le> 24" and "fl div 2 ^ k < (ft - 1) div 2 ^ k + 1" and "(ft - 1) div 2 ^ k + 1 \<le> 256"
    and "u32w (fl div 2 ^ k * 2 ^ k) OR (fl mod 2 ^ k) = fl"
proof -
  let ?n = "ft - 1"
  have b: "2 ^ (7 + k) \<le> ?n" "?n < 2 ^ (8 + k)" using EC_ILOG_pos [of ?n] assms(1,5,6) by simp_all
  have "?n < 2 ^ 32" using assms(2) by simp
  with b(1) have "(2 :: int) ^ (7 + k) < 2 ^ 32" by (rule le_less_trans)
  then have "7 + k < 32" by (rule power_less_imp_less_exp [rotated]) simp
  then show "k \<le> 24" by simp
  from b(2) have "(ft - 1) div 2 ^ k < 256" by (intro int_div_bounds(2)) (simp_all add: power_add)
  then show "(ft - 1) div 2 ^ k + 1 \<le> 256" by simp
  have "fl div 2 ^ k \<le> (ft - 1) div 2 ^ k" using assms(4) by (intro zdiv_mono1) simp_all
  then show "fl div 2 ^ k < (ft - 1) div 2 ^ k + 1" by simp
  have "(0 :: int) \<le> fl mod 2 ^ k" by simp
  with div_mult_mod_eq [of fl "2 ^ k"] have "fl div 2 ^ k * 2 ^ k \<le> fl" by linarith
  moreover have "0 \<le> fl div 2 ^ k * 2 ^ k" using assms(3) by (simp add: pos_imp_zdiv_nonneg_iff)
  ultimately have "u32w (fl div 2 ^ k * 2 ^ k) = fl div 2 ^ k * 2 ^ k" using assms(2,4) by (intro u32w_id) auto
  then show "u32w (fl div 2 ^ k * 2 ^ k) OR (fl mod 2 ^ k) = fl"
    using div_mult_mod_eq [of fl "2 ^ k"] by (simp only: or_low pos_mod_sign pos_mod_bound zero_less_power zero_less_numeral)
qed

lemma uint_lockstep:
  assumes "2 \<le> ft" and "ft \<le> 4294967296" and "0 \<le> fl" and "fl < ft"
  shows "lockstep (ec_enc_uint fl ft) (ec_dec_uint ft) fl"
proof (cases "EC_ILOG (ft - 1) > 8")
  case True
  then obtain k where k: "EC_ILOG (ft - 1) = 8 + k" "0 < k" by (metis less_imp_add_positive)
  note u = uint_split [OF assms k]
  let ?ft = "(ft - 1) div 2 ^ k + 1" and ?s = "fl div 2 ^ k" and ?low = "fl mod 2 ^ k"
  let ?rest = "\<lambda>s d. (let (low, d3) = ec_dec_bits k d; t = u32w (s * 2 ^ k) OR low
      in if t \<le> ft - 1 then Some (t, d3) else Some (ft - 1, d3\<lparr>ec_error := 1\<rparr>))"
  have "lockstep (\<lambda>c. Some (ec_enc_bits ?low k c)) (?rest ?s) fl"
  proof (rule lockstep_decoder)
    show "lockstep (\<lambda>c. Some (ec_enc_bits ?low k c)) (\<lambda>d. Some (ec_dec_bits k d)) ?low"
      using u(1) k(2) by (intro bits_lockstep) simp_all
  qed (use u(4) assms(4) in simp)
  from lockstep_bind [where g' = ?rest, OF point_lockstep [of ?s ?ft] this] u assms(3)
  have "lockstep (\<lambda>c. Option.bind (ec_encode ?s (?s + 1) ?ft c) (\<lambda>c. Some (ec_enc_bits ?low k c)))
      (\<lambda>d. Option.bind (dec_point ?ft d) (\<lambda>(s, d). ?rest s d)) fl"
    by (simp add: pos_imp_zdiv_nonneg_iff)
  moreover have "ec_enc_uint fl ft
      = (\<lambda>c. Option.bind (ec_encode ?s (?s + 1) ?ft c) (\<lambda>c. Some (ec_enc_bits ?low k c)))"
    using k by (simp add: fun_eq_iff ec_enc_uint_def ec_const and_exp_minus_1 map_conv_bind_option comp_def Let_def)
  moreover have "ec_dec_uint ft = (\<lambda>d. Option.bind (dec_point ?ft d) (\<lambda>(s, d). ?rest s d))"
    using k by (auto simp: fun_eq_iff ec_dec_uint_def dec_point_def ec_const Let_def split_beta split: option.splits)
  ultimately show ?thesis by simp
next
  case False
  have "0 < ft - 1" using assms(1) by simp
  from EC_ILOG_pos [OF this] have "ft - 1 < 2 ^ EC_ILOG (ft - 1)" by blast
  also have "(2 :: int) ^ EC_ILOG (ft - 1) \<le> 2 ^ 8" using False by (intro power_increasing) auto
  finally have "ft - 1 < 256" by simp
  then have "ft \<le> 8388608" by simp
  moreover have "ec_enc_uint fl ft = ec_encode fl (fl + 1) ft" "ec_dec_uint ft = dec_point ft"
    using False by (simp_all add: fun_eq_iff ec_enc_uint_def ec_dec_uint_def dec_point_def ec_const Let_def)
  ultimately show ?thesis using point_lockstep [OF assms(3,4)] by simp
qed

text \<open>The variants for a power of two are the general ones with that total.\<close>

lemma ec_encode_bin_eq: "ec_encode_bin fl fh bits = ec_encode fl fh (2 ^ bits)"
  and ec_decode_bin_eq: "ec_decode_bin bits = ec_decode (2 ^ bits)"
  by (simp_all add: fun_eq_iff ec_encode_bin_def ec_encode_def ec_decode_bin_def ec_decode_def)

section \<open>A message\<close>

text \<open>
  Encoder and decoder run the same program over their contexts: the next operation, with the model it
  uses, is a function of the values coded so far, and of nothing the decoder does not know. The law of
  one operation carries over to every such message.
\<close>

fun encode_from :: "('q \<Rightarrow> 'v \<Rightarrow> ec_ctx \<Rightarrow> ec_ctx option) \<Rightarrow> ('v list \<Rightarrow> 'q) \<Rightarrow> 'v list \<Rightarrow> 'v list \<Rightarrow> ec_ctx \<Rightarrow> ec_ctx option" where
  "encode_from enc op past [] c = Some c"
| "encode_from enc op past (v # vs) c = Option.bind (enc (op past) v c) (encode_from enc op (past @ [v]) vs)"

fun decode_from :: "('q \<Rightarrow> ec_ctx \<Rightarrow> ('v \<times> ec_ctx) option) \<Rightarrow> ('v list \<Rightarrow> 'q) \<Rightarrow> 'v list \<Rightarrow> nat \<Rightarrow> ec_ctx \<Rightarrow> ('v list \<times> ec_ctx) option" where
  "decode_from dec op past 0 d = Some ([], d)"
| "decode_from dec op past (Suc n) d = Option.bind (dec (op past) d)
     (\<lambda>(v, d). map_option (\<lambda>(vs, d). (v # vs, d)) (decode_from dec op (past @ [v]) n d))"

fun codable_from :: "('q \<Rightarrow> 'v \<Rightarrow> bool) \<Rightarrow> ('v list \<Rightarrow> 'q) \<Rightarrow> 'v list \<Rightarrow> 'v list \<Rightarrow> bool" where
  "codable_from valid op past [] = True"
| "codable_from valid op past (v # vs) = (valid (op past) v \<and> codable_from valid op (past @ [v]) vs)"

locale symbol_codec =
  fixes enc :: "'q \<Rightarrow> 'v \<Rightarrow> ec_ctx \<Rightarrow> ec_ctx option"
    and dec :: "'q \<Rightarrow> ec_ctx \<Rightarrow> ('v \<times> ec_ctx) option"
    and valid :: "'q \<Rightarrow> 'v \<Rightarrow> bool"
  assumes in_step: "valid q v \<Longrightarrow> lockstep (enc q v) (dec q) v"
begin

lemma message_lockstep:
  assumes "codable_from valid op past vs"
  shows "lockstep (encode_from enc op past vs) (decode_from dec op past (length vs)) vs"
  using assms
proof (induction vs arbitrary: past)
  case Nil
  have "encode_from enc op past [] = Some" "decode_from dec op past 0 = (\<lambda>d. Some ([], d))"
    by (simp_all add: fun_eq_iff)
  then show ?case by (simp add: lockstep_return)
next
  case (Cons v vs)
  let ?g = "\<lambda>v d. map_option (\<lambda>(vs, d). (v # vs, d)) (decode_from dec op (past @ [v]) (length vs) d)"
  have "lockstep (encode_from enc op (past @ [v]) vs) (?g v) (v # vs)"
  proof (rule lockstep_decoder)
    show "lockstep (encode_from enc op (past @ [v]) vs) (decode_from dec op (past @ [v]) (length vs)) vs"
      using Cons by simp
  qed simp
  moreover have "lockstep (enc (op past) v) (dec (op past)) v" using Cons.prems by (simp add: in_step)
  ultimately have "lockstep (\<lambda>c. Option.bind (enc (op past) v c) (encode_from enc op (past @ [v]) vs))
      (\<lambda>d. Option.bind (dec (op past) d) (\<lambda>(v, d). ?g v d)) (v # vs)"
    by (intro lockstep_bind)
  moreover have "encode_from enc op past (v # vs)
      = (\<lambda>c. Option.bind (enc (op past) v c) (encode_from enc op (past @ [v]) vs))"
    "decode_from dec op past (length (v # vs)) = (\<lambda>d. Option.bind (dec (op past) d) (\<lambda>(v, d). ?g v d))"
    by (rule ext, simp)+
  ultimately show ?case by (simp only:)
qed

end

text \<open>The operations of the library, each with what its decoder is told.\<close>

datatype ec_op =
    Code_Symbol int "int \<Rightarrow> int \<times> int"
  | Code_Symbol_Bin nat "int \<Rightarrow> int \<times> int"
  | Code_Bit_Logp nat
  | Code_Icdf "int list" nat
  | Code_Uint int
  | Code_Bits nat

datatype ec_value = Interval int int | Flag bool | Index nat | Number int

fun enc_op :: "ec_op \<Rightarrow> ec_value \<Rightarrow> ec_ctx \<Rightarrow> ec_ctx option" where
  "enc_op (Code_Symbol ft look) (Interval fl fh) = ec_encode fl fh ft"
| "enc_op (Code_Symbol_Bin bits look) (Interval fl fh) = ec_encode_bin fl fh bits"
| "enc_op (Code_Bit_Logp logp) (Flag v) = ec_enc_bit_logp v logp"
| "enc_op (Code_Icdf icdf ftb) (Index s) = ec_enc_icdf s icdf ftb"
| "enc_op (Code_Uint ft) (Number fl) = ec_enc_uint fl ft"
| "enc_op (Code_Bits bits) (Number fl) = (\<lambda>c. Some (ec_enc_bits fl bits c))"
| "enc_op _ _ = (\<lambda>c. None)"

fun dec_op :: "ec_op \<Rightarrow> ec_ctx \<Rightarrow> (ec_value \<times> ec_ctx) option" where
  "dec_op (Code_Symbol ft look) d = map_option (\<lambda>((fl, fh), d). (Interval fl fh, d)) (dec_lookup ft look d)"
| "dec_op (Code_Symbol_Bin bits look) d =
     (let (s, d1) = ec_decode_bin bits d; (fl, fh) = look s
      in map_option (Pair (Interval fl fh)) (ec_dec_update fl fh (2 ^ bits) d1))"
| "dec_op (Code_Bit_Logp logp) d = map_option (\<lambda>(v, d). (Flag v, d)) (ec_dec_bit_logp logp d)"
| "dec_op (Code_Icdf icdf ftb) d = map_option (\<lambda>(s, d). (Index s, d)) (ec_dec_icdf icdf ftb d)"
| "dec_op (Code_Uint ft) d = map_option (\<lambda>(v, d). (Number v, d)) (ec_dec_uint ft d)"
| "dec_op (Code_Bits bits) d = (let (v, d) = ec_dec_bits bits d in Some (Number v, d))"

fun op_codes :: "ec_op \<Rightarrow> ec_value \<Rightarrow> bool" where
  "op_codes (Code_Symbol ft look) (Interval fl fh) =
     (0 \<le> fl \<and> fl < fh \<and> fh \<le> ft \<and> ft \<le> 8388608 \<and> (\<forall>x \<in> {fl..<fh}. look x = (fl, fh)))"
| "op_codes (Code_Symbol_Bin bits look) (Interval fl fh) =
     (0 \<le> fl \<and> fl < fh \<and> fh \<le> 2 ^ bits \<and> bits \<le> 23 \<and> (\<forall>x \<in> {fl..<fh}. look x = (fl, fh)))"
| "op_codes (Code_Bit_Logp logp) (Flag v) = (0 < logp \<and> logp \<le> 23)"
| "op_codes (Code_Icdf icdf ftb) (Index s) = icdf_valid s icdf ftb"
| "op_codes (Code_Uint ft) (Number fl) = (2 \<le> ft \<and> ft \<le> 4294967295 \<and> 0 \<le> fl \<and> fl < ft)"
| "op_codes (Code_Bits bits) (Number fl) = (0 < bits \<and> bits \<le> 25 \<and> 0 \<le> fl \<and> fl < 2 ^ bits)"
| "op_codes _ _ = False"

lemma op_lockstep: "op_codes q v \<Longrightarrow> lockstep (enc_op q v) (dec_op q) v"
proof (induction q v rule: op_codes.induct)
  case (1 ft look fl fh)
  then have "lockstep (ec_encode fl fh ft) (dec_lookup ft look) (fl, fh)"
    by (intro lookup_lockstep) auto
  then have "lockstep (ec_encode fl fh ft) (dec_op (Code_Symbol ft look)) (Interval fl fh)"
    by (rule lockstep_decoder) simp
  then show ?case by (simp only: enc_op.simps)
next
  case (2 bits look fl fh)
  then have "lockstep (ec_encode fl fh (2 ^ bits)) (dec_lookup (2 ^ bits) look) (fl, fh)"
    using power_increasing [of bits 23 "2 :: int"] by (intro lookup_lockstep) auto
  then have "lockstep (ec_encode fl fh (2 ^ bits)) (dec_op (Code_Symbol_Bin bits look)) (Interval fl fh)"
    by (rule lockstep_decoder) (auto simp: ec_decode_bin_eq dec_lookup_def split_beta)
  then show ?case by (simp only: enc_op.simps ec_encode_bin_eq)
next
  case (3 logp v)
  then have "lockstep (ec_enc_bit_logp v logp) (dec_op (Code_Bit_Logp logp)) (Flag v)"
    by (intro lockstep_decoder [OF bit_logp_lockstep]) simp_all
  then show ?case by (simp only: enc_op.simps)
next
  case (4 icdf ftb s)
  then have "lockstep (ec_enc_icdf s icdf ftb) (dec_op (Code_Icdf icdf ftb)) (Index s)"
    by (intro lockstep_decoder [OF icdf_lockstep]) simp_all
  then show ?case by (simp only: enc_op.simps)
next
  case (5 ft fl)
  then have "lockstep (ec_enc_uint fl ft) (dec_op (Code_Uint ft)) (Number fl)"
    by (intro lockstep_decoder [OF uint_lockstep]) simp_all
  then show ?case by (simp only: enc_op.simps)
next
  case (6 bits fl)
  then have "lockstep (\<lambda>c. Some (ec_enc_bits fl bits c)) (dec_op (Code_Bits bits)) (Number fl)"
    by (intro lockstep_decoder [OF bits_lockstep]) simp_all
  then show ?case by (simp only: enc_op.simps)
qed simp_all

interpretation ec: symbol_codec enc_op dec_op op_codes
  by unfold_locales (rule op_lockstep)

end
