(* ===== verification/Range_Tell.thy ===== *)
theory Range_Tell
  imports Range_Codec
begin

text \<open>
  The measures of what was coded. The fast \<open>ec_tell_frac\<close>, a table of thresholds, computes what the
  version by repeated squaring computes that it replaced (\<open>tell_frac_by_squaring\<close>), and the fallback
  \<open>ec_ilog\<close> is the logarithm the count of leading zeros gives (\<open>ec_ilog_correct\<close>).
\<close>

unbundle bit_operations_syntax

section \<open>Logarithms\<close>

lemma EC_ILOG_shift: "2 ^ a \<le> v \<Longrightarrow> EC_ILOG v = a + EC_ILOG (v div 2 ^ a)"
proof (induction a arbitrary: v)
  case (Suc a)
  then have "1 \<le> v" by (smt (verit) zero_less_power)
  then have "EC_ILOG v = Suc (EC_ILOG (v div 2))" by (subst EC_ILOG.simps) simp
  moreover have "2 ^ a \<le> v div 2" using zdiv_mono1 [OF Suc.prems, of 2] by simp
  ultimately show ?case using Suc.IH [of "v div 2"] by (simp add: zdiv_zmult2_eq)
qed simp

lemma div_exp_0: "0 \<le> v \<Longrightarrow> (v div 2 ^ a = (0 :: int)) = (v < 2 ^ a)"
  using int_div_bounds(1) [of "2 ^ a" 1 v] by (cases "v < 2 ^ a") auto

lemma high_bits:
  assumes "0 \<le> v" and "v < 2 ^ (a + b)"
  shows "(v AND (2 ^ b - 1) * 2 ^ a \<noteq> 0) = (2 ^ a \<le> (v :: int))"
proof -
  have "v AND push_bit a (mask b) = push_bit a (take_bit b (drop_bit a v))"
    by (rule bit_eqI) (auto simp: bit_simps)
  moreover have "v div 2 ^ a < 2 ^ b"
    using assms(2) int_div_bounds(2) [of "2 ^ a" v "2 ^ b"] by (simp add: power_add mult.commute)
  then have "take_bit b (drop_bit a v) = v div 2 ^ a"
    using assms(1) by (simp add: take_bit_int_eq_self_iff drop_bit_eq_div pos_imp_zdiv_nonneg_iff)
  ultimately have "v AND (2 ^ b - 1) * 2 ^ a = v div 2 ^ a * 2 ^ a"
    by (simp add: push_bit_eq_mult mask_eq_exp_minus_1)
  then show ?thesis using assms(1) by (simp add: div_exp_0 not_less)
qed

text \<open>One step of the search: the number of bits is split off by halves.\<close>

lemma ilog_half:
  assumes "0 \<le> v" and "v < 2 ^ (a + a)"
  defines "m \<equiv> a * of_bool (v AND (2 ^ a - 1) * 2 ^ a \<noteq> 0)"
  shows "EC_ILOG v = m + EC_ILOG (v div 2 ^ m)" and "0 \<le> v div 2 ^ m" and "v div 2 ^ m < 2 ^ a"
    and "m = 0 \<or> m = a" and "(v div 2 ^ m = 0) = (v = 0)"
proof -
  have m: "m = (if 2 ^ a \<le> v then a else 0)" using high_bits [OF assms(1,2)] by (simp add: m_def)
  show "EC_ILOG v = m + EC_ILOG (v div 2 ^ m)" using EC_ILOG_shift [of a v] by (simp add: m)
  show "0 \<le> v div 2 ^ m" using assms(1) by (simp add: m pos_imp_zdiv_nonneg_iff)
  show "v div 2 ^ m < 2 ^ a"
    using assms(2) int_div_bounds(2) [of "2 ^ a" v "2 ^ a"] by (simp add: m power_add)
  show "m = 0 \<or> m = a" by (simp add: m)
  have "(0 :: int) < 2 ^ a" by simp
  then show "(v div 2 ^ m = 0) = (v = 0)" using div_exp_0 [OF assms(1), of a] by (auto simp: m)
qed

lemma ec_ilog_correct:
  assumes "0 \<le> v" and "v < 2 ^ 32"
  shows "ec_ilog v = EC_ILOG v"
proof -
  define m1 v1 where "m1 = (16 :: nat) * of_bool (v AND 0xFFFF0000 \<noteq> 0)" and "v1 = v div 2 ^ m1"
  define m2 v2 where "m2 = (8 :: nat) * of_bool (v1 AND 0xFF00 \<noteq> 0)" and "v2 = v1 div 2 ^ m2"
  define m3 v3 where "m3 = (4 :: nat) * of_bool (v2 AND 0xF0 \<noteq> 0)" and "v3 = v2 div 2 ^ m3"
  define m4 v4 where "m4 = (2 :: nat) * of_bool (v3 AND 0xC \<noteq> 0)" and "v4 = v3 div 2 ^ m4"
  have s1: "EC_ILOG v = m1 + EC_ILOG v1" "0 \<le> v1" "v1 < 2 ^ 16" "m1 = 0 \<or> m1 = 16"
    "(v1 = 0) = (v = 0)"
    using ilog_half [of v 16] assms by (simp_all add: m1_def v1_def)
  have s2: "EC_ILOG v1 = m2 + EC_ILOG v2" "0 \<le> v2" "v2 < 2 ^ 8" "m2 = 0 \<or> m2 = 8"
    "(v2 = 0) = (v1 = 0)"
    using ilog_half [of v1 8] s1(2,3) by (simp_all add: m2_def v2_def)
  have s3: "EC_ILOG v2 = m3 + EC_ILOG v3" "0 \<le> v3" "v3 < 2 ^ 4" "m3 = 0 \<or> m3 = 4"
    "(v3 = 0) = (v2 = 0)"
    using ilog_half [of v2 4] s2(2,3) by (simp_all add: m3_def v3_def)
  have s4: "EC_ILOG v3 = m4 + EC_ILOG v4" "0 \<le> v4" "v4 < 2 ^ 2" "m4 = 0 \<or> m4 = 2"
    "(v4 = 0) = (v3 = 0)"
    using ilog_half [of v3 2] s3(2,3) by (simp_all add: m4_def v4_def)
  have "v4 = 0 \<or> v4 = 1 \<or> v4 = 2 \<or> v4 = 3" using s4(2,3) by auto
  then have last: "EC_ILOG v4 = of_bool (v4 \<noteq> 0) + of_bool (v4 AND 2 \<noteq> 0)"
    by (elim disjE) (simp_all add: EC_ILOG.simps)
  have "ec_ilog v = (((of_bool (v \<noteq> 0) OR m1) OR m2) OR m3 OR m4) + of_bool (v4 AND 2 \<noteq> 0)"
    by (simp add: ec_ilog_def Let_def m1_def v1_def m2_def v2_def m3_def v3_def m4_def v4_def or.assoc)
  also have "(((of_bool (v \<noteq> 0) OR m1) OR m2) OR m3 OR m4) = m1 + m2 + m3 + m4 + of_bool (v \<noteq> 0)"
    using s1(4) s2(4) s3(4) s4(4) by (elim disjE) simp_all
  finally show ?thesis using s1(1,5) s2(1,5) s3(1,5) s4(1,5) last by simp
qed

section \<open>Eighths of a bit\<close>

text \<open>One squaring of a 16-bit mantissa: a bit of the logarithm, and the next mantissa.\<close>

lemma square_step:
  assumes "32768 \<le> r" and "r < 65536"
  defines "s \<equiv> u32w (r * r) div 2 ^ 15"
  shows "s = r * r div 32768" and "s div 65536 = 0 \<or> s div 65536 = 1"
    and "32768 \<le> s div 2 ^ nat (s div 2 ^ 16)" and "s div 2 ^ nat (s div 2 ^ 16) < 65536"
proof -
  have "32768 * 32768 \<le> r * r" "r * r \<le> 65535 * 65535" using assms(1,2) by (intro mult_mono; simp)+
  then have rr: "1073741824 \<le> r * r" "r * r \<le> 4294836225" by simp_all
  then show s: "s = r * r div 32768" by (simp add: s_def u32w_id)
  have b: "32768 \<le> s" "s < 131072"
    using zdiv_mono1 [OF rr(1), of 32768] zdiv_mono1 [OF rr(2), of 32768] by (simp_all add: s)
  show "s div 65536 = 0 \<or> s div 65536 = 1" using b by auto
  then show "32768 \<le> s div 2 ^ nat (s div 2 ^ 16)" "s div 2 ^ nat (s div 2 ^ 16) < 65536"
    using b by (elim disjE; simp)+
qed

lemma log_bits_acc: "log_bits i l r = 2 ^ i * l + log_bits i 0 r"
proof (induction i arbitrary: l r)
  case (Suc i)
  let ?s = "u32w (r * r) div 2 ^ 15"
  have eq: "log_bits (Suc i) l r = log_bits i (2 * l + ?s div 2 ^ 16) (?s div 2 ^ nat (?s div 2 ^ 16))" for l
    by (simp add: Let_def)
  show ?case unfolding eq using Suc [of "2 * l + ?s div 2 ^ 16"] Suc [of "2 * 0 + ?s div 2 ^ 16"]
    by (simp add: algebra_simps)
qed simp

lemma log_bits_mono:
  assumes "32768 \<le> r" and "r \<le> t" and "t < 65536"
  shows "0 \<le> log_bits i 0 r" and "log_bits i 0 r \<le> log_bits i 0 t" and "log_bits i 0 t < 2 ^ i"
proof -
  have "0 \<le> log_bits i 0 r \<and> log_bits i 0 r \<le> log_bits i 0 t \<and> log_bits i 0 t < 2 ^ i"
    using assms
  proof (induction i arbitrary: r t)
    case (Suc i)
    let ?s = "\<lambda>r. u32w (r * r) div 2 ^ 15"
    let ?b = "\<lambda>r. ?s r div 65536" and ?n = "\<lambda>r. ?s r div 2 ^ nat (?s r div 2 ^ 16)"
    have eq: "log_bits (Suc i) 0 r = 2 ^ i * ?b r + log_bits i 0 (?n r)" for r
      using log_bits_acc [of i "?s r div 2 ^ 16" "?n r"] by (simp add: Let_def)
    have lt: "r < 65536" "32768 \<le> t" using Suc.prems by simp_all
    note r = square_step [OF Suc.prems(1) lt(1)] and t = square_step [OF lt(2) Suc.prems(3)]
    have s: "?s r \<le> ?s t"
    proof -
      have "r * r \<le> t * t" using Suc.prems by (intro mult_mono) simp_all
      then have "r * r div 32768 \<le> t * t div 32768" by (intro zdiv_mono1) simp_all
      then show ?thesis unfolding r(1) t(1) .
    qed
    then have b: "?b r \<le> ?b t" by (rule zdiv_mono1) simp
    have ihr: "0 \<le> log_bits i 0 (?n r)" "log_bits i 0 (?n r) < 2 ^ i"
      using Suc.IH [OF r(3) order_refl r(4)] by blast+
    have iht: "0 \<le> log_bits i 0 (?n t)" "log_bits i 0 (?n t) < 2 ^ i"
      using Suc.IH [OF t(3) order_refl t(4)] by blast+
    have rb: "?b r = 0 \<or> ?b r = 1" and tb: "?b t = 0 \<or> ?b t = 1" by (rule r(2), rule t(2))
    have le: "log_bits i 0 (?n r) \<le> log_bits i 0 (?n t)" if "?b r = ?b t"
    proof -
      have "?n r \<le> ?n t" using that s rb by (elim disjE) (simp_all add: zdiv_mono1)
      from Suc.IH [OF r(3) this t(4)] show ?thesis by blast
    qed
    have "0 \<le> e * x + p \<and> e * x + p \<le> e * y + q \<and> e * y + q < 2 * e"
      if "x = 0 \<or> x = 1" "y = 0 \<or> y = 1" "x \<le> y" "x = y \<Longrightarrow> p \<le> q" "0 \<le> p" "p < e" "0 \<le> q" "q < e"
      for x y p q e :: int using that by auto
    from this [OF rb tb b le ihr iht] show ?case by (simp only: eq power_Suc)
  qed simp
  then show "0 \<le> log_bits i 0 r" and "log_bits i 0 r \<le> log_bits i 0 t" and "log_bits i 0 t < 2 ^ i" by simp_all
qed

lemma log_bits_between:
  assumes "log_bits i 0 a = x" and "log_bits i 0 b = x" and "32768 \<le> a" and "a \<le> r" and "r \<le> b" and "b < 65536"
  shows "log_bits i 0 r = x"
  using log_bits_mono(2) [of a r i] log_bits_mono(2) [of r b i] assms by simp

lemma log_round:
  assumes "32768 \<le> r" and "r < 65536"
  shows "log_bits (Suc i) l r = (if r * r < 2147483648 then log_bits i (2 * l) (r * r div 32768)
    else log_bits i (2 * l + 1) (r * r div 65536))"
proof -
  note s = square_step [OF assms]
  have eq: "log_bits (Suc i) l r = log_bits i (2 * l + r * r div 32768 div 65536)
      (r * r div 32768 div 2 ^ nat (r * r div 32768 div 65536))"
    using s(1) by (simp add: Let_def)
  have b: "r * r div 32768 div 65536 = 0 \<or> r * r div 32768 div 65536 = 1" using s(1,2) by simp
  have "r * r div 32768 div 65536 = r * r div 2147483648" by (simp flip: zdiv_zmult2_eq)
  moreover have "0 \<le> r * r" using assms(1) by simp
  ultimately have "r * r div 32768 div 65536 = (if r * r < 2147483648 then 0 else 1)"
    using b by (auto simp: div_eq_0_iff split: if_splits)
  then show ?thesis unfolding eq by (simp flip: zdiv_zmult2_eq)
qed

text \<open>The table holds the last mantissa of each eighth.\<close>

lemma thresholds:
  "log_bits 3 0 32768 = 0" "log_bits 3 0 35733 = 0" "log_bits 3 0 35734 = 1" "log_bits 3 0 38967 = 1"
  "log_bits 3 0 38968 = 2" "log_bits 3 0 42495 = 2" "log_bits 3 0 42496 = 3" "log_bits 3 0 46340 = 3"
  "log_bits 3 0 46341 = 4" "log_bits 3 0 50535 = 4" "log_bits 3 0 50536 = 5" "log_bits 3 0 55109 = 5"
  "log_bits 3 0 55110 = 6" "log_bits 3 0 60097 = 6" "log_bits 3 0 60098 = 7" "log_bits 3 0 65535 = 7"
  by (simp_all add: numeral_3_eq_3 log_round del: log_bits.simps(2))

lemma correction_log:
  assumes "32768 \<le> r" and "r < 65536"
  defines "b \<equiv> r div 4096 - 8"
  shows "log_bits 3 0 r = b + (if r > correction ! nat b then 1 else 0)"
proof -
  note between = log_bits_between [where i = 3 and r = r]
  consider "r \<le> 36863" | "36864 \<le> r" "r \<le> 40959" | "40960 \<le> r" "r \<le> 45055" | "45056 \<le> r" "r \<le> 49151"
    | "49152 \<le> r" "r \<le> 53247" | "53248 \<le> r" "r \<le> 57343" | "57344 \<le> r" "r \<le> 61439" | "61440 \<le> r"
    by linarith
  then show ?thesis
  proof cases
    case 1
    then have "b = 0" using assms by simp
    then show ?thesis using 1 assms(1) between [of 32768 0 35733] between [of 35734 1 38967]
      by (cases "r \<le> 35733") (simp_all add: correction_def thresholds)
  next
    case 2
    then have "b = 1" by (simp add: b_def)
    then show ?thesis using 2 between [of 35734 1 38967] between [of 38968 2 42495]
      by (cases "r \<le> 38967") (simp_all add: correction_def thresholds)
  next
    case 3
    then have "b = 2" by (simp add: b_def)
    then show ?thesis using 3 between [of 38968 2 42495] between [of 42496 3 46340]
      by (cases "r \<le> 42495") (simp_all add: correction_def thresholds)
  next
    case 4
    then have "b = 3" by (simp add: b_def)
    then show ?thesis using 4 between [of 42496 3 46340] between [of 46341 4 50535]
      by (cases "r \<le> 46340") (simp_all add: correction_def thresholds)
  next
    case 5
    then have "b = 4" by (simp add: b_def)
    then show ?thesis using 5 between [of 46341 4 50535] between [of 50536 5 55109]
      by (cases "r \<le> 50535") (simp_all add: correction_def thresholds)
  next
    case 6
    then have "b = 5" by (simp add: b_def)
    then show ?thesis using 6 between [of 50536 5 55109] between [of 55110 6 60097]
      by (cases "r \<le> 55109") (simp_all add: correction_def thresholds)
  next
    case 7
    then have "b = 6" by (simp add: b_def)
    then show ?thesis using 7 between [of 55110 6 60097] between [of 60098 7 65535]
      by (cases "r \<le> 60097") (simp_all add: correction_def thresholds)
  next
    case 8
    then have "b = 7" using assms(2) by (simp add: b_def)
    then show ?thesis using 8 assms(2) between [of 60098 7 65535]
      by (simp add: correction_def thresholds)
  qed
qed

text \<open>
  C36: The fast count of eighths of a bit, a linear guess corrected by a table of eight thresholds,
  is for every renormalised range the count that the exact version with three squarings
  gives, which the source keeps beside it.
\<close>

theorem tell_frac_by_squaring:
  assumes "EC_CODE_BOT < ec_rng c" and "ec_rng c \<le> EC_CODE_TOP"
  shows "ec_tell_frac c = ec_tell_frac_squaring c"
proof -
  let ?l = "EC_ILOG (ec_rng c)"
  have rng: "8388608 < ec_rng c" using assms by (simp add: ec_const)
  then have I: "2 ^ (?l - 1) \<le> ec_rng c" "ec_rng c < 2 ^ ?l" using EC_ILOG_pos [of "ec_rng c"] by simp_all
  have "(2 :: int) ^ 23 < 2 ^ ?l" by (rule less_trans [OF _ I(2)]) (use rng in simp)
  then have "23 < ?l" by (rule power_less_imp_less_exp [rotated]) simp
  define k where "k = ?l - 16"
  have k: "?l = 16 + k" "0 < k" using \<open>23 < ?l\<close> by (simp_all add: k_def)
  let ?r = "ec_rng c div 2 ^ k"
  have "32768 * 2 ^ k \<le> ec_rng c" using I(1) k by (simp add: power_add)
  then have r1: "32768 \<le> ?r" by (intro int_div_bounds(1)) simp_all
  have "ec_rng c < 65536 * 2 ^ k" using I(2) k by (simp add: power_add)
  then have r2: "?r < 65536" by (intro int_div_bounds(2)) simp_all
  show ?thesis
    using correction_log [OF r1 r2] log_bits_acc [of 3 "int ?l" ?r] k(1)
    by (simp add: ec_tell_frac_def ec_tell_frac_squaring_def BITRES_def Let_def mult.commute)
qed

lemma tell_frac_by_squaring_witness:
  "ec_tell_frac (ec_enc_init [] \<lparr>ec_rng := 100000000\<rparr>) = ec_tell_frac_squaring (ec_enc_init [] \<lparr>ec_rng := 100000000\<rparr>)"
  by (rule tell_frac_by_squaring) (simp_all add: ec_const)

end
