(* ===== verification/Range_Roundtrip.thy ===== *)
theory Range_Roundtrip
  imports Range_Codec
begin

text \<open>
  From the first byte to the last: a fresh decoder is in step with a fresh encoder on every buffer
  (\<open>dec_init_sync\<close>), the buffer that \<open>ec_enc_done\<close> closes without an error holds the context it
  closed (\<open>done_holds\<close>), and so a message that was encoded is decoded.
\<close>

unbundle bit_operations_syntax

section \<open>The start\<close>

lemma enc_init_ready: "ready (ec_enc_init buf)"
  by (simp add: ready_def enc_inv_def alive_def buf_ok_def ec_enc_init_def carry_safe_def ec_const)

lemma enc_init_state:
  "digits (ec_enc_init buf) = []" "low (ec_enc_init buf) = 0" "raw_len (ec_enc_init buf) = 0"
  "ec_rng (ec_enc_init buf) = 2147483648" "ec_nbits_total (ec_enc_init buf) = 33" "raw_num (ec_enc_init buf) = 0"
  by (simp_all add: digits_def low_def front_def raw_len_def raw_num_def ec_enc_init_def ec_const)

lemma stream_num_bounds: "0 \<le> stream_num buf n \<and> stream_num buf n < 256 ^ n"
proof (induction n)
  case (Suc n)
  then have "0 \<le> stream_num buf n" "stream_num buf n + 1 \<le> 256 ^ n" by simp_all
  then show ?case using byte_at_range [of buf n] by simp
qed simp

text \<open>The decoder after \<open>n\<close> of the three rounds that fill its register.\<close>

definition filled :: "u8 list \<Rightarrow> nat \<Rightarrow> ec_ctx \<Rightarrow> bool" where
  "filled buf n d = (ec_buf d = buf \<and> ec_storage d = length buf \<and> ec_end_offs d = 0
     \<and> ec_end_window d = 0 \<and> ec_nend_bits d = 0 \<and> ec_nbits_total d = 9 + 8 * int n
     \<and> ec_offs d = min (Suc n) (length buf) \<and> ec_rng d = 128 * 256 ^ n
     \<and> ec_val d = 128 * 256 ^ n - 1 - stream_num buf (Suc n) div 2
     \<and> ec_rem d = byte_at buf n \<and> ec_error d = 0)"

lemma filled_shift:
  assumes "filled buf n d" and "n \<le> 2"
  shows "filled buf (Suc n) (dec_shift d)"
proof -
  have "(256 :: int) ^ n \<le> 256 ^ 2" using assms(2) by (intro power_increasing) simp_all
  then have "ec_rng d \<le> EC_CODE_BOT" using assms(1) by (simp add: filled_def ec_const)
  moreover have "0 \<le> stream_num buf (Suc n) div 2" "stream_num buf (Suc n) div 2 < 128 * 256 ^ n"
    using stream_num_bounds [of buf "Suc n"] int_div_bounds(2) [of 2 "stream_num buf (Suc n)" "128 * 256 ^ n"]
    by (simp_all del: stream_num.simps)
  then have "0 \<le> ec_val d" "ec_val d < ec_rng d"
    using assms(1) by (simp_all add: filled_def del: stream_num.simps)
  ultimately have "dec_shift d = d\<lparr>ec_nbits_total := ec_nbits_total d + 8, ec_rng := 256 * ec_rng d,
      ec_rem := byte_at buf (Suc n), ec_offs := min (Suc (Suc n)) (length buf),
      ec_val := ec_val d * 256 + 255 - (byte_at buf n * 256 + byte_at buf (Suc n)) div 2 mod 256\<rparr>"
    using assms(1) by (intro dec_shift_state) (simp_all add: filled_def)
  moreover note stream_num_step [of buf n]
  ultimately show ?thesis using assms(1)
    by (simp add: filled_def algebra_simps del: stream_num.simps)
qed

lemma dec_init_sync: "\<exists>d. ec_dec_init buf = Some d \<and> sync buf (ec_enc_init buf') d"
proof -
  have step: "ec_dec_normalize d = ec_dec_normalize (dec_shift d) \<and> filled buf (Suc n) (dec_shift d)"
    if "filled buf n d" "n \<le> 2" for n d
  proof -
    have "(256 :: int) ^ n \<le> 256 ^ 2" using that(2) by (intro power_increasing) simp_all
    then have "ec_rng d \<le> EC_CODE_BOT" using that(1) by (simp add: filled_def ec_const)
    with filled_shift [OF that] show ?thesis by (subst ec_dec_normalize.simps) simp
  qed
  have stop: "ec_dec_normalize d = Some d" if "filled buf 3 d" for d
    using that by (subst ec_dec_normalize.simps) (simp add: filled_def ec_const)
  obtain d where init: "ec_dec_init buf = ec_dec_normalize d" "filled buf 0 d"
    by (cases buf) (auto simp: ec_dec_init_def ec_read_byte_def filled_def byte_at_def ec_const)
  from step [OF init(2)] step [of 1 "dec_shift d"] step [of 2 "dec_shift (dec_shift d)"] stop
  have "ec_dec_normalize d = Some (dec_shift (dec_shift (dec_shift d)))"
    "filled buf 3 (dec_shift (dec_shift (dec_shift d)))"
    by (simp_all add: eval_nat_numeral)
  moreover have "sync buf (ec_enc_init buf') d'" if "filled buf 3 d'" for d'
    using that unfolding sync_def enc_init_state
    by (simp add: filled_def code_at_def eval_nat_numeral del: stream_num.simps)
  ultimately show ?thesis using init(1) by auto
qed

section \<open>The last code value\<close>

lemma round_up:
  assumes "0 \<le> v" and "v + 2 ^ m \<le> 4294967296"
  defines "e \<equiv> u32w (v + (2 ^ m - 1)) AND NOT (2 ^ m - 1)"
  shows "v \<le> e" and "e < v + 2 ^ m" and "2 ^ m dvd e" and "e OR (2 ^ m - 1) = e + 2 ^ m - 1"
proof -
  have "u32w (v + (2 ^ m - 1)) = v + (2 ^ m - 1)" using assms(1,2) by (intro u32w_id) simp_all
  then have e: "e = (v + (2 ^ m - 1)) div 2 ^ m * 2 ^ m" by (simp only: e_def and_not_mask)
  have "(0 :: int) \<le> (v + (2 ^ m - 1)) mod 2 ^ m" "(v + (2 ^ m - 1)) mod 2 ^ m < 2 ^ m" by simp_all
  with div_mult_mod_eq [of "v + (2 ^ m - 1)" "2 ^ m"] show "v \<le> e" "e < v + 2 ^ m"
    unfolding e by linarith+
  show "2 ^ m dvd e" by (simp add: e)
  have "(2 :: int) ^ m - 1 < 2 ^ m" "(0 :: int) \<le> 2 ^ m - 1" by simp_all
  from or_low [OF this(2,1)] show "e OR (2 ^ m - 1) = e + 2 ^ m - 1" unfolding e by simp
qed

lemma mask_div: "k \<le> n \<Longrightarrow> (2 ^ n - 1 :: int) div 2 ^ k = 2 ^ (n - k) - 1"
  using drop_bit_mask_eq [of k n, where ?'a = int] by (simp add: drop_bit_eq_div mask_eq_exp_minus_1)

text \<open>The chosen value leaves all lower bits free: every continuation stays in the range.\<close>

lemma final_code:
  assumes "ready c"
  shows "\<exists>k e. final_code c = (int k, e) \<and> k \<le> 9 \<and> ec_val c \<le> e \<and> 2 ^ (31 - k) dvd e
    \<and> e + 2 ^ (31 - k) \<le> ec_val c + ec_rng c"
proof -
  let ?I = "EC_ILOG (ec_rng c)" and ?v = "ec_val c" and ?r = "ec_rng c"
  have r: "8388608 < ?r" "?r \<le> 2147483648" and v: "0 \<le> ?v" "?v + ?r < 4294967296"
    using assms by (simp_all add: ready_def alive_def enc_inv_def ec_const)
  have "0 < ?r" using r by simp
  note I = EC_ILOG_pos [OF this]
  have "(2 :: int) ^ 23 < 2 ^ ?I" by (rule less_trans [OF _ conjunct2 [OF I]]) (use r in simp)
  then have "23 < ?I" by (rule power_less_imp_less_exp [rotated]) simp
  have "(2 :: int) ^ (?I - 1) < 2 ^ 32" by (rule le_less_trans [OF conjunct1 [OF I]]) (use r in simp)
  then have "?I - 1 < 32" by (rule power_less_imp_less_exp [rotated]) simp
  define k where "k = 32 - ?I"
  have k: "k \<le> 8" "31 - k = ?I - 1" using \<open>23 < ?I\<close> \<open>?I - 1 < 32\<close> by (simp_all add: k_def)
  define m where "m = 31 - k"
  have m: "2 ^ m \<le> ?r" "22 < m" using I k r by (simp_all add: m_def)
  let ?M = "2 ^ m :: int" and ?H = "2 ^ (m - 1) :: int"
  have H: "?M = 2 * ?H" "0 < ?H" using m(2) by (simp_all flip: power_Suc)
  have msk: "(EC_CODE_TOP - 1) div 2 ^ k = ?M - 1" "(?M - 1) div 2 = ?H - 1"
    using mask_div [of k 31] mask_div [of 1 m] k(1) m(2) by (simp_all add: ec_const m_def)
  have top: "u32w (?v + ?r) = ?v + ?r" using v r by (intro u32w_id) simp_all
  let ?e = "u32w (?v + (?M - 1)) AND NOT (?M - 1)" and ?e' = "u32w (?v + (?H - 1)) AND NOT (?H - 1)"
  have "?v + ?M \<le> 4294967296" "?v + ?H \<le> 4294967296" using m(1) v H by linarith+
  note e = round_up [OF v(1) this(1)] and e' = round_up [OF v(1) this(2)]
  have code: "final_code c = (if ?v + ?r \<le> ?e OR (?M - 1) then (int k + 1, ?e') else (int k, ?e))"
    by (simp only: final_code_def Let_def ec_const(4) k_def [symmetric] msk top)
  show ?thesis
  proof (cases "?v + ?r \<le> ?e OR (?M - 1)")
    case True
    have "m - 1 = 31 - Suc k" using m(2) by (simp add: m_def)
    with True code k(1) e'(1-3) m(1) H show ?thesis
      by (intro exI [of _ "Suc k"] exI [of _ ?e']) auto
  next
    case False
    with code k(1) e m_def show ?thesis
      by (intro exI [of _ k] exI [of _ ?e]) (auto simp: m_def)
  qed
qed

section \<open>Flushing the front\<close>

text \<open>\<open>c1\<close> is \<open>c\<close> with more digits at the front; the back and the raw bits are as before.\<close>

definition fronted :: "ec_ctx \<Rightarrow> ec_ctx \<Rightarrow> bool" where
  "fronted c c1 = (buf_ok c1 \<and> ec_error c = 0 \<and> ec_storage c1 = ec_storage c \<and> ec_end_offs c1 = ec_end_offs c
     \<and> ec_end_window c1 = ec_end_window c \<and> ec_nend_bits c1 = ec_nend_bits c
     \<and> drop (ec_storage c - ec_end_offs c) (ec_buf c1) = drop (ec_storage c - ec_end_offs c) (ec_buf c))"

lemma fronted_trans: "fronted c c1 \<Longrightarrow> fronted c1 c2 \<Longrightarrow> fronted c c2"
  unfolding fronted_def by simp

lemma carry_out_fronted:
  assumes "buf_ok c" and "0 \<le> x" and "x < 512" and "x < 256 \<or> carry_safe c"
    and "ec_error (ec_enc_carry_out x c) = 0"
  shows "fronted c (ec_enc_carry_out x c)"
  using carry_out(1-3) [OF assms] by (simp add: fronted_def)

lemma enc_flush_error: "ec_error (snd (enc_flush l e c)) = 0 \<Longrightarrow> ec_error c = 0"
  by (induction l e c rule: enc_flush.induct, subst (asm) (2) enc_flush.simps)
    (auto dest: carry_out_error split: if_splits)

text \<open>The digits put out are the value's leading bits, and there is nothing below them.\<close>

lemma enc_flush:
  assumes "enc_flush l e c = (l', c1)" and "ec_error c1 = 0" and "buf_ok c" and "0 \<le> e"
    and "e < 4294967296" and "e < 2147483648 \<or> carry_safe c" and "l \<le> 31" and "- 8 < l"
    and "l \<le> 0 \<Longrightarrow> e = 0" and "0 < l \<Longrightarrow> 2 ^ (31 - nat l) dvd e" and "ec_error c = 0 \<or> 0 < l"
  shows "\<exists>j. l' = l - 8 * int j \<and> - 8 < l' \<and> l' \<le> 0 \<and> fronted c c1
    \<and> length (digits c1) = length (digits c) + j
    \<and> digits_num (digits c1) * 2147483648 = 256 ^ j * (digits_num (digits c) * 2147483648 + e)"
  using assms
proof (induction l e c arbitrary: l' c1 rule: enc_flush.induct)
  case (1 l e c)
  show ?case
  proof (cases "l > 0")
    case False
    with 1 show ?thesis by (subst (asm) (2) enc_flush.simps) (auto simp: fronted_def intro!: exI [of _ 0])
  next
    case True
    let ?x = "e div 8388608" and ?e = "e mod 8388608 * 256"
    let ?c = "ec_enc_carry_out ?x c"
    have rec: "enc_flush (l - 8) ?e ?c = (l', c1)"
      using 1(2) True shift_arith [of e] 1(5,6) by (subst (asm) enc_flush.simps) (simp add: ec_const)
    have err: "ec_error ?c = 0" using rec 1(3) enc_flush_error [of "l - 8" ?e ?c] by simp
    have x: "0 \<le> ?x" "?x < 512" "?x < 256 \<or> carry_safe c" using 1(5-7) by auto
    note out = carry_out [OF 1(4) x err]
    have low: "?e = 0" if "l \<le> 8"
    proof -
      have "(2 :: int) ^ 23 dvd 2 ^ (31 - nat l)" using that by (intro le_imp_power_dvd) simp
      with 1(11) True have "8388608 dvd e" by (auto intro: dvd_trans)
      then show ?thesis by simp
    qed
    have high: "2 ^ (31 - nat (l - 8)) dvd ?e" if "8 < l"
    proof -
      have d: "(2 :: int) ^ (31 - nat l) dvd 2 ^ 23" using that by (intro le_imp_power_dvd) simp
      then have "(2 :: int) ^ (31 - nat l) dvd e mod 8388608"
        using 1(11) True by (simp add: dvd_mod)
      then have "(2 :: int) ^ (31 - nat l) * 2 ^ 8 dvd e mod 8388608 * 2 ^ 8" by (rule mult_dvd_mono) simp
      moreover have "31 - nat (l - 8) = 31 - nat l + 8" using that 1(8) by simp
      ultimately show ?thesis by (simp only: power_add) simp
    qed
    have e: "0 \<le> ?e" "?e < 2147483648" by simp_all
    obtain j where j: "l' = l - 8 - 8 * int j" "- 8 < l'" "l' \<le> 0" "fronted ?c c1"
      "length (digits c1) = length (digits ?c) + j"
      "digits_num (digits c1) * 2147483648 = 256 ^ j * (digits_num (digits ?c) * 2147483648 + ?e)"
      using 1(1) [of l' c1] rec 1(3,8) out(2) e True low high err shift_arith [of e] 1(5,6) by (auto simp: ec_const)
    have "digits_num (digits ?c) * 2147483648 + ?e = 256 * (digits_num (digits c) * 2147483648 + e)"
    proof -
      have "(D * 256 + q) * 2147483648 + m * 256 = 256 * (D * 2147483648 + (q * 8388608 + m))" for q m D :: int
        by simp
      then show ?thesis unfolding out(5) by (simp only: div_mult_mod_eq)
    qed
    with j fronted_trans [OF carry_out_fronted [OF 1(4) x err] j(4)] out(4) show ?thesis
      by (intro exI [of _ "Suc j"]) simp
  qed
qed

text \<open>Everything that waits is written.\<close>

lemma flush_waiting:
  assumes "buf_ok c" and "c' = (if ec_rem c \<ge> 0 \<or> ec_ext c > 0 then ec_enc_carry_out 0 c else c)"
    and "ec_error c' = 0"
  shows "fronted c c'" and "map uint (front c') = digits c"
proof -
  have "fronted c c' \<and> map uint (front c') = digits c"
  proof (cases "ec_rem c \<ge> 0 \<or> ec_ext c > 0")
    case True
    with assms have c': "c' = ec_enc_carry_out 0 c" and err: "ec_error (ec_enc_carry_out 0 c) = 0" by simp_all
    note fl = carry_out_flush [OF assms(1) _ _ _ err, simplified] and fd = carry_out_flushed [OF assms(1) _ _ _ err, simplified]
    have "digits c' = map uint (front c') @ [0]" using fl by (simp add: digits_def c')
    moreover have "digits c' = digits c @ [0]" using fd(4) assms(1) by (simp add: c' digits_def buf_ok_def)
    ultimately show ?thesis using fd(1-3) by (simp add: fronted_def c')
  qed (use assms in \<open>auto simp: fronted_def digits_def buf_ok_def\<close>)
  then show "fronted c c'" and "map uint (front c') = digits c" by simp_all
qed

section \<open>What a closed buffer says\<close>

lemma stream_num_take: "n \<le> length buf \<Longrightarrow> stream_num buf n = digits_num (map uint (take n buf))"
  by (induction n) (simp_all add: byte_at_def take_Suc_conv_app_nth)

lemma stream_num_add: "\<exists>t. stream_num buf (n + j) = stream_num buf n * 256 ^ j + t \<and> 0 \<le> t \<and> t < 256 ^ j"
proof (induction j)
  case (Suc j)
  then obtain t where t: "stream_num buf (n + j) = stream_num buf n * 256 ^ j + t" "0 \<le> t" "t < 256 ^ j" by blast
  note b = byte_at_range [of buf "n + j"]
  have "t * 256 + byte_at buf (n + j) < 256 ^ Suc j"
    using t(3) b by (simp only: power_Suc)
  with t b show ?case by (intro exI [of _ "t * 256 + byte_at buf (n + j)"]) (simp add: algebra_simps)
qed (intro exI [of _ 0], simp)

text \<open>
  The value a decoder sees: with the first \<open>n + j\<close> bytes the flushed digits, the value's low bits
  replaced by \<open>w\<close> (raw bits that did not fill a byte), and anything behind them.
\<close>

lemma code_in_range:
  assumes "n + j \<le> length buf" and "j \<le> 4" and "k \<le> 8 * j" and "k \<le> 31" and "0 \<le> w" and "w < 2 ^ (8 * j - k)"
    and "digits_num (map uint (take (n + j) buf)) = B + w" and "B * 2147483648 = 256 ^ j * L"
  shows "L \<le> code_at buf n \<and> code_at buf n < L + 2 ^ (31 - k)"
proof -
  obtain i where i: "4 = j + i" using assms(2) le_Suc_ex by blast
  obtain t where t: "stream_num buf (n + j + i) = stream_num buf (n + j) * 256 ^ i + t" "0 \<le> t" "t < 256 ^ i"
    using stream_num_add by blast
  have p: "(256 :: int) ^ j * 256 ^ i = 4294967296" using i by (simp flip: power_add)
  have "B * 256 ^ i * 2147483648 = B * 2147483648 * 256 ^ i" by simp
  also have "\<dots> = 256 ^ j * 256 ^ i * L" unfolding assms(8) by (simp only: ac_simps)
  finally have B: "B * 256 ^ i = 2 * L" unfolding p by simp
  have N: "stream_num buf (n + 4) = 2 * L + (w * 256 ^ i + t)"
    using t(1) stream_num_take [OF assms(1)] B i by (simp add: assms(7) distrib_right add.assoc)
  have "w * 256 ^ i + t < (w + 1) * 256 ^ i" using t(3) by (simp add: distrib_right)
  also have "\<dots> \<le> 2 ^ (8 * j - k) * 256 ^ i" using assms(6) by (intro mult_right_mono) simp_all
  also have "\<dots> = 2 ^ (8 * j - k + 8 * i)" by (simp add: pow256 power_add)
  also have "8 * j - k + 8 * i = Suc (31 - k)" using i assms(3,4) by simp
  finally have lt: "w * 256 ^ i + t < 2 * 2 ^ (31 - k)" by simp
  have ge: "0 \<le> w * 256 ^ i + t" using assms(5) t(2) by simp
  have "code_at buf n = L + (w * 256 ^ i + t) div 2" by (simp only: code_at_def N)
  moreover have "0 \<le> (w * 256 ^ i + t) div 2" using ge by simp
  moreover have "(w * 256 ^ i + t) div 2 < 2 ^ (31 - k)" using lt by (intro int_div_bounds(2)) simp_all
  ultimately show ?thesis by linarith
qed

text \<open>
  The raw bits at the back: the last \<open>e\<close> bytes, and below them the \<open>u\<close> low bits of the byte before.
\<close>

lemma raw_tail:
  assumes "e \<le> length (buf :: u8 list)" and "0 < u \<Longrightarrow> e < length buf \<and> uint (buf ! (length buf - Suc e)) mod 2 ^ u = w"
    and "u \<le> 8" and "u = 0 \<Longrightarrow> w = 0"
  shows "digits_num (map uint buf) mod 2 ^ (8 * e + u)
    = digits_num (map uint (drop (length buf - e) buf)) + w * 2 ^ (8 * e)"
proof -
  let ?p = "take (length buf - e) buf" and ?q = "drop (length buf - e) buf"
  have app: "digits_num (xs @ ys) = digits_num xs * 256 ^ length ys + digits_num ys" for xs ys
    by (induction ys rule: rev_induct) (simp_all add: algebra_simps flip: append_assoc)
  have "length ?q = e" using assms(1) by simp
  note q = bytes_num_bounds [of ?q, unfolded this]
  have "digits_num (map uint buf) = digits_num (map uint ?p) * 2 ^ (8 * e) + digits_num (map uint ?q)"
    using app [of "map uint ?p" "map uint ?q"] assms(1) by (simp add: pow256 flip: map_append)
  moreover have "digits_num (map uint ?p) mod 2 ^ u = w"
  proof (cases "u = 0")
    case False
    with assms(1,2) have e: "e < length buf" "uint (buf ! (length buf - Suc e)) mod 2 ^ u = w" by simp_all
    then have "?p = take (length buf - Suc e) buf @ [buf ! (length buf - Suc e)]"
      by (metis Suc_diff_Suc diff_less_Suc less_Suc_eq_0_disj take_Suc_conv_app_nth diff_less length_greater_0_conv zero_less_Suc
          list.size(3) not_less0)
    then have "digits_num (map uint ?p) = digits_num (map uint (take (length buf - Suc e) buf)) * 256
        + uint (buf ! (length buf - Suc e))" by simp
    moreover have "(2 :: int) ^ u dvd 2 ^ 8" using assms(3) by (intro le_imp_power_dvd)
    then have "(a * 256 + b) mod 2 ^ u = b mod 2 ^ u" for a b :: int
      by (simp add: mod_add_eq [symmetric, of "a * 256"] dvd_mult)
    ultimately show ?thesis using e(2) by simp
  qed (use assms(4) in simp)
  ultimately show ?thesis using q(1) q(2) [unfolded pow256]
    by (simp add: power_add zmod_zmult2_eq)
qed

section \<open>Closing the buffer\<close>

lemma or_byte:
  assumes "2 ^ q dvd uint (b :: u8)" and "0 \<le> w" and "w < 2 ^ q" and "q \<le> 8"
  shows "uint (b OR word_of_int w) = uint b + w"
proof -
  obtain a where a: "uint b = a * 2 ^ q" using assms(1) by (metis dvd_def mult.commute)
  have "(2 :: int) ^ q \<le> 2 ^ 8" using assms(4) by (intro power_increasing) simp_all
  then have "w < 256" using assms(3) by simp
  with assms(2) have "uint (b OR word_of_int w) = uint b OR w" by (simp add: unsigned_or_eq uint_word_of_int)
  then show ?thesis using or_low [OF assms(2,3), of a] by (simp add: a)
qed

text \<open>The contents of the buffer between the flushed front and the flushed back.\<close>

definition closes :: "ec_ctx \<Rightarrow> nat \<Rightarrow> nat \<Rightarrow> int \<Rightarrow> u8 list \<Rightarrow> bool" where
  "closes c q u w buf = (length buf = ec_storage c
     \<and> drop (ec_storage c - ec_end_offs c) buf = drop (ec_storage c - ec_end_offs c) (ec_buf c)
     \<and> (\<exists>x. digits_num (map uint (take (ec_offs c) buf)) = digits_num (map uint (front c)) + x \<and> 0 \<le> x \<and> x < 2 ^ q)
     \<and> (0 < u \<longrightarrow> ec_end_offs c < ec_storage c \<and> uint (buf ! (ec_storage c - Suc (ec_end_offs c))) mod 2 ^ u = w))"

lemma clear_gap:
  assumes "buf_ok c"
  defines "buf \<equiv> ec_buf (clear_gap c)"
  shows "length buf = ec_storage c" and "take (ec_offs c) buf = front c"
    and "drop (ec_storage c - ec_end_offs c) buf = drop (ec_storage c - ec_end_offs c) (ec_buf c)"
    and "ec_offs c \<le> i \<Longrightarrow> i < ec_storage c - ec_end_offs c \<Longrightarrow> buf ! i = 0"
  using assms(1) by (auto simp: buf_def clear_gap_def buf_ok_def front_def nth_append)

lemma clear_gap_state [simp]:
  "ec_storage (clear_gap c) = ec_storage c" "ec_end_offs (clear_gap c) = ec_end_offs c"
  "ec_offs (clear_gap c) = ec_offs c" "ec_error (clear_gap c) = ec_error c"
  by (simp_all add: clear_gap_def)

lemma clear_gap_closes: "buf_ok c \<Longrightarrow> closes c q 0 w (ec_buf (clear_gap c))"
  using clear_gap [of c] by (simp add: closes_def)

text \<open>The last raw bits join the byte before the back, above which only free bits may be set.\<close>

lemma merge_window_closes:
  assumes "buf_ok c" and "ec_error (merge_window l w (int u) (clear_gap c)) = 0" and "0 < u" and "u \<le> 8"
    and "0 \<le> w" and "w < 2 ^ u" and "2 ^ q dvd digits_num (map uint (front c))" and "l = - int q" and "q \<le> 8"
  shows "closes c q u w (ec_buf (merge_window l w (int u) (clear_gap c)))"
proof -
  let ?g = "ec_buf (clear_gap c)" and ?i = "ec_storage c - Suc (ec_end_offs c)"
  let ?buf = "?g[?i := ?g ! ?i OR word_of_int w]"
  note gap = clear_gap [OF assms(1)]
  have room: "ec_end_offs c < ec_storage c" and fits: "ec_offs c + ec_end_offs c < ec_storage c \<or> u \<le> q"
    using assms(2,8) by (auto simp: merge_window_def Let_def split: if_splits)
  have buf: "ec_buf (merge_window l w (int u) (clear_gap c)) = ?buf"
    using assms(8) room fits by (auto simp: merge_window_def Let_def)
  have ok: "ec_offs c + ec_end_offs c \<le> ec_storage c" using assms(1) by (simp add: buf_ok_def)
  have len: "length ?buf = ec_storage c" and i: "?i < length ?g" using gap(1) room by simp_all
  have tail: "drop (ec_storage c - ec_end_offs c) ?buf = drop (ec_storage c - ec_end_offs c) (ec_buf c)"
    using gap(3) room by simp
  have dvd: "(2 :: int) ^ u dvd 2 ^ q" if "u \<le> q" using that by (rule le_imp_power_dvd)
  have "(\<exists>x. digits_num (map uint (take (ec_offs c) ?buf)) = digits_num (map uint (front c)) + x \<and> 0 \<le> x \<and> x < 2 ^ q)
    \<and> uint (?buf ! ?i) mod 2 ^ u = w"
  proof (cases "ec_offs c + ec_end_offs c < ec_storage c")
    case True
    then have "?g ! ?i = 0" by (intro gap(4)) simp_all
    moreover have "w < 256" using assms(4,6) power_increasing [of u 8 "2 :: int"] by simp
    ultimately have "uint (?buf ! ?i) = w" using i assms(5) by (simp add: uint_word_of_int)
    moreover have "take (ec_offs c) ?buf = front c" using True gap(2) by simp
    ultimately show ?thesis using assms(5,6) by (auto intro: exI [of _ 0])
  next
    case False
    with ok have full: "ec_offs c = Suc ?i" using room by simp
    with False fits have uq: "u \<le> q" by simp
    have front: "front c = take ?i ?g @ [?g ! ?i]"
      using gap(2) i by (simp add: full take_Suc_conv_app_nth)
    have "(2 :: int) ^ q dvd 2 ^ 8" using assms(9) by (rule le_imp_power_dvd)
    then have low: "2 ^ q dvd uint (?g ! ?i)"
      using assms(7) by (simp add: front dvd_add_right_iff dvd_mult)
    have "w < 2 ^ q" by (rule less_le_trans [OF assms(6) power_increasing [OF uq]]) simp
    note joined = or_byte [OF low assms(5) this assms(9)]
    then have "uint (?buf ! ?i) = uint (?g ! ?i) + w" using i by simp
    moreover have "take (ec_offs c) ?buf = take ?i ?g @ [?buf ! ?i]"
      using i by (simp add: full take_Suc_conv_app_nth)
    moreover have "(uint (?g ! ?i) + w) mod 2 ^ u = w"
      using dvd_trans [OF dvd [OF uq] low] assms(5,6) by (metis mod_add_left_eq dvd_imp_mod_0 add_0 mod_pos_pos_trivial)
    ultimately show ?thesis using assms(5) \<open>w < 2 ^ q\<close> by (simp add: front)
  qed
  with room len tail show ?thesis unfolding buf closes_def by blast
qed

text \<open>\<open>ec_enc_done\<close> in its stages.\<close>

lemma done_stages:
  assumes "ec_error (ec_enc_done c) = 0"
  obtains l e l' c1 c2 w u c3 where "final_code c = (l, e)" and "enc_flush l e c = (l', c1)"
    and "c2 = (if ec_rem c1 \<ge> 0 \<or> ec_ext c1 > 0 then ec_enc_carry_out 0 c1 else c1)"
    and "flush_window c2 (ec_end_window c2) (ec_nend_bits c2) = (w, u, c3)"
    and "ec_error c = 0" and "ec_error c1 = 0" and "ec_error c2 = 0" and "ec_error c3 = 0"
    and "ec_enc_done c = (if u > 0 then merge_window l' w u (clear_gap c3) else clear_gap c3)"
proof -
  obtain l e where e: "final_code c = (l, e)" by (cases "final_code c")
  obtain l' c1 where c1: "enc_flush l e c = (l', c1)" by (cases "enc_flush l e c")
  define c2 where "c2 = (if ec_rem c1 \<ge> 0 \<or> ec_ext c1 > 0 then ec_enc_carry_out 0 c1 else c1)"
  obtain w u c3 where c3: "flush_window c2 (ec_end_window c2) (ec_nend_bits c2) = (w, u, c3)" by (rule prod_cases3)
  have res: "ec_enc_done c = (if ec_error c3 \<noteq> 0 then c3
      else if u > 0 then merge_window l' w u (clear_gap c3) else clear_gap c3)"
    by (simp add: ec_enc_done_def e c1 c3 Let_def flip: c2_def)
  have err3: "ec_error c3 = 0" using assms res by (auto split: if_splits)
  then have err2: "ec_error c2 = 0" using c3 flush_window_error [of c2 "ec_end_window c2" "ec_nend_bits c2"] by simp
  then have err1: "ec_error c1 = 0" unfolding c2_def by (auto split: if_splits dest: carry_out_error)
  then have "ec_error c = 0" using c1 enc_flush_error [of l e c] by simp
  with that [OF e c1 c2_def c3] err1 err2 err3 res show thesis by simp
qed

lemma done_error:
  assumes "ec_error (ec_enc_done c) = 0"
  shows "ec_error c = 0"
  using assms by (rule done_stages)

lemma done_holds:
  assumes "ready c" and "ec_error (ec_enc_done c) = 0"
  shows "ec_error c = 0" and "holds (ec_buf (ec_enc_done c)) c"
proof -
  from assms(2) obtain l e l' c1 c2 w u c3 where code: "final_code c = (l, e)" and c1: "enc_flush l e c = (l', c1)"
    and c2: "c2 = (if ec_rem c1 \<ge> 0 \<or> ec_ext c1 > 0 then ec_enc_carry_out 0 c1 else c1)"
    and c3: "flush_window c2 (ec_end_window c2) (ec_nend_bits c2) = (w, u, c3)"
    and err: "ec_error c = 0" "ec_error c1 = 0" "ec_error c2 = 0" "ec_error c3 = 0"
    and res: "ec_enc_done c = (if u > 0 then merge_window l' w u (clear_gap c3) else clear_gap c3)"
    by (rule done_stages)
  show "ec_error c = 0" by (rule err(1))
  have inv: "enc_inv c" using assms(1) by (simp add: ready_def)
  obtain k where k: "l = int k" "k \<le> 9" "ec_val c \<le> e" "2 ^ (31 - k) dvd e"
    "e + 2 ^ (31 - k) \<le> ec_val c + ec_rng c" using final_code [OF assms(1)] code by auto
  have "(0 :: int) < 2 ^ (31 - k)" by simp
  with k(5) have "e < ec_val c + ec_rng c" by linarith
  then have e: "0 \<le> e" "e < 4294967296" "e < 2147483648 \<or> carry_safe c" "e < ec_val c + ec_rng c"
    using inv k(3,5) by (auto simp: enc_inv_def)
  have e0: "e = 0" if "k = 0"
  proof -
    have "e < 2147483648" "2147483648 dvd e" using k(4,5) inv that by (auto simp: enc_inv_def)
    then show ?thesis using e(1) zdvd_imp_le [of 2147483648 e] by linarith
  qed
  obtain j where j: "l' = int k - 8 * int j" "- 8 < l'" "l' \<le> 0" "fronted c c1"
    "length (digits c1) = length (digits c) + j"
    "digits_num (digits c1) * 2147483648 = 256 ^ j * (digits_num (digits c) * 2147483648 + e)"
    using enc_flush [OF c1 err(2)] inv e k e0 err(1) by (auto simp: enc_inv_def)
  have ok1: "buf_ok c1" using j(4) by (simp add: fronted_def)
  note wait = flush_waiting [OF ok1 c2 err(3)]
  have f: "fronted c c2" by (rule fronted_trans [OF j(4) wait(1)])
  then have same: "buf_ok c2" "ec_storage c2 = ec_storage c" "ec_end_offs c2 = ec_end_offs c"
    "ec_nend_bits c2 = ec_nend_bits c" "ec_end_window c2 = ec_end_window c" "raw_at c2 (ec_end_window c) = raw_num c"
    by (simp_all add: fronted_def raw_num_at raw_at_def)
  have b: "backed c2 c3" and raw: "raw_at c3 w = raw_num c" "8 * ec_end_offs c3 + nat u = raw_len c"
    and u: "0 \<le> u" "u < 8" and w: "0 \<le> w" "w < 2 ^ nat u"
    using flush_window [OF c3 err(4) same(1)] same inv by (auto simp: enc_inv_def raw_len_def)
  note st = backed_state [OF b]
  let ?q = "8 * j - k"
  have q: "k \<le> 8 * j" "?q \<le> 8" "l' = - int ?q" "j \<le> 2" using j(1-3) k(2) by linarith+
  have front: "map uint (front c3) = digits c1" using wait(2) st by simp
  have "ec_offs c3 \<le> length (ec_buf c3)" using st(12) by (simp add: buf_ok_def)
  then have offs: "ec_offs c3 = length (digits c) + j" using j(5) unfolding front [symmetric] by (simp add: front_def)
  have "2 ^ (31 - k) dvd digits_num (digits c) * 2147483648 + e"
    using k(4) le_imp_power_dvd [of "31 - k" 31 "2 :: int"] by (simp add: dvd_add)
  then have "2 ^ (8 * j) * 2 ^ (31 - k) dvd digits_num (digits c1) * 2147483648"
    unfolding j(6) pow256 by (rule mult_dvd_mono [OF dvd_refl])
  moreover have "(2 :: int) ^ (8 * j) * 2 ^ (31 - k) = 2 ^ ?q * 2147483648"
    using q(1) k(2) by (simp flip: power_add add: power_add [of "2 :: int" ?q 31, simplified, symmetric])
  ultimately have dvd: "2 ^ ?q dvd digits_num (map uint (front c3))" by (simp add: front)
  have closes: "closes c3 ?q (nat u) w (ec_buf (ec_enc_done c))"
  proof (cases "u > 0")
    case True
    have eq: "ec_enc_done c = merge_window l' w (int (nat u)) (clear_gap c3)" using res True by simp
    show ?thesis using assms(2) True u w q dvd unfolding eq
      by (intro merge_window_closes [OF st(12)]) simp_all
  next
    case False
    then show ?thesis using clear_gap_closes [OF st(12)] u(1) by (simp add: res)
  qed
  let ?buf = "ec_buf (ec_enc_done c)" and ?L = "digits_num (digits c) * 2147483648 + e"
  from closes obtain x where len: "length ?buf = ec_storage c3"
    and tail: "drop (ec_storage c3 - ec_end_offs c3) ?buf = drop (ec_storage c3 - ec_end_offs c3) (ec_buf c3)"
    and x: "digits_num (map uint (take (length (digits c) + j) ?buf)) = digits_num (digits c1) + x" "0 \<le> x" "x < 2 ^ ?q"
    and last: "0 < nat u \<Longrightarrow> ec_end_offs c3 < ec_storage c3
      \<and> uint (?buf ! (ec_storage c3 - Suc (ec_end_offs c3))) mod 2 ^ nat u = w"
    by (auto simp: closes_def offs front)
  have "?L \<le> code_at ?buf (length (digits c)) \<and> code_at ?buf (length (digits c)) < ?L + 2 ^ (31 - k)"
    using q k(2) st(12) len by (intro code_in_range [OF _ _ q(1) _ x(2,3,1) j(6)]) (auto simp: buf_ok_def offs [symmetric])
  with k(3,5) have "low c \<le> code_at ?buf (length (digits c))"
    "code_at ?buf (length (digits c)) < low c + ec_rng c" by (simp_all add: low_def)
  moreover have "digits_num (map uint ?buf) mod 2 ^ (8 * ec_end_offs c3 + nat u) = raw_at c3 w"
    unfolding raw_at_def tail [symmetric] using st(12) last u w len
    by (subst raw_tail [where w = w]) (auto simp: buf_ok_def)
  ultimately show "holds ?buf c" by (simp add: holds_def raw)
qed

section \<open>Round trip\<close>

text \<open>Every codec has it.\<close>

context symbol_codec begin

lemma roundtrip:
  assumes "codable_from valid op [] vs" and "encode_from enc op [] vs (ec_enc_init buf) = Some c"
    and "ec_error (ec_enc_done c) = 0"
  shows "\<exists>d d'. ec_dec_init (ec_buf (ec_enc_done c)) = Some d
    \<and> decode_from dec op [] (length vs) d = Some (vs, d')
    \<and> ec_tell d' = ec_tell c \<and> ec_tell_frac d' = ec_tell_frac c \<and> ec_error d' = 0"
proof -
  let ?buf = "ec_buf (ec_enc_done c)"
  have "ec_error c = 0" using assms(3) by (rule done_error)
  then have f: "follows (ec_enc_init buf) c (decode_from dec op [] (length vs)) vs"
    by (rule lockstep_follows [OF message_lockstep [OF assms(1)] enc_init_ready assms(2)])
  then have "holds ?buf c" using done_holds [OF _ assms(3)] by (simp add: follows_def)
  moreover obtain d where d: "ec_dec_init ?buf = Some d" "sync ?buf (ec_enc_init buf) d"
    using dec_init_sync by blast
  ultimately obtain d' where "decode_from dec op [] (length vs) d = Some (vs, d')" "sync ?buf c d'"
    using f by (fastforce simp: follows_def)
  with d(1) show ?thesis by (auto simp: sync_def ec_tell_def ec_tell_frac_def)
qed

end

definition sample_op :: "ec_value list \<Rightarrow> ec_op" where
  "sample_op past = [Code_Bit_Logp 3, Code_Uint 1000, Code_Icdf [12, 5, 0] 4, Code_Bits 5] ! length past"

definition sample_values :: "ec_value list" where
  "sample_values = [Flag True, Number 777, Index 1, Number 19]"

text \<open>
  C8: What the range coder writes it reads back. A message whose every value its operation can code,
  each operation chosen by the values before it, is encoded into a buffer and closed without an error;
  then a decoder that is given only that buffer and the same choice of operations returns exactly
  the message, flags no error, and agrees with the encoder on the bits spent, whole and in eighths.
\<close>

theorem message_roundtrip:
  assumes "codable_from op_codes op [] vs" and "encode_from enc_op op [] vs (ec_enc_init buf) = Some c"
    and "ec_error (ec_enc_done c) = 0"
  shows "\<exists>d d'. ec_dec_init (ec_buf (ec_enc_done c)) = Some d
    \<and> decode_from dec_op op [] (length vs) d = Some (vs, d')
    \<and> ec_tell d' = ec_tell c \<and> ec_tell_frac d' = ec_tell_frac c \<and> ec_error d' = 0"
  using assms by (rule ec.roundtrip)

lemma message_roundtrip_witness:
  "\<exists>c d d'. encode_from enc_op sample_op [] sample_values (ec_enc_init (replicate 3 0)) = Some c
    \<and> ec_dec_init (ec_buf (ec_enc_done c)) = Some d
    \<and> decode_from dec_op sample_op [] (length sample_values) d = Some (sample_values, d')"
proof -
  have "encode_from enc_op sample_op [] sample_values (ec_enc_init (replicate 3 0)) \<noteq> None" by code_simp
  moreover have "ec_error (ec_enc_done (the (encode_from enc_op sample_op [] sample_values
      (ec_enc_init (replicate 3 0))))) = 0" by code_simp
  moreover have "codable_from op_codes sample_op [] sample_values" by code_simp
  ultimately show ?thesis
    using message_roundtrip [of sample_op sample_values "replicate 3 0"] by fastforce
qed

text \<open>
  C9: Encoding always returns: the renormalisations end, whatever is coded and however little space
  there is. A buffer that is too small is an error of the context (it stays set until the message is
  closed), never a loop.
\<close>

theorem message_encodes:
  assumes "codable_from op_codes op [] vs"
  shows "\<exists>c. encode_from enc_op op [] vs (ec_enc_init buf) = Some c \<and> EC_CODE_BOT < ec_rng c
    \<and> ec_rng c \<le> EC_CODE_TOP \<and> (ec_error c \<noteq> 0 \<longrightarrow> ec_error (ec_enc_done c) \<noteq> 0)"
proof -
  obtain c where "encode_from enc_op op [] vs (ec_enc_init buf) = Some c" "alive c"
    using lockstep_total [OF ec.message_lockstep [OF assms]] enc_init_ready ready_def by blast
  moreover note done_error [of c]
  ultimately show ?thesis by (auto simp: alive_def)
qed

lemma message_encodes_witness:
  "\<exists>c. encode_from enc_op sample_op [] sample_values (ec_enc_init []) = Some c \<and> ec_error (ec_enc_done c) \<noteq> 0"
proof -
  have "codable_from op_codes sample_op [] sample_values" by code_simp
  from message_encodes [OF this, of "[]"] obtain c
    where c: "encode_from enc_op sample_op [] sample_values (ec_enc_init []) = Some c" by blast
  moreover have "ec_error (ec_enc_done (the (encode_from enc_op sample_op [] sample_values (ec_enc_init [])))) \<noteq> 0"
    by code_simp
  ultimately show ?thesis by simp
qed

text \<open>
  C10: The registers keep their types. As long as no error was flagged, after every operation the
  range is in \<open>(2^23, 2^31]\<close>, the low end plus the range fits 32 bits and cannot carry past the digits
  already written, the window of raw bits holds nothing above its count, and the two ends of the
  buffer have not met.
\<close>

theorem coder_well_formed:
  assumes "codable_from op_codes op [] vs" and "encode_from enc_op op [] vs (ec_enc_init buf) = Some c"
    and "ec_error c = 0"
  shows "EC_CODE_BOT < ec_rng c \<and> ec_rng c \<le> EC_CODE_TOP \<and> 0 \<le> ec_val c \<and> ec_val c + ec_rng c < 2 ^ EC_CODE_BITS
    \<and> (ec_rem c = - 1 \<or> ec_rem c = 255 \<longrightarrow> ec_val c + ec_rng c \<le> EC_CODE_TOP)
    \<and> 0 \<le> ec_nend_bits c \<and> ec_nend_bits c \<le> EC_WINDOW_SIZE
    \<and> 0 \<le> ec_end_window c \<and> ec_end_window c < 2 ^ nat (ec_nend_bits c)
    \<and> 0 \<le> ec_ext c \<and> - 1 \<le> ec_rem c \<and> ec_rem c \<le> EC_SYM_MAX
    \<and> length (ec_buf c) = ec_storage c \<and> ec_offs c + ec_end_offs c \<le> ec_storage c"
proof -
  have "follows (ec_enc_init buf) c (decode_from dec_op op [] (length vs)) vs"
    by (rule lockstep_follows [OF ec.message_lockstep [OF assms(1)] enc_init_ready assms(2,3)])
  then have "alive c" "enc_inv c" by (simp_all add: follows_def ready_def)
  then show ?thesis
    unfolding alive_def enc_inv_def buf_ok_def carry_safe_def ec_const by auto
qed

lemma coder_well_formed_witness:
  "\<exists>c. encode_from enc_op sample_op [] sample_values (ec_enc_init (replicate 3 0)) = Some c
    \<and> ec_val c + ec_rng c < 2 ^ EC_CODE_BITS"
proof -
  have "encode_from enc_op sample_op [] sample_values (ec_enc_init (replicate 3 0)) \<noteq> None" by code_simp
  moreover have "ec_error (the (encode_from enc_op sample_op [] sample_values (ec_enc_init (replicate 3 0)))) = 0"
    by code_simp
  moreover have "codable_from op_codes sample_op [] sample_values" by code_simp
  ultimately show ?thesis using coder_well_formed [of sample_op sample_values "replicate 3 0"] by fastforce
qed

section \<open>A packet made smaller on the way\<close>

text \<open>
  \<open>ec_enc_shrink\<close> moves the raw bits to the new end; nothing else changes, so a message may be encoded
  in part, the buffer cut to the size the rate control chose, and the rest encoded into it.
\<close>

lemma shrink_same:
  assumes "enc_inv c" and "ec_offs c + ec_end_offs c \<le> n" and "n \<le> ec_storage c"
  shows "enc_inv (ec_enc_shrink n c)" and "digits (ec_enc_shrink n c) = digits c" and "low (ec_enc_shrink n c) = low c"
    and "raw_len (ec_enc_shrink n c) = raw_len c" and "raw_num (ec_enc_shrink n c) = raw_num c"
    and "ec_rng (ec_enc_shrink n c) = ec_rng c" and "ec_nbits_total (ec_enc_shrink n c) = ec_nbits_total c"
    and "ec_error (ec_enc_shrink n c) = ec_error c"
proof -
  let ?c = "ec_enc_shrink n c"
  have len: "length (ec_buf c) = ec_storage c" using assms(1) by (simp add: enc_inv_def buf_ok_def)
  have front: "front ?c = front c" using assms(2,3) len by (simp add: ec_enc_shrink_def front_def min_def)
  have tail: "drop (n - ec_end_offs c) (ec_buf ?c) = drop (ec_storage c - ec_end_offs c) (ec_buf c)"
    using assms(2,3) len by (simp add: ec_enc_shrink_def min_def)
  have st: "ec_storage ?c = n" "ec_end_offs ?c = ec_end_offs c" "ec_offs ?c = ec_offs c" "ec_val ?c = ec_val c"
    "ec_ext ?c = ec_ext c" "ec_rem ?c = ec_rem c" "ec_end_window ?c = ec_end_window c" "ec_nend_bits ?c = ec_nend_bits c"
    by (simp_all add: ec_enc_shrink_def)
  show same: "ec_rng ?c = ec_rng c" "ec_nbits_total ?c = ec_nbits_total c" "ec_error ?c = ec_error c"
    by (simp_all add: ec_enc_shrink_def)
  show "digits ?c = digits c" "low ?c = low c" by (simp_all add: low_def digits_def front st)
  show "raw_len ?c = raw_len c" "raw_num ?c = raw_num c" by (simp_all add: raw_len_def raw_num_def st tail)
  have "length (ec_buf ?c) = n" using assms(2,3) len by (simp add: ec_enc_shrink_def)
  then show "enc_inv ?c" using assms(1,2) by (simp add: enc_inv_def buf_ok_def carry_safe_def st same)
qed

lemma follows_shrink:
  assumes "ready c" and "ec_error c = 0" and "ec_offs c + ec_end_offs c \<le> n" and "n \<le> ec_storage c"
  shows "follows c (ec_enc_shrink n c) (\<lambda>d. Some ([], d)) []"
proof -
  have inv: "enc_inv c" using assms(1) by (simp add: ready_def)
  note same = shrink_same [OF inv assms(3,4)]
  show ?thesis using assms(1,2) same by (simp add: follows_def ready_def alive_def holds_def sync_def)
qed

lemma codable_append:
  "codable_from valid op past (vs @ ws) = (codable_from valid op past vs \<and> codable_from valid op (past @ vs) ws)"
  by (induction vs arbitrary: past) simp_all

lemma decode_append:
  assumes "decode_from dec op past (length vs) d = Some (vs, d')"
    and "decode_from dec op (past @ vs) n d' = Some (ws, d'')"
  shows "decode_from dec op past (length vs + n) d = Some (vs @ ws, d'')"
  using assms
proof (induction vs arbitrary: past d)
  case (Cons v vs)
  then obtain d1 where d1: "dec (op past) d = Some (v, d1)" "decode_from dec op (past @ [v]) (length vs) d1 = Some (vs, d')"
    by (auto simp: bind_eq_Some_conv)
  with Cons.IH [OF d1(2)] Cons.prems(2) show ?case by simp
qed simp

lemma shrunk_roundtrip:
  assumes "codable_from op_codes op [] (vs @ ws)" and "encode_from enc_op op [] vs (ec_enc_init buf) = Some c"
    and "ec_offs c + ec_end_offs c \<le> n" and "n \<le> ec_storage c"
    and "encode_from enc_op op vs ws (ec_enc_shrink n c) = Some c'" and "ec_error (ec_enc_done c') = 0"
  shows "\<exists>d d'. ec_dec_init (ec_buf (ec_enc_done c')) = Some d
    \<and> decode_from dec_op op [] (length (vs @ ws)) d = Some (vs @ ws, d') \<and> ec_tell d' = ec_tell c'"
proof -
  let ?buf = "ec_buf (ec_enc_done c')"
  from assms(1) have cod: "codable_from op_codes op [] vs" "codable_from op_codes op vs ws"
    by (simp_all add: codable_append)
  note law = ec.message_lockstep [OF cod(1)] ec.message_lockstep [OF cod(2)]
  have err': "ec_error c' = 0" by (rule done_error [OF assms(6)])
  have "alive (ec_enc_init buf)" using enc_init_ready [of buf] by (simp add: ready_def)
  from lockstep_total [OF law(1) this] assms(2) have "alive c" by simp
  then have "alive (ec_enc_shrink n c)" by (simp add: alive_def ec_enc_shrink_def)
  then have "ec_error (ec_enc_shrink n c) = 0" using law(2) assms(5) err' unfolding lockstep_def by blast
  then have err: "ec_error c = 0" by (simp add: ec_enc_shrink_def)
  have f1: "follows (ec_enc_init buf) c (decode_from dec_op op [] (length vs)) vs"
    by (rule lockstep_follows [OF law(1) enc_init_ready assms(2) err])
  then have f2: "follows c (ec_enc_shrink n c) (\<lambda>d. Some ([] :: ec_value list, d)) []"
    using follows_shrink [OF _ err assms(3,4)] by (simp add: follows_def)
  then have f3: "follows (ec_enc_shrink n c) c' (decode_from dec_op op vs (length ws)) ws"
    using lockstep_follows [OF law(2) _ assms(5) err'] by (simp add: follows_def)
  then have h: "holds ?buf c'" using done_holds [OF _ assms(6)] by (simp add: follows_def)
  obtain d where d: "ec_dec_init ?buf = Some d" "sync ?buf (ec_enc_init buf) d" using dec_init_sync by blast
  from h f3 f2 f1 d(2) obtain d1 d2 where "decode_from dec_op op [] (length vs) d = Some (vs, d1)"
    "decode_from dec_op op vs (length ws) d1 = Some (ws, d2)" "sync ?buf c' d2"
    unfolding follows_def by force
  with d(1) decode_append [of dec_op op "[]" vs d d1 "length ws" ws d2] show ?thesis
    by (auto simp: sync_def ec_tell_def)
qed

end
