(* ===== verification/Range_Decoder.thy ===== *)
theory Range_Decoder
  imports Range_Roundtrip
begin

text \<open>
  The decoder on bytes that no encoder wrote. Its \<open>val\<close> is below its range whatever it reads, so every
  operation returns, with a value that the operation could have coded, and never reads outside the
  buffer.
\<close>

unbundle bit_operations_syntax

section \<open>The invariant\<close>

definition dec_pre :: "u8 list \<Rightarrow> ec_ctx \<Rightarrow> bool" where
  "dec_pre buf d = (0 < ec_rng d \<and> ec_rng d \<le> EC_CODE_TOP \<and> 0 \<le> ec_val d \<and> ec_val d < ec_rng d
     \<and> 0 \<le> ec_rem d \<and> ec_rem d \<le> EC_SYM_MAX \<and> ec_nend_bits d \<le> EC_WINDOW_SIZE
     \<and> ec_offs d \<le> length buf \<and> (\<exists>len. window_ok buf len d (ec_end_window d) (ec_nend_bits d)))"

definition dec_inv :: "u8 list \<Rightarrow> ec_ctx \<Rightarrow> bool" where
  "dec_inv buf d = (dec_pre buf d \<and> EC_CODE_BOT < ec_rng d)"

lemma ec_read_byte_range: "0 \<le> fst (ec_read_byte d) \<and> fst (ec_read_byte d) \<le> 255"
proof -
  have "uint (b :: u8) \<le> 255" for b using uint_bounded [of b] by simp
  then show ?thesis by (simp add: ec_read_byte_def)
qed

lemma fill_window_upper:
  "a \<le> 24 \<Longrightarrow> fst (snd (fill_window d w a)) \<le> 32"
proof (induction d w a rule: fill_window.induct)
  case (1 d w a)
  obtain b d' where read: "ec_read_byte_from_end d = (b, d')" by fastforce
  from 1 read show ?case by (subst fill_window.simps) (auto simp: ec_const Let_def)
qed

lemma dec_narrow_pre:
  assumes "dec_pre buf d" and "0 \<le> v" and "v < r" and "r \<le> EC_CODE_TOP"
  shows "dec_pre buf (d\<lparr>ec_val := v, ec_rng := r\<rparr>)" and "dec_pre buf (d\<lparr>ec_val := v, ec_rng := r, ec_ext := x\<rparr>)"
  using assms by (auto simp: dec_pre_def window_ok_def)

lemma dec_shift_pre:
  assumes "dec_pre buf d" and "ec_rng d \<le> EC_CODE_BOT"
  shows "dec_pre buf (dec_shift d)" and "ec_rng (dec_shift d) = 256 * ec_rng d"
proof -
  have d: "0 < ec_rng d" "ec_rng d \<le> 8388608" "0 \<le> ec_val d" "ec_val d < ec_rng d"
    using assms by (simp_all add: dec_pre_def ec_const)
  obtain b o' where read: "ec_read_byte d = (b, d\<lparr>ec_offs := o'\<rparr>)" and o': "o' \<le> length buf"
    and b: "0 \<le> b" "b \<le> 255"
  proof
    show "0 \<le> fst (ec_read_byte d)" "fst (ec_read_byte d) \<le> 255"
      using ec_read_byte_range [of d] by simp_all
    show "ec_read_byte d = (fst (ec_read_byte d), d\<lparr>ec_offs := ec_offs (snd (ec_read_byte d))\<rparr>)"
      by (cases d) (simp add: ec_read_byte_def)
    show "ec_offs (snd (ec_read_byte d)) \<le> length buf"
      using assms(1) by (auto simp: dec_pre_def window_ok_def ec_read_byte_def)
  qed
  let ?s = "(ec_rem d * 256 OR b) div 2 mod 256"
  have s: "0 \<le> ?s" "?s < 256" by simp_all
  have sym: "255 AND NOT ((ec_rem d * 256 OR b) div 2) = 255 - ?s" using mask_and_not [of 8] by simp
  have "0 \<le> ec_val d * 256 + (255 - ?s)" "ec_val d * 256 + (255 - ?s) < 256 * ec_rng d"
    using d(3,4) s by linarith+
  moreover from this have "u32w (ec_val d * 256 + (255 - ?s)) AND 2147483647 = ec_val d * 256 + (255 - ?s)"
    using d(2) by (simp add: u32w_id and_mask31)
  moreover have "u32w (ec_rng d * 256) = 256 * ec_rng d" using d(1,2) by (simp add: u32w_id)
  ultimately show "dec_pre buf (dec_shift d)" "ec_rng (dec_shift d) = 256 * ec_rng d"
    using assms(1) d(1,2) o' b by (auto simp: dec_shift_def read ec_const sym dec_pre_def window_ok_def)
qed

lemma dec_normalize_inv:
  assumes "dec_pre buf d"
  shows "\<exists>d'. ec_dec_normalize d = Some d' \<and> dec_inv buf d'"
  using assms
proof (induction "nat (EC_CODE_TOP - ec_rng d)" arbitrary: d rule: less_induct)
  case less
  show ?case
  proof (cases "ec_rng d \<le> EC_CODE_BOT")
    case True
    note shift = dec_shift_pre [OF less.prems True]
    have "nat (EC_CODE_TOP - ec_rng (dec_shift d)) < nat (EC_CODE_TOP - ec_rng d)"
      using True less.prems by (simp add: shift(2) dec_pre_def ec_const)
    from less.hyps [OF this shift(1)] True show ?thesis by (subst ec_dec_normalize.simps) simp
  next
    case False
    with less.prems show ?thesis by (subst ec_dec_normalize.simps) (simp add: dec_inv_def)
  qed
qed

lemma dec_narrow:
  assumes "dec_pre buf d" and "0 \<le> v" and "v < r" and "r \<le> EC_CODE_TOP"
  shows "\<exists>d'. ec_dec_normalize (d\<lparr>ec_val := v, ec_rng := r\<rparr>) = Some d' \<and> dec_inv buf d'"
  using dec_normalize_inv [OF dec_narrow_pre(1) [OF assms]] .

lemma dec_init_inv: "\<exists>d. ec_dec_init buf = Some d \<and> dec_inv buf d"
proof -
  let ?c = "\<lparr>ec_buf = buf, ec_storage = length buf, ec_end_offs = 0, ec_end_window = 0, ec_nend_bits = 0,
    ec_nbits_total = 9, ec_offs = 0, ec_rng = 128, ec_val = 0, ec_ext = 0, ec_rem = 0, ec_error = 0\<rparr>"
  let ?b = "fst (ec_read_byte ?c)" and ?c1 = "snd (ec_read_byte ?c)"
  let ?d = "?c1\<lparr>ec_rem := ?b, ec_val := 127 - ?b div 2\<rparr>"
  have "window_ok buf 0 ?d 0 0" and "ec_offs ?d \<le> length buf" "ec_rng ?d = 128"
    "ec_end_window ?d = 0" "ec_nend_bits ?d = 0"
    by (auto simp: ec_read_byte_def window_ok_def Suc_le_eq)
  then have "dec_pre buf ?d"
    using ec_read_byte_range [of ?c] unfolding dec_pre_def by (auto simp: ec_const)
  moreover have "ec_dec_init buf = ec_dec_normalize ?d"
    by (simp add: ec_dec_init_def ec_read_byte_def ec_const)
  ultimately show ?thesis using dec_normalize_inv by simp
qed

section \<open>Operations\<close>

lemma dec_bit_logp_inv:
  assumes "dec_inv buf d" and "0 < logp" and "logp \<le> 23"
  shows "\<exists>v d'. ec_dec_bit_logp logp d = Some (v, d') \<and> dec_inv buf d'"
proof -
  let ?s = "ec_rng d div 2 ^ logp"
  have pre: "dec_pre buf d" and d: "8388608 < ec_rng d" "ec_rng d \<le> 2147483648" "0 \<le> ec_val d" "ec_val d < ec_rng d"
    using assms(1) by (simp_all add: dec_inv_def dec_pre_def ec_const)
  have "(2 :: int) ^ logp \<le> 2 ^ 23" using assms(3) by (intro power_increasing) simp_all
  then have "1 * 2 ^ logp \<le> ec_rng d" using d(1) by simp
  then have s: "1 \<le> ?s" by (intro int_div_bounds(1)) simp_all
  have "?s \<le> ec_rng d" using d(1) zdiv_mono2 [of "ec_rng d" 1 "2 ^ logp"] by simp
  show ?thesis
  proof (cases "ec_val d < ?s")
    case True
    have "d\<lparr>ec_rng := ?s\<rparr> = d\<lparr>ec_val := ec_val d, ec_rng := ?s\<rparr>" by (cases d) simp
    then have "ec_dec_bit_logp logp d = map_option (Pair True) (ec_dec_normalize (d\<lparr>ec_val := ec_val d, ec_rng := ?s\<rparr>))"
      using True by (simp only: ec_dec_bit_logp_def Let_def if_True simp_thms)
    moreover have "?s \<le> EC_CODE_TOP" using \<open>?s \<le> ec_rng d\<close> d(2) by (simp add: ec_const)
    from dec_narrow [OF pre d(3) True this] obtain d' where
      "ec_dec_normalize (d\<lparr>ec_val := ec_val d, ec_rng := ?s\<rparr>) = Some d'" "dec_inv buf d'" by blast
    ultimately show ?thesis by auto
  next
    case False
    from dec_narrow [OF pre, of "ec_val d - ?s" "ec_rng d - ?s"] False d s show ?thesis
      by (auto simp: ec_dec_bit_logp_def Let_def ec_const)
  qed
qed

text \<open>A look-up that partitions the total into the symbols' intervals.\<close>

definition look_ok :: "int \<Rightarrow> (int \<Rightarrow> int \<times> int) \<Rightarrow> bool" where
  "look_ok ft look = (\<forall>x \<in> {0..<ft}. let (fl, fh) = look x
     in 0 \<le> fl \<and> fl \<le> x \<and> x < fh \<and> fh \<le> ft \<and> (\<forall>y \<in> {fl..<fh}. look y = (fl, fh)))"

lemma dec_decode_range:
  assumes "dec_inv buf d" and "1 \<le> ft" and "ft \<le> 8388608" and "ec_decode ft d = (s, d1)"
  shows "0 \<le> s" and "s < ft" and "d1 = d\<lparr>ec_ext := ec_rng d div ft\<rparr>"
    and "ec_rng d div ft * (ft - 1 - s) \<le> ec_val d"
    and "0 < s \<Longrightarrow> ec_val d < ec_rng d div ft * (ft - s)" and "0 < ec_rng d div ft"
proof -
  let ?e = "ec_rng d div ft"
  have d: "8388608 < ec_rng d" "0 \<le> ec_val d" using assms(1) by (simp_all add: dec_inv_def dec_pre_def ec_const)
  have "1 * ft \<le> ec_rng d" using d(1) assms(3) by simp
  then have "1 \<le> ?e" by (intro int_div_bounds(1)) (use assms(2) in simp_all)
  then show e: "0 < ?e" by simp
  let ?q = "ec_val d div ?e"
  have q: "0 \<le> ?q" "?e * ?q \<le> ec_val d" "ec_val d < ?e * (?q + 1)"
  proof -
    show "0 \<le> ?q" using d(2) e by (simp add: pos_imp_zdiv_nonneg_iff)
    have m: "0 \<le> ec_val d mod ?e" "ec_val d mod ?e < ?e" using e by simp_all
    with mult_div_mod_eq [of ?e "ec_val d"] show "?e * ?q \<le> ec_val d" by linarith
    have "?e * (?q + 1) = ?e * ?q + ?e" by (simp add: distrib_left)
    with mult_div_mod_eq [of ?e "ec_val d"] m show "ec_val d < ?e * (?q + 1)" by linarith
  qed
  have s: "s = ft - min (?q + 1) ft" and d1: "d1 = d\<lparr>ec_ext := ?e\<rparr>"
    using assms(4) by (simp_all add: ec_decode_def Let_def)
  show "0 \<le> s" "s < ft" using q(1) assms(2) by (simp_all add: s)
  show "d1 = d\<lparr>ec_ext := ?e\<rparr>" by (rule d1)
  have "?e * (ft - 1 - s) \<le> ?e * ?q" using e by (intro mult_left_mono) (simp_all add: s)
  then show "?e * (ft - 1 - s) \<le> ec_val d" using q(2) by linarith
  show "ec_val d < ?e * (ft - s)" if "0 < s"
    using q(3) that by (simp add: s min_def split: if_splits)
qed

lemma dec_update_inv:
  assumes "dec_inv buf d" and "1 \<le> ft" and "ft \<le> 8388608" and "ec_decode ft d = (s, d1)"
    and "0 \<le> fl" and "fl \<le> s" and "s < fh" and "fh \<le> ft"
  shows "\<exists>d'. ec_dec_update fl fh ft d1 = Some d' \<and> dec_inv buf d'"
proof -
  let ?e = "ec_rng d div ft" and ?v = "ec_val d"
  note dec = dec_decode_range [OF assms(1-4)]
  have pre: "dec_pre buf d" and d: "EC_CODE_BOT < ec_rng d" "ec_rng d \<le> 2147483648" "0 \<le> ?v" "?v < ec_rng d"
    using assms(1) by (simp_all add: dec_inv_def dec_pre_def ec_const)
  have "fl < fh" using assms(6,7) by simp
  note u = unit_bounds [OF d(1) assms(5) this assms(8,3)]
  have "?e * (ft - fh) \<le> ?e * (ft - 1 - s)" using dec(6) assms(7) by (intro mult_left_mono) simp_all
  then have lo: "?e * (ft - fh) \<le> ?v" using dec(4) by linarith
  have hi: "?v < ?e * (ft - fl)" if "0 < fl"
  proof -
    have "?e * (ft - s) \<le> ?e * (ft - fl)" using dec(6) assms(6) by (intro mult_left_mono) simp_all
    then show ?thesis using dec(5) that assms(6) by simp
  qed
  let ?r = "if fl > 0 then ?e * (fh - fl) else ec_rng d - ?e * (ft - fh)"
  have r: "?v - ?e * (ft - fh) < ?r" "?r \<le> ec_rng d" using hi u d(4) lo by (auto split: if_splits)
  have "u32w (?v - ?e * (ft - fh)) = ?v - ?e * (ft - fh)" using lo d u(3) by (intro u32w_id) linarith+
  moreover have "u32w ?r = ?r" using r lo d(2) by (intro u32w_id) linarith+
  ultimately have "ec_dec_update fl fh ft d1
      = ec_dec_normalize (d\<lparr>ec_ext := ?e, ec_val := ?v - ?e * (ft - fh), ec_rng := ?r\<rparr>)"
    by (cases "0 < fl") (simp_all add: ec_dec_update_def Let_def dec(3))
  moreover have "dec_pre buf (d\<lparr>ec_ext := ?e\<rparr>)" using pre by (auto simp: dec_pre_def window_ok_def)
  moreover have "0 \<le> ?v - ?e * (ft - fh)" "?r \<le> EC_CODE_TOP" using lo r(2) d(2) unfolding ec_const by linarith+
  ultimately show ?thesis using dec_narrow [OF _ _ r(1)] by simp
qed

lemma dec_point_inv:
  assumes "dec_inv buf d" and "1 \<le> ft" and "ft \<le> 8388608"
  shows "\<exists>s d'. dec_point ft d = Some (s, d') \<and> 0 \<le> s \<and> s < ft \<and> dec_inv buf d'"
proof -
  obtain s d1 where dec: "ec_decode ft d = (s, d1)" by (cases "ec_decode ft d")
  note r = dec_decode_range [OF assms dec]
  from dec_update_inv [OF assms dec r(1) order_refl, of "s + 1"] r show ?thesis
    by (auto simp: dec_point_def dec)
qed

text \<open>A table that does not increase and ends with 0: the search ends inside it.\<close>

definition icdf_table :: "int list \<Rightarrow> nat \<Rightarrow> bool" where
  "icdf_table icdf ftb = (ftb \<le> 23 \<and> icdf \<noteq> [] \<and> last icdf = 0 \<and> sorted_wrt (\<ge>) icdf
     \<and> (\<forall>x \<in> set icdf. 0 \<le> x \<and> x < 2 ^ ftb))"

lemma icdf_search_inside:
  assumes "icdf \<noteq> []" and "u32w (r * last icdf) \<le> d" and "d < t0"
  shows "\<exists>s t b. icdf_search r d k t0 icdf = Some (k + s, t, b) \<and> s < length icdf \<and> b = u32w (r * icdf ! s)
    \<and> b \<le> d \<and> d < t \<and> (t = t0 \<or> (\<exists>x \<in> set icdf. t = u32w (r * x))) \<and> (\<forall>i < s. d < u32w (r * icdf ! i))"
  using assms
proof (induction icdf arbitrary: k t0)
  case (Cons x icdf)
  show ?case
  proof (cases "d < u32w (r * x)")
    case True
    with Cons.prems(1,2) have "icdf \<noteq> []" by auto
    with Cons.IH [OF this _ True, of "Suc k"] Cons.prems(2) obtain s t b where
      s: "icdf_search r d (Suc k) (u32w (r * x)) icdf = Some (Suc k + s, t, b)" "s < length icdf"
        "b = u32w (r * icdf ! s)" "b \<le> d" "d < t" "t = u32w (r * x) \<or> (\<exists>x \<in> set icdf. t = u32w (r * x))"
        "\<forall>i < s. d < u32w (r * icdf ! i)" by auto
    show ?thesis
      by (intro exI [of _ "Suc s"] exI [of _ t] exI [of _ b]) (use s True in \<open>auto simp: Let_def nth_Cons split: nat.splits\<close>)
  next
    case False
    with Cons.prems(3) have "icdf_search r d k t0 (x # icdf) = Some (k + 0, t0, u32w (r * x))" by (simp add: Let_def)
    with False Cons.prems(3) show ?thesis by fastforce
  qed
qed simp

lemma dec_icdf_inv:
  assumes "dec_inv buf d" and "icdf_table icdf ftb"
  shows "\<exists>s d'. ec_dec_icdf icdf ftb d = Some (s, d') \<and> icdf_valid s icdf ftb \<and> dec_inv buf d'"
proof -
  let ?r = "ec_rng d div 2 ^ ftb" and ?v = "ec_val d"
  have pre: "dec_pre buf d" and d: "8388608 < ec_rng d" "ec_rng d \<le> 2147483648" "0 \<le> ?v" "?v < ec_rng d"
    using assms(1) by (simp_all add: dec_inv_def dec_pre_def ec_const)
  have tab: "ftb \<le> 23" "icdf \<noteq> []" "last icdf = 0" "sorted_wrt (\<ge>) icdf" "\<And>x. x \<in> set icdf \<Longrightarrow> 0 \<le> x \<and> x < 2 ^ ftb"
    using assms(2) by (simp_all add: icdf_table_def)
  have "(2 :: int) ^ ftb \<le> 2 ^ 23" using tab(1) by (intro power_increasing) simp_all
  then have "1 * 2 ^ ftb \<le> ec_rng d" using d(1) by simp
  then have r: "1 \<le> ?r" by (intro int_div_bounds(1)) simp_all
  have fits: "0 \<le> ?r * x \<and> ?r * x \<le> ec_rng d \<and> u32w (?r * x) = ?r * x" if "0 \<le> x" "x < 2 ^ ftb" for x
  proof -
    have "0 \<le> ?r * x" using r that(1) by simp
    moreover have "?r * x \<le> ?r * 2 ^ ftb" using r that(2) by (intro mult_left_mono) simp_all
    moreover have "0 \<le> ec_rng d mod 2 ^ ftb" by simp
    with div_mult_mod_eq [of "ec_rng d" "2 ^ ftb"] have "?r * 2 ^ ftb \<le> ec_rng d" by linarith
    ultimately show ?thesis using d(2) by (simp add: u32w_id)
  qed
  have "u32w (?r * last icdf) \<le> ?v" using d(3) by (simp add: tab(3) u32w_def)
  from icdf_search_inside [OF tab(2) this d(4), of 0] obtain s t b where
    s: "icdf_search ?r ?v 0 (ec_rng d) icdf = Some (s, t, b)" "s < length icdf" "b = u32w (?r * icdf ! s)"
      "b \<le> ?v" "?v < t" "t = ec_rng d \<or> (\<exists>x \<in> set icdf. t = u32w (?r * x))" "\<And>i. i < s \<Longrightarrow> ?v < u32w (?r * icdf ! i)"
    by auto
  have b: "b = ?r * icdf ! s" "0 \<le> b" using s(3) fits [of "icdf ! s"] tab(5) [of "icdf ! s"] s(2) by auto
  have t: "t \<le> ec_rng d" using s(6) fits tab(5) by auto
  have "icdf_valid s icdf ftb" unfolding icdf_valid_def
  proof (intro conjI allI impI)
    show "ftb \<le> 23" "s < length icdf" "0 \<le> icdf ! s" "icdf ! s < 2 ^ ftb"
      using tab(1,5) s(2) by auto
    fix i assume i: "i < s"
    have mem: "icdf ! i \<in> set icdf" using i s(2) by simp
    then show "icdf ! i < 2 ^ ftb" using tab(5) by blast
    show "icdf ! (s - 1) \<le> icdf ! i"
      using sorted_wrt_nth_less [OF tab(4), of i "s - 1"] i s(2) by (cases "i = s - 1") auto
    have "?r * icdf ! s < ?r * icdf ! i" using s(4) s(7) [OF i] b(1) fits tab(5) [OF mem] by fastforce
    then show "icdf ! s < icdf ! i" using r by simp
  qed
  moreover obtain d' where "ec_dec_normalize (d\<lparr>ec_val := ?v - b, ec_rng := t - b\<rparr>) = Some d'" "dec_inv buf d'"
    using dec_narrow [OF pre, of "?v - b" "t - b"] s(4,5) t b(2) d(2) by (auto simp: ec_const)
  ultimately show ?thesis by (simp add: ec_dec_icdf_def s(1))
qed

lemma dec_bits_inv:
  assumes "dec_inv buf d" and "bits \<le> 25"
  shows "\<exists>v d'. ec_dec_bits bits d = (v, d') \<and> 0 \<le> v \<and> v < 2 ^ bits \<and> dec_inv buf d'"
proof -
  obtain len where "window_ok buf len d (ec_end_window d) (ec_nend_bits d)"
    using assms(1) by (auto simp: dec_inv_def dec_pre_def)
  moreover have "ec_nend_bits (snd (ec_dec_bits bits d)) \<le> 32"
  proof (cases "ec_nend_bits d < int bits")
    case True
    with assms(2) have "fst (snd (fill_window d (ec_end_window d) (ec_nend_bits d))) \<le> 32"
      by (intro fill_window_upper) simp
    with True show ?thesis by (simp add: ec_dec_bits_def Let_def split_beta)
  next
    case False
    with assms(1) show ?thesis by (simp add: ec_dec_bits_def Let_def dec_inv_def dec_pre_def ec_const)
  qed
  ultimately show ?thesis
    using ec_dec_bits_next [of buf len d bits] assms by (fastforce simp: dec_inv_def dec_pre_def ec_const)
qed

lemma dec_uint_inv:
  assumes "dec_inv buf d" and "2 \<le> ft" and "ft \<le> 4294967296"
  shows "\<exists>v d'. ec_dec_uint ft d = Some (v, d') \<and> 0 \<le> v \<and> v < ft \<and> dec_inv buf d'"
proof (cases "EC_ILOG (ft - 1) > 8")
  case True
  then obtain k where k: "EC_ILOG (ft - 1) = 8 + k" "0 < k" by (metis less_imp_add_positive)
  note u = uint_split [OF assms(2,3) _ _ k, of 0, simplified]
  let ?ft = "(ft - 1) div 2 ^ k + 1"
  have "0 \<le> (ft - 1) div 2 ^ k" using assms(2) by (simp add: pos_imp_zdiv_nonneg_iff)
  then have "1 \<le> ?ft" "?ft \<le> 8388608" using u assms(2) by simp_all
  from dec_point_inv [OF assms(1) this] obtain s d1 where s: "dec_point ?ft d = Some (s, d1)" "dec_inv buf d1" by blast
  from dec_bits_inv [OF s(2), of k] u assms(2) obtain low d2 where
    low: "ec_dec_bits k d1 = (low, d2)" "0 \<le> low" "dec_inv buf d2" by auto
  have "0 \<le> u32w (s * 2 ^ k) OR low" using low(2) by (simp add: u32w_def)
  moreover have "dec_inv buf (d2\<lparr>ec_error := 1\<rparr>)" using low(3) by (auto simp: dec_inv_def dec_pre_def window_ok_def)
  moreover have "ec_dec_uint ft d = (let t = u32w (s * 2 ^ k) OR low
      in if t \<le> ft - 1 then Some (t, d2) else Some (ft - 1, d2\<lparr>ec_error := 1\<rparr>))"
    using k s(1) low(1)
    by (auto simp: ec_dec_uint_def dec_point_def ec_const Let_def split_beta split: option.splits)
  ultimately show ?thesis using low(3) assms(2) by (auto simp: Let_def)
next
  case False
  have "0 < ft - 1" using assms(2) by simp
  from EC_ILOG_pos [OF this] have "ft - 1 < 2 ^ EC_ILOG (ft - 1)" by blast
  also have "(2 :: int) ^ EC_ILOG (ft - 1) \<le> 2 ^ 8" using False by (intro power_increasing) auto
  finally have "1 \<le> ft" "ft \<le> 8388608" using assms(2) by simp_all
  from dec_point_inv [OF assms(1) this] False show ?thesis
    by (simp add: ec_dec_uint_def dec_point_def ec_const)
qed

section \<open>Any bytes\<close>

text \<open>What the caller owes: totals, tables and bit counts in their ranges.\<close>

fun op_ok :: "ec_op \<Rightarrow> bool" where
  "op_ok (Code_Symbol ft look) = (1 \<le> ft \<and> ft \<le> 8388608 \<and> look_ok ft look)"
| "op_ok (Code_Symbol_Bin bits look) = (bits \<le> 23 \<and> look_ok (2 ^ bits) look)"
| "op_ok (Code_Bit_Logp logp) = (0 < logp \<and> logp \<le> 23)"
| "op_ok (Code_Icdf icdf ftb) = icdf_table icdf ftb"
| "op_ok (Code_Uint ft) = (2 \<le> ft \<and> ft \<le> 4294967295)"
| "op_ok (Code_Bits bits) = (0 < bits \<and> bits \<le> 25)"

lemma dec_lookup_inv:
  assumes "dec_inv buf d" and "1 \<le> ft" and "ft \<le> 8388608" and "look_ok ft look"
  shows "\<exists>fl fh d'. dec_lookup ft look d = Some ((fl, fh), d') \<and> 0 \<le> fl \<and> fl < fh \<and> fh \<le> ft
    \<and> (\<forall>x \<in> {fl..<fh}. look x = (fl, fh)) \<and> dec_inv buf d'"
proof -
  obtain s d1 where dec: "ec_decode ft d = (s, d1)" by (cases "ec_decode ft d")
  obtain fl fh where look: "look s = (fl, fh)" by (cases "look s")
  note r = dec_decode_range [OF assms(1-3) dec]
  then have "s \<in> {0..<ft}" by simp
  with assms(4) have "let (fl, fh) = look s in 0 \<le> fl \<and> fl \<le> s \<and> s < fh \<and> fh \<le> ft
      \<and> (\<forall>y \<in> {fl..<fh}. look y = (fl, fh))" unfolding look_ok_def by blast
  then have fl: "0 \<le> fl" "fl \<le> s" "s < fh" "fh \<le> ft" "\<forall>x \<in> {fl..<fh}. look x = (fl, fh)"
    unfolding look Let_def by simp_all
  from dec_update_inv [OF assms(1-3) dec fl(1-4)] obtain d' where
    "ec_dec_update fl fh ft d1 = Some d'" "dec_inv buf d'" by blast
  with fl show ?thesis by (auto simp: dec_lookup_def dec look)
qed

lemma dec_op_inv:
  assumes "dec_inv buf d" and "op_ok q"
  shows "\<exists>v d'. dec_op q d = Some (v, d') \<and> op_codes q v \<and> dec_inv buf d'"
proof (cases q)
  case (Code_Symbol ft look)
  with dec_lookup_inv [OF assms(1), of ft look] assms(2) show ?thesis by auto
next
  case (Code_Symbol_Bin bits look)
  with assms(2) have bits: "bits \<le> 23" "look_ok (2 ^ bits) look" by simp_all
  have "(2 :: int) ^ bits \<le> 2 ^ 23" using bits(1) by (intro power_increasing) simp_all
  then have "(2 :: int) ^ bits \<le> 8388608" by simp
  from dec_lookup_inv [OF assms(1) _ this bits(2)] bits(1) Code_Symbol_Bin show ?thesis
    by (auto simp: ec_decode_bin_eq dec_lookup_def split_beta)
next
  case (Code_Bit_Logp logp)
  with dec_bit_logp_inv [OF assms(1), of logp] assms(2) show ?thesis by auto
next
  case (Code_Icdf icdf ftb)
  with dec_icdf_inv [OF assms(1), of icdf ftb] assms(2) show ?thesis by auto
next
  case (Code_Uint ft)
  with dec_uint_inv [OF assms(1), of ft] assms(2) show ?thesis by auto
next
  case (Code_Bits bits)
  with dec_bits_inv [OF assms(1), of bits] assms(2) show ?thesis by auto
qed

lemma decode_from_inv:
  assumes "\<forall>past. op_ok (op past)" and "dec_inv buf d"
  shows "\<exists>vs d'. decode_from dec_op op past n d = Some (vs, d') \<and> length vs = n
    \<and> codable_from op_codes op past vs \<and> dec_inv buf d'"
  using assms(2)
proof (induction n arbitrary: past d)
  case (Suc n)
  from dec_op_inv [OF Suc.prems assms(1) [rule_format]] obtain v d1 where
    v: "dec_op (op past) d = Some (v, d1)" "op_codes (op past) v" "dec_inv buf d1" by blast
  from Suc.IH [OF v(3), of "past @ [v]"] obtain vs d2 where
    "decode_from dec_op op (past @ [v]) n d1 = Some (vs, d2)" "length vs = n"
    "codable_from op_codes op (past @ [v]) vs" "dec_inv buf d2" by blast
  with v show ?case by (intro exI [of _ "v # vs"] exI [of _ d2]) simp
qed simp

text \<open>What the registers of a decoder look like between two operations.\<close>

lemma dec_inv_registers:
  assumes "dec_inv buf d"
  shows "EC_CODE_BOT < ec_rng d \<and> ec_rng d \<le> EC_CODE_TOP \<and> 0 \<le> ec_val d \<and> ec_val d < ec_rng d
    \<and> 0 \<le> ec_rem d \<and> ec_rem d \<le> EC_SYM_MAX \<and> 0 \<le> ec_nend_bits d \<and> ec_nend_bits d \<le> EC_WINDOW_SIZE
    \<and> 0 \<le> ec_end_window d \<and> ec_end_window d < 2 ^ nat (ec_nend_bits d)
    \<and> ec_buf d = buf \<and> ec_offs d \<le> length buf \<and> ec_end_offs d \<le> length buf"
  using assms by (auto simp: dec_inv_def dec_pre_def window_ok_def)

text \<open>
  C19: The decoder is safe on any bytes: with whatever buffer, and any sequence of operations whose
  totals, tables and bit counts are in range, it returns (no renormalisation or search runs on), every
  value is one its operation can code, and it has read neither before nor behind the buffer. Its
  registers are in range after the initialisation and after every operation: the range is normalised
  (above \<open>EC_CODE_BOT\<close>, at most \<open>EC_CODE_TOP\<close>), \<open>val\<close> is below it, the kept byte is a byte, and the
  window of raw bits holds at most 32 bits, none of them beyond its count.
\<close>

theorem decoder_on_any_bytes:
  assumes "\<forall>past. op_ok (op past)"
  shows "\<exists>d vs d'. ec_dec_init buf = Some d \<and> decode_from dec_op op [] n d = Some (vs, d')
    \<and> length vs = n \<and> codable_from op_codes op [] vs
    \<and> EC_CODE_BOT < ec_rng d' \<and> ec_rng d' \<le> EC_CODE_TOP \<and> 0 \<le> ec_val d' \<and> ec_val d' < ec_rng d'
    \<and> 0 \<le> ec_rem d' \<and> ec_rem d' \<le> EC_SYM_MAX
    \<and> 0 \<le> ec_nend_bits d' \<and> ec_nend_bits d' \<le> EC_WINDOW_SIZE
    \<and> 0 \<le> ec_end_window d' \<and> ec_end_window d' < 2 ^ nat (ec_nend_bits d')
    \<and> ec_buf d' = buf \<and> ec_offs d' \<le> length buf \<and> ec_end_offs d' \<le> length buf"
proof -
  obtain d where d: "ec_dec_init buf = Some d" "dec_inv buf d" using dec_init_inv by blast
  from decode_from_inv [OF assms d(2)] obtain vs d' where
    v: "decode_from dec_op op [] n d = Some (vs, d')" "length vs = n" "codable_from op_codes op [] vs" "dec_inv buf d'"
    by blast
  from d(1) v(1-3) dec_inv_registers [OF v(4)] show ?thesis by blast
qed

lemma decoder_on_any_bytes_witness:
  "\<exists>d vs d'. ec_dec_init [255, 0, 17] = Some d
    \<and> decode_from dec_op (\<lambda>past. if length past = 0 then Code_Icdf [12, 5, 0] 4 else Code_Uint 1000) [] 9 d
        = Some (vs, d') \<and> length vs = 9 \<and> ec_offs d' \<le> 3 \<and> EC_CODE_BOT < ec_rng d' \<and> ec_val d' < ec_rng d'"
proof -
  let ?op = "\<lambda>past. if length past = 0 then Code_Icdf [12, 5, 0] 4 else Code_Uint 1000"
  have "\<forall>past :: ec_value list. op_ok (?op past)" by (simp add: icdf_table_def)
  from decoder_on_any_bytes [OF this, of "[255, 0, 17]" 9] show ?thesis by fastforce
qed

end
