(* ===== verification/Opus_Packet.thy ===== *)
theory Opus_Packet
  imports Prelude
begin

text \<open>
  The framing of Opus packets (\<open>opus-1.5.2/src/opus.c\<close>, and the queries of \<open>opus_decoder.c\<close>): a byte
  for mode, bandwidth and number of frames, sizes, frames, padding. A packet is the list of its bytes;
  every read states its offset, and one outside the list is the error \<open>Read_past_end\<close>, which C does
  not have. A returned frame is its offset and size.
\<close>

unbundle bit_operations_syntax

section \<open>Errors and reads\<close>

datatype opus_error = OPUS_BAD_ARG | OPUS_BUFFER_TOO_SMALL | OPUS_INTERNAL_ERROR | OPUS_INVALID_PACKET
  | Read_past_end

fun ebind :: "'e + 'a \<Rightarrow> ('a \<Rightarrow> 'e + 'b) \<Rightarrow> 'e + 'b" where
  "ebind (Inl e) f = Inl e"
| "ebind (Inr a) f = f a"

lemma ebind_cong [fundef_cong]:
  "m = m' \<Longrightarrow> (\<And>a. m' = Inr a \<Longrightarrow> f a = f' a) \<Longrightarrow> ebind m f = ebind m' f'"
  by (cases m') auto

lemma ebind_Inr: "ebind m f = Inr b \<longleftrightarrow> (\<exists>a. m = Inr a \<and> f a = Inr b)"
  and ebind_Inl: "ebind m f = Inl e \<longleftrightarrow> m = Inl e \<or> (\<exists>a. m = Inr a \<and> f a = Inl e)"
  by (cases m; simp)+

definition byte :: "u8 list \<Rightarrow> nat \<Rightarrow> opus_error + int" where
  "byte d i = (if i < length d then Inr (uint (d ! i)) else Inl Read_past_end)"

section \<open>Sizes (opus.c)\<close>

definition encode_size :: "int \<Rightarrow> u8 list" where
  "encode_size size0 =
     (if size0 < 252 then [word_of_int size0]
      else let d0 = word_of_int (252 + (size0 AND 3)) in [d0, word_of_int ((size0 - uint d0) div 2 ^ 2)])"

text \<open>The number of bytes read and the size, \<open>-1\<close> both when the packet ends first.\<close>

definition parse_size :: "u8 list \<Rightarrow> nat \<Rightarrow> int \<Rightarrow> opus_error + (int \<times> int)" where
  "parse_size d pos len =
     (if len < 1 then Inr (- 1, - 1)
      else ebind (byte d pos) (\<lambda>b0.
        if b0 < 252 then Inr (1, b0)
        else if len < 2 then Inr (- 1, - 1)
        else ebind (byte d (pos + 1)) (\<lambda>b1. Inr (2, 4 * b1 + b0))))"

definition opus_packet_get_samples_per_frame :: "int \<Rightarrow> int \<Rightarrow> int" where
  "opus_packet_get_samples_per_frame toc fs =
     (if toc AND 0x80 \<noteq> 0 then fs * 2 ^ nat (toc div 2 ^ 3 AND 3) div 400
      else if toc AND 0x60 = 0x60 then (if toc AND 0x08 \<noteq> 0 then fs div 50 else fs div 100)
      else let audiosize = toc div 2 ^ 3 AND 3
           in if audiosize = 3 then fs * 60 div 1000 else fs * 2 ^ nat audiosize div 100)"

section \<open>The parser (opus.c)\<close>

text \<open>
  The body of a packet before its last size is known: number of frames, whether they share their size,
  the position, what is left (without the padding), the size of the last frame or of all that is left
  for it, the sizes before it, and the length of the padding.
\<close>

record opus_body =
  ob_count :: nat
  ob_cbr :: bool
  ob_pos :: nat
  ob_len :: int
  ob_last :: int
  ob_sizes :: "int list"
  ob_pad :: int

text \<open>The explicit sizes of the first frames of a VBR packet.\<close>

fun vbr_sizes :: "u8 list \<Rightarrow> nat \<Rightarrow> nat \<Rightarrow> int \<Rightarrow> int \<Rightarrow> opus_error + (int list \<times> nat \<times> int \<times> int)" where
  "vbr_sizes d 0 pos len last_size = Inr ([], pos, len, last_size)"
| "vbr_sizes d (Suc n) pos len last_size =
     ebind (parse_size d pos len) (\<lambda>(bytes, sz).
       let len = len - bytes
       in if sz < 0 \<or> sz > len then Inl OPUS_INVALID_PACKET
          else ebind (vbr_sizes d n (pos + nat bytes) len (last_size - (bytes + sz)))
                 (\<lambda>(sizes, rest). Inr (sz # sizes, rest)))"

text \<open>The length of the padding: every 255 stands for 254 bytes and goes on.\<close>

function padding_size :: "u8 list \<Rightarrow> nat \<Rightarrow> int \<Rightarrow> int \<Rightarrow> opus_error + (nat \<times> int \<times> int)" where
  "padding_size d pos len pad =
     (if len \<le> 0 then Inl OPUS_INVALID_PACKET
      else ebind (byte d pos) (\<lambda>p.
        let tmp = (if p = 255 then 254 else p); len' = len - 1 - tmp; pad' = pad + tmp
        in if p = 255 then padding_size d (pos + 1) len' pad' else Inr (pos + 1, len', pad')))"
  by pat_completeness auto
termination by (relation "measure (\<lambda>(d, pos, len, pad). nat len)") auto

declare padding_size.simps [simp del]

definition parse_code_3 :: "u8 list \<Rightarrow> bool \<Rightarrow> int \<Rightarrow> nat \<Rightarrow> int \<Rightarrow> opus_error + opus_body" where
  "parse_code_3 d sd framesize pos len =
     (if len < 1 then Inl OPUS_INVALID_PACKET
      else ebind (byte d pos) (\<lambda>ch.
        let count = ch AND 0x3F in
        if count \<le> 0 \<or> framesize * count > 5760 then Inl OPUS_INVALID_PACKET
        else ebind (if ch AND 0x40 \<noteq> 0 then padding_size d (pos + 1) (len - 1) 0 else Inr (pos + 1, len - 1, 0))
          (\<lambda>(pos, len, pad).
             if len < 0 then Inl OPUS_INVALID_PACKET
             else if ch AND 0x80 \<noteq> 0
             then ebind (vbr_sizes d (nat count - 1) pos len len) (\<lambda>(sizes, pos, len, last_size).
                    if last_size < 0 then Inl OPUS_INVALID_PACKET
                    else Inr \<lparr>ob_count = nat count, ob_cbr = False, ob_pos = pos, ob_len = len,
                              ob_last = last_size, ob_sizes = sizes, ob_pad = pad\<rparr>)
             else if \<not> sd \<and> len div count * count \<noteq> len then Inl OPUS_INVALID_PACKET
             else Inr \<lparr>ob_count = nat count, ob_cbr = True, ob_pos = pos, ob_len = len,
                       ob_last = (if sd then len else len div count),
                       ob_sizes = replicate (nat count - 1) (if sd then 0 else s16 (len div count)), ob_pad = pad\<rparr>)))"

definition parse_body :: "u8 list \<Rightarrow> bool \<Rightarrow> int \<Rightarrow> int \<Rightarrow> nat \<Rightarrow> int \<Rightarrow> opus_error + opus_body" where
  "parse_body d sd framesize toc pos len =
     (let code = toc AND 3 in
      if code = 0
      then Inr \<lparr>ob_count = 1, ob_cbr = False, ob_pos = pos, ob_len = len, ob_last = len, ob_sizes = [], ob_pad = 0\<rparr>
      else if code = 1
      then if \<not> sd \<and> len AND 1 \<noteq> 0 then Inl OPUS_INVALID_PACKET
           else Inr \<lparr>ob_count = 2, ob_cbr = True, ob_pos = pos, ob_len = len,
                     ob_last = (if sd then len else len div 2),
                     ob_sizes = [if sd then 0 else s16 (len div 2)], ob_pad = 0\<rparr>
      else if code = 2
      then ebind (parse_size d pos len) (\<lambda>(bytes, sz).
             let len = len - bytes
             in if sz < 0 \<or> sz > len then Inl OPUS_INVALID_PACKET
                else Inr \<lparr>ob_count = 2, ob_cbr = False, ob_pos = pos + nat bytes, ob_len = len,
                          ob_last = len - sz, ob_sizes = [sz], ob_pad = 0\<rparr>)
      else parse_code_3 d sd framesize pos len)"

text \<open>The last size: explicit in self-delimited framing, else what is left; all sizes with it.\<close>

definition parse_last :: "u8 list \<Rightarrow> bool \<Rightarrow> opus_body \<Rightarrow> opus_error + (int list \<times> nat)" where
  "parse_last d sd b =
     (if sd
      then ebind (parse_size d (ob_pos b) (ob_len b)) (\<lambda>(bytes, sz).
             let len = ob_len b - bytes in
             if sz < 0 \<or> sz > len then Inl OPUS_INVALID_PACKET
             else if ob_cbr b
             then if sz * int (ob_count b) > len then Inl OPUS_INVALID_PACKET
                  else Inr (replicate (ob_count b) sz, ob_pos b + nat bytes)
             else if bytes + sz > ob_last b then Inl OPUS_INVALID_PACKET
             else Inr (ob_sizes b @ [sz], ob_pos b + nat bytes))
      else if ob_last b > 1275 then Inl OPUS_INVALID_PACKET
      else Inr (ob_sizes b @ [s16 (ob_last b)], ob_pos b))"

record opus_packet =
  op_toc :: int
  op_payload_offset :: nat
  op_sizes :: "int list"
  op_pad :: int

definition opus_packet_parse_impl :: "u8 list \<Rightarrow> bool \<Rightarrow> opus_error + opus_packet" where
  "opus_packet_parse_impl d sd =
     (if length d = 0 then Inl OPUS_INVALID_PACKET
      else ebind (byte d 0) (\<lambda>toc.
        ebind (parse_body d sd (opus_packet_get_samples_per_frame toc 48000) toc 1 (int (length d) - 1)) (\<lambda>b.
          ebind (parse_last d sd b) (\<lambda>(sizes, pos).
            Inr \<lparr>op_toc = toc, op_payload_offset = pos, op_sizes = sizes, op_pad = ob_pad b\<rparr>))))"

definition opus_packet_parse :: "u8 list \<Rightarrow> opus_error + opus_packet" where
  "opus_packet_parse d = opus_packet_parse_impl d False"

text \<open>The frames, the padding behind them and the whole (\<open>packet_offset\<close>).\<close>

fun slices :: "u8 list \<Rightarrow> nat \<Rightarrow> int list \<Rightarrow> u8 list list" where
  "slices d pos [] = []"
| "slices d pos (n # ns) = take (nat n) (drop pos d) # slices d (pos + nat n) ns"

definition op_frames :: "u8 list \<Rightarrow> opus_packet \<Rightarrow> u8 list list" where
  "op_frames d p = slices d (op_payload_offset p) (op_sizes p)"

definition op_padding_offset :: "opus_packet \<Rightarrow> nat" where
  "op_padding_offset p = op_payload_offset p + nat (sum_list (op_sizes p))"

definition op_packet_offset :: "opus_packet \<Rightarrow> nat" where
  "op_packet_offset p = nat (op_pad p) + op_padding_offset p"

definition op_padding :: "u8 list \<Rightarrow> opus_packet \<Rightarrow> u8 list" where
  "op_padding d p = take (nat (op_pad p)) (drop (op_padding_offset p) d)"

section \<open>Queries (opus_decoder.c)\<close>

datatype opus_mode = MODE_SILK_ONLY | MODE_HYBRID | MODE_CELT_ONLY

definition opus_packet_get_mode :: "int \<Rightarrow> opus_mode" where
  "opus_packet_get_mode toc =
     (if toc AND 0x80 \<noteq> 0 then MODE_CELT_ONLY else if toc AND 0x60 = 0x60 then MODE_HYBRID else MODE_SILK_ONLY)"

definition OPUS_BANDWIDTH_NARROWBAND :: int where "OPUS_BANDWIDTH_NARROWBAND = 1101"
definition OPUS_BANDWIDTH_MEDIUMBAND :: int where "OPUS_BANDWIDTH_MEDIUMBAND = 1102"
definition OPUS_BANDWIDTH_SUPERWIDEBAND :: int where "OPUS_BANDWIDTH_SUPERWIDEBAND = 1104"
definition OPUS_BANDWIDTH_FULLBAND :: int where "OPUS_BANDWIDTH_FULLBAND = 1105"

definition opus_packet_get_bandwidth :: "int \<Rightarrow> int" where
  "opus_packet_get_bandwidth toc =
     (if toc AND 0x80 \<noteq> 0
      then let bandwidth = OPUS_BANDWIDTH_MEDIUMBAND + (toc div 2 ^ 5 AND 3)
           in if bandwidth = OPUS_BANDWIDTH_MEDIUMBAND then OPUS_BANDWIDTH_NARROWBAND else bandwidth
      else if toc AND 0x60 = 0x60
      then if toc AND 0x10 \<noteq> 0 then OPUS_BANDWIDTH_FULLBAND else OPUS_BANDWIDTH_SUPERWIDEBAND
      else OPUS_BANDWIDTH_NARROWBAND + (toc div 2 ^ 5 AND 3))"

definition opus_packet_get_nb_channels :: "int \<Rightarrow> nat" where
  "opus_packet_get_nb_channels toc = (if toc AND 0x4 \<noteq> 0 then 2 else 1)"

definition opus_packet_get_nb_frames :: "u8 list \<Rightarrow> opus_error + int" where
  "opus_packet_get_nb_frames d =
     (if length d < 1 then Inl OPUS_BAD_ARG
      else ebind (byte d 0) (\<lambda>toc. let count = toc AND 3 in
        if count = 0 then Inr 1
        else if count \<noteq> 3 then Inr 2
        else if length d < 2 then Inl OPUS_INVALID_PACKET
        else ebind (byte d 1) (\<lambda>ch. Inr (ch AND 0x3F))))"

definition opus_packet_get_nb_samples :: "u8 list \<Rightarrow> int \<Rightarrow> opus_error + int" where
  "opus_packet_get_nb_samples d fs =
     ebind (opus_packet_get_nb_frames d) (\<lambda>count. ebind (byte d 0) (\<lambda>toc.
       let samples = count * opus_packet_get_samples_per_frame toc fs
       in if samples * 25 > fs * 3 then Inl OPUS_INVALID_PACKET else Inr samples))"

text \<open>Whether the packet carries a redundant copy of the frame before: a bit of its first frame.\<close>

definition opus_packet_has_lbrr :: "u8 list \<Rightarrow> opus_error + bool" where
  "opus_packet_has_lbrr d =
     ebind (byte d 0) (\<lambda>toc.
       if opus_packet_get_mode toc = MODE_CELT_ONLY then Inr False
       else let packet_frame_size = opus_packet_get_samples_per_frame toc 48000;
                nb_frames = (if packet_frame_size > 960 then nat (packet_frame_size div 960) else 1)
            in ebind (opus_packet_parse d) (\<lambda>p.
                 ebind (byte d (op_payload_offset p)) (\<lambda>b.
                   let lbrr = (b div 2 ^ (7 - nb_frames)) AND 1 \<noteq> 0
                   in Inr (if opus_packet_get_nb_channels toc = 2
                           then lbrr \<or> (b div 2 ^ (6 - 2 * nb_frames)) AND 1 \<noteq> 0 else lbrr))))"

section \<open>Every packet is inside its bytes\<close>

lemma byte_Inr: "byte d i = Inr b \<Longrightarrow> i < length d \<and> b = uint (d ! i) \<and> 0 \<le> b \<and> b < 256"
  using uint_bounded [of "d ! i"] by (auto simp: byte_def split: if_splits)

lemma byte_in [simp]: "i < length d \<Longrightarrow> byte d i = Inr (uint (d ! i))"
  by (simp add: byte_def)

lemma uint_u8: "0 \<le> uint (b :: u8)" "uint b < 256"
  using uint_bounded [of b] by simp_all

lemma and_3: "(x :: int) AND 3 = x mod 4"
  using take_bit_eq_mask [of 2 x] by (simp add: mask_eq_exp_minus_1 take_bit_eq_mod)

lemma and_63: "(x :: int) AND 63 = x mod 64"
  using take_bit_eq_mask [of 6 x] by (simp add: mask_eq_exp_minus_1 take_bit_eq_mod)

lemma and_1: "(x :: int) AND 1 = x mod 2"
  by (simp add: and_one_eq)

lemma parse_size_cases:
  assumes "int pos + len \<le> int (length d)"
  obtains "parse_size d pos len = Inr (- 1, - 1)"
  | bytes sz where "parse_size d pos len = Inr (bytes, sz)" "1 \<le> bytes" "bytes \<le> len" "0 \<le> sz" "sz \<le> 1275"
proof (cases "len < 1")
  case True
  with that(1) show thesis by (simp add: parse_size_def)
next
  case False
  then have b0: "byte d pos = Inr (uint (d ! pos))" using assms by simp
  show thesis
  proof (cases "uint (d ! pos) < 252")
    case True
    with that(2) [of 1] b0 False uint_u8 [of "d ! pos"] show thesis by (simp add: parse_size_def)
  next
    case big: False
    show thesis
    proof (cases "len < 2")
      case True
      with that(1) b0 False big show thesis by (simp add: parse_size_def)
    next
      case two: False
      then have "byte d (pos + 1) = Inr (uint (d ! (pos + 1)))" using assms by simp
      with that(2) [of 2] b0 False big two uint_u8 [of "d ! pos"] uint_u8 [of "d ! (pos + 1)"] show thesis
        by (simp add: parse_size_def)
    qed
  qed
qed

definition sizes_ok :: "int list \<Rightarrow> bool" where
  "sizes_ok sizes = (\<forall>sz \<in> set sizes. 0 \<le> sz \<and> sz \<le> 1275)"

lemma sizes_ok_simps [simp]:
  "sizes_ok []" "sizes_ok (sz # sizes) = (0 \<le> sz \<and> sz \<le> 1275 \<and> sizes_ok sizes)"
  "sizes_ok (xs @ ys) = (sizes_ok xs \<and> sizes_ok ys)"
  by (auto simp: sizes_ok_def)

lemma sizes_ok_replicate: "0 \<le> sz \<Longrightarrow> sz \<le> 1275 \<Longrightarrow> sizes_ok (replicate n sz)"
  by (simp add: sizes_ok_def)

lemma sizes_ok_sum: "sizes_ok sizes \<Longrightarrow> 0 \<le> sum_list sizes"
  by (induction sizes) simp_all

lemma vbr_sizes_inside:
  assumes "int pos + len \<le> int (length d)" and "0 \<le> len"
  shows "vbr_sizes d n pos len last_size = Inl OPUS_INVALID_PACKET
    \<or> (\<exists>sizes pos' len'. vbr_sizes d n pos len last_size
          = Inr (sizes, pos', len', last_size - (len - len') - sum_list sizes)
        \<and> length sizes = n \<and> sizes_ok sizes \<and> int pos' + len' = int pos + len \<and> 0 \<le> len')"
  using assms
proof (induction n arbitrary: pos len last_size)
  case (Suc n)
  from Suc.prems(1) show ?case
  proof (cases rule: parse_size_cases)
    case (2 bytes sz)
    show ?thesis
    proof (cases "sz > len - bytes")
      case False
      have "int (pos + nat bytes) + (len - bytes) \<le> int (length d)" "0 \<le> len - bytes"
        using Suc.prems 2 by simp_all
      from Suc.IH [OF this, of "last_size - (bytes + sz)"] 2 False Suc.prems show ?thesis
        by (auto simp: Let_def algebra_simps)
    qed (use 2 in \<open>simp add: Let_def\<close>)
  qed (simp add: Let_def)
qed simp

lemma padding_size_inside:
  assumes "int pos + len \<le> int (length d)" and "0 \<le> pad"
  shows "padding_size d pos len pad = Inl OPUS_INVALID_PACKET
    \<or> (\<exists>pos' len' pad'. padding_size d pos len pad = Inr (pos', len', pad')
        \<and> int pos' + len' + pad' = int pos + len + pad \<and> 0 \<le> pad')"
  using assms
proof (induction d pos len pad rule: padding_size.induct)
  case (1 d pos len pad)
  show ?case
  proof (cases "len \<le> 0")
    case False
    then have b: "byte d pos = Inr (uint (d ! pos))" using 1(2) by simp
    let ?p = "uint (d ! pos)"
    show ?thesis
    proof (cases "?p = 255")
      case True
      have "int (pos + 1) + (len - 1 - 254) \<le> int (length d)" "0 \<le> pad + 254" using 1(2,3) by simp_all
      from 1(1) [OF False b, of 254 "len - 1 - 254" "pad + 254"] True this False b show ?thesis
        by (subst (1 2) padding_size.simps) (auto simp: Let_def)
    next
      case p: False
      with False b 1(2,3) uint_u8 [of "d ! pos"] show ?thesis
        by (subst (1 2) padding_size.simps) (auto simp: Let_def)
    qed
  qed (subst padding_size.simps, simp)
qed

lemma samples_bounds:
  assumes "0 \<le> toc"
  shows "120 \<le> opus_packet_get_samples_per_frame toc 48000" "opus_packet_get_samples_per_frame toc 48000 \<le> 2880"
proof -
  let ?a = "toc div 2 ^ 3 AND 3"
  have "?a = 0 \<or> ?a = 1 \<or> ?a = 2 \<or> ?a = 3" unfolding and_3 by auto
  then show "120 \<le> opus_packet_get_samples_per_frame toc 48000" "opus_packet_get_samples_per_frame toc 48000 \<le> 2880"
    by (elim disjE; simp add: opus_packet_get_samples_per_frame_def)+
qed

text \<open>The body is well formed: what it says of the sizes and what is left fits together.\<close>

definition body_ok :: "u8 list \<Rightarrow> bool \<Rightarrow> int \<Rightarrow> opus_body \<Rightarrow> bool" where
  "body_ok d sd framesize b = (int (ob_pos b) + ob_len b + ob_pad b = int (length d) \<and> 0 \<le> ob_len b \<and> 0 \<le> ob_pad b
     \<and> 1 \<le> ob_count b \<and> ob_count b \<le> 48 \<and> framesize * int (ob_count b) \<le> 5760
     \<and> length (ob_sizes b) = ob_count b - 1
     \<and> (\<not> ob_cbr b \<longrightarrow> sizes_ok (ob_sizes b) \<and> ob_last b = ob_len b - sum_list (ob_sizes b))
     \<and> (\<not> ob_cbr b \<and> \<not> sd \<longrightarrow> 0 \<le> ob_last b)
     \<and> (ob_cbr b \<and> \<not> sd \<longrightarrow> ob_last b * int (ob_count b) = ob_len b
          \<and> ob_sizes b = replicate (ob_count b - 1) (s16 (ob_last b))))"

lemma parse_code_3_ok:
  assumes "int pos + len = int (length d)" and "120 \<le> framesize"
  shows "parse_code_3 d sd framesize pos len = Inl OPUS_INVALID_PACKET
    \<or> (\<exists>b. parse_code_3 d sd framesize pos len = Inr b \<and> body_ok d sd framesize b)"
proof (cases "len < 1")
  case False
  then have b: "byte d pos = Inr (uint (d ! pos))" using assms(1) by simp
  let ?ch = "uint (d ! pos)" and ?count = "uint (d ! pos) AND 63"
  let ?pad = "if ?ch AND 64 \<noteq> 0 then padding_size d (pos + 1) (len - 1) 0 else Inr (pos + 1, len - 1, 0)"
  show ?thesis
  proof (cases "?count \<le> 0 \<or> framesize * ?count > 5760")
    case True
    then show ?thesis using False b by (simp add: parse_code_3_def Let_def)
  next
    case count: False
    then have "120 * ?count \<le> 5760" using mult_right_mono [OF assms(2), of ?count] by linarith
    moreover have "0 < ?count" using count by linarith
    ultimately have c: "Suc 0 \<le> nat ?count" "nat ?count \<le> 48" "int (nat ?count) = ?count" by linarith+
    have "?pad = Inl OPUS_INVALID_PACKET \<or> (\<exists>pos' len' pad'. ?pad = Inr (pos', len', pad')
        \<and> int pos' + len' + pad' = int (length d) \<and> 0 \<le> pad')"
      using padding_size_inside [of "pos + 1" "len - 1" d 0] assms(1) by auto
    then show ?thesis
    proof (elim disjE exE conjE)
      assume "?pad = Inl OPUS_INVALID_PACKET"
      then show ?thesis using False b count by (simp add: parse_code_3_def Let_def del: if_split)
    next
      fix pos' len' pad' assume p: "?pad = Inr (pos', len', pad')" "int pos' + len' + pad' = int (length d)" "0 \<le> pad'"
      have eq: "parse_code_3 d sd framesize pos len = (if len' < 0 then Inl OPUS_INVALID_PACKET
          else if ?ch AND 128 \<noteq> 0
          then ebind (vbr_sizes d (nat ?count - 1) pos' len' len') (\<lambda>(sizes, pos, len, last_size).
                 if last_size < 0 then Inl OPUS_INVALID_PACKET
                 else Inr \<lparr>ob_count = nat ?count, ob_cbr = False, ob_pos = pos, ob_len = len,
                           ob_last = last_size, ob_sizes = sizes, ob_pad = pad'\<rparr>)
          else if \<not> sd \<and> len' div ?count * ?count \<noteq> len' then Inl OPUS_INVALID_PACKET
          else Inr \<lparr>ob_count = nat ?count, ob_cbr = True, ob_pos = pos', ob_len = len',
                    ob_last = (if sd then len' else len' div ?count),
                    ob_sizes = replicate (nat ?count - 1) (if sd then 0 else s16 (len' div ?count)), ob_pad = pad'\<rparr>)"
        using False b count p(1) by (simp add: parse_code_3_def Let_def del: if_split)
      show ?thesis
      proof (cases "len' < 0")
        case len': False
        then have in_d: "int pos' + len' \<le> int (length d)" "0 \<le> len'" using p(2,3) by simp_all
        show ?thesis
        proof (cases "?ch AND 128 = 0")
          case True
          then show ?thesis unfolding eq using p(2,3) len' c count by (auto simp: body_ok_def)
        next
          case vbr: False
          from vbr_sizes_inside [OF in_d, of "nat ?count - 1" len'] show ?thesis
          proof (elim disjE exE conjE)
            fix sizes pos'' len''
            assume v: "vbr_sizes d (nat ?count - 1) pos' len' len'
                = Inr (sizes, pos'', len'', len' - (len' - len'') - sum_list sizes)"
              "length sizes = nat ?count - 1" "sizes_ok sizes" "int pos'' + len'' = int pos' + len'" "0 \<le> len''"
            let ?b = "\<lparr>ob_count = nat ?count, ob_cbr = False, ob_pos = pos'', ob_len = len'',
                ob_last = len'' - sum_list sizes, ob_sizes = sizes, ob_pad = pad'\<rparr>"
            have "parse_code_3 d sd framesize pos len
                = (if len'' < sum_list sizes then Inl OPUS_INVALID_PACKET else Inr ?b)"
              unfolding eq using len' vbr v(1) by simp
            moreover have "\<not> len'' < sum_list sizes \<Longrightarrow> body_ok d sd framesize ?b"
              using v p(2,3) c count by (simp add: body_ok_def)
            ultimately show ?thesis by simp
          qed (use len' vbr in \<open>simp add: eq\<close>)
        qed
      qed (simp add: eq)
    qed
  qed
qed (simp add: parse_code_3_def)

lemma parse_body_ok:
  assumes "int pos + len = int (length d)" and "0 \<le> len" and "120 \<le> framesize" and "framesize \<le> 2880"
  shows "parse_body d sd framesize toc pos len = Inl OPUS_INVALID_PACKET
    \<or> (\<exists>b. parse_body d sd framesize toc pos len = Inr b \<and> body_ok d sd framesize b)"
proof -
  have "toc AND 3 = 0 \<or> toc AND 3 = 1 \<or> toc AND 3 = 2 \<or> toc AND 3 = 3" unfolding and_3 by auto
  then show ?thesis
  proof (elim disjE)
    assume "toc AND 3 = 0"
    with assms show ?thesis by (simp add: parse_body_def body_ok_def)
  next
    assume code: "toc AND 3 = 1"
    have "len AND 1 = 0 \<Longrightarrow> len div 2 * 2 = len" using div_mult_mod_eq [of len 2] unfolding and_1 by linarith
    with code assms show ?thesis by (auto simp: parse_body_def body_ok_def)
  next
    assume code: "toc AND 3 = 2"
    have "int pos + len \<le> int (length d)" using assms(1) by simp
    then show ?thesis
    proof (cases rule: parse_size_cases)
      case (2 bytes sz)
      with code assms show ?thesis by (auto simp: parse_body_def body_ok_def Let_def)
    qed (use code in \<open>simp add: parse_body_def Let_def\<close>)
  next
    assume "toc AND 3 = 3"
    with parse_code_3_ok [OF assms(1,3), of sd] show ?thesis by (simp add: parse_body_def)
  qed
qed

lemma parse_last_ok:
  assumes "body_ok d sd framesize b"
  shows "parse_last d sd b = Inl OPUS_INVALID_PACKET
    \<or> (\<exists>sizes pos. parse_last d sd b = Inr (sizes, pos) \<and> length sizes = ob_count b \<and> sizes_ok sizes
        \<and> int pos + sum_list sizes + ob_pad b \<le> int (length d)
        \<and> (\<not> sd \<longrightarrow> int pos + sum_list sizes + ob_pad b = int (length d)))"
proof (cases sd)
  case True
  have "int (ob_pos b) + ob_len b \<le> int (length d)" using assms by (simp add: body_ok_def)
  then show ?thesis
  proof (cases rule: parse_size_cases)
    case (2 bytes sz)
    with True assms show ?thesis
      by (auto simp: parse_last_def body_ok_def Let_def sizes_ok_replicate sum_list_replicate mult.commute)
  qed (use True in \<open>simp add: parse_last_def Let_def\<close>)
next
  case False
  show ?thesis
  proof (cases "ob_last b > 1275")
    case last: False
    have "0 \<le> ob_last b"
    proof (cases "ob_cbr b")
      case True
      then have "0 \<le> ob_last b * int (ob_count b)" "0 < int (ob_count b)" using False assms by (auto simp: body_ok_def)
      then show ?thesis by (simp add: zero_le_mult_iff)
    qed (use False assms in \<open>simp add: body_ok_def\<close>)
    with last have s: "s16 (ob_last b) = ob_last b" by (simp add: s16_id)
    have "sum_list (ob_sizes b) + ob_last b = ob_len b \<and> sizes_ok (ob_sizes b)"
    proof (cases "ob_cbr b")
      case True
      then have "ob_sizes b = replicate (ob_count b - 1) (ob_last b)" "ob_last b * int (ob_count b) = ob_len b"
        "1 \<le> ob_count b" using False assms s by (simp_all add: body_ok_def)
      then show ?thesis using \<open>0 \<le> ob_last b\<close> last
        by (simp add: sum_list_replicate sizes_ok_replicate of_nat_diff algebra_simps)
    qed (use assms in \<open>simp add: body_ok_def\<close>)
    then show ?thesis using False last s \<open>0 \<le> ob_last b\<close> assms
      by (auto simp: parse_last_def body_ok_def)
  qed (use False in \<open>simp add: parse_last_def\<close>)
qed

text \<open>A packet inside its bytes: the sizes, frames and padding of a result of the parser.\<close>

definition packet_ok :: "u8 list \<Rightarrow> bool \<Rightarrow> opus_packet \<Rightarrow> bool" where
  "packet_ok d sd p = (op_toc p = uint (hd d) \<and> 1 \<le> length (op_sizes p) \<and> length (op_sizes p) \<le> 48
     \<and> opus_packet_get_samples_per_frame (op_toc p) 48000 * int (length (op_sizes p)) \<le> 5760
     \<and> sizes_ok (op_sizes p) \<and> 0 \<le> op_pad p
     \<and> int (op_payload_offset p) + sum_list (op_sizes p) + op_pad p \<le> int (length d)
     \<and> (\<not> sd \<longrightarrow> int (op_payload_offset p) + sum_list (op_sizes p) + op_pad p = int (length d)))"

lemma parse_packet_ok:
  "opus_packet_parse_impl d sd = Inl OPUS_INVALID_PACKET
    \<or> (\<exists>p. opus_packet_parse_impl d sd = Inr p \<and> packet_ok d sd p)"
proof (cases d)
  case (Cons toc rest)
  let ?toc = "uint toc" and ?fs = "opus_packet_get_samples_per_frame (uint toc) 48000"
  have len: "int 1 + (int (length d) - 1) = int (length d)" "0 \<le> int (length d) - 1" using Cons by simp_all
  have eq: "opus_packet_parse_impl d sd = ebind (parse_body d sd ?fs ?toc 1 (int (length d) - 1))
      (\<lambda>b. ebind (parse_last d sd b) (\<lambda>(sizes, pos).
        Inr \<lparr>op_toc = ?toc, op_payload_offset = pos, op_sizes = sizes, op_pad = ob_pad b\<rparr>))"
    by (simp add: opus_packet_parse_impl_def Cons)
  from parse_body_ok [OF len samples_bounds(1) [OF uint_u8(1)] samples_bounds(2) [OF uint_u8(1)], of sd toc ?toc] show ?thesis
  proof (elim disjE exE conjE)
    assume "parse_body d sd ?fs ?toc 1 (int (length d) - 1) = Inl OPUS_INVALID_PACKET"
    then show ?thesis by (simp add: eq)
  next
    fix b assume b: "parse_body d sd ?fs ?toc 1 (int (length d) - 1) = Inr b" "body_ok d sd ?fs b"
    from parse_last_ok [OF b(2)] show ?thesis
    proof (elim disjE exE conjE)
      assume "parse_last d sd b = Inl OPUS_INVALID_PACKET"
      then show ?thesis unfolding eq b(1) by simp
    next
      fix sizes pos
      assume l: "parse_last d sd b = Inr (sizes, pos)" "length sizes = ob_count b" "sizes_ok sizes"
        "int pos + sum_list sizes + ob_pad b \<le> int (length d)"
        "\<not> sd \<longrightarrow> int pos + sum_list sizes + ob_pad b = int (length d)"
      let ?p = "\<lparr>op_toc = ?toc, op_payload_offset = pos, op_sizes = sizes, op_pad = ob_pad b\<rparr>"
      have res: "opus_packet_parse_impl d sd = Inr ?p" unfolding eq b(1) by (simp add: l(1))
      have hd: "hd d = toc" using Cons by simp
      show ?thesis
        by (intro disjI2 exI [of _ ?p]) (use res b(2) l hd in \<open>simp add: body_ok_def packet_ok_def\<close>)
    qed
  qed
qed (simp add: opus_packet_parse_impl_def)

text \<open>
  C16: The parser never reads outside the packet, and what it accepts lies inside it: on any bytes, in
  both framings, it answers with \<open>OPUS_INVALID_PACKET\<close> or with 1 to 48 frames of at most 1275
  bytes and at most 120 ms together, whose frames and padding follow each other within the packet, and
  fill it when the packet is not self-delimited.
\<close>

theorem parse_inside_packet:
  "opus_packet_parse_impl d sd = Inl OPUS_INVALID_PACKET
    \<or> (\<exists>p. opus_packet_parse_impl d sd = Inr p \<and> op_toc p = uint (hd d)
        \<and> 1 \<le> length (op_sizes p) \<and> length (op_sizes p) \<le> 48
        \<and> opus_packet_get_samples_per_frame (op_toc p) 48000 * int (length (op_sizes p)) \<le> 5760
        \<and> (\<forall>sz \<in> set (op_sizes p). 0 \<le> sz \<and> sz \<le> 1275) \<and> 0 \<le> op_pad p
        \<and> int (op_payload_offset p) + sum_list (op_sizes p) + op_pad p \<le> int (length d)
        \<and> (\<not> sd \<longrightarrow> int (op_payload_offset p) + sum_list (op_sizes p) + op_pad p = int (length d)))"
  using parse_packet_ok [of d sd] by (auto simp: packet_ok_def sizes_ok_def)

lemma parse_inside_packet_witness:
  "\<exists>p. opus_packet_parse_impl [0x09, 1, 2] False = Inr p
    \<and> int (op_payload_offset p) + sum_list (op_sizes p) + op_pad p = 3"
proof -
  have "isl (opus_packet_parse_impl [0x09, 1, 2] False) = False" by code_simp
  then show ?thesis using parse_inside_packet [of "[0x09, 1, 2]" False] by auto
qed

text \<open>
  The frames as bytes: each has its size, and with the header before and the padding behind they are the packet.
\<close>

lemma slices_concat:
  "sizes_ok ns \<Longrightarrow> int pos + sum_list ns \<le> int (length d) \<Longrightarrow>
    map (\<lambda>x. int (length x)) (slices d pos ns) = ns \<and> concat (slices d pos ns) = take (nat (sum_list ns)) (drop pos d)"
proof (induction ns arbitrary: pos)
  case (Cons n ns)
  have "0 \<le> sum_list ns" using Cons.prems(1) sizes_ok_sum by simp
  moreover have "map (\<lambda>x. int (length x)) (slices d (pos + nat n) ns) = ns
      \<and> concat (slices d (pos + nat n) ns) = take (nat (sum_list ns)) (drop (pos + nat n) d)"
    using Cons by simp
  ultimately show ?case using Cons.prems by (simp add: nat_add_distrib take_add drop_drop add.commute)
qed simp

lemma op_frames_length:
  assumes "packet_ok d sd p"
  shows "map (\<lambda>x. int (length x)) (op_frames d p) = op_sizes p"
  using slices_concat [of "op_sizes p" "op_payload_offset p" d] assms by (simp add: packet_ok_def op_frames_def)

text \<open>The two counts of the frames agree.\<close>

lemma parse_body_count:
  assumes "parse_body d sd fs t 1 len = Inr b" and "byte d 0 = Inr t" and "len = int (length d) - 1"
  shows "opus_packet_get_nb_frames d = Inr (int (ob_count b))"
proof -
  have d: "0 < length d" using byte_Inr [OF assms(2)] by simp
  have "t AND 3 = 0 \<or> t AND 3 = 1 \<or> t AND 3 = 2 \<or> t AND 3 = 3" unfolding and_3 by auto
  then show ?thesis
  proof (elim disjE)
    assume "t AND 3 = 3"
    moreover from this have "parse_code_3 d sd fs 1 len = Inr b" using assms(1) by (simp add: parse_body_def)
    then have "\<exists>ch. byte d 1 = Inr ch \<and> int (ob_count b) = ch AND 0x3F \<and> 1 \<le> len"
      by (auto simp: parse_code_3_def Let_def ebind_Inr not_less split: if_split_asm prod.splits)
    ultimately show ?thesis using assms(2,3) d by (auto simp: opus_packet_get_nb_frames_def not_less)
  qed (use assms d in \<open>auto simp: opus_packet_get_nb_frames_def parse_body_def Let_def ebind_Inr split: if_split_asm prod.splits\<close>)
qed

lemma parse_nb_frames:
  assumes "opus_packet_parse_impl d sd = Inr p"
  shows "opus_packet_get_nb_frames d = Inr (int (length (op_sizes p)))"
proof -
  obtain toc b sizes pos where b: "byte d 0 = Inr toc"
      "parse_body d sd (opus_packet_get_samples_per_frame toc 48000) toc 1 (int (length d) - 1) = Inr b"
    and l: "parse_last d sd b = Inr (sizes, pos)" "op_sizes p = sizes"
    using assms by (auto simp: opus_packet_parse_impl_def ebind_Inr split: if_split_asm prod.splits)
  have toc: "0 \<le> toc" using byte_Inr [OF b(1)] by simp
  have "d \<noteq> []" using byte_Inr [OF b(1)] by auto
  then have "int 1 + (int (length d) - 1) = int (length d)" "0 \<le> int (length d) - 1" by (cases d; simp)+
  from parse_body_ok [OF this samples_bounds [OF toc], of sd toc] b(2)
  have "body_ok d sd (opus_packet_get_samples_per_frame toc 48000) b" by simp
  from parse_last_ok [OF this] l have "length sizes = ob_count b" by auto
  with parse_body_count [OF b(2,1) refl] l(2) show ?thesis by simp
qed

text \<open>The query for redundancy takes the first byte of the first frame even when that frame is empty.\<close>

lemma lbrr_reads_past_end: "opus_packet_has_lbrr [0] = Inl Read_past_end"
  by code_simp

end
