(* ===== verification/Opus_Extensions.thy ===== *)
theory Opus_Extensions
  imports Opus_Packet
begin

text \<open>
  Extensions in the padding of a packet (\<open>opus-1.5.2/src/extensions.c\<close>). The pointer and the length
  left are the list of the bytes left, so no read can leave it. An extension carries its bytes
  instead of pointer and length.
\<close>

unbundle bit_operations_syntax

section \<open>Reading (extensions.c)\<close>

text \<open>The length of a long extension: bytes of 255 and one below; then what is left.\<close>

fun lacing :: "u8 list \<Rightarrow> int \<Rightarrow> nat \<Rightarrow> (u8 list \<times> int \<times> nat) option" where
  "lacing [] bytes header_size = None"
| "lacing (b # rest) bytes header_size =
     (if b = 255 then lacing rest (bytes + 255) (header_size + 1)
      else Some (rest, bytes + uint b, header_size + 1))"

definition skip_extension :: "u8 list \<Rightarrow> (u8 list \<times> nat) option" where
  "skip_extension d =
     (case d of [] \<Rightarrow> Some ([], 0)
      | b # rest \<Rightarrow>
          (let id = uint b div 2; L = uint b AND 1 in
           if id = 0 \<and> L = 1 then Some (rest, 1)
           else if id > 0 \<and> id < 32
           then if int (length d) < 1 + L then None else Some (drop (nat (1 + L)) d, 1)
           else if L = 0 then Some ([], 1)
           else case lacing rest 0 1 of None \<Rightarrow> None
                | Some (rest', bytes, header_size) \<Rightarrow>
                    if bytes \<le> int (length rest') then Some (drop (nat bytes) rest', header_size) else None))"

lemma lacing_shorter: "lacing d n h = Some (r, n', h') \<Longrightarrow> length r < length d"
  by (induction d n h rule: lacing.induct) (auto split: if_splits)

lemma skip_extension_shorter: "skip_extension d = Some (r, h) \<Longrightarrow> d \<noteq> [] \<Longrightarrow> length r < length d"
  by (auto simp: skip_extension_def Let_def and_one_eq split: list.splits if_splits option.splits
      dest!: lacing_shorter)

function opus_packet_extensions_count :: "u8 list \<Rightarrow> opus_error + int" where
  "opus_packet_extensions_count d =
     (if d = [] then Inr 0
      else case skip_extension d of None \<Rightarrow> Inl OPUS_INVALID_PACKET
           | Some (rest, header_size) \<Rightarrow>
               ebind (opus_packet_extensions_count rest)
                 (\<lambda>count. Inr (count + (if uint (hd d) div 2 > 1 then 1 else 0))))"
  by pat_completeness auto
termination by (relation "measure length") (auto dest: skip_extension_shorter)

declare opus_packet_extensions_count.simps [simp del]

record opus_extension_data =
  ext_id :: int
  ext_frame :: int
  ext_data :: "u8 list"

definition next_frame :: "u8 list \<Rightarrow> int \<Rightarrow> int" where
  "next_frame d curr_frame =
     (if uint (hd d) div 2 = 1
      then if uint (hd d) AND 1 = 0 then curr_frame + 1
           else if length d \<ge> 2 then curr_frame + uint (d ! 1) else curr_frame
      else curr_frame)"

text \<open>\<open>room\<close> is what is left of the caller's array.\<close>

function extensions_from :: "u8 list \<Rightarrow> int \<Rightarrow> int \<Rightarrow> opus_error + opus_extension_data list" where
  "extensions_from d curr_frame room =
     (if d = [] then Inr []
      else let id = uint (hd d) div 2; frame = next_frame d curr_frame in
        if id = 1 \<and> frame \<ge> 48 then Inl OPUS_INVALID_PACKET
        else case skip_extension d of None \<Rightarrow> Inl OPUS_INVALID_PACKET
             | Some (rest, header_size) \<Rightarrow>
                 if id > 1
                 then if room = 0 then Inl OPUS_BUFFER_TOO_SMALL
                      else ebind (extensions_from rest frame (room - 1)) (\<lambda>exts.
                        Inr (\<lparr>ext_id = id, ext_frame = frame,
                               ext_data = drop header_size (take (length d - length rest) d)\<rparr> # exts))
                 else extensions_from rest frame room)"
  by pat_completeness auto
termination by (relation "measure (\<lambda>(d, f, n). length d)") (auto dest: skip_extension_shorter)

declare extensions_from.simps [simp del]

definition opus_packet_extensions_parse :: "u8 list \<Rightarrow> int \<Rightarrow> opus_error + opus_extension_data list" where
  "opus_packet_extensions_parse d nb_extensions = extensions_from d 0 nb_extensions"

section \<open>Writing (extensions.c)\<close>

text \<open>
  \<open>data\<close> is what was written so far (\<open>pos\<close> bytes) of at most \<open>len\<close>; a call with \<open>NULL\<close> only counts and
  is the length of the result.
\<close>

definition put_separator :: "int \<Rightarrow> int \<Rightarrow> int \<Rightarrow> u8 list \<Rightarrow> opus_error + u8 list" where
  "put_separator len frame curr_frame data =
     (if frame \<noteq> curr_frame
      then if len - int (length data) < 2 then Inl OPUS_BUFFER_TOO_SMALL
           else Inr (data @ (if frame - curr_frame = 1 then [0x02] else [0x03, word_of_int (frame - curr_frame)]))
      else Inr data)"

definition put_extension :: "int \<Rightarrow> bool \<Rightarrow> opus_extension_data \<Rightarrow> u8 list \<Rightarrow> opus_error + u8 list" where
  "put_extension len final e data =
     (let n = int (length (ext_data e)); left = len - int (length data) in
      if ext_id e < 32
      then if n > 1 then Inl OPUS_BAD_ARG
           else if left < n + 1 then Inl OPUS_BUFFER_TOO_SMALL
           else Inr (data @ word_of_int (ext_id e * 2 + n) # ext_data e)
      else let length_bytes = (if final then 0 else 1 + n div 255)
           in if left < 1 + length_bytes + n then Inl OPUS_BUFFER_TOO_SMALL
              else Inr (data @ word_of_int (ext_id e * 2 + (if final then 0 else 1))
                     # (if final then [] else replicate (nat (n div 255)) 255 @ [word_of_int (n mod 255)])
                     @ ext_data e))"

fun put_extensions :: "int \<Rightarrow> nat \<Rightarrow> int \<Rightarrow> nat \<Rightarrow> opus_extension_data list \<Rightarrow> u8 list \<Rightarrow> opus_error + u8 list" where
  "put_extensions len nb curr_frame written [] data = Inr data"
| "put_extensions len nb curr_frame written (e # es) data =
     ebind (put_separator len (ext_frame e) curr_frame data) (\<lambda>data.
       ebind (put_extension len (written + 1 = nb) e data) (\<lambda>data.
         put_extensions len nb (ext_frame e) (written + 1) es data))"

text \<open>The loops: frame by frame, the extensions of a frame in the order of the array.\<close>

definition by_frame :: "int \<Rightarrow> opus_extension_data list \<Rightarrow> opus_extension_data list" where
  "by_frame max_frame exts =
     concat (map (\<lambda>frame. filter (\<lambda>e. ext_frame e = frame) exts) [0..max_frame])"

definition opus_packet_extensions_generate :: "int \<Rightarrow> opus_extension_data list \<Rightarrow> bool \<Rightarrow> opus_error + u8 list" where
  "opus_packet_extensions_generate len exts pad =
     (let max_frame = fold (\<lambda>e m. max m (ext_frame e)) exts 0 in
      if \<exists>e \<in> set exts. ext_id e < 2 \<or> ext_id e > 127 then Inl OPUS_BAD_ARG
      else if max_frame \<ge> 48 then Inl OPUS_BAD_ARG
      else ebind (put_extensions len (length exts) 0 0 (by_frame max_frame exts) []) (\<lambda>data.
        Inr (if pad then replicate (nat (len - int (length data))) 0x01 @ data else data)))"

section \<open>Round trip\<close>

lemma extensions_from_frames:
  "extensions_from d cur room = Inr es \<Longrightarrow> 0 \<le> cur \<Longrightarrow> \<forall>e \<in> set es. 0 \<le> ext_frame e"
proof (induction d cur room arbitrary: es rule: extensions_from.induct)
  case (1 d cur room)
  have "0 \<le> next_frame d cur" using 1(4) uint_u8 by (simp add: next_frame_def)
  with 1 show ?case
    by (subst (asm) (3) extensions_from.simps)
      (fastforce simp: ebind_Inr Let_def split: if_split_asm option.splits prod.splits)
qed


text \<open>The bytes of a separator and of an extension.\<close>

definition sep_bytes :: "int \<Rightarrow> int \<Rightarrow> u8 list" where
  "sep_bytes curr_frame frame =
     (if frame = curr_frame then [] else if frame - curr_frame = 1 then [2] else [3, word_of_int (frame - curr_frame)])"

definition ext_bytes :: "bool \<Rightarrow> opus_extension_data \<Rightarrow> u8 list" where
  "ext_bytes final e =
     (let n = int (length (ext_data e)) in
      if ext_id e < 32 then word_of_int (ext_id e * 2 + n) # ext_data e
      else if final then word_of_int (ext_id e * 2) # ext_data e
      else word_of_int (ext_id e * 2 + 1) # replicate (nat (n div 255)) 255 @ [word_of_int (n mod 255)] @ ext_data e)"

definition ext_ok :: "opus_extension_data \<Rightarrow> bool" where
  "ext_ok e = (2 \<le> ext_id e \<and> ext_id e \<le> 127 \<and> 0 \<le> ext_frame e \<and> ext_frame e < 48
     \<and> (ext_id e < 32 \<longrightarrow> length (ext_data e) \<le> 1))"

lemma put_separator_Inr:
  "put_separator len frame cur data = Inr out \<Longrightarrow> out = data @ sep_bytes cur frame \<and> (int (length data) \<le> len \<longrightarrow> int (length out) \<le> len)"
  by (auto simp: put_separator_def sep_bytes_def split: if_splits)

lemma put_extension_Inr:
  assumes "put_extension len final e data = Inr out"
  shows "out = data @ ext_bytes final e \<and> int (length out) \<le> len \<and> (ext_id e < 32 \<longrightarrow> length (ext_data e) \<le> 1)"
proof (cases "ext_id e < 32")
  case True
  with assms show ?thesis by (auto simp: put_extension_def ext_bytes_def Let_def split: if_splits)
next
  case False
  have "0 \<le> int (length (ext_data e)) div 255" by simp
  with False assms show ?thesis by (auto simp: put_extension_def ext_bytes_def Let_def split: if_splits)
qed

lemma uint_u8_of_int: "0 \<le> v \<Longrightarrow> v < 256 \<Longrightarrow> uint (word_of_int v :: u8) = v"
  by (simp add: uint_word_of_int)

lemma from_separator:
  assumes "0 \<le> cur" and "cur \<le> frame" and "frame < 48"
  shows "extensions_from (sep_bytes cur frame @ r) cur room = extensions_from r frame room"
    and "opus_packet_extensions_count (sep_bytes cur frame @ r) = opus_packet_extensions_count r"
proof -
  have d: "uint (word_of_int (frame - cur) :: u8) = frame - cur" if "frame \<noteq> cur"
    using assms that by (intro uint_u8_of_int) simp_all
  show "extensions_from (sep_bytes cur frame @ r) cur room = extensions_from r frame room"
  proof (cases "frame - cur = 1")
    case True
    then have "frame = cur + 1" by simp
    then show ?thesis using assms by (simp add: sep_bytes_def extensions_from.simps [of "_ # _"] next_frame_def
        skip_extension_def Let_def)
  qed (use assms d in \<open>auto simp: sep_bytes_def extensions_from.simps [of "_ # _"] next_frame_def
        skip_extension_def Let_def simp del: of_int_diff\<close>)
  show "opus_packet_extensions_count (sep_bytes cur frame @ r) = opus_packet_extensions_count r"
    using d by (auto simp: sep_bytes_def opus_packet_extensions_count.simps [of "_ # _"]
        skip_extension_def Let_def ebind_Inr simp del: of_int_diff split: sum.splits)
      (cases "opus_packet_extensions_count r"; simp)+
qed

lemma from_one:
  "extensions_from (replicate n 1 @ r) cur room = extensions_from r cur room"
  "opus_packet_extensions_count (replicate n 1 @ r) = opus_packet_extensions_count r"
proof (induction n)
  case (Suc n)
  { case 1
    with Suc show ?case
      by (simp add: extensions_from.simps [of "_ # _"] next_frame_def skip_extension_def) }
  { case 2
    with Suc show ?case
      by (cases "opus_packet_extensions_count r")
        (simp_all add: opus_packet_extensions_count.simps [of "_ # _"] skip_extension_def) }
qed simp_all

lemma lacing_length:
  "lacing (replicate q 255 @ b # r) n h = (if b = 255 then lacing r (n + 255 * int q + 255) (h + q + 1)
     else Some (r, n + 255 * int q + uint b, h + q + 1))"
  by (induction q arbitrary: n h) (simp_all add: algebra_simps)

lemma skip_ext_bytes:
  assumes "ext_ok e" and "final \<Longrightarrow> r = []"
  shows "\<exists>h. skip_extension (ext_bytes final e @ r) = Some (r, h) \<and> ext_bytes final e \<noteq> []
    \<and> drop h (ext_bytes final e) = ext_data e \<and> uint (hd (ext_bytes final e)) div 2 = ext_id e"
proof -
  let ?n = "int (length (ext_data e))"
  have id: "2 \<le> ext_id e" "ext_id e \<le> 127" using assms(1) by (simp_all add: ext_ok_def)
  consider "ext_id e < 32" | "\<not> ext_id e < 32" "final" | "\<not> ext_id e < 32" "\<not> final" by blast
  then show ?thesis
  proof cases
    case 1
    then have n: "ext_data e = [] \<or> (\<exists>x. ext_data e = [x])"
      using assms(1) by (cases "ext_data e") (auto simp: ext_ok_def)
    then have b: "uint (word_of_int (ext_id e * 2 + ?n) :: u8) = ext_id e * 2 + ?n"
      using id by (intro uint_u8_of_int) auto
    from n show ?thesis
      by (elim disjE exE) (use 1 id b in \<open>auto simp: ext_bytes_def skip_extension_def Let_def and_one_eq
        simp del: of_int_add of_int_mult\<close>)
  next
    case 2
    have b: "uint (word_of_int (ext_id e * 2) :: u8) = ext_id e * 2" using id by (intro uint_u8_of_int) auto
    with 2 id assms(2) show ?thesis
      by (auto simp: ext_bytes_def skip_extension_def Let_def and_one_eq simp del: of_int_mult)
  next
    case 3
    have b: "uint (word_of_int (ext_id e * 2 + 1) :: u8) = ext_id e * 2 + 1" using id by (intro uint_u8_of_int) auto
    have m: "uint (word_of_int (?n mod 255) :: u8) = ?n mod 255" "word_of_int (?n mod 255) \<noteq> (255 :: u8)"
    proof -
      show u: "uint (word_of_int (?n mod 255) :: u8) = ?n mod 255"
        using pos_mod_bound [of 255 ?n] by (intro uint_u8_of_int) (simp, linarith)
      show "word_of_int (?n mod 255) \<noteq> (255 :: u8)"
      proof
        assume "word_of_int (?n mod 255) = (255 :: u8)"
        then have "?n mod 255 = uint (255 :: u8)" using u by simp
        then show False using pos_mod_bound [of 255 ?n] by simp
      qed
    qed
    have "lacing (replicate (nat (?n div 255)) 255 @ word_of_int (?n mod 255) # ext_data e @ r) 0 1
        = Some (ext_data e @ r, ?n, Suc (nat (?n div 255) + 1))"
      using m mult_div_mod_eq [of 255 ?n] pos_imp_zdiv_nonneg_iff [of 255 ?n] by (simp add: lacing_length)
    with 3 id b show ?thesis
      by (auto simp: ext_bytes_def skip_extension_def Let_def and_one_eq simp del: of_int_mult of_int_add)
  qed
qed

lemma from_ext_bytes:
  assumes "ext_ok e" and "final \<Longrightarrow> r = []" and "room \<noteq> 0"
  shows "extensions_from (ext_bytes final e @ r) (ext_frame e) room
    = ebind (extensions_from r (ext_frame e) (room - 1)) (\<lambda>es. Inr (e # es))"
    and "opus_packet_extensions_count (ext_bytes final e @ r)
    = ebind (opus_packet_extensions_count r) (\<lambda>n. Inr (n + 1))"
proof -
  obtain h where h: "skip_extension (ext_bytes final e @ r) = Some (r, h)" "ext_bytes final e \<noteq> []"
    "drop h (ext_bytes final e) = ext_data e" "uint (hd (ext_bytes final e)) div 2 = ext_id e"
    using skip_ext_bytes [OF assms(1,2)] by blast
  have id: "2 \<le> ext_id e" using assms(1) by (simp add: ext_ok_def)
  have same: "\<lparr>ext_id = ext_id e, ext_frame = ext_frame e, ext_data = ext_data e\<rparr> = e" by (cases e) simp
  show "extensions_from (ext_bytes final e @ r) (ext_frame e) room
      = ebind (extensions_from r (ext_frame e) (room - 1)) (\<lambda>es. Inr (e # es))"
    using h id assms(3) by (subst extensions_from.simps) (simp add: next_frame_def Let_def same)
  show "opus_packet_extensions_count (ext_bytes final e @ r)
      = ebind (opus_packet_extensions_count r) (\<lambda>n. Inr (n + 1))"
    using h id by (subst opus_packet_extensions_count.simps) simp
qed

lemma put_extensions_read:
  assumes "put_extensions len nb cur written es data = Inr out" and "written + length es = nb"
    and "\<forall>e \<in> set es. 2 \<le> ext_id e \<and> ext_id e \<le> 127 \<and> ext_frame e < 48" and "0 \<le> cur"
    and "sorted (cur # map ext_frame es)" and "int (length data) \<le> len"
  shows "\<exists>bs. out = data @ bs \<and> int (length out) \<le> len \<and> opus_packet_extensions_count bs = Inr (int (length es))
    \<and> (\<forall>room. int (length es) \<le> room \<longrightarrow> extensions_from bs cur room = Inr es)"
  using assms
proof (induction es arbitrary: cur written data)
  case Nil
  then show ?case by (simp add: opus_packet_extensions_count.simps extensions_from.simps)
next
  case (Cons e es)
  from Cons.prems(1) obtain d1 d2 where d1: "put_separator len (ext_frame e) cur data = Inr d1"
    and d2: "put_extension len (written + 1 = nb) e d1 = Inr d2"
    and rest: "put_extensions len nb (ext_frame e) (written + 1) es d2 = Inr out"
    by (auto simp: ebind_Inr)
  note s = put_separator_Inr [OF d1] and x = put_extension_Inr [OF d2]
  have cur: "cur \<le> ext_frame e" "ext_frame e < 48" "2 \<le> ext_id e" "ext_id e \<le> 127"
    using Cons.prems(3,5) by simp_all
  have "ext_ok e" using cur x Cons.prems(4) by (simp add: ext_ok_def)
  have "(written + 1) + length es = nb" "\<forall>e \<in> set es. 2 \<le> ext_id e \<and> ext_id e \<le> 127 \<and> ext_frame e < 48"
    "0 \<le> ext_frame e" "sorted (ext_frame e # map ext_frame es)" "int (length d2) \<le> len"
    using Cons.prems cur x by auto
  from Cons.IH [OF rest this] obtain bs where bs: "out = d2 @ bs" "int (length out) \<le> len"
    "opus_packet_extensions_count bs = Inr (int (length es))"
    "\<And>room. int (length es) \<le> room \<Longrightarrow> extensions_from bs (ext_frame e) room = Inr es" by blast
  have final: "bs = []" if "written + 1 = nb"
  proof -
    have "length es = 0" using that Cons.prems(2) unfolding list.size by linarith
    then have "es = []" by simp
    then show ?thesis using rest bs(1) by simp
  qed
  let ?x = "ext_bytes (written + 1 = nb) e"
  have "extensions_from (sep_bytes cur (ext_frame e) @ ?x @ bs) cur room = Inr (e # es)"
    if "int (length (e # es)) \<le> room" for room
    using from_separator(1) [OF Cons.prems(4) cur(1,2), of "?x @ bs" room]
      from_ext_bytes(1) [where room = room, OF \<open>ext_ok e\<close> final] bs(4) [of "room - 1"] that by simp
  moreover have "opus_packet_extensions_count (sep_bytes cur (ext_frame e) @ ?x @ bs) = Inr (int (length (e # es)))"
    using from_separator(2) [OF Cons.prems(4) cur(1,2), of "?x @ bs"] from_ext_bytes(2) [where room = 1, OF \<open>ext_ok e\<close> final] bs(3)
    by simp
  moreover have "out = data @ sep_bytes cur (ext_frame e) @ ?x @ bs" using bs(1) s x by simp
  ultimately show ?case using bs(2) by blast
qed

lemma max_frame_bound: "e \<in> set exts \<Longrightarrow> ext_frame e \<le> fold (\<lambda>e m. max m (ext_frame e)) exts m"
proof (induction exts arbitrary: m)
  case (Cons a exts)
  have mono: "m \<le> fold (\<lambda>e m. max m (ext_frame e)) exts m" for m
  proof (induction exts arbitrary: m)
    case (Cons a exts)
    show ?case using Cons [of "max m (ext_frame a)"] by simp
  qed simp
  show ?case using Cons mono [of "max m (ext_frame a)"] by auto
qed simp

lemma by_frame_facts:
  "set (by_frame k exts) \<subseteq> set exts" "sorted (0 # map ext_frame (by_frame k exts))"
  "(\<And>e. e \<in> set exts \<Longrightarrow> 0 \<le> ext_frame e \<and> ext_frame e \<le> k) \<Longrightarrow> length (by_frame k exts) = length exts"
proof -
  show "set (by_frame k exts) \<subseteq> set exts" by (auto simp: by_frame_def)
  have "sorted (map ext_frame (concat (map (\<lambda>f. filter (\<lambda>e. ext_frame e = f) exts) fs)))
      \<and> (\<forall>e \<in> set (concat (map (\<lambda>f. filter (\<lambda>e. ext_frame e = f) exts) fs)). ext_frame e \<in> set fs)"
    if "sorted fs" for fs
    using that
  proof (induction fs)
    case (Cons f fs)
    have "sorted (map ext_frame (filter (\<lambda>e. ext_frame e = f) exts))"
      by (induction exts) auto
    with Cons show ?case by (auto simp: sorted_append)
  qed simp
  from this [of "[0..k]"] show "sorted (0 # map ext_frame (by_frame k exts))"
    by (auto simp: by_frame_def sorted_upto)
  have "distinct fs \<Longrightarrow> count_list fs x = (if x \<in> set fs then 1 else 0)" for fs and x :: int
    by (induction fs) auto
  then have count: "count_list [0..k] x = (if 0 \<le> x \<and> x \<le> k then 1 else 0)" for x
    using distinct_upto by simp
  show "length (by_frame k exts) = length exts"
    if "\<And>e. e \<in> set exts \<Longrightarrow> 0 \<le> ext_frame e \<and> ext_frame e \<le> k"
    using that
  proof (induction exts)
    case (Cons a exts)
    have "length (concat (map (\<lambda>f. filter (\<lambda>e. ext_frame e = f) (a # exts)) fs))
        = length (concat (map (\<lambda>f. filter (\<lambda>e. ext_frame e = f) exts) fs)) + count_list fs (ext_frame a)" for fs
      by (induction fs) auto
    moreover have "count_list [0..k] (ext_frame a) = 1"
      using Cons.prems [of a] by (simp add: count)
    ultimately show ?case using Cons by (simp add: by_frame_def)
  qed (simp add: by_frame_def)
qed

lemma generate_read:
  assumes "opus_packet_extensions_generate len exts pad = Inr bs" and "\<forall>e \<in> set exts. 0 \<le> ext_frame e" and "0 \<le> len"
  shows "\<exists>es. opus_packet_extensions_parse bs (int (length exts)) = Inr es \<and> es = by_frame 47 exts
    \<and> opus_packet_extensions_count bs = Inr (int (length exts)) \<and> int (length bs) \<le> len"
proof -
  let ?k = "fold (\<lambda>e m. max m (ext_frame e)) exts 0"
  define R where "R = ebind (put_extensions len (length exts) 0 0 (by_frame ?k exts) []) (\<lambda>data.
      Inr (if pad then replicate (nat (len - int (length data))) 0x01 @ data else data) :: opus_error + u8 list)"
  have "opus_packet_extensions_generate len exts pad
      = (if \<exists>e \<in> set exts. ext_id e < 2 \<or> ext_id e > 127 then Inl OPUS_BAD_ARG
         else if ?k \<ge> 48 then Inl OPUS_BAD_ARG else R)"
    by (simp only: opus_packet_extensions_generate_def Let_def R_def)
  with assms(1) have k: "?k < 48" and ids: "\<forall>e \<in> set exts. 2 \<le> ext_id e \<and> ext_id e \<le> 127" and "R = Inr bs"
    by (auto simp: not_less split: if_split_asm)
  then obtain data where data: "put_extensions len (length exts) 0 0 (by_frame ?k exts) [] = Inr data"
    and bs: "bs = (if pad then replicate (nat (len - int (length data))) 1 @ data else data)"
    unfolding R_def ebind_Inr by blast
  have fr: "0 \<le> ext_frame e \<and> ext_frame e \<le> ?k" if "e \<in> set exts" for e
    using assms(2) that max_frame_bound [OF that, of 0] by blast
  note bf = by_frame_facts [where k = ?k and exts = exts]
  have n: "length (by_frame ?k exts) = length exts" using fr by (intro bf(3)) blast
  from put_extensions_read [OF data] n bf(1,2) ids fr k assms(3) have
    d: "int (length data) \<le> len" "opus_packet_extensions_count data = Inr (int (length exts))"
      "extensions_from data 0 (int (length exts)) = Inr (by_frame ?k exts)"
    by fastforce+
  have "[0..47] = [0..?k] @ [?k + 1..47]" if "0 \<le> ?k"
    using k that upto_split2 [of 0 ?k 47] by simp
  moreover have "filter (\<lambda>e. ext_frame e = f) exts = []" if "?k < f" for f
    using fr that by (force simp: filter_empty_conv)
  then have "concat (map (\<lambda>f. filter (\<lambda>e. ext_frame e = f) exts) [?k + 1..47]) = []" by auto
  moreover have "0 \<le> ?k"
  proof -
    have "m \<le> fold (\<lambda>e m. max m (ext_frame e)) exts m" for m
      by (induction exts arbitrary: m) (auto intro: order_trans [OF max.cobounded1])
    then show ?thesis .
  qed
  ultimately have "by_frame 47 exts = by_frame ?k exts" by (simp add: by_frame_def)
  with d show ?thesis by (auto simp: bs opus_packet_extensions_parse_def from_one)
qed

text \<open>
  C17: Extensions survive their packing: whatever the generator writes, with padding in front or not, the
  parser reads back as the same extensions, ordered by their frame, and the counter counts; it never
  writes more than the space it was given.
\<close>

theorem extensions_roundtrip:
  assumes "opus_packet_extensions_generate len exts pad = Inr bs" and "\<forall>e \<in> set exts. 0 \<le> ext_frame e" and "0 \<le> len"
  shows "\<exists>es. opus_packet_extensions_parse bs (int (length exts)) = Inr es \<and> es = by_frame 47 exts
    \<and> opus_packet_extensions_count bs = Inr (int (length exts)) \<and> int (length bs) \<le> len"
  using generate_read [OF assms] .

definition sample_exts :: "opus_extension_data list" where
  "sample_exts = [\<lparr>ext_id = 40, ext_frame = 3, ext_data = [1, 2]\<rparr>, \<lparr>ext_id = 5, ext_frame = 1, ext_data = [7]\<rparr>]"

lemma extensions_roundtrip_witness:
  "\<exists>bs. opus_packet_extensions_generate 20 sample_exts True = Inr bs
    \<and> opus_packet_extensions_parse bs 2 = Inr (rev sample_exts)"
proof -
  have "isl (opus_packet_extensions_generate 20 sample_exts True) = False" by code_simp
  then obtain bs where bs: "opus_packet_extensions_generate 20 sample_exts True = Inr bs"
    by (cases "opus_packet_extensions_generate 20 sample_exts True") auto
  have "\<forall>e \<in> set sample_exts. 0 \<le> ext_frame e" "length sample_exts = 2" by (simp_all add: sample_exts_def)
  moreover have "by_frame 47 sample_exts = rev sample_exts" by code_simp
  ultimately show ?thesis using extensions_roundtrip [OF bs] bs by auto
qed

end
