(* ===== verification/Opus_Repacketizer.thy ===== *)
theory Opus_Repacketizer
  imports Opus_Extensions
begin

text \<open>
  Packets taken apart and put together (\<open>opus-1.5.2/src/repacketizer.c\<close>). A repacketizer holds the
  bytes of the frames and paddings it was given, not pointers: the C code must not be given an output
  buffer that overlaps them, except for \<open>opus_packet_unpad\<close>, whose moves only go to the front (shown
  in \<open>Repacketizer_Laws\<close>). The multistream functions work stream by stream on bytes not yet
  overwritten, as if each stream had been copied first. The lemmas show what the parser of \<open>Opus_Packet\<close> makes of
  the bytes written.
\<close>

unbundle bit_operations_syntax

section \<open>Gathering frames\<close>

record opus_repacketizer =
  rp_toc :: int
  rp_framesize :: int
  rp_frames :: "u8 list list"
  rp_paddings :: "u8 list list"

definition opus_repacketizer_init :: "opus_repacketizer \<Rightarrow> opus_repacketizer" where
  "opus_repacketizer_init rp = rp\<lparr>rp_frames := [], rp_paddings := []\<rparr>"

definition opus_repacketizer_cat_impl :: "opus_repacketizer \<Rightarrow> u8 list \<Rightarrow> bool \<Rightarrow> (opus_error + unit) \<times> opus_repacketizer" where
  "opus_repacketizer_cat_impl rp d sd =
     (if length d < 1 then (Inl OPUS_INVALID_PACKET, rp)
      else let b0 = uint (hd d); nb_frames = int (length (rp_frames rp)) in
        if nb_frames \<noteq> 0 \<and> (rp_toc rp AND 0xFC) \<noteq> (b0 AND 0xFC) then (Inl OPUS_INVALID_PACKET, rp)
        else let rp = (if nb_frames = 0
                       then rp\<lparr>rp_toc := b0, rp_framesize := opus_packet_get_samples_per_frame b0 8000\<rparr> else rp)
          in case opus_packet_get_nb_frames d of Inl e \<Rightarrow> (Inl OPUS_INVALID_PACKET, rp)
             | Inr curr_nb_frames \<Rightarrow>
                 if curr_nb_frames < 1 then (Inl OPUS_INVALID_PACKET, rp)
                 else if (curr_nb_frames + nb_frames) * rp_framesize rp > 960 then (Inl OPUS_INVALID_PACKET, rp)
                 else case opus_packet_parse_impl d sd of Inl e \<Rightarrow> (Inl e, rp)
                      | Inr p \<Rightarrow> (Inr (), rp\<lparr>rp_frames := rp_frames rp @ op_frames d p,
                          rp_paddings := rp_paddings rp @ op_padding d p # replicate (nat curr_nb_frames - 1) []\<rparr>))"

definition opus_repacketizer_cat :: "opus_repacketizer \<Rightarrow> u8 list \<Rightarrow> (opus_error + unit) \<times> opus_repacketizer" where
  "opus_repacketizer_cat rp d = opus_repacketizer_cat_impl rp d False"

definition opus_repacketizer_get_nb_frames :: "opus_repacketizer \<Rightarrow> nat" where
  "opus_repacketizer_get_nb_frames rp = length (rp_frames rp)"

section \<open>Writing a packet\<close>

text \<open>The extensions passed in and those of the paddings, renumbered by the position of their frame.\<close>

definition count_extensions :: "u8 list \<Rightarrow> int" where
  "count_extensions d = (case opus_packet_extensions_count d of Inl e \<Rightarrow> 0 | Inr n \<Rightarrow> if n > 0 then n else 0)"

fun collect_extensions :: "int \<Rightarrow> int \<Rightarrow> u8 list list \<Rightarrow> opus_extension_data list \<Rightarrow> opus_error + opus_extension_data list" where
  "collect_extensions room i [] exts = Inr exts"
| "collect_extensions room i (d # ds) exts =
     (case opus_packet_extensions_parse d (room - int (length exts)) of Inl e \<Rightarrow> Inl OPUS_INTERNAL_ERROR
      | Inr es \<Rightarrow> collect_extensions room (i + 1) ds
                   (exts @ map (\<lambda>e. e\<lparr>ext_frame := ext_frame e + i\<rparr>) es))"

definition long_size :: "u8 list \<Rightarrow> int" where
  "long_size f = (if int (length f) \<ge> 252 then 1 else 0)"

text \<open>Codes 0 to 2: the total size so far and the bytes before the frames.\<close>

definition out_short :: "int \<Rightarrow> u8 list list \<Rightarrow> int \<Rightarrow> int \<Rightarrow> opus_error + (int \<times> u8 list)" where
  "out_short toc fs maxlen tot_size =
     (let l = map (int \<circ> length) fs in
      if length fs = 1
      then let tot = tot_size + l ! 0 + 1
           in if tot > maxlen then Inl OPUS_BUFFER_TOO_SMALL else Inr (tot, [word_of_int (toc AND 0xFC)])
      else if length fs = 2
      then if l ! 1 = l ! 0
           then let tot = tot_size + 2 * l ! 0 + 1
                in if tot > maxlen then Inl OPUS_BUFFER_TOO_SMALL
                   else Inr (tot, [word_of_int ((toc AND 0xFC) OR 0x1)])
           else let tot = tot_size + l ! 0 + l ! 1 + 2 + long_size (fs ! 0)
                in if tot > maxlen then Inl OPUS_BUFFER_TOO_SMALL
                   else Inr (tot, word_of_int ((toc AND 0xFC) OR 0x2) # encode_size (l ! 0))
      else Inr (tot_size, []))"

text \<open>Code 3: the total size, the bytes before the frames, and those behind them (padding of ones, extensions).\<close>

definition out_code_3 :: "int \<Rightarrow> u8 list list \<Rightarrow> int \<Rightarrow> int \<Rightarrow> bool \<Rightarrow> opus_extension_data list \<Rightarrow> opus_error + (int \<times> u8 list \<times> u8 list)" where
  "out_code_3 toc fs maxlen base pad exts =
     (let count = int (length fs); l = map (int \<circ> length) fs;
          vbr = (\<exists>n \<in> set (tl l). n \<noteq> l ! 0);
          tot = (if vbr then base + 2 + sum_list (map (\<lambda>f. 1 + long_size f + int (length f)) (butlast fs))
                               + int (length (last fs))
                 else base + count * l ! 0 + 2)
      in if tot > maxlen then Inl OPUS_BUFFER_TOO_SMALL
         else ebind (if exts \<noteq> [] then map_sum id (int \<circ> length) (opus_packet_extensions_generate (maxlen - tot) exts False)
                     else Inr 0)
           (\<lambda>ext_len.
             let pad_amount = (if exts \<noteq> [] \<and> \<not> pad then ext_len + ext_len div 254 + 1
                               else if pad then maxlen - tot else 0);
                 toc_bytes = [word_of_int ((toc AND 0xFC) OR 0x3),
                   word_of_int ((if vbr then count OR 0x80 else count) OR (if pad_amount \<noteq> 0 then 0x40 else 0))];
                 sizes = (if vbr then concat (map encode_size (butlast l)) else [])
             in if pad_amount = 0 then Inr (tot, toc_bytes @ sizes, [])
                else let nb_255s = (pad_amount - 1) div 255 in
                  if tot + ext_len + nb_255s + 1 > maxlen then Inl OPUS_BUFFER_TOO_SMALL
                  else let ones = replicate (nat (pad_amount - ext_len - nb_255s - 1)) 0x01
                    in ebind (if ext_len > 0 then opus_packet_extensions_generate ext_len exts False else Inr [])
                         (\<lambda>ext_data. Inr (tot + pad_amount,
                            toc_bytes @ replicate (nat nb_255s) 255 @ [word_of_int (pad_amount - 255 * nb_255s - 1)] @ sizes,
                            ones @ ext_data))))"

text \<open>The returned size and the bytes written.\<close>

definition opus_repacketizer_out_range_impl :: "opus_repacketizer \<Rightarrow> nat \<Rightarrow> nat \<Rightarrow> int \<Rightarrow> bool \<Rightarrow> bool
    \<Rightarrow> opus_extension_data list \<Rightarrow> opus_error + (int \<times> u8 list)" where
  "opus_repacketizer_out_range_impl rp begin0 end0 maxlen sd pad extensions =
     (if begin0 \<ge> end0 \<or> end0 > length (rp_frames rp) then Inl OPUS_BAD_ARG
      else let fs = take (end0 - begin0) (drop begin0 (rp_frames rp));
               paddings = take (end0 - begin0) (drop begin0 (rp_paddings rp));
               base = (if sd then 1 + long_size (last fs) else 0);
               sd_bytes = (if sd then encode_size (int (length (last fs))) else []);
               room = int (length extensions) + sum_list (map count_extensions paddings)
        in ebind (collect_extensions room 0 paddings extensions) (\<lambda>exts.
             ebind (out_short (rp_toc rp) fs maxlen base) (\<lambda>(tot, header).
               ebind (if length fs > 2 \<or> (pad \<and> tot < maxlen) \<or> exts \<noteq> []
                      then out_code_3 (rp_toc rp) fs maxlen base pad exts else Inr (tot, header, []))
                 (\<lambda>(tot, header, trailer).
                   let front = header @ sd_bytes @ concat fs
                   in Inr (tot, front @ (if pad \<and> exts = [] then replicate (nat (maxlen - int (length front))) 0
                                         else trailer))))))"

definition opus_repacketizer_out_range :: "opus_repacketizer \<Rightarrow> nat \<Rightarrow> nat \<Rightarrow> int \<Rightarrow> opus_error + (int \<times> u8 list)" where
  "opus_repacketizer_out_range rp begin0 end0 maxlen =
     opus_repacketizer_out_range_impl rp begin0 end0 maxlen False False []"

definition opus_repacketizer_out :: "opus_repacketizer \<Rightarrow> int \<Rightarrow> opus_error + (int \<times> u8 list)" where
  "opus_repacketizer_out rp maxlen =
     opus_repacketizer_out_range_impl rp 0 (length (rp_frames rp)) maxlen False False []"

section \<open>Padding and unpadding\<close>

definition rp0 :: opus_repacketizer where
  "rp0 = \<lparr>rp_toc = 0, rp_framesize = 0, rp_frames = [], rp_paddings = []\<rparr>"

text \<open>\<open>data\<close> is the packet; the result is the packet in a buffer of \<open>new_len\<close> bytes (unchanged if it fits exactly).\<close>

definition opus_packet_pad_impl :: "u8 list \<Rightarrow> int \<Rightarrow> bool \<Rightarrow> opus_extension_data list \<Rightarrow> opus_error + (int \<times> u8 list)" where
  "opus_packet_pad_impl d new_len pad extensions =
     (if length d < 1 then Inl OPUS_BAD_ARG
      else if int (length d) = new_len then Inr (0, d)
      else if int (length d) > new_len then Inl OPUS_BAD_ARG
      else case opus_repacketizer_cat (opus_repacketizer_init rp0) d of
             (Inl e, rp) \<Rightarrow> Inl e
           | (Inr _, rp) \<Rightarrow>
               opus_repacketizer_out_range_impl rp 0 (length (rp_frames rp)) new_len False pad extensions)"

definition opus_packet_pad :: "u8 list \<Rightarrow> int \<Rightarrow> opus_error + u8 list" where
  "opus_packet_pad d new_len = ebind (opus_packet_pad_impl d new_len True []) (\<lambda>(ret, out). Inr out)"

definition drop_paddings :: "opus_repacketizer \<Rightarrow> opus_repacketizer" where
  "drop_paddings rp = rp\<lparr>rp_paddings := replicate (length (rp_frames rp)) []\<rparr>"

definition opus_packet_unpad :: "u8 list \<Rightarrow> opus_error + (int \<times> u8 list)" where
  "opus_packet_unpad d =
     (if length d < 1 then Inl OPUS_BAD_ARG
      else case opus_repacketizer_cat (opus_repacketizer_init rp0) d of
             (Inl e, rp) \<Rightarrow> Inl e
           | (Inr _, rp) \<Rightarrow> opus_repacketizer_out_range_impl (drop_paddings rp) 0 (length (rp_frames rp))
               (int (length d)) False False [])"

text \<open>The streams of a multistream packet: all but the last are self-delimited.\<close>

fun seek_last :: "nat \<Rightarrow> u8 list \<Rightarrow> opus_error + u8 list" where
  "seek_last 0 d = Inr d"
| "seek_last (Suc n) d =
     (if length d = 0 then Inl OPUS_INVALID_PACKET
      else ebind (opus_packet_parse_impl d True) (\<lambda>p. seek_last n (drop (op_packet_offset p) d)))"

definition opus_multistream_packet_pad :: "u8 list \<Rightarrow> int \<Rightarrow> nat \<Rightarrow> opus_error + u8 list" where
  "opus_multistream_packet_pad d new_len nb_streams =
     (if length d < 1 then Inl OPUS_BAD_ARG
      else if int (length d) = new_len then Inr d
      else if int (length d) > new_len then Inl OPUS_BAD_ARG
      else let amount = new_len - int (length d)
        in ebind (seek_last (nb_streams - 1) d) (\<lambda>d'.
             ebind (opus_packet_pad d' (int (length d') + amount)) (\<lambda>out.
               Inr (take (length d - length d') d @ out))))"

fun unpad_streams :: "nat \<Rightarrow> u8 list \<Rightarrow> opus_error + u8 list" where
  "unpad_streams 0 d = Inr []"
| "unpad_streams (Suc n) d =
     (if length d = 0 then Inl OPUS_INVALID_PACKET
      else let sd = (n \<noteq> 0) in
        ebind (opus_packet_parse_impl d sd) (\<lambda>p.
          case opus_repacketizer_cat_impl (opus_repacketizer_init rp0) (take (op_packet_offset p) d) sd of
            (Inl e, rp) \<Rightarrow> Inl e
          | (Inr _, rp) \<Rightarrow>
              ebind (opus_repacketizer_out_range_impl (drop_paddings rp) 0 (length (rp_frames rp))
                  (int (length d)) sd False []) (\<lambda>(ret, out).
                ebind (unpad_streams n (drop (op_packet_offset p) d)) (\<lambda>rest. Inr (out @ rest)))))"

definition opus_multistream_packet_unpad :: "u8 list \<Rightarrow> nat \<Rightarrow> opus_error + u8 list" where
  "opus_multistream_packet_unpad d nb_streams = (if length d < 1 then Inl OPUS_BAD_ARG else unpad_streams nb_streams d)"

section \<open>The parser on what was written\<close>

lemma and_shift: "(x :: int) AND (m * 2 ^ n) = (x div 2 ^ n AND m) * 2 ^ n"
proof -
  have "x AND push_bit n m = push_bit n (drop_bit n x AND m)" by (rule bit_eqI) (auto simp: bit_simps)
  then show ?thesis by (simp add: push_bit_eq_mult drop_bit_eq_div)
qed

lemma samples_config:
  assumes "toc div 8 = toc' div 8"
  shows "opus_packet_get_samples_per_frame toc fs = opus_packet_get_samples_per_frame toc' fs"
proof -
  have "t AND 128 = (t div 8 AND 16) * 8" "t AND 96 = (t div 8 AND 12) * 8" "t AND 8 = (t div 8 AND 1) * 8" for t :: int
    using and_shift [of t 16 3] and_shift [of t 12 3] and_shift [of t 1 3] by simp_all
  then show ?thesis using assms by (simp add: opus_packet_get_samples_per_frame_def)
qed

text \<open>The first byte: the configuration of \<open>toc\<close> with the code of the framing.\<close>

lemma toc_byte:
  assumes "0 \<le> toc" and "toc < 256" and "0 \<le> k" and "k < 4"
  defines "t \<equiv> uint (word_of_int ((toc AND 0xFC) OR k) :: u8)"
  shows "t AND 3 = k" and "t div 8 = toc div 8" and "t AND 0xFC = toc AND 0xFC" and "t = toc div 4 * 4 + k"
proof -
  have fc: "x AND 0xFC = x div 4 * 4" if "0 \<le> x" "x < 256" for x :: int
  proof -
    have "x div 4 < 2 ^ 6" using that(2) by simp
    then have "x div 4 AND 63 = x div 4" using that(1) by (simp add: and_63)
    then show ?thesis using and_shift [of x 63 2] by simp
  qed
  have "(toc AND 0xFC) OR k = toc div 4 * 4 + k"
  proof -
    have "push_bit 2 (toc div 4) AND take_bit 2 k = 0" by (rule bit_eqI) (auto simp: bit_simps)
    from disjunctive_add_eq_or [OF this] show ?thesis
      using assms(3,4) fc [OF assms(1,2)] by (simp add: push_bit_eq_mult take_bit_int_eq_self)
  qed
  moreover have "0 \<le> toc div 4" "toc div 4 < 64" using assms(1,2) by simp_all
  then have b: "0 \<le> toc div 4 * 4 + k" "toc div 4 * 4 + k < 256" using assms(3,4) by linarith+
  ultimately show t: "t = toc div 4 * 4 + k" by (simp add: t_def uint_u8_of_int del: of_int_add)
  show "t AND 3 = k" using assms(3,4) by (simp add: t and_3)
  show "t AND 0xFC = toc AND 0xFC" using fc b fc [OF assms(1,2)] assms(3,4) by (simp add: t)
  have "(toc div 4 * 4 + k) div 4 = toc div 4" using assms(3,4) by simp
  then have "(toc div 4 * 4 + k) div 4 div 2 = toc div 4 div 2" by simp
  then show "t div 8 = toc div 8" by (simp add: t flip: zdiv_zmult2_eq)
qed

lemma encode_size_length: "int (length (encode_size n)) = 1 + (if n \<ge> 252 then 1 else 0)"
  by (simp add: encode_size_def Let_def)

lemma drop_cons_nth: "drop pos d = x # r \<Longrightarrow> pos < length d \<and> d ! pos = x \<and> drop (Suc pos) d = r"
  by (metis drop_eq_Nil drop_Suc hd_drop_conv_nth list.distinct(1) list.sel(1,3) not_le tl_drop)

lemma parse_encode_size:
  assumes "drop pos d = encode_size n @ r" and "0 \<le> n" and "n \<le> 1275" and "int (length (encode_size n)) \<le> len"
  shows "parse_size d pos len = Inr (int (length (encode_size n)), n)"
proof (cases "n < 252")
  case True
  then have "drop pos d = word_of_int n # r" using assms(1) by (simp add: encode_size_def)
  moreover have "uint (word_of_int n :: u8) = n" using True assms(2) by (intro uint_u8_of_int) simp_all
  ultimately show ?thesis using True assms(4) drop_cons_nth [of pos d "word_of_int n" r]
    by (simp add: parse_size_def encode_size_def)
next
  case False
  let ?d0 = "252 + n mod 4" and ?d1 = "n div 4 - 63"
  have m: "0 \<le> n mod 4" "n mod 4 < 4" by simp_all
  then have d0: "uint (word_of_int ?d0 :: u8) = ?d0" by (intro uint_u8_of_int) simp_all
  have "a - (252 + m) = (q - 63) * 4" if "q * 4 + m = a" for a m q :: int using that by simp
  from this [OF div_mult_mod_eq [of n 4]] have "n - ?d0 = ?d1 * 4" .
  then have q: "(n - ?d0) div 4 = ?d1" "4 * ?d1 + ?d0 = n" by simp_all
  have nq: "63 \<le> n div 4" "n div 4 \<le> 318" using False assms(3) by simp_all
  have d1: "uint (word_of_int ?d1 :: u8) = ?d1" using nq by (intro uint_u8_of_int) simp_all
  have e: "encode_size n = [word_of_int ?d0, word_of_int ?d1]"
    using False by (simp add: encode_size_def Let_def and_3 d0 q del: of_int_add of_int_diff)
  with assms(1) have "drop pos d = word_of_int ?d0 # word_of_int ?d1 # r" by simp
  from drop_cons_nth [OF this] have "pos < length d" "d ! pos = word_of_int ?d0"
    "drop (Suc pos) d = word_of_int ?d1 # r" by simp_all
  moreover from drop_cons_nth [OF this(3)] have "Suc pos < length d" "d ! Suc pos = word_of_int ?d1" by simp_all
  ultimately show ?thesis using d0 d1 assms(4) m q(2)
    by (simp add: parse_size_def e del: of_int_add of_int_diff)
qed

text \<open>The bytes of the explicit sizes.\<close>

abbreviation sizes_length :: "int list \<Rightarrow> int" where
  "sizes_length ns \<equiv> sum_list (map (\<lambda>n. int (length (encode_size n))) ns)"

lemma sizes_length_nonneg: "0 \<le> sizes_length ns"
  by (induction ns) simp_all

lemma length_sizes: "int (length (concat (map encode_size ns))) = sizes_length ns"
  by (induction ns) simp_all

lemma drop_append_len: "drop pos d = xs @ r \<Longrightarrow> drop (pos + length xs) d = r"
  by (metis add.commute append_eq_conv_conj drop_drop)

lemma vbr_sizes_written:
  assumes "drop pos d = concat (map encode_size ns) @ r" and "sizes_ok ns"
    and "sizes_length ns + sum_list ns \<le> len"
  shows "vbr_sizes d (length ns) pos len x
    = Inr (ns, pos + length (concat (map encode_size ns)), len - sizes_length ns, x - sizes_length ns - sum_list ns)"
  using assms
proof (induction ns arbitrary: pos len x)
  case (Cons n ns)
  let ?k = "int (length (encode_size n))"
  have nn: "0 \<le> sizes_length ns" "0 \<le> sum_list ns" "0 \<le> n" "n \<le> 1275"
    using Cons.prems(2) sizes_length_nonneg sizes_ok_sum by auto
  have dr: "drop pos d = encode_size n @ (concat (map encode_size ns) @ r)" using Cons.prems(1) by simp
  have "?k \<le> len" "\<not> n > len - ?k" using Cons.prems(3) nn by simp_all
  moreover from parse_encode_size [OF dr nn(3,4)] this(1)
  have "parse_size d pos len = Inr (?k, n)" by simp
  moreover have "vbr_sizes d (length ns) (pos + length (encode_size n)) (len - ?k) (x - (?k + n))
    = Inr (ns, pos + length (encode_size n) + length (concat (map encode_size ns)), len - ?k - sizes_length ns,
        x - (?k + n) - sizes_length ns - sum_list ns)"
    using Cons.prems nn by (intro Cons.IH drop_append_len [OF dr]) simp_all
  ultimately show ?case using nn by (simp add: Let_def algebra_simps)
qed simp

lemma padding_size_written:
  assumes "drop pos d = replicate k 255 @ word_of_int m # r" and "0 \<le> m" and "m < 255" and "255 * int k + 1 \<le> len"
  shows "padding_size d pos len pad = Inr (pos + k + 1, len - 255 * int k - 1 - m, pad + 254 * int k + m)"
  using assms(1,4)
proof (induction k arbitrary: pos len pad)
  case 0
  then have "drop pos d = word_of_int m # r" by simp
  moreover have "uint (word_of_int m :: u8) = m" using assms(2,3) by (intro uint_u8_of_int) simp_all
  ultimately show ?case using 0(2) assms(3) drop_cons_nth [of pos d "word_of_int m" r]
    by (subst padding_size.simps) (simp add: Let_def)
next
  case (Suc k)
  then have "drop pos d = 255 # replicate k 255 @ word_of_int m # r" by simp
  from drop_cons_nth [OF this] have d: "pos < length d" "d ! pos = 255"
    "drop (pos + 1) d = replicate k 255 @ word_of_int m # r" by simp_all
  have "255 * int k + 1 \<le> len - 1 - 254" using Suc.prems(2) by simp
  moreover have "uint (d ! pos) = 255" by (simp add: d(2))
  ultimately show ?case using Suc.IH [OF d(3), of "len - 1 - 254" "pad + 254"] d(1) Suc.prems(2)
    by (subst padding_size.simps) (simp add: Let_def algebra_simps)
qed

lemma slices_written:
  "drop pos d = concat fs @ r \<Longrightarrow> slices d pos (map (int \<circ> length) fs) = fs"
proof (induction fs arbitrary: pos)
  case (Cons f fs)
  then have dr: "drop pos d = f @ (concat fs @ r)" by simp
  from Cons.IH [OF drop_append_len [OF dr]] show ?case by (simp add: dr)
qed simp

text \<open>The byte with the number of frames.\<close>

lemma count_byte:
  assumes "0 \<le> c" and "c < 64"
  defines "b vbr pad \<equiv> uint (word_of_int ((if vbr then c OR 0x80 else c) OR (if pad then 0x40 else 0)) :: u8)"
  shows "b vbr pad AND 63 = c" and "b vbr pad AND 128 \<noteq> 0 \<longleftrightarrow> vbr" and "b vbr pad AND 64 \<noteq> 0 \<longleftrightarrow> pad"
proof -
  have b: "b vbr pad = ((if vbr then c OR 0x80 else c) OR (if pad then 0x40 else 0)) AND 255"
    using take_bit_eq_mask [of 8 "(if vbr then c OR 0x80 else c) OR (if pad then 0x40 else 0)"]
    by (simp only: b_def unsigned_of_int) (simp add: mask_eq_exp_minus_1)
  have "c AND 63 = c" using assms(1,2) by (simp add: and_63)
  moreover have "c AND 128 = 0" "c AND 64 = 0" using and_shift [of c 1 7] and_shift [of c 1 6] assms(1,2) by simp_all
  ultimately show "b vbr pad AND 63 = c" "b vbr pad AND 128 \<noteq> 0 \<longleftrightarrow> vbr" "b vbr pad AND 64 \<noteq> 0 \<longleftrightarrow> pad"
    unfolding b by (simp_all add: and.assoc bit.conj_disj_distrib2)
qed

text \<open>The generator writes the same bytes into the space they need as into a larger one.\<close>

lemma put_extensions_grows:
  "put_extensions len nb cur w es data = Inr out \<Longrightarrow> length data \<le> length out"
proof (induction es arbitrary: cur w data)
  case (Cons e es)
  then obtain d1 d2 where "put_separator len (ext_frame e) cur data = Inr d1"
    "put_extension len (w + 1 = nb) e d1 = Inr d2" "put_extensions len nb (ext_frame e) (w + 1) es d2 = Inr out"
    by (auto simp: ebind_Inr)
  then show ?case using Cons.IH [of "ext_frame e" "w + 1" d2] put_separator_Inr put_extension_Inr by fastforce
qed simp

lemma put_extensions_exact:
  assumes "put_extensions len nb cur w es data = Inr out" and "int (length out) \<le> len'"
  shows "put_extensions len' nb cur w es data = Inr out"
  using assms
proof (induction es arbitrary: cur w data)
  case (Cons e es)
  then obtain d1 d2 where d1: "put_separator len (ext_frame e) cur data = Inr d1"
    and d2: "put_extension len (w + 1 = nb) e d1 = Inr d2"
    and d3: "put_extensions len nb (ext_frame e) (w + 1) es d2 = Inr out"
    by (auto simp: ebind_Inr)
  have out: "int (length d2) \<le> len'" using put_extensions_grows [OF d3] Cons.prems(2) by simp
  then have "put_extension len' (w + 1 = nb) e d1 = Inr d2"
    using d2 by (auto simp: put_extension_def Let_def split: if_splits)
  moreover have "int (length d1) + 1 \<le> len'"
    using put_extension_Inr [OF d2] out by (auto simp: ext_bytes_def Let_def split: if_splits)
  then have "put_separator len' (ext_frame e) cur data = Inr d1"
    using d1 by (auto simp: put_separator_def split: if_splits)
  ultimately show ?case using Cons.IH [OF d3 Cons.prems(2)] by simp
qed simp

lemma generate_exact:
  assumes "opus_packet_extensions_generate len exts False = Inr out"
  shows "opus_packet_extensions_generate (int (length out)) exts False = Inr out"
  using assms put_extensions_exact [of len "length exts" 0 0 _ "[]" out "int (length out)"]
  by (auto simp: opus_packet_extensions_generate_def Let_def ebind_Inr split: if_splits)

lemma put_extensions_length:
  "put_extensions len nb cur w es data = Inr out \<Longrightarrow> int (length data) \<le> len \<Longrightarrow> int (length out) \<le> len"
proof (induction es arbitrary: cur w data)
  case (Cons e es)
  then obtain d1 d2 where "put_extension len (w + 1 = nb) e d1 = Inr d2"
    "put_extensions len nb (ext_frame e) (w + 1) es d2 = Inr out"
    by (auto simp: ebind_Inr)
  then show ?case using Cons.IH [of "ext_frame e" "w + 1" d2] put_extension_Inr by blast
qed simp

lemma generate_length:
  "opus_packet_extensions_generate len exts False = Inr out \<Longrightarrow> 0 \<le> len \<Longrightarrow> int (length out) \<le> len"
  using put_extensions_length [of len "length exts" 0 0 _ "[]" out]
  by (auto simp: opus_packet_extensions_generate_def Let_def ebind_Inr split: if_splits)

text \<open>The size without padding, and the bytes of the explicit sizes.\<close>

abbreviation frame_sizes :: "u8 list list \<Rightarrow> int list" where
  "frame_sizes fs \<equiv> map (int \<circ> length) fs"

abbreviation vbr_frames :: "u8 list list \<Rightarrow> bool" where
  "vbr_frames fs \<equiv> \<exists>n \<in> set (tl (frame_sizes fs)). n \<noteq> frame_sizes fs ! 0"

lemma code_3_size:
  assumes "fs \<noteq> []"
  defines "l \<equiv> frame_sizes fs" and "vbr \<equiv> vbr_frames fs"
  shows "(if vbr then 2 + sum_list (map (\<lambda>f. 1 + long_size f + int (length f)) (butlast fs)) + int (length (last fs))
      else int (length fs) * l ! 0 + 2)
    = 2 + (if vbr then sizes_length (butlast l) else 0) + sum_list l"
proof (cases vbr)
  case True
  have gs: "sum_list (map (\<lambda>f. 1 + long_size f + int (length f)) gs)
      = sizes_length (map (int \<circ> length) gs) + sum_list (map (int \<circ> length) gs)" for gs
    by (induction gs) (simp_all add: encode_size_length long_size_def)
  have "sum_list l = sum_list (map (int \<circ> length) (butlast fs)) + int (length (last fs))"
    using assms(1) by (cases fs rule: rev_cases) (simp_all add: l_def)
  with gs [of "butlast fs"] show ?thesis
    using True length_sizes [of "butlast l"] by (simp add: l_def map_butlast)
next
  case False
  then have "\<forall>n \<in> set l. n = l ! 0" using assms(1) by (cases fs) (auto simp: vbr_def l_def)
  then have "l = replicate (length fs) (l ! 0)" by (metis l_def length_map replicate_length_same)
  then have "sum_list l = int (length fs) * l ! 0" by (metis sum_list_replicate)
  with False show ?thesis by simp
qed

text \<open>The amount of padding and the number of its bytes of 255.\<close>

lemma pad_amount_bounds:
  fixes ext_len T maxlen pa nb :: int
  assumes "0 \<le> ext_len" and "exts = [] \<Longrightarrow> ext_len = 0" and "T \<le> maxlen"
    and "pa = (if exts \<noteq> [] \<and> \<not> pad then ext_len + ext_len div 254 + 1 else if pad then maxlen - T else 0)"
    and "pa \<noteq> 0" and "nb = (pa - 1) div 255" and "T + ext_len + nb + 1 \<le> maxlen"
  shows "0 < pa" and "ext_len + nb + 1 \<le> pa" and "T + pa \<le> maxlen" and "pad \<Longrightarrow> T + pa = maxlen"
    and "0 \<le> nb" and "255 * nb \<le> pa - 1" and "pa - 1 < 255 * nb + 255"
proof -
  have "(q * 254 + m + q) div 255 = q" if "0 \<le> m" "m < 254" for q m :: int
    using that int_div_pos_eq [of "q * 254 + m + q" 255 q m] by simp
  from this [of "ext_len mod 254" "ext_len div 254"]
  have q: "ext_len div 254 = (ext_len + ext_len div 254) div 255" by simp
  have "0 \<le> ext_len div 254" using assms(1) by simp
  with assms have "0 < pa \<and> ext_len + nb + 1 \<le> pa \<and> T + pa \<le> maxlen \<and> (pad \<longrightarrow> T + pa = maxlen)"
    by (cases pad) (auto simp: q [symmetric] split: if_split_asm)
  then show "0 < pa" "ext_len + nb + 1 \<le> pa" "T + pa \<le> maxlen" "pad \<Longrightarrow> T + pa = maxlen" by blast+
  then show "0 \<le> nb" "255 * nb \<le> pa - 1" "pa - 1 < 255 * nb + 255" unfolding assms(6) by simp_all
qed

text \<open>What the code 3 branch writes: the padding behind the frames has the announced length.\<close>

lemma out_code_3_Inr:
  assumes "out_code_3 toc fs maxlen 0 pad exts = Inr (tot, header, trailer)" and "fs \<noteq> []"
  defines "l \<equiv> map (int \<circ> length) fs"
  defines "vbr \<equiv> \<exists>n \<in> set (tl l). n \<noteq> l ! 0"
  shows "\<exists>padded k m. 0 \<le> m \<and> m < 255 \<and> header = [word_of_int ((toc AND 0xFC) OR 0x3),
        word_of_int ((if vbr then int (length fs) OR 0x80 else int (length fs)) OR (if padded then 0x40 else 0))]
      @ (if padded then replicate k 255 @ [word_of_int m] else []) @ (if vbr then concat (map encode_size (butlast l)) else [])
    \<and> int (length trailer) = (if padded then 254 * int k + m else 0)
    \<and> tot = int (length header) + sum_list l + int (length trailer) \<and> tot \<le> maxlen \<and> (pad \<longrightarrow> tot = maxlen)
    \<and> (exts = [] \<and> \<not> pad \<longrightarrow> trailer = [])
    \<and> (exts \<noteq> [] \<longrightarrow> (\<exists>n g. trailer = replicate n 1 @ g \<and> opus_packet_extensions_generate (int (length g)) exts False = Inr g))"
proof -
  let ?tot = "if vbr then 2 + sum_list (map (\<lambda>f. 1 + long_size f + int (length f)) (butlast fs)) + int (length (last fs))
    else int (length fs) * l ! 0 + 2"
  let ?sizes = "if vbr then concat (map encode_size (butlast l)) else []"
  have tot: "?tot = 2 + int (length ?sizes) + sum_list l"
    using code_3_size [OF assms(2)] length_sizes [of "butlast l"]
    by (cases "vbr_frames fs") (simp_all add: l_def vbr_def)
  let ?toc_bytes = "\<lambda>p. [word_of_int ((toc AND 0xFC) OR 0x3),
    word_of_int ((if vbr then int (length fs) OR 0x80 else int (length fs)) OR (if p then 0x40 else 0))] :: u8 list"
  define E where "E = (if exts \<noteq> [] then map_sum id (int \<circ> length) (opus_packet_extensions_generate (maxlen - ?tot) exts False)
    else Inr 0)"
  define R where "R = (\<lambda>ext_len. let pad_amount = (if exts \<noteq> [] \<and> \<not> pad then ext_len + ext_len div 254 + 1
        else if pad then maxlen - ?tot else 0)
      in if pad_amount = 0 then Inr (?tot, ?toc_bytes (pad_amount \<noteq> 0) @ ?sizes, [])
         else let nb_255s = (pad_amount - 1) div 255 in
           if ?tot + ext_len + nb_255s + 1 > maxlen then Inl OPUS_BUFFER_TOO_SMALL
           else ebind (if ext_len > 0 then opus_packet_extensions_generate ext_len exts False else Inr [])
             (\<lambda>ext_data. Inr (?tot + pad_amount, ?toc_bytes (pad_amount \<noteq> 0) @ replicate (nat nb_255s) 255
                @ [word_of_int (pad_amount - 255 * nb_255s - 1)] @ ?sizes,
                replicate (nat (pad_amount - ext_len - nb_255s - 1)) 0x01 @ ext_data)))"
  have "out_code_3 toc fs maxlen 0 pad exts = (if ?tot > maxlen then Inl OPUS_BUFFER_TOO_SMALL else ebind E R)"
    by (simp only: out_code_3_def E_def R_def Let_def vbr_def l_def add_0)
  with assms(1) obtain ext_len where t: "?tot \<le> maxlen" and E: "E = Inr ext_len" and R: "R ext_len = Inr (tot, header, trailer)"
    by (auto simp: ebind_Inr split: if_splits)
  have g: "\<exists>g. opus_packet_extensions_generate (maxlen - ?tot) exts False = Inr g \<and> ext_len = int (length g)"
    if "exts \<noteq> []"
    using E that unfolding E_def
    by (cases "opus_packet_extensions_generate (maxlen - ?tot) exts False") (simp_all del: if_split)
  have "exts = [] \<Longrightarrow> ext_len = 0" using E by (simp add: E_def)
  with g have e0: "0 \<le> ext_len" "exts = [] \<Longrightarrow> ext_len = 0" by fastforce+
  define pa where "pa = (if exts \<noteq> [] \<and> \<not> pad then ext_len + ext_len div 254 + 1 else if pad then maxlen - ?tot else 0)"
  define nb where "nb = (pa - 1) div 255"
  show ?thesis
  proof (cases "pa = 0")
    case True
    then have "tot = ?tot \<and> header = ?toc_bytes False @ ?sizes \<and> trailer = []"
      using R unfolding R_def Let_def pa_def by simp
    moreover have "opus_packet_extensions_generate 0 exts False = Inr []" if "exts \<noteq> []"
    proof -
      have "0 \<le> ext_len div 254" using e0 by simp
      then have "pad" "maxlen - ?tot = 0" using that True e0 by (auto simp: pa_def split: if_splits)
      with g [OF that] obtain g where "opus_packet_extensions_generate 0 exts False = Inr g" by (auto simp del: if_split)
      then show ?thesis using generate_length [of 0 exts g] by simp
    qed
    ultimately show ?thesis using t tot True e0
      by (intro exI [of _ False] exI [of _ 0]) (auto simp: pa_def split: if_splits)
  next
    case False
    obtain ext_data where fits: "?tot + ext_len + nb + 1 \<le> maxlen"
      and gen: "(if ext_len > 0 then opus_packet_extensions_generate ext_len exts False else Inr []) = Inr ext_data"
      and res: "tot = ?tot + pa" "header = ?toc_bytes True @ replicate (nat nb) 255 @ [word_of_int (pa - 255 * nb - 1)] @ ?sizes"
        "trailer = replicate (nat (pa - ext_len - nb - 1)) 0x01 @ ext_data"
      using R False unfolding R_def Let_def pa_def [symmetric] nb_def [symmetric]
      by (auto simp: ebind_Inr not_less split: if_split_asm)
    have len: "int (length ext_data) = ext_len"
    proof (cases "ext_len > 0")
      case True
      then obtain g where "opus_packet_extensions_generate (maxlen - ?tot) exts False = Inr g" "ext_len = int (length g)"
        using g e0 by (cases "exts = []") auto
      with generate_exact [of "maxlen - ?tot" exts g] gen True show ?thesis by simp
    qed (use gen e0 in simp)
    note bounds = pad_amount_bounds [OF e0 t pa_def False nb_def fits]
    note pa = bounds(1-4) and nb = bounds(5-7)
    have "opus_packet_extensions_generate (int (length ext_data)) exts False = Inr ext_data" if "exts \<noteq> []"
    proof (cases "ext_len > 0")
      case False
      with g [OF that] e0 generate_exact [of "maxlen - ?tot" exts "[]"] len show ?thesis by auto
    qed (use gen len in simp)
    moreover have "trailer = []" if "exts = []" "\<not> pad" using False that by (simp add: pa_def)
    ultimately show ?thesis
      by (intro exI [of _ True] exI [of _ "nat nb"] exI [of _ "pa - 255 * nb - 1"])
        (use pa nb res len tot e0 in \<open>auto simp: length_sizes\<close>)
  qed
qed

text \<open>What the parser makes of the written packets.\<close>

definition parsed_as :: "u8 list \<Rightarrow> int \<Rightarrow> nat \<Rightarrow> u8 list list \<Rightarrow> int \<Rightarrow> bool" where
  "parsed_as d toc offset fs pad = (\<exists>t. t AND 0xFC = toc AND 0xFC \<and> opus_packet_parse_impl d False
     = Inr \<lparr>op_toc = t, op_payload_offset = offset, op_sizes = map (int \<circ> length) fs, op_pad = pad\<rparr>)"

definition frames_ok :: "int \<Rightarrow> u8 list list \<Rightarrow> bool" where
  "frames_ok toc fs = (0 \<le> toc \<and> toc < 256 \<and> fs \<noteq> [] \<and> (\<forall>f \<in> set fs. length f \<le> 1275)
     \<and> opus_packet_get_samples_per_frame toc 48000 * int (length fs) \<le> 5760)"

lemma frames_ok_sizes: "frames_ok toc fs \<Longrightarrow> sizes_ok (map (int \<circ> length) fs)"
  by (auto simp: frames_ok_def sizes_ok_def)

lemma parse_short:
  assumes "out_short toc fs maxlen 0 = Inr (tot, header)" and "frames_ok toc fs" and "length fs \<le> 2"
  shows "int (length (header @ concat fs)) = tot \<and> tot \<le> maxlen \<and> parsed_as (header @ concat fs) toc (length header) fs 0"
proof -
  have toc: "0 \<le> toc" "toc < 256" and fs: "fs \<noteq> []" "\<forall>f \<in> set fs. length f \<le> 1275"
    using assms(2) by (simp_all add: frames_ok_def)
  then consider f where "fs = [f]" | f g where "fs = [f, g]" "length f = length g" | f g where "fs = [f, g]" "length f \<noteq> length g"
    using assms(3) by (cases fs; cases "tl fs") (auto simp: le_Suc_eq)
  then show ?thesis
  proof cases
    case 1
    then have "tot = int (length f) + 1" "tot \<le> maxlen" "header = [word_of_int (toc AND 0xFC)]"
      using assms(1) by (auto simp: out_short_def Let_def split: if_splits)
    moreover note toc_byte [OF toc, of 0]
    ultimately show ?thesis using fs 1
      by (auto simp: parsed_as_def opus_packet_parse_impl_def parse_body_def parse_last_def s16_id)
  next
    case 2
    then have "tot = 2 * int (length f) + 1" "tot \<le> maxlen" "header = [word_of_int ((toc AND 0xFC) OR 1)]"
      using assms(1) by (auto simp: out_short_def Let_def split: if_splits)
    moreover note toc_byte [OF toc, of 1]
    ultimately show ?thesis using fs 2
      by (auto simp: parsed_as_def opus_packet_parse_impl_def parse_body_def parse_last_def s16_id and_1)
  next
    case 3
    let ?n = "int (length f)"
    have h: "tot = ?n + int (length g) + 2 + long_size f" "tot \<le> maxlen"
      "header = word_of_int ((toc AND 0xFC) OR 2) # encode_size ?n"
      using assms(1) 3 by (auto simp: out_short_def Let_def split: if_splits)
    note t = toc_byte [OF toc, of 2]
    let ?d = "header @ concat fs"
    have n: "?n \<le> 1275" "int (length g) \<le> 1275" using fs 3 by simp_all
    have "drop 1 ?d = encode_size ?n @ (f @ g)" using h 3 by simp
    from parse_encode_size [OF this, of "int (length ?d) - 1"] n h 3
    have "parse_size ?d 1 (int (length ?d) - 1) = Inr (int (length (encode_size ?n)), ?n)" by simp
    with t h n 3 encode_size_length [of ?n] show ?thesis
      by (auto simp: parsed_as_def opus_packet_parse_impl_def parse_body_def parse_last_def s16_id Let_def long_size_def)
  qed
qed

lemma cbr_sizes:
  assumes "fs \<noteq> []" and "\<not> (\<exists>n \<in> set (tl (map (int \<circ> length) fs)). n \<noteq> map (int \<circ> length) fs ! 0)"
  shows "map (int \<circ> length) fs = replicate (length fs) (int (length (hd fs)))"
  using assms by (cases fs) (auto simp: replicate_length_same [symmetric] intro!: nth_equalityI)

text \<open>The parser of code 3 packets past their padding, and the body it finds.\<close>

lemma parse_code_3_eq:
  assumes "byte d 1 = Inr ch" and "1 \<le> len" and "0 < ch AND 63" and "framesize * (ch AND 63) \<le> 5760"
    and "(if ch AND 64 \<noteq> 0 then padding_size d 2 (len - 1) 0 else Inr (2, len - 1, 0)) = Inr (pos, L, pad)" and "0 \<le> L"
  shows "parse_code_3 d False framesize 1 len =
    (if ch AND 128 \<noteq> 0
     then ebind (vbr_sizes d (nat (ch AND 63) - 1) pos L L) (\<lambda>(sizes, pos, len, last_size).
            if last_size < 0 then Inl OPUS_INVALID_PACKET
            else Inr \<lparr>ob_count = nat (ch AND 63), ob_cbr = False, ob_pos = pos, ob_len = len,
                      ob_last = last_size, ob_sizes = sizes, ob_pad = pad\<rparr>)
     else if L div (ch AND 63) * (ch AND 63) \<noteq> L then Inl OPUS_INVALID_PACKET
     else Inr \<lparr>ob_count = nat (ch AND 63), ob_cbr = True, ob_pos = pos, ob_len = L, ob_last = L div (ch AND 63),
               ob_sizes = replicate (nat (ch AND 63) - 1) (s16 (L div (ch AND 63))), ob_pad = pad\<rparr>)"
  using assms by (cases "ch AND 64 = 0"; cases "ch AND 128 = 0"; auto simp: parse_code_3_def Let_def simp del: One_nat_def)

lemma parse_last_written:
  assumes "sizes_ok l" and "l \<noteq> []"
  shows "parse_last d False \<lparr>ob_count = c, ob_cbr = b, ob_pos = pos, ob_len = n, ob_last = last l, ob_sizes = butlast l, ob_pad = pad\<rparr>
    = Inr (l, pos)"
proof -
  from assms have "0 \<le> last l" "last l \<le> 1275" by (simp_all add: sizes_ok_def)
  with assms(2) show ?thesis by (simp add: parse_last_def s16_id)
qed

lemma sizes_last:
  "l \<noteq> [] \<Longrightarrow> sizes_ok l \<Longrightarrow> sum_list l = sum_list (butlast l) + last l \<and> sizes_ok (butlast l) \<and> 0 \<le> last l"
  by (cases l rule: rev_cases) simp_all

lemma parse_code_3_written:
  assumes "out_code_3 toc fs maxlen 0 pad exts = Inr (tot, header, trailer)" and "frames_ok toc fs"
    and "length tr = length trailer"
  shows "int (length (header @ concat fs @ tr)) = tot \<and> tot \<le> maxlen \<and> (pad \<longrightarrow> tot = maxlen)
    \<and> parsed_as (header @ concat fs @ tr) toc (length header) fs (int (length tr))"
proof -
  let ?l = "map (int \<circ> length) fs"
  let ?c = "int (length fs)"
  define vbr where "vbr = (\<exists>n \<in> set (tl ?l). n \<noteq> ?l ! 0)"
  have toc: "0 \<le> toc" "toc < 256" and fs: "fs \<noteq> []" and samples: "opus_packet_get_samples_per_frame toc 48000 * ?c \<le> 5760"
    using assms(2) by (simp_all add: frames_ok_def)
  note sz = frames_ok_sizes [OF assms(2)]
  obtain padded k m where m: "0 \<le> m" "m < 255"
    and h: "header = [word_of_int ((toc AND 0xFC) OR 0x3), word_of_int ((if vbr then ?c OR 0x80 else ?c) OR (if padded then 0x40 else 0))]
      @ (if padded then replicate k 255 @ [word_of_int m] else []) @ (if vbr then concat (map encode_size (butlast ?l)) else [])"
    and tl: "int (length trailer) = (if padded then 254 * int k + m else 0)"
    and tot: "tot = int (length header) + sum_list ?l + int (length trailer)" "tot \<le> maxlen" "pad \<longrightarrow> tot = maxlen"
    using out_code_3_Inr [OF assms(1) fs] unfolding vbr_def [symmetric] by (elim exE conjE) (rule that; assumption)
  let ?d = "header @ concat fs @ tr"
  let ?len = "int (length ?d)"
  have "int (length (concat fs)) = sum_list ?l" by (induction fs) simp_all
  then have d: "?len = tot" using tot(1) assms(3) by simp
  have "120 * ?c \<le> 5760"
    using mult_right_mono [OF samples_bounds(1) [OF toc(1)], of ?c] samples by linarith
  then have c: "0 < ?c" "?c < 64" using fs by simp_all
  note t = toc_byte [OF toc, of 3, simplified]
  define t where "t = uint (word_of_int ((toc AND 0xFC) OR 3) :: u8)"
  have spf: "opus_packet_get_samples_per_frame t 48000 = opus_packet_get_samples_per_frame toc 48000"
    using t(2) by (intro samples_config) (simp add: t_def)
  define P where "P = (if padded then replicate k 255 @ [word_of_int m :: u8] else [])"
  define S where "S = (if vbr then concat (map encode_size (butlast ?l)) else [])"
  define L where "L = int (length S) + sum_list ?l"
  define ch where "ch = uint (word_of_int ((if vbr then ?c OR 0x80 else ?c) OR (if padded then 0x40 else 0)) :: u8)"
  have cb: "ch AND 63 = ?c" "ch AND 128 \<noteq> 0 \<longleftrightarrow> vbr" "ch AND 64 \<noteq> 0 \<longleftrightarrow> padded"
    using count_byte [of ?c vbr padded] c by (simp_all add: ch_def)
  have hd: "header = [word_of_int ((toc AND 0xFC) OR 3), word_of_int ((if vbr then ?c OR 0x80 else ?c) OR (if padded then 0x40 else 0))]
      @ P @ S" unfolding h P_def S_def ..
  have lens: "?len = 2 + int (length P) + L + int (length tr)" using d tot(1) assms(3) by (simp add: hd L_def)
  have bytes: "byte ?d 0 = Inr t" "byte ?d 1 = Inr ch" by (simp_all add: hd t_def ch_def)
  have pad: "(if ch AND 0x40 \<noteq> 0 then padding_size ?d 2 (?len - 2) 0 else Inr (2, ?len - 2, 0))
      = Inr (2 + length P, L, int (length tr))"
  proof (cases padded)
    case True
    have "drop 2 ?d = replicate k 255 @ word_of_int m # (S @ concat fs @ tr)" using True by (simp add: hd P_def)
    moreover have "0 \<le> L" using sz sizes_ok_sum by (simp add: L_def)
    then have "255 * int k + 1 \<le> ?len - 2" using lens tl assms(3) True m by (simp add: P_def)
    ultimately show ?thesis using padding_size_written [of 2 ?d k m _ "?len - 2" 0] m cb(3) lens tl assms(3) True
      by (simp add: P_def)
  next
    case False
    then show ?thesis using cb(3) lens tl assms(3) by (simp add: P_def)
  qed
  have L: "0 \<le> L" using sz sizes_ok_sum by (simp add: L_def)
  have lne: "?l \<noteq> []" using fs by simp
  have len: "1 \<le> ?len - 1" using lens L by simp
  have cnt: "0 < ch AND 63" "opus_packet_get_samples_per_frame t 48000 * (ch AND 63) \<le> 5760"
    using c samples by (simp_all add: cb spf)
  have "(if ch AND 64 \<noteq> 0 then padding_size ?d 2 (?len - 1 - 1) 0 else Inr (2, ?len - 1 - 1, 0))
    = Inr (2 + length P, L, int (length tr))" using pad by (simp only: diff_diff_eq one_add_one)
  note eq0 = parse_code_3_eq [OF bytes(2) len cnt this L, unfolded cb nat_int]
  have eq: "parse_code_3 ?d False (opus_packet_get_samples_per_frame t 48000) 1 (?len - 1)
    = Inr \<lparr>ob_count = length fs, ob_cbr = \<not> vbr, ob_pos = length header, ob_len = sum_list ?l, ob_last = last ?l,
           ob_sizes = butlast ?l, ob_pad = int (length tr)\<rparr>"
  proof (cases vbr)
    case True
    have dr: "drop (2 + length P) ?d = concat (map encode_size (butlast ?l)) @ (concat fs @ tr)"
      using True by (simp add: hd S_def)
    have l: "sum_list ?l = sum_list (butlast ?l) + last ?l" "sizes_ok (butlast ?l)" "0 \<le> last ?l"
      using sizes_last [OF lne sz] by blast+
    have S: "int (length S) = sizes_length (butlast ?l)" "length S = length (concat (map encode_size (butlast ?l)))"
      using True length_sizes [of "butlast ?l"] by (simp_all add: S_def)
    have "length (butlast ?l) = length fs - 1" by simp
    with vbr_sizes_written [OF dr l(2), of L L] l S
    have "vbr_sizes ?d (length fs - 1) (2 + length P) L L = Inr (butlast ?l, length header, sum_list ?l, last ?l)"
      by (simp add: L_def hd)
    with l(3) True show ?thesis unfolding eq0 by simp
  next
    case False
    define n where "n = int (length (List.hd fs))"
    have l: "?l = replicate (length fs) n" using cbr_sizes [OF fs] False by (simp add: vbr_def n_def)
    then have Ln: "L = n * ?c" using False by (simp add: L_def S_def sum_list_replicate)
    have "0 \<le> n" "n \<le> 1275" using sz fs l by (simp_all add: sizes_ok_def n_def)
    then have "L div ?c = n" "L div ?c * ?c = L" "s16 n = n" using c by (simp_all add: Ln s16_id)
    moreover have "last ?l = n" "butlast ?l = replicate (length fs - 1) n" "sum_list ?l = L" "length header = 2 + length P"
      using fs False by (simp_all add: l butlast_conv_take take_replicate Ln hd S_def sum_list_replicate)
    ultimately show ?thesis using False unfolding eq0 by simp
  qed
  have "header \<noteq> []" by (simp add: hd)
  then have "opus_packet_parse_impl ?d False
      = Inr \<lparr>op_toc = t, op_payload_offset = length header, op_sizes = ?l, op_pad = int (length tr)\<rparr>"
    using bytes(1) eq parse_last_written [OF sz lne] t by (simp add: opus_packet_parse_impl_def parse_body_def t_def)
  then show ?thesis using d tot t by (auto simp: parsed_as_def t_def)
qed

lemma sum_frame_sizes: "sum_list (frame_sizes fs) = int (length (concat fs))"
  by (induction fs) simp_all

lemma parsed_as_packet:
  assumes "parsed_as d toc (length h) fs (int (length r))" and "d = h @ concat fs @ r"
  shows "\<exists>p. opus_packet_parse d = Inr p \<and> op_toc p AND 0xFC = toc AND 0xFC \<and> op_frames d p = fs
    \<and> op_pad p = int (length r) \<and> op_padding d p = r"
proof -
  have "slices d (length h) (frame_sizes fs) = fs" by (rule slices_written [where r = r]) (simp add: assms(2))
  then show ?thesis using assms(1)
    by (auto simp: parsed_as_def opus_packet_parse_def op_frames_def op_padding_def op_padding_offset_def sum_frame_sizes
        assms(2) simp del: length_concat)
qed

text \<open>The extensions gathered have frames from zero on, and none come from empty paddings.\<close>

lemma collect_frames:
  "collect_extensions room i ds exts = Inr es \<Longrightarrow> 0 \<le> i \<Longrightarrow> \<forall>e \<in> set exts. 0 \<le> ext_frame e
    \<Longrightarrow> \<forall>e \<in> set es. 0 \<le> ext_frame e"
proof (induction ds arbitrary: i exts)
  case (Cons d ds)
  then obtain fs where f: "opus_packet_extensions_parse d (room - int (length exts)) = Inr fs"
    and c: "collect_extensions room (i + 1) ds (exts @ map (\<lambda>e. e\<lparr>ext_frame := ext_frame e + i\<rparr>) fs) = Inr es"
    by (auto split: sum.splits)
  have "\<forall>e \<in> set fs. 0 \<le> ext_frame e" using extensions_from_frames [OF f [unfolded opus_packet_extensions_parse_def]] by simp
  then show ?case using Cons.prems(2,3) by (intro Cons.IH [OF c]) auto
qed simp

lemma collect_none: "\<forall>d \<in> set ds. d = [] \<Longrightarrow> collect_extensions room i ds exts = Inr exts"
  by (induction ds arbitrary: i) (simp_all add: opus_packet_extensions_parse_def extensions_from.simps [of "[]"])

text \<open>The packet written: its size, the frames in it, and the extensions in its padding.\<close>

definition gathered :: "opus_repacketizer \<Rightarrow> nat \<Rightarrow> nat \<Rightarrow> opus_extension_data list \<Rightarrow> opus_error + opus_extension_data list" where
  "gathered rp b e exts = (let ds = take (e - b) (drop b (rp_paddings rp)) in
     collect_extensions (int (length exts) + sum_list (map count_extensions ds)) 0 ds exts)"

lemma out_range_parses:
  assumes "opus_repacketizer_out_range_impl rp b e maxlen False pad exts = Inr (ret, out)"
    and "frames_ok (rp_toc rp) (take (e - b) (drop b (rp_frames rp)))"
  shows "ret = int (length out) \<and> ret \<le> maxlen \<and> (pad \<longrightarrow> ret = maxlen) \<and> (\<exists>es p. gathered rp b e exts = Inr es
    \<and> opus_packet_parse out = Inr p \<and> op_toc p AND 0xFC = rp_toc rp AND 0xFC
    \<and> op_frames out p = take (e - b) (drop b (rp_frames rp)) \<and> (es = [] \<and> \<not> pad \<longrightarrow> op_pad p = 0)
    \<and> (es \<noteq> [] \<longrightarrow> (\<exists>n g. op_padding out p = replicate n 1 @ g
        \<and> opus_packet_extensions_generate (int (length g)) es False = Inr g)))"
proof -
  let ?fs = "take (e - b) (drop b (rp_frames rp))"
  obtain es tot0 header0 tot header trailer
    where short: "out_short (rp_toc rp) ?fs maxlen 0 = Inr (tot0, header0)"
    and code: "(if length ?fs > 2 \<or> (pad \<and> tot0 < maxlen) \<or> es \<noteq> []
        then out_code_3 (rp_toc rp) ?fs maxlen 0 pad es else Inr (tot0, header0, [])) = Inr (tot, header, trailer)"
    and ret: "ret = tot"
    and out: "header @ concat ?fs @ (if pad \<and> es = []
        then replicate (nat (maxlen - int (length (header @ concat ?fs)))) 0 else trailer) = out"
    and es: "gathered rp b e exts = Inr es"
  proof -
    have "\<not> (b \<ge> e \<or> e > length (rp_frames rp))"
      by (rule notI) (use assms(1) in \<open>simp add: opus_repacketizer_out_range_impl_def\<close>)
    with assms(1) show thesis
      by (simp only: opus_repacketizer_out_range_impl_def gathered_def Let_def if_False ebind_Inr prod.case append_Nil sum.inject prod.inject
          split_paired_Ex append_assoc)
        (elim exE conjE, rule that, simp_all only: gathered_def Let_def)
  qed
  define tr where "tr = (if pad \<and> es = [] then replicate (nat (maxlen - int (length (header @ concat ?fs)))) 0 else trailer)"
  have out: "out = header @ concat ?fs @ tr" using out by (simp add: tr_def)
  show ?thesis
  proof (cases "length ?fs > 2 \<or> (pad \<and> tot0 < maxlen) \<or> es \<noteq> []")
    case True
    with code have c3: "out_code_3 (rp_toc rp) ?fs maxlen 0 pad es = Inr (tot, header, trailer)" by (simp only: if_True)
    from parse_code_3_written [OF c3 assms(2) refl]
    have t: "tot = int (length (header @ concat ?fs)) + int (length trailer)" "pad \<longrightarrow> tot = maxlen" by simp_all
    then have "length tr = length trailer" by (auto simp: tr_def simp del: length_concat)
    note p = parse_code_3_written [OF c3 assms(2) this]
    then obtain p where p': "opus_packet_parse out = Inr p" "op_toc p AND 0xFC = rp_toc rp AND 0xFC" "op_frames out p = ?fs"
      "op_pad p = int (length tr)" "op_padding out p = tr"
      using parsed_as_packet [of out "rp_toc rp" header ?fs tr] out by blast
    have "?fs \<noteq> []" using assms(2) unfolding frames_ok_def by blast
    from out_code_3_Inr [OF c3 this] have "es = [] \<and> \<not> pad \<longrightarrow> trailer = []"
      "es \<noteq> [] \<longrightarrow> (\<exists>n g. trailer = replicate n 1 @ g \<and> opus_packet_extensions_generate (int (length g)) es False = Inr g)"
      by blast+
    then show ?thesis using p p' es by (auto simp: ret out tr_def simp del: length_concat length_append)
  next
    case False
    from code [unfolded if_not_P [OF False]] have h: "tot = tot0" "header = header0" "trailer = []" by simp_all
    have "length ?fs \<le> 2" using False by linarith
    from parse_short [OF short assms(2) this] have p: "int (length (header @ concat ?fs)) = tot" "tot \<le> maxlen"
      "parsed_as (header @ concat ?fs) (rp_toc rp) (length header) ?fs 0" by (simp_all only: h)
    moreover have "pad \<longrightarrow> tot = maxlen" using False h p(2) by auto
    moreover from this have "tr = []" using h p(1) by (simp add: tr_def del: length_append)
    moreover have "es = []" using False by blast
    ultimately show ?thesis using parsed_as_packet [of out "rp_toc rp" header ?fs "[]"] es unfolding ret out by simp blast
  qed
qed

end
