(* ===== verification/Repacketizer_Laws.thy ===== *)
theory Repacketizer_Laws
  imports Opus_Repacketizer
begin

text \<open>
  What the repacketizer promises: an invariant of the frames it holds, packets that parse back to those
  frames and their extensions, padding and unpadding that keep the frames.
\<close>

unbundle bit_operations_syntax

section \<open>The repacketizer\<close>

text \<open>
  The frames held fit into one packet: their sizes, their number against the 120 ms, one padding each.
\<close>

definition rp_ok :: "opus_repacketizer \<Rightarrow> bool" where
  "rp_ok rp = (length (rp_paddings rp) = length (rp_frames rp) \<and> (rp_frames rp \<noteq> [] \<longrightarrow>
     0 \<le> rp_toc rp \<and> rp_toc rp < 256 \<and> rp_framesize rp = opus_packet_get_samples_per_frame (rp_toc rp) 8000
     \<and> (\<forall>f \<in> set (rp_frames rp). length f \<le> 1275) \<and> int (length (rp_frames rp)) * rp_framesize rp \<le> 960))"

lemma samples_6:
  "opus_packet_get_samples_per_frame toc 48000 = 6 * opus_packet_get_samples_per_frame toc 8000"
proof -
  have "toc div 2 ^ 3 AND 3 \<in> {0, 1, 2, 3}" unfolding and_3 by auto
  then show ?thesis by (auto simp: opus_packet_get_samples_per_frame_def)
qed

lemma rp_ok_frames:
  assumes "rp_ok rp" and "b < e" and "e \<le> length (rp_frames rp)"
  shows "frames_ok (rp_toc rp) (take (e - b) (drop b (rp_frames rp)))"
proof -
  let ?fs = "take (e - b) (drop b (rp_frames rp))" and ?s = "opus_packet_get_samples_per_frame (rp_toc rp) 8000"
  have ne: "rp_frames rp \<noteq> []" using assms(2,3) by auto
  with assms(1) have r: "0 \<le> rp_toc rp" "int (length (rp_frames rp)) * ?s \<le> 960" by (auto simp: rp_ok_def)
  have "0 \<le> ?s" using samples_bounds(1) [OF r(1)] unfolding samples_6 by simp
  then have "int (length ?fs) * ?s \<le> int (length (rp_frames rp)) * ?s" by (intro mult_right_mono) simp_all
  with r(2) have "opus_packet_get_samples_per_frame (rp_toc rp) 48000 * int (length ?fs) \<le> 5760"
    unfolding samples_6 by (simp add: mult.commute mult.left_commute)
  moreover have "?fs \<noteq> []" using assms(2,3) by simp
  moreover have "\<forall>f \<in> set ?fs. length f \<le> 1275"
    using assms(1) ne by (auto simp: rp_ok_def dest: in_set_takeD in_set_dropD)
  ultimately show ?thesis using assms(1) ne by (simp add: frames_ok_def rp_ok_def)
qed

lemma hd_byte: "d \<noteq> [] \<Longrightarrow> byte d 0 = Inr (uint (hd d))"
  by (cases d) simp_all

text \<open>An accepted packet: its frames are added under the limit.\<close>

lemma cat_impl_Inr:
  assumes "opus_repacketizer_cat_impl rp d sd = (Inr (), rp')"
  shows "\<exists>p. opus_packet_parse_impl d sd = Inr p \<and> packet_ok d sd p \<and> op_sizes p \<noteq> []
    \<and> rp_frames rp' = rp_frames rp @ op_frames d p
    \<and> rp_paddings rp' = rp_paddings rp @ op_padding d p # replicate (length (op_sizes p) - 1) []
    \<and> int (length (rp_frames rp')) * rp_framesize rp' \<le> 960
    \<and> (if rp_frames rp = [] then rp_toc rp' = uint (hd d) \<and> rp_framesize rp' = opus_packet_get_samples_per_frame (uint (hd d)) 8000
       else rp_toc rp' = rp_toc rp \<and> rp_framesize rp' = rp_framesize rp \<and> rp_toc rp AND 0xFC = uint (hd d) AND 0xFC)"
proof -
  obtain p where p: "opus_packet_parse_impl d sd = Inr p"
    using assms by (auto simp: opus_repacketizer_cat_impl_def Let_def split: if_split_asm sum.splits)
  have nb: "opus_packet_get_nb_frames d = Inr (int (length (op_sizes p)))" by (rule parse_nb_frames [OF p])
  from parse_packet_ok [of d sd] p have ok: "packet_ok d sd p" by simp
  from op_frames_length [OF ok] have "length (op_frames d p) = length (op_sizes p)" by (metis length_map)
  then show ?thesis using assms p nb ok
    by (auto simp: opus_repacketizer_cat_impl_def Let_def algebra_simps split: if_split_asm)
qed

lemma cat_impl_ok:
  assumes "rp_ok rp"
  shows "rp_ok (snd (opus_repacketizer_cat_impl rp d sd))"
proof (cases "fst (opus_repacketizer_cat_impl rp d sd)")
  case (Inl e)
  then show ?thesis using assms
    by (auto simp: opus_repacketizer_cat_impl_def Let_def rp_ok_def split: if_split_asm sum.splits)
next
  case (Inr u)
  define rp' where "rp' = snd (opus_repacketizer_cat_impl rp d sd)"
  have "opus_repacketizer_cat_impl rp d sd = (Inr (), rp')" using Inr by (simp add: rp'_def prod_eq_iff)
  from cat_impl_Inr [OF this] obtain p where p: "packet_ok d sd p" "op_sizes p \<noteq> []"
    "rp_frames rp' = rp_frames rp @ op_frames d p"
    "rp_paddings rp' = rp_paddings rp @ op_padding d p # replicate (length (op_sizes p) - 1) []"
    "int (length (rp_frames rp')) * rp_framesize rp' \<le> 960"
    "if rp_frames rp = [] then rp_toc rp' = uint (hd d) \<and> rp_framesize rp' = opus_packet_get_samples_per_frame (uint (hd d)) 8000
       else rp_toc rp' = rp_toc rp \<and> rp_framesize rp' = rp_framesize rp \<and> rp_toc rp AND 0xFC = uint (hd d) AND 0xFC"
    by blast
  note fl = op_frames_length [OF p(1)]
  have "length (op_frames d p) = length (op_sizes p)" using fl by (metis length_map)
  moreover have "\<forall>f \<in> set (op_frames d p). length f \<le> 1275"
  proof
    fix f assume "f \<in> set (op_frames d p)"
    then have "int (length f) \<in> set (op_sizes p)" unfolding fl [symmetric] by simp
    then show "length f \<le> 1275" using p(1) by (auto simp: packet_ok_def sizes_ok_def)
  qed
  ultimately have "rp_ok rp'" using assms p uint_u8 [of "hd d"]
    by (auto simp: rp_ok_def split: if_split_asm)
  then show ?thesis by (simp add: rp'_def)
qed

section \<open>Packets are never shorter than the repacketizer writes them\<close>

definition least_header :: "int list \<Rightarrow> int" where
  "least_header l = (if \<exists>n \<in> set (tl l). n \<noteq> l ! 0 then (if length l = 2 then 1 else 2) + sizes_length (butlast l)
     else if length l > 2 then 2 else 1)"

lemma parse_size_encoded:
  "parse_size d pos len = Inr (bytes, sz) \<Longrightarrow> 0 \<le> sz \<Longrightarrow> bytes = int (length (encode_size sz))"
  by (auto simp: parse_size_def ebind_Inr encode_size_length split: if_split_asm dest!: byte_Inr)

lemma vbr_sizes_pos:
  "vbr_sizes d n pos len x = Inr (sizes, pos', len', x') \<Longrightarrow> int pos' = int pos + sizes_length sizes"
proof (induction n arbitrary: pos len x sizes pos' len' x')
  case (Suc n)
  then obtain bytes sz sizes' where s: "parse_size d pos len = Inr (bytes, sz)" "0 \<le> sz" "sizes = sz # sizes'"
    and v: "vbr_sizes d n (pos + nat bytes) (len - bytes) (x - (bytes + sz)) = Inr (sizes', pos', len', x')"
    by (auto simp: ebind_Inr Let_def not_less split: if_split_asm prod.splits)
  from Suc.IH [OF v] parse_size_encoded [OF s(1,2)] s(3) show ?case by simp
qed simp

lemma padding_size_pos: "padding_size d pos len pad = Inr (pos', r) \<Longrightarrow> pos \<le> pos'"
proof (induction d pos len pad arbitrary: pos' r rule: padding_size.induct)
  case (1 d pos len pad)
  from 1(2) show ?case
    by (subst (asm) padding_size.simps) (auto simp: ebind_Inr Let_def split: if_split_asm dest!: 1(1))
qed

lemma least_header_bounds:
  "least_header (xs @ [x]) \<le> 2 + sizes_length xs" "least_header (replicate n v @ [v]) \<le> 2"
proof -
  show "least_header (xs @ [x]) \<le> 2 + sizes_length xs"
    using sizes_length_nonneg [of xs] by (simp add: least_header_def)
  show "least_header (replicate n v @ [v]) \<le> 2"
    by (cases n) (auto simp: least_header_def)
qed

lemma parse_code_3_offset:
  assumes "parse_code_3 d False fs 1 len = Inr b"
  shows "least_header (ob_sizes b @ [s16 (ob_last b)]) \<le> int (ob_pos b)"
proof -
  have vbr: "least_header (sizes @ [x]) \<le> int pos'"
    if "vbr_sizes d n pos len' x' = Inr (sizes, pos', r)" "2 \<le> pos" for n pos len' x' sizes pos' r x
    using that least_header_bounds(1) [of sizes x] vbr_sizes_pos [of d n pos len' x' sizes pos'] by (cases r) simp
  have cbr: "least_header (replicate n v @ [v]) \<le> int pos" if "2 \<le> pos" for n v pos
    using that least_header_bounds(2) [of n v] by simp
  show ?thesis using assms unfolding parse_code_3_def Let_def
    by (auto simp: ebind_Inr simp del: One_nat_def split: if_split_asm prod.splits dest: vbr cbr dest!: padding_size_pos
      intro: least_header_bounds(2))
qed

lemma parse_body_offset:
  assumes "parse_body d False fs t 1 len = Inr b"
  shows "least_header (ob_sizes b @ [s16 (ob_last b)]) \<le> int (ob_pos b)"
proof -
  have "t AND 3 = 0 \<or> t AND 3 = 1 \<or> t AND 3 = 2 \<or> t AND 3 = 3" unfolding and_3 by auto
  then show ?thesis
  proof (elim disjE)
    assume "t AND 3 = 2"
    then show ?thesis using assms
      by (auto simp: parse_body_def Let_def ebind_Inr not_less least_header_def nth_append split: if_split_asm prod.splits
          dest!: parse_size_encoded)
  next
    assume "t AND 3 = 3"
    then have "parse_code_3 d False fs 1 len = Inr b" using assms by (simp add: parse_body_def)
    then show ?thesis by (rule parse_code_3_offset)
  qed (use assms in \<open>auto simp: parse_body_def least_header_def split: if_split_asm\<close>)
qed

lemma parse_offset:
  assumes "opus_packet_parse_impl d False = Inr p"
  shows "least_header (op_sizes p) \<le> int (op_payload_offset p)"
proof -
  obtain toc b where "parse_body d False (opus_packet_get_samples_per_frame toc 48000) toc 1 (int (length d) - 1) = Inr b"
    and "op_sizes p = ob_sizes b @ [s16 (ob_last b)]" "op_payload_offset p = ob_pos b"
    using assms by (auto simp: opus_packet_parse_impl_def parse_last_def ebind_Inr split: if_split_asm prod.splits)
  then show ?thesis using parse_body_offset by fastforce
qed

lemma out_fits:
  assumes "fs \<noteq> []" and "least_header (frame_sizes fs) + sum_list (frame_sizes fs) \<le> maxlen"
  shows "\<exists>tot h. out_short toc fs maxlen 0 = Inr (tot, h)"
    and "length fs > 2 \<Longrightarrow> \<exists>tot h. out_code_3 toc fs maxlen 0 False [] = Inr (tot, h, [])"
proof -
  consider f where "fs = [f]" | f g where "fs = [f, g]" | "length fs > 2"
    using assms(1) by (cases fs; cases "tl fs"; cases "tl (tl fs)") auto
  then show "\<exists>tot h. out_short toc fs maxlen 0 = Inr (tot, h)"
    using assms(2) by cases (auto simp: out_short_def Let_def least_header_def long_size_def encode_size_length
        split: if_split_asm)
  assume "length fs > 2"
  then have "2 + (if vbr_frames fs then sizes_length (butlast (frame_sizes fs)) else 0) + sum_list (frame_sizes fs) \<le> maxlen"
    using assms(2) by (cases "vbr_frames fs") (simp_all add: least_header_def)
  with code_3_size [OF assms(1)] show "\<exists>tot h. out_code_3 toc fs maxlen 0 False [] = Inr (tot, h, [])"
    unfolding out_code_3_def Let_def by (cases "vbr_frames fs") simp_all
qed

text \<open>Without padding and extensions the space given does not matter, as long as it is enough.\<close>

lemma out_mono:
  "out_short toc fs m tot = Inr r \<Longrightarrow> m \<le> m' \<Longrightarrow> out_short toc fs m' tot = Inr r"
  "out_code_3 toc fs m base False [] = Inr r' \<Longrightarrow> m \<le> m' \<Longrightarrow> out_code_3 toc fs m' base False [] = Inr r'"
  by (auto simp: out_short_def Let_def split: if_split_asm)
    (auto simp: out_code_3_def Let_def simp del: if_split split: if_split_asm)

lemma out_plain:
  assumes "b < e" and "e \<le> length (rp_frames rp)" and "\<forall>d \<in> set (rp_paddings rp). d = []"
  defines "l \<equiv> frame_sizes (take (e - b) (drop b (rp_frames rp)))"
  shows "\<exists>tot out. \<forall>m \<ge> least_header l + sum_list l. opus_repacketizer_out_range_impl rp b e m False False [] = Inr (tot, out)"
proof -
  define fs where "fs = take (e - b) (drop b (rp_frames rp))"
  have fs: "fs \<noteq> []" "least_header (frame_sizes fs) + sum_list (frame_sizes fs) \<le> least_header l + sum_list l"
    using assms(1,2) by (simp_all add: fs_def l_def)
  have none: "\<forall>d \<in> set (take (e - b) (drop b (rp_paddings rp))). d = []"
    using assms(3) by (blast dest: in_set_takeD in_set_dropD)
  from out_fits(1) [OF fs] obtain tot h where "out_short (rp_toc rp) fs (least_header l + sum_list l) 0 = Inr (tot, h)" by blast
  note short = out_mono(1) [OF this]
  show ?thesis
  proof (cases "length fs > 2")
    case True
    from out_fits(2) [OF fs True] obtain tot' h' where
      "out_code_3 (rp_toc rp) fs (least_header l + sum_list l) 0 False [] = Inr (tot', h', [])" by blast
    note code = out_mono(2) [OF this]
    show ?thesis by (intro exI [of _ tot'] exI [of _ "h' @ concat fs"])
        (use True assms(1,2) collect_none [OF none] short code in
          \<open>simp add: opus_repacketizer_out_range_impl_def fs_def [symmetric] del: length_concat\<close>)
  next
    case False
    show ?thesis by (intro exI [of _ tot] exI [of _ "h @ concat fs"])
        (use False assms(1,2) collect_none [OF none] short in
          \<open>simp add: opus_repacketizer_out_range_impl_def fs_def [symmetric] del: length_concat\<close>)
  qed
qed

section \<open>What the repacketizer promises\<close>

text \<open>
  C18: The frames held always fit into one packet: adding a packet keeps the invariant of the repacketizer,
  whatever the bytes; a packet that is refused leaves the frames as they were, one that is accepted is
  valid and adds exactly its frames.
\<close>

theorem cat_keeps_invariant:
  assumes "rp_ok rp"
  shows "rp_ok (snd (opus_repacketizer_cat_impl rp d sd))
    \<and> (case fst (opus_repacketizer_cat_impl rp d sd) of
         Inl e \<Rightarrow> rp_frames (snd (opus_repacketizer_cat_impl rp d sd)) = rp_frames rp
       | Inr _ \<Rightarrow> \<exists>p. opus_packet_parse_impl d sd = Inr p
           \<and> rp_frames (snd (opus_repacketizer_cat_impl rp d sd)) = rp_frames rp @ op_frames d p)"
proof (cases "fst (opus_repacketizer_cat_impl rp d sd)")
  case (Inl e)
  then have "rp_frames (snd (opus_repacketizer_cat_impl rp d sd)) = rp_frames rp"
    by (auto simp: opus_repacketizer_cat_impl_def Let_def split: if_split_asm sum.splits)
  with Inl cat_impl_ok [OF assms] show ?thesis by simp
next
  case (Inr u)
  then have "opus_repacketizer_cat_impl rp d sd = (Inr (), snd (opus_repacketizer_cat_impl rp d sd))"
    by (simp add: prod_eq_iff)
  from cat_impl_Inr [OF this] Inr cat_impl_ok [OF assms] show ?thesis by auto
qed

lemma cat_keeps_invariant_witness:
  "rp_ok (snd (opus_repacketizer_cat_impl rp0 [0x09, 1, 2] False))
    \<and> rp_frames (snd (opus_repacketizer_cat_impl rp0 [0x09, 1, 2] False)) = [[1], [2]]"
proof -
  have "rp_ok rp0" by (simp add: rp_ok_def rp0_def)
  moreover have "rp_frames (snd (opus_repacketizer_cat_impl rp0 [0x09, 1, 2] False)) = [[1], [2]]" by code_simp
  ultimately show ?thesis using cat_keeps_invariant [of rp0 "[0x09, 1, 2]" False] by simp
qed

text \<open>
  C14: Packets survive repacketizing: whenever the repacketizer writes a packet of a range of its frames,
  it wrote exactly the size it returns, within the space given and filling it when asked to pad; and the
  parser reads back the same configuration, the same frames byte for byte, and in the padding the same
  extensions, those passed in and those of the packets added, ordered by frame.
\<close>

theorem repacketizer_roundtrip:
  assumes "rp_ok rp" and "\<forall>e \<in> set exts. 0 \<le> ext_frame e"
    and "opus_repacketizer_out_range_impl rp b e maxlen False pad exts = Inr (ret, out)"
  shows "ret = int (length out) \<and> ret \<le> maxlen \<and> (pad \<longrightarrow> ret = maxlen) \<and> (\<exists>es p. gathered rp b e exts = Inr es
    \<and> opus_packet_parse out = Inr p \<and> op_toc p AND 0xFC = rp_toc rp AND 0xFC
    \<and> op_frames out p = take (e - b) (drop b (rp_frames rp))
    \<and> (es \<noteq> [] \<longrightarrow> opus_packet_extensions_parse (op_padding out p) (int (length es)) = Inr (by_frame 47 es)))"
proof -
  have "b < e \<and> e \<le> length (rp_frames rp)"
    by (rule ccontr) (use assms(3) in \<open>auto simp: opus_repacketizer_out_range_impl_def\<close>)
  note r = out_range_parses [OF assms(3) rp_ok_frames [OF assms(1)]]
  have exts: "opus_packet_extensions_parse (replicate n 1 @ g) (int (length es)) = Inr (by_frame 47 es)"
    if "gathered rp b e exts = Inr es" "opus_packet_extensions_generate (int (length g)) es False = Inr g" for es n g
  proof -
    have "\<forall>e \<in> set es. 0 \<le> ext_frame e"
      using collect_frames [OF that(1) [unfolded gathered_def Let_def] _ assms(2)] by simp
    from generate_read [OF that(2) this] show ?thesis by (simp add: opus_packet_extensions_parse_def from_one)
  qed
  with \<open>b < e \<and> e \<le> length (rp_frames rp)\<close> obtain es p where
    "ret = int (length out) \<and> ret \<le> maxlen \<and> (pad \<longrightarrow> ret = maxlen)" and es: "gathered rp b e exts = Inr es"
    and "opus_packet_parse out = Inr p" "op_toc p AND 0xFC = rp_toc rp AND 0xFC"
      "op_frames out p = take (e - b) (drop b (rp_frames rp))"
    and pad: "es \<noteq> [] \<longrightarrow> (\<exists>n g. op_padding out p = replicate n 1 @ g
        \<and> opus_packet_extensions_generate (int (length g)) es False = Inr g)" using r by blast
  moreover have "es \<noteq> [] \<longrightarrow> opus_packet_extensions_parse (op_padding out p) (int (length es)) = Inr (by_frame 47 es)"
    using exts [OF es] pad by auto
  ultimately show ?thesis by blast
qed

definition sample_rp :: opus_repacketizer where
  "sample_rp = snd (opus_repacketizer_cat_impl (snd (opus_repacketizer_cat_impl rp0 [0x09, 1, 2] False)) [0x08, 3, 4] False)"

lemma repacketizer_roundtrip_witness:
  "\<exists>out p. opus_repacketizer_out_range_impl sample_rp 0 3 12 False True [] = Inr (12, out) \<and> opus_packet_parse out = Inr p
    \<and> op_frames out p = [[1], [2], [3, 4]]"
proof -
  have "rp_ok rp0" by (simp add: rp_ok_def rp0_def)
  then have ok: "rp_ok sample_rp" unfolding sample_rp_def by (intro cat_impl_ok)
  have "isl (opus_repacketizer_out_range_impl sample_rp 0 3 12 False True []) = False" by code_simp
  then obtain ret out where out: "opus_repacketizer_out_range_impl sample_rp 0 3 12 False True [] = Inr (ret, out)"
    by (cases "opus_repacketizer_out_range_impl sample_rp 0 3 12 False True []") auto
  moreover have "rp_frames sample_rp = [[1], [2], [3, 4]]" by code_simp
  ultimately show ?thesis using repacketizer_roundtrip [OF ok _ out] by auto
qed

text \<open>A valid packet in a fresh repacketizer.\<close>

lemma cat_fresh:
  assumes "opus_packet_parse d = Inr p"
  shows "\<exists>rp. opus_repacketizer_cat (opus_repacketizer_init rp0) d = (Inr (), rp) \<and> rp_ok rp \<and> rp_toc rp = op_toc p
    \<and> rp_frames rp = op_frames d p \<and> 0 < length (rp_frames rp) \<and> frame_sizes (rp_frames rp) = op_sizes p"
proof -
  have p: "opus_packet_parse_impl d False = Inr p" using assms by (simp add: opus_packet_parse_def)
  with parse_packet_ok [of d False] have ok: "packet_ok d False p" by auto
  let ?r = "opus_repacketizer_cat_impl (opus_repacketizer_init rp0) d False"
  have d: "d \<noteq> []" using p by (auto simp: opus_packet_parse_impl_def)
  have "6 * (int (length (op_sizes p)) * opus_packet_get_samples_per_frame (uint (hd d)) 8000) \<le> 5760"
    using ok samples_6 [of "uint (hd d)"] by (auto simp: packet_ok_def mult.commute mult.left_commute)
  then have n: "1 \<le> length (op_sizes p)"
    "int (length (op_sizes p)) * opus_packet_get_samples_per_frame (uint (hd d)) 8000 \<le> 960"
    using ok by (simp_all add: packet_ok_def)
  have fst: "fst ?r = Inr ()"
    using d n parse_nb_frames [OF p] p
    by (cases "op_sizes p") (simp_all add: opus_repacketizer_cat_impl_def opus_repacketizer_init_def rp0_def Let_def)
  then have "?r = (Inr (), snd ?r)" by (simp add: prod_eq_iff)
  from cat_impl_Inr [OF this] p have s: "rp_toc (snd ?r) = op_toc p" "rp_frames (snd ?r) = op_frames d p"
    using ok by (auto simp: opus_repacketizer_init_def rp0_def packet_ok_def)
  have "rp_ok (opus_repacketizer_init rp0)" by (simp add: rp_ok_def opus_repacketizer_init_def rp0_def)
  from cat_impl_ok [OF this] have "rp_ok (snd ?r)" .
  moreover have l: "frame_sizes (op_frames d p) = op_sizes p" using op_frames_length [OF ok] by (simp add: comp_def)
  moreover have "0 < length (op_frames d p)" using l n(1) by (metis One_nat_def Suc_le_lessD length_map)
  ultimately show ?thesis using fst s by (intro exI [of _ "snd ?r"]) (simp add: opus_repacketizer_cat_def prod_eq_iff)
qed

text \<open>
  C15: Unpadding never fails on a valid packet, the assertion of the code: the result is not longer, has
  the same configuration and the same frames, and no padding. Its frames start no later than before,
  so that the moves within one buffer only go to the front and overwrite nothing still to be read.
\<close>

theorem unpad_keeps_frames:
  assumes "opus_packet_parse d = Inr p"
  shows "\<exists>out p'. opus_packet_unpad d = Inr (int (length out), out) \<and> length out \<le> length d \<and> 0 < length out
    \<and> opus_packet_parse out = Inr p' \<and> op_toc p' AND 0xFC = op_toc p AND 0xFC \<and> op_frames out p' = op_frames d p
    \<and> op_pad p' = 0 \<and> op_payload_offset p' \<le> op_payload_offset p"
proof -
  have pi: "opus_packet_parse_impl d False = Inr p" using assms by (simp add: opus_packet_parse_def)
  with parse_packet_ok [of d False] have ok: "packet_ok d False p" by auto
  obtain rp where rp: "opus_repacketizer_cat (opus_repacketizer_init rp0) d = (Inr (), rp)" "rp_ok rp" "rp_toc rp = op_toc p"
    "rp_frames rp = op_frames d p" "0 < length (rp_frames rp)" "frame_sizes (rp_frames rp) = op_sizes p"
    using cat_fresh [OF assms] by blast
  let ?rp = "drop_paddings rp" and ?n = "length (rp_frames rp)"
  have f: "rp_frames ?rp = rp_frames rp" "rp_toc ?rp = rp_toc rp" by (simp_all add: drop_paddings_def)
  have okr: "rp_ok ?rp" using rp(2) by (auto simp: rp_ok_def drop_paddings_def)
  let ?M = "least_header (op_sizes p) + sum_list (op_sizes p)"
  have M: "?M \<le> int (op_payload_offset p) + sum_list (op_sizes p)" using parse_offset [OF pi] by simp
  obtain tot out where out: "\<And>m. ?M \<le> m \<Longrightarrow> opus_repacketizer_out_range_impl ?rp 0 ?n m False False [] = Inr (tot, out)"
    using out_plain [of 0 ?n ?rp] rp(5,6) by (auto simp: f drop_paddings_def)
  note r = out_range_parses [OF out [OF M]]
  have none: "gathered ?rp 0 ?n [] = Inr []"
    by (simp add: gathered_def Let_def drop_paddings_def collect_none)
  have "frames_ok (rp_toc ?rp) (take (?n - 0) (drop 0 (rp_frames ?rp)))" using okr rp(5) by (intro rp_ok_frames) (simp_all add: f)
  from r [OF this] none obtain p' where p': "tot = int (length out)" "tot \<le> int (op_payload_offset p) + sum_list (op_sizes p)"
    "opus_packet_parse out = Inr p'" "op_toc p' AND 0xFC = op_toc p AND 0xFC" "op_frames out p' = op_frames d p" "op_pad p' = 0"
    using rp(3,4) by (auto simp: f)
  have ok': "packet_ok out False p'" using parse_packet_ok [of out False] p'(3) by (auto simp: opus_packet_parse_def)
  have "op_sizes p' = op_sizes p" using op_frames_length [OF ok] op_frames_length [OF ok'] p'(5) by simp
  then have off: "op_payload_offset p' \<le> op_payload_offset p" using ok' p'(1,2,6) by (simp add: packet_ok_def)
  have "opus_packet_unpad d = Inr (tot, out)"
    using out [of "int (length d)"] M ok rp(1) pi by (auto simp: opus_packet_unpad_def packet_ok_def opus_packet_parse_impl_def)
  moreover have "int (length out) \<le> int (length d)" using p'(1,2) ok by (simp add: packet_ok_def)
  moreover have "out \<noteq> []" using p'(3) by (auto simp: opus_packet_parse_def opus_packet_parse_impl_def)
  ultimately show ?thesis using p' off by (intro exI [of _ out] exI [of _ p']) simp
qed

lemma unpad_keeps_frames_witness:
  "\<exists>out p'. opus_packet_unpad [0x0B, 0x42, 3, 7, 8, 0, 0, 0] = Inr (int (length out), out) \<and> length out \<le> 8
    \<and> opus_packet_parse out = Inr p' \<and> op_frames out p' = [[7], [8]]"
proof -
  have "isl (opus_packet_parse [0x0B, 0x42, 3, 7, 8, 0, 0, 0]) = False" by code_simp
  then obtain p where p: "opus_packet_parse [0x0B, 0x42, 3, 7, 8, 0, 0, 0] = Inr p"
    by (cases "opus_packet_parse [0x0B, 0x42, 3, 7, 8, 0, 0, 0]") auto
  moreover have "map_sum id (op_frames [0x0B, 0x42, 3, 7, 8, 0, 0, 0]) (opus_packet_parse [0x0B, 0x42, 3, 7, 8, 0, 0, 0])
      = Inr [[7], [8]]" by code_simp
  ultimately have "op_frames [0x0B, 0x42, 3, 7, 8, 0, 0, 0] p = [[7], [8]]" by simp
  with unpad_keeps_frames [OF p] show ?thesis by fastforce
qed

text \<open>
  Padding keeps the packet: when a valid packet is padded to a length, the result has exactly that
  length, the same configuration and the same frames.
\<close>

theorem pad_keeps_frames:
  assumes "opus_packet_parse d = Inr p" and "opus_packet_pad d n = Inr out"
  shows "int (length out) = n
    \<and> (\<exists>p'. opus_packet_parse out = Inr p' \<and> op_toc p' AND 0xFC = op_toc p AND 0xFC \<and> op_frames out p' = op_frames d p)"
proof (cases "int (length d) = n")
  case True
  then have "out = d" using assms(2) by (auto simp: opus_packet_pad_def opus_packet_pad_impl_def split: if_split_asm)
  with assms(1) True show ?thesis by blast
next
  case False
  obtain rp where rp: "opus_repacketizer_cat (opus_repacketizer_init rp0) d = (Inr (), rp)" "rp_ok rp" "rp_toc rp = op_toc p"
    "rp_frames rp = op_frames d p" "0 < length (rp_frames rp)"
    using cat_fresh [OF assms(1)] by blast
  obtain ret where "opus_repacketizer_out_range_impl rp 0 (length (rp_frames rp)) n False True [] = Inr (ret, out)"
    using assms(2) False rp(1) by (auto simp: opus_packet_pad_def opus_packet_pad_impl_def ebind_Inr split: if_split_asm)
  from out_range_parses [OF this rp_ok_frames [OF rp(2,5) order_refl]] rp(3,4) show ?thesis by auto
qed

lemma pad_keeps_frames_witness:
  "\<exists>out p'. opus_packet_pad [0x08, 7] 300 = Inr out \<and> length out = 300
    \<and> opus_packet_parse out = Inr p' \<and> op_frames out p' = [[7]]"
proof -
  have "isl (opus_packet_parse [0x08, 7]) = False" "isl (opus_packet_pad [0x08, 7] 300) = False" by code_simp+
  then obtain p out where p: "opus_packet_parse [0x08, 7] = Inr p" and out: "opus_packet_pad [0x08, 7] 300 = Inr out"
    by (cases "opus_packet_parse [0x08, 7]"; cases "opus_packet_pad [0x08, 7] 300") auto
  moreover have "map_sum id (op_frames [0x08, 7]) (opus_packet_parse [0x08, 7]) = Inr [[7]]" by code_simp
  ultimately have "op_frames [0x08, 7] p = [[7]]" by simp
  with pad_keeps_frames [OF p out] out show ?thesis by auto
qed

end
