(* ===== verification/Coding_Run.thy ===== *)
theory Coding_Run
  imports Range_Codec Range_Tell
begin

text \<open>
  Runs of the encoder that choose what they code by the state of the coder (how many bits it has spent):
  the law \<open>coded\<close> of one run, its composition along the sequencing of the code, and the cost of a symbol.
\<close>

section \<open>The law of a run\<close>

text \<open>
  A run of the encoder from \<open>c\<close> has the outcome \<open>r\<close>: a value with the new context. It returns, and when
  it did not run out of space, a decoder \<open>g\<close> in step with it on a stream of \<open>n\<close> bytes finds the part \<open>p\<close> of
  the value. This is what \<open>lockstep\<close> says of an operation, for one context and one length.
\<close>

definition finds :: "nat \<Rightarrow> ec_ctx \<Rightarrow> ec_ctx \<Rightarrow> (ec_ctx \<Rightarrow> ('v \<times> ec_ctx) option) \<Rightarrow> 'v \<Rightarrow> bool" where
  "finds n c c' g v = (ec_error c = 0 \<and> ready c' \<and> (\<forall>buf. length buf = n \<longrightarrow> holds buf c' \<longrightarrow> holds buf c
     \<and> (\<forall>d. sync buf c d \<longrightarrow> (\<exists>d'. g d = Some (v, d') \<and> sync buf c' d'))))"

definition coded :: "nat \<Rightarrow> ec_ctx \<Rightarrow> ('a \<times> ec_ctx) option \<Rightarrow> ('a \<Rightarrow> 'v) \<Rightarrow> (ec_ctx \<Rightarrow> ('v \<times> ec_ctx) option) \<Rightarrow> bool" where
  "coded n c r p g = (alive c \<longrightarrow> (\<exists>a c'. r = Some (a, c') \<and> alive c'
     \<and> (ec_error c' = 0 \<longrightarrow> ec_error c = 0 \<and> (ready c \<longrightarrow> finds n c c' g (p a)))))"

lemma follows_finds: "follows c c' g v \<Longrightarrow> finds n c c' g v"
  by (simp add: follows_def finds_def)

lemma coded_lockstep:
  assumes "lockstep f g (p a)"
  shows "coded n c (map_option (Pair a) (f c)) p g"
  unfolding coded_def
proof
  assume "alive c"
  with assms obtain c' where c': "f c = Some c'" "alive c'" unfolding lockstep_def by blast
  then have "ec_error c' = 0 \<longrightarrow> ec_error c = 0 \<and> (ready c \<longrightarrow> finds n c c' g (p a))"
    using assms \<open>alive c\<close> unfolding lockstep_def by (blast intro: follows_finds)
  with c' show "\<exists>a' c'. map_option (Pair a) (f c) = Some (a', c') \<and> alive c'
      \<and> (ec_error c' = 0 \<longrightarrow> ec_error c = 0 \<and> (ready c \<longrightarrow> finds n c c' g (p a')))" by simp
qed

lemma coded_return: "coded n c (Some (a, c)) p (\<lambda>d. Some (p a, d))"
  by (auto simp: coded_def finds_def)

lemma coded_bind:
  assumes "coded n c r p g" and "\<And>a c'. r = Some (a, c') \<Longrightarrow> coded n c' (k a c') p' (h (p a))"
  shows "coded n c (Option.bind r (\<lambda>(a, c). k a c)) p' (\<lambda>d. Option.bind (g d) (\<lambda>(v, d). h v d))"
  unfolding coded_def
proof
  assume "alive c"
  with assms(1) obtain a c1 where 1: "r = Some (a, c1)" "alive c1"
    "ec_error c1 = 0 \<Longrightarrow> ec_error c = 0 \<and> (ready c \<longrightarrow> finds n c c1 g (p a))" by (auto simp: coded_def)
  from assms(2) [OF 1(1)] 1(2) obtain b c2 where 2: "k a c1 = Some (b, c2)" "alive c2"
    "ec_error c2 = 0 \<Longrightarrow> ec_error c1 = 0 \<and> (ready c1 \<longrightarrow> finds n c1 c2 (h (p a)) (p' b))" by (auto simp: coded_def)
  have "finds n c c2 (\<lambda>d. Option.bind (g d) (\<lambda>(v, d). h v d)) (p' b)"
    if "finds n c c1 g (p a)" "finds n c1 c2 (h (p a)) (p' b)"
    using that unfolding finds_def by fastforce
  moreover have "ready c1" if "finds n c c1 g (p a)" using that by (simp add: finds_def)
  ultimately show "\<exists>a c'. Option.bind r (\<lambda>(a, c). k a c) = Some (a, c') \<and> alive c'
      \<and> (ec_error c' = 0 \<longrightarrow> ec_error c = 0 \<and> (ready c \<longrightarrow> finds n c c' (\<lambda>d. Option.bind (g d) (\<lambda>(v, d). h v d)) (p' a)))"
    using 1 2 by auto
qed

lemma coded_decoder: "coded n c r p g \<Longrightarrow> (\<And>a. p' a = q (p a))
    \<Longrightarrow> coded n c r p' (\<lambda>d. map_option (\<lambda>(v, d). (q v, d)) (g d))"
  unfolding coded_def finds_def by fastforce

lemma coded_values: "coded n c r p g \<Longrightarrow> (\<And>a. p' (f a) = p a)
    \<Longrightarrow> coded n c (map_option (\<lambda>(a, c). (f a, c)) r) p' g"
  unfolding coded_def by fastforce

text \<open>Both sides may ask how many bits are spent, and the decoder how long the stream is.\<close>

lemma sync_tell: "sync buf c d \<Longrightarrow> ec_tell d = ec_tell c \<and> ec_storage d = length buf"
  by (simp add: sync_def ec_tell_def)

lemma coded_tell: "coded n c r p (g (ec_tell c) n) \<Longrightarrow> coded n c r p (\<lambda>d. g (ec_tell d) (ec_storage d) d)"
  unfolding coded_def finds_def by (auto simp: sync_tell)

text \<open>A loop over the positions of the bands.\<close>

fun each :: "('i \<Rightarrow> 's \<Rightarrow> ec_ctx \<Rightarrow> ('s \<times> ec_ctx) option) \<Rightarrow> 'i list \<Rightarrow> 's \<Rightarrow> ec_ctx \<Rightarrow> ('s \<times> ec_ctx) option" where
  "each f [] s c = Some (s, c)"
| "each f (i # is) s c = Option.bind (f i s c) (\<lambda>(s, c). each f is s c)"

lemma coded_each:
  assumes "I is s c"
    and "\<And>i is s c. I (i # is) s c \<Longrightarrow> coded n c (f i s c) p (g i (p s))"
    and "\<And>i is s c s' c'. I (i # is) s c \<Longrightarrow> alive c \<Longrightarrow> f i s c = Some (s', c') \<Longrightarrow> I is s' c'"
  shows "coded n c (each f is s c) p (each g is (p s))"
  using assms(1)
proof (induction "is" arbitrary: s c)
  case (Cons i "is")
  have "coded n c (Option.bind (f i s c) (\<lambda>(s, c). each f is s c)) p
      (\<lambda>d. Option.bind (g i (p s) d) (\<lambda>(v, d). each g is v d))" if "alive c"
    using assms(2,3) Cons that by (intro coded_bind) blast+
  then show ?case by (simp add: coded_def [of n c])
next
  case Nil
  have "each g [] (p s) = (\<lambda>d. Some (p s, d))" by (simp add: fun_eq_iff)
  then show ?case by (simp add: coded_return)
qed

section \<open>What a symbol costs\<close>

lemma ilog_256: "0 < n \<Longrightarrow> EC_ILOG (256 * n) = EC_ILOG n + 8"
  using EC_ILOG_shift [of 8 "256 * n"] by simp

lemma normalize_tell:
  assumes "0 < ec_rng c" and "ec_rng c \<le> EC_CODE_TOP" and "ec_enc_normalize c = Some c'"
  shows "ec_tell c' = ec_tell c"
  using assms
proof (induction "nat (EC_CODE_TOP - ec_rng c)" arbitrary: c rule: less_induct)
  case less
  show ?case
  proof (cases "ec_rng c \<le> EC_CODE_BOT")
    case True
    then have rng: "ec_rng (enc_shift c) = 256 * ec_rng c"
      using less.prems by (simp add: enc_shift_def u32w_id ec_const)
    have "ec_nbits_total (enc_shift c) = ec_nbits_total c + 8" by (simp add: enc_shift_def ec_const)
    then have "ec_tell (enc_shift c) = ec_tell c" using less.prems(1) by (simp add: ec_tell_def rng ilog_256)
    moreover have "ec_enc_normalize (enc_shift c) = Some c'" using less.prems(3) True by (subst (asm) ec_enc_normalize.simps) simp
    ultimately show ?thesis using less.hyps [of "enc_shift c"] less.prems True rng by (simp add: ec_const)
  next
    case False
    with less.prems(3) show ?thesis by (subst (asm) ec_enc_normalize.simps) simp
  qed
qed

lemma ilog_mono: "0 < a \<Longrightarrow> a \<le> b \<Longrightarrow> EC_ILOG a \<le> EC_ILOG b"
proof (rule ccontr)
  assume a: "0 < a" "a \<le> b" and "\<not> EC_ILOG a \<le> EC_ILOG b"
  then have "(2 :: int) ^ EC_ILOG b \<le> 2 ^ (EC_ILOG a - 1)" by (intro power_increasing) simp_all
  also have "\<dots> \<le> a" using EC_ILOG_pos [OF a(1)] by blast
  finally have "2 ^ EC_ILOG b \<le> a" .
  moreover have "b < 2 ^ EC_ILOG b" using EC_ILOG_pos [of b] a by simp
  ultimately show False using a(2) by simp
qed

text \<open>A symbol of a table of \<open>2 ^ b\<close> units spends at most \<open>b\<close> bits.\<close>

lemma encode_cost:
  assumes "alive c" and "0 \<le> fl" and "fl < fh" and "fh \<le> 2 ^ b" and "b \<le> 15" and "ec_encode fl fh (2 ^ b) c = Some c'"
  shows "ec_tell c' \<le> ec_tell c + int b"
proof -
  have "(2 :: int) ^ b \<le> 2 ^ 23" using assms(5) by (intro power_increasing) simp_all
  then have ft: "(2 :: int) ^ b \<le> 8388608" by simp
  let ?w = "enc_width fl fh (2 ^ b) c" and ?r = "ec_rng c div 2 ^ b" and ?l = "EC_ILOG (ec_rng c)"
  note n = enc_narrow [OF assms(1-4) ft]
  have rng: "8388608 < ec_rng c" "ec_rng c \<le> 2147483648" using assms(1) by (simp_all add: alive_def ec_const)
  have "?w \<le> ec_rng c" using n(1,4) by linarith
  with n(2) rng have "ec_tell c' = ec_nbits_total c - int (EC_ILOG ?w)"
    using assms(6) normalize_tell [of "c\<lparr>ec_val := if fl > 0 then u32w (ec_val c + enc_low fl (2 ^ b) c) else ec_val c, ec_rng := ?w\<rparr>" c']
    unfolding ec_encode_width [OF assms(1-4) ft] by (simp add: ec_tell_def ec_const)
  moreover have "?r \<le> ?w"
  proof (cases "fl > 0")
    case True
    have "?r * 1 \<le> ?r * (fh - fl)" using assms(3) rng by (intro mult_left_mono) (simp_all add: pos_imp_zdiv_nonneg_iff)
    with True show ?thesis by (simp add: enc_width_def)
  next
    case False
    have "?r * (2 ^ b - fh) \<le> ?r * (2 ^ b - 1)"
      using assms(2,3) rng by (intro mult_left_mono) (simp_all add: pos_imp_zdiv_nonneg_iff)
    also have "\<dots> = ?r * 2 ^ b - ?r" by (simp add: algebra_simps)
    also have "?r * 2 ^ b \<le> ec_rng c" using int_div_bounds(2) [of "2 ^ b" "ec_rng c" ?r] by fastforce
    finally show ?thesis using False by (simp add: enc_width_def)
  qed
  moreover have "EC_ILOG ?r + b = ?l"
  proof -
    have "(2 :: int) ^ b \<le> 2 ^ 15" using assms(5) by (intro power_increasing) simp_all
    then have "2 ^ b \<le> ec_rng c" using rng by simp
    then show ?thesis using EC_ILOG_shift [of b "ec_rng c"] by simp
  qed
  moreover have "0 < ?r" using rng assms(5) power_increasing [of b 15 "2 :: int"] by (simp add: pos_imp_zdiv_pos_iff)
  ultimately show ?thesis using ilog_mono [of ?r ?w] by (simp add: ec_tell_def)
qed

lemma bit_logp_cost:
  assumes "alive c" and "0 < logp" and "logp \<le> 15" and "ec_enc_bit_logp v logp c = Some c'"
  shows "ec_tell c' \<le> ec_tell c + int logp"
proof -
  have "(2 :: int) \<le> 2 ^ logp" using power_increasing [of 1 logp "2 :: int"] assms(2) by simp
  then show ?thesis using assms bit_logp_encode [of c logp v]
      encode_cost [of c "if v then 2 ^ logp - 1 else 0" "if v then 2 ^ logp else 2 ^ logp - 1" logp c']
    by (cases v) simp_all
qed

end
