(* ===== verification/Pulse_Coding.thy ===== *)
theory Pulse_Coding
  imports Pulse_Table Range_Codec
begin

text \<open>
  The coding of a band of CELT (\<open>celt/cwrs.c\<close>): a vector of \<open>n\<close> integers whose absolute values sum to
  \<open>k\<close> as one number below \<open>V n k\<close>, and back.
\<close>

unbundle bit_operations_syntax

section \<open>From the vector to the number (cwrs.c)\<close>

text \<open>The loop from the last entry to the first: the pulses so far and the number.\<close>

fun icwrs_from :: "int list \<Rightarrow> nat \<times> int" where
  "icwrs_from [] = (0, 0)"
| "icwrs_from [y] = (nat \<bar>y\<bar>, if y < 0 then 1 else 0)"
| "icwrs_from (y # ys) =
     (let (k, i) = icwrs_from ys; n = length (y # ys); i = u32w (i + CELT_PVQ_U n k); k = k + nat \<bar>y\<bar>
      in (k, if y < 0 then u32w (i + CELT_PVQ_U n (k + 1)) else i))"

definition icwrs :: "int list \<Rightarrow> int" where
  "icwrs y = snd (icwrs_from y)"

definition encode_pulses :: "int list \<Rightarrow> nat \<Rightarrow> nat \<Rightarrow> ec_ctx \<Rightarrow> ec_ctx option" where
  "encode_pulses y n k enc = ec_enc_uint (icwrs y) (CELT_PVQ_V n k) enc"

section \<open>From the number to the vector (cwrs.c)\<close>

text \<open>\<open>(x + s) ^ s\<close> for a sign mask \<open>s\<close>.\<close>

definition flip :: "int \<Rightarrow> int \<Rightarrow> int" where
  "flip s x = (x + s) XOR s"

text \<open>The searches for the pulses left behind a dimension; \<open>None\<close> when \<open>k\<close> would fall below zero.\<close>

fun down_rows :: "nat \<Rightarrow> nat \<Rightarrow> int \<Rightarrow> (nat \<times> int) option" where
  "down_rows n 0 i = None"
| "down_rows n (Suc k) i = (let p = CELT_PVQ_U_ROW k n in if p > i then down_rows n k i else Some (k, p))"

fun down_row :: "nat \<Rightarrow> nat \<Rightarrow> int \<Rightarrow> (nat \<times> int) option" where
  "down_row n 0 i = (let p = CELT_PVQ_U_ROW n 0 in if p > i then None else Some (0, p))"
| "down_row n (Suc k) i = (let p = CELT_PVQ_U_ROW n (Suc k) in if p > i then down_row n k i else Some (Suc k, p))"

text \<open>One dimension of \<open>n > 2\<close>: the value, the pulses and the number left.\<close>

definition cwrsi_dim :: "nat \<Rightarrow> nat \<Rightarrow> int \<Rightarrow> (int \<times> nat \<times> int) option" where
  "cwrsi_dim n k i =
     (if k \<ge> n
      then let p = CELT_PVQ_U_ROW n (k + 1); s = (if i \<ge> p then - 1 else 0); i = (if i \<ge> p then u32w (i - p) else i);
               q = CELT_PVQ_U_ROW n n
        in map_option (\<lambda>(k', p). (s16 (flip s (int k - int k')), k', u32w (i - p)))
             (if q > i then down_rows n n i else down_row n k i)
      else let p = CELT_PVQ_U_ROW k n; q = CELT_PVQ_U_ROW (k + 1) n
        in if p \<le> i \<and> i < q then Some (0, k, u32w (i - p))
           else let s = (if i \<ge> q then - 1 else 0); i = (if i \<ge> q then u32w (i - q) else i)
             in map_option (\<lambda>(k', p). (s16 (flip s (int k - int k')), k', u32w (i - p))) (down_rows n k i))"

text \<open>The last two dimensions.\<close>

definition cwrsi_last :: "nat \<Rightarrow> int \<Rightarrow> int \<times> int" where
  "cwrsi_last k i =
     (let p = 2 * int k + 1; s = (if i \<ge> p then - 1 else 0); i = (if i \<ge> p then u32w (i - p) else i);
          k' = (i + 1) div 2; i = (if k' \<noteq> 0 then u32w (i - (2 * k' - 1)) else i)
      in (s16 (flip s (int k - k')), s16 (flip (- i) k')))"

text \<open>\<open>yy\<close> is the energy so far.\<close>

fun cwrsi_from :: "nat \<Rightarrow> nat \<Rightarrow> int \<Rightarrow> int \<Rightarrow> (int list \<times> int) option" where
  "cwrsi_from n k i yy =
     (if n > 2
      then Option.bind (cwrsi_dim n k i) (\<lambda>(v, k, i).
             map_option (\<lambda>(y, yy). (v # y, yy)) (cwrsi_from (n - 1) k i (i32 (yy + v * v))))
      else let (v, w) = cwrsi_last k i in Some ([v, w], i32 (i32 (yy + v * v) + w * w)))"

declare cwrsi_from.simps [simp del]

definition cwrsi :: "nat \<Rightarrow> nat \<Rightarrow> int \<Rightarrow> (int list \<times> int) option" where
  "cwrsi n k i = cwrsi_from n k i 0"

definition decode_pulses :: "nat \<Rightarrow> nat \<Rightarrow> ec_ctx \<Rightarrow> ((int list \<times> int) \<times> ec_ctx) option" where
  "decode_pulses n k dec =
     Option.bind (ec_dec_uint (CELT_PVQ_V n k) dec) (\<lambda>(i, dec). map_option (\<lambda>r. (r, dec)) (cwrsi n k i))"

section \<open>The counting function\<close>

definition V :: "nat \<Rightarrow> nat \<Rightarrow> int" where
  "V n k = U n k + U n (k + 1)"

lemma U_nonneg [simp]: "0 \<le> U n k"
  by (induction n k rule: U.induct) simp_all

lemma U_zero [simp]: "U (Suc n) 0 = 0"
  by simp

lemma U_step: "U (Suc n) (Suc k) = U (Suc n) k + V n k"
  by (simp add: V_def)

lemma V_nonneg [simp]: "0 \<le> V n k"
  by (simp add: V_def)

lemma U_mono:
  assumes "0 < n" and "k \<le> k'"
  shows "U n k \<le> U n k'"
  using assms(2)
proof (induction k')
  case (Suc k')
  moreover have "U n k' \<le> U n (Suc k')" using assms(1) by (cases n) (simp_all add: U_step del: U.simps)
  ultimately show ?case by (auto simp: le_Suc_eq intro: order_trans)
qed simp

lemma U_0 [simp]: "U 0 k = (if k = 0 then 1 else 0)"
  by (cases k) simp_all

lemma U_1 [simp]: "U (Suc 0) k = (if k = 0 then 0 else 1)"
  by (induction k) (auto simp: gr0_conv_Suc elim: U.elims)

lemma U_2: "U 2 (Suc k) = 2 * int k + 1"
  by (induction k) (simp_all add: numeral_2_eq_2)

lemma V_mono: "0 < n \<Longrightarrow> n \<le> n' \<Longrightarrow> k \<le> k' \<Longrightarrow> V n k \<le> V n' k'"
proof -
  assume n: "0 < n" "n \<le> n'" and k: "k \<le> k'"
  have U: "U n j \<le> U n' j'" if "j \<le> j'" for j j'
  proof (cases "j' = 0")
    case False
    have "U n j \<le> U n j'" using n(1) that by (rule U_mono)
    also have "U n j' \<le> U n' j'" using U_mono [of j' n n'] False n(2) U_commute by simp
    finally show ?thesis .
  qed (use n that in \<open>cases n; cases n'; simp\<close>)
  show ?thesis using U [of k k'] U [of "k + 1" "k' + 1"] k by (simp add: V_def)
qed

lemma V_pos: "0 < n \<Longrightarrow> 0 < V n k"
  using V_mono [of 1 n 0 k] by (simp add: V_def)

text \<open>The part of the table that is there; a band that can be coded.\<close>

definition in_table :: "nat \<Rightarrow> nat \<Rightarrow> bool" where
  "in_table n k = (min n k \<le> 14 \<and> max n k \<le> row_last ! min n k)"

definition pvq_ok :: "nat \<Rightarrow> nat \<Rightarrow> bool" where
  "pvq_ok n k = (2 \<le> n \<and> 0 < k \<and> in_table n (k + 1) \<and> V n k < 4294967296)"

lemma row_last_antimono: "i \<le> j \<Longrightarrow> j \<le> 14 \<Longrightarrow> row_last ! j \<le> row_last ! i"
proof (cases "i = j")
  case False
  assume "i \<le> j" "j \<le> 14"
  moreover have "sorted_wrt (\<ge>) row_last" by (simp add: row_last_def)
  moreover have "length row_last = 15" by (simp add: row_last_def)
  ultimately show ?thesis using False by (intro sorted_wrt_nth_less [of "(\<ge>)"]) simp_all
qed simp

lemma in_table_mono:
  assumes "in_table n k" and "n' \<le> n" and "k' \<le> k"
  shows "in_table n' k'"
proof -
  have m: "min n' k' \<le> min n k" "max n' k' \<le> max n k" using assms(2,3) by auto
  from assms(1) have t: "min n k \<le> 14" "max n k \<le> row_last ! min n k" unfolding in_table_def by blast+
  from row_last_antimono [OF m(1) t(1)] m t show ?thesis unfolding in_table_def by (meson order_trans)
qed

lemma in_table_le: "in_table n k \<Longrightarrow> k \<le> 176"
  using row_last_antimono [of 0 "min n k"] by (auto simp: in_table_def row_last_def)

lemma row_U: "in_table n k \<Longrightarrow> n \<le> k \<Longrightarrow> CELT_PVQ_U_ROW n k = U n k"
  and row_U': "in_table n k \<Longrightarrow> k \<le> n \<Longrightarrow> CELT_PVQ_U_ROW k n = U n k"
  unfolding U_commute [of n k] by (simp_all add: in_table_def min_def max_def table_correct U_commute [of k n] split: if_splits)

lemma PVQ_U: "in_table n k \<Longrightarrow> CELT_PVQ_U n k = U n k"
  by (cases "n \<le> k") (simp_all add: CELT_PVQ_U_def min_def max_def row_U row_U')

lemma PVQ_V: "pvq_ok n k \<Longrightarrow> CELT_PVQ_V n k = V n k"
proof -
  assume ok: "pvq_ok n k"
  then have "in_table n k" by (auto simp: pvq_ok_def elim: in_table_mono)
  with ok show ?thesis using V_nonneg [of n k] by (simp add: CELT_PVQ_V_def PVQ_U V_def pvq_ok_def u32w_id)
qed

section \<open>The number of a vector\<close>

definition weight :: "int list \<Rightarrow> nat" where
  "weight ys = nat (sum_list (map abs ys))"

lemma weight_simps [simp]: "weight [] = 0" "weight (y # ys) = nat \<bar>y\<bar> + weight ys"
proof -
  have "0 \<le> sum_list (map abs ys)" by (induction ys) simp_all
  then show "weight (y # ys) = nat \<bar>y\<bar> + weight ys" by (simp add: weight_def nat_add_distrib)
qed (simp add: weight_def)

fun pulse_index :: "int list \<Rightarrow> int" where
  "pulse_index [] = 0"
| "pulse_index (y # ys) = pulse_index ys + U (Suc (length ys)) (weight ys)
     + (if y < 0 then U (Suc (length ys)) (weight (y # ys) + 1) else 0)"

lemma pulse_index_bounds: "0 \<le> pulse_index ys \<and> pulse_index ys < V (length ys) (weight ys)"
proof (induction ys)
  case (Cons y ys)
  let ?n = "Suc (length ys)"
  have "pulse_index ys + U ?n (weight ys) < U ?n (Suc (weight ys))" using Cons U_step [of "length ys" "weight ys"] by linarith
  moreover have "U ?n (Suc (weight ys)) \<le> U ?n (if y < 0 then weight (y # ys) else Suc (weight (y # ys)))"
    by (intro U_mono) auto
  moreover have "0 \<le> U ?n (weight ys)" "0 \<le> U ?n (weight (y # ys))" "0 \<le> U ?n (Suc (weight (y # ys)))" by simp_all
  moreover have "0 \<le> pulse_index ys" using Cons by simp
  moreover have "V (length (y # ys)) (weight (y # ys)) = U ?n (weight (y # ys)) + U ?n (Suc (weight (y # ys)))"
    "pulse_index (y # ys) = pulse_index ys + U ?n (weight ys) + (if y < 0 then U ?n (Suc (weight (y # ys))) else 0)"
    by (simp_all add: V_def del: U.simps weight_simps)
  ultimately show ?case by (cases "y < 0") (simp_all del: U.simps U_nonneg weight_simps)
qed (simp add: V_def)

lemma pulse_index_inj:
  "pulse_index xs = pulse_index ys \<Longrightarrow> length xs = length ys \<Longrightarrow> weight xs = weight ys \<Longrightarrow> xs = ys"
proof (induction xs ys rule: list_induct2')
  case (4 x xs y ys)
  let ?n = "Suc (length xs)" and ?k = "weight (x # xs)"
  let ?a = "pulse_index xs + U ?n (weight xs)" and ?b = "pulse_index ys + U ?n (weight ys)"
  have len: "length ys = length xs" and k: "weight (y # ys) = ?k" using 4(3,4) by simp_all
  have a: "0 \<le> ?a" "U ?n (weight xs) \<le> ?a" "?a < U ?n (Suc (weight xs))" "?a < U ?n (Suc ?k)"
    using pulse_index_bounds [of xs] U_step [of "length xs" "weight xs"] U_mono [of ?n "Suc (weight xs)" "Suc ?k"] by auto
  have b: "0 \<le> ?b" "U ?n (weight ys) \<le> ?b" "?b < U ?n (Suc (weight ys))" "?b < U ?n (Suc ?k)"
    using pulse_index_bounds [of ys] U_step [of "length xs" "weight ys"] U_mono [of ?n "Suc (weight ys)" "Suc ?k"] k len by auto
  have eq: "?a + (if x < 0 then U ?n (Suc ?k) else 0) = ?b + (if y < 0 then U ?n (Suc ?k) else 0)"
    using 4(2) k len by (cases "x < 0"; cases "y < 0"; simp del: U.simps weight_simps)
  have "(x < 0 \<longleftrightarrow> y < 0) \<and> a = b"
    if "a + (if x < 0 then u else 0) = b + (if y < 0 then u else 0)" "0 \<le> a" "0 \<le> b" "a < u" "b < u" for a b u :: int
    using that by (auto split: if_splits)
  from this [OF eq a(1) b(1) a(4) b(4)] have sgn: "x < 0 \<longleftrightarrow> y < 0" and ab: "?a = ?b" by blast+
  have w: "weight xs = weight ys"
  proof (rule linorder_cases [of "weight xs" "weight ys"])
    assume "weight xs < weight ys"
    then have "U ?n (Suc (weight xs)) \<le> U ?n (weight ys)" by (intro U_mono) auto
    with a b ab show ?thesis by linarith
  next
    assume "weight ys < weight xs"
    then have "U ?n (Suc (weight ys)) \<le> U ?n (weight xs)" by (intro U_mono) auto
    with a b ab show ?thesis by linarith
  qed
  then have "xs = ys" using 4(1) ab len by simp
  moreover have "\<bar>x\<bar> = \<bar>y\<bar>" using k w by simp
  ultimately show ?case using sgn by auto
qed simp_all

section \<open>The encoder computes the number\<close>

lemma icwrs_from_index:
  assumes "ys \<noteq> []" and "in_table (length ys) (weight ys + 1)" and "V (length ys) (weight ys) < 4294967296"
  shows "icwrs_from ys = (weight ys, pulse_index ys)"
  using assms
proof (induction ys rule: icwrs_from.induct)
  case (3 y z zs)
  let ?ys = "z # zs" and ?n = "length (y # z # zs)"
  have mono: "weight ?ys \<le> weight (y # ?ys)" by simp
  then have tab: "in_table (length ?ys) (weight ?ys + 1)" "in_table ?n (weight ?ys)" "in_table ?n (weight (y # ?ys) + 1)"
    using in_table_mono [OF 3(3)] 3(3) by auto
  have "V (length ?ys) (weight ?ys) \<le> V ?n (weight (y # ?ys))" using mono by (intro V_mono) simp_all
  then have IH: "icwrs_from ?ys = (weight ?ys, pulse_index ?ys)" using 3(1) [OF _ tab(1)] 3(4) by simp
  let ?i = "pulse_index ?ys + U ?n (weight ?ys)"
  have b: "0 \<le> pulse_index (y # ?ys)" "pulse_index (y # ?ys) < 4294967296"
    using pulse_index_bounds [of "y # ?ys"] 3(4) by simp_all
  have idx: "pulse_index (y # ?ys) = ?i + (if y < 0 then U ?n (weight (y # ?ys) + 1) else 0)" by simp
  have "0 \<le> ?i" using pulse_index_bounds [of ?ys] by (simp add: add_nonneg_nonneg)
  moreover have "?i \<le> pulse_index (y # ?ys)" unfolding idx by (simp del: U.simps)
  ultimately have "u32w ?i = ?i" "u32w (pulse_index (y # ?ys)) = pulse_index (y # ?ys)" using b by (simp_all add: u32w_id)
  then show ?case using tab idx
    by (cases "y < 0") (simp_all add: IH PVQ_U Let_def add.commute del: U.simps pulse_index.simps)
qed simp_all

lemma icwrs_index:
  assumes "pvq_ok (length y) k" and "weight y = k"
  shows "icwrs y = pulse_index y"
  using icwrs_from_index [of y] assms by (cases y) (simp_all add: icwrs_def pvq_ok_def del: icwrs_from.simps pulse_index.simps weight_simps)

section \<open>The decoder finds the vector\<close>

lemma flip_simps [simp]: "flip 0 x = x" "flip (- 1) x = - x"
  by (simp_all add: flip_def minus_eq_not_minus_1 [of x] bit.xor_one_right)

lemma down_rows:
  assumes "in_table n k" and "k \<le> n" and "0 < n" and "0 \<le> i" and "i < U n k"
  shows "\<exists>k'. down_rows n k i = Some (k', U n k') \<and> k' < k \<and> U n k' \<le> i \<and> i < U n (Suc k')"
  using assms
proof (induction k)
  case 0
  then show ?case by (cases n) simp_all
next
  case (Suc k)
  have tab: "in_table n k" using in_table_mono [OF Suc.prems(1)] by simp
  then have p: "CELT_PVQ_U_ROW k n = U n k" using Suc.prems(2) by (intro row_U') simp_all
  show ?case
  proof (cases "U n k > i")
    case True
    with Suc tab p show ?thesis by (auto simp del: U.simps)
  qed (use Suc.prems p in \<open>simp add: Let_def del: U.simps\<close>)
qed

lemma down_row:
  assumes "in_table n k" and "n \<le> k" and "0 < n" and "U n n \<le> i" and "i < U n (Suc k)"
  shows "\<exists>k'. down_row n k i = Some (k', U n k') \<and> k' \<le> k \<and> U n k' \<le> i \<and> i < U n (Suc k')"
  using assms
proof (induction k)
  case (Suc k)
  have tab: "in_table n k" using in_table_mono [OF Suc.prems(1)] by simp
  have p: "CELT_PVQ_U_ROW n (Suc k) = U n (Suc k)" using Suc.prems(1,2) by (intro row_U) simp_all
  show ?case
  proof (cases "U n (Suc k) > i")
    case True
    then have "n \<noteq> Suc k" using Suc.prems(4) by auto
    with True Suc tab p show ?thesis by (auto simp: le_Suc_eq simp del: U.simps)
  qed (use Suc.prems p in \<open>simp add: Let_def del: U.simps\<close>)
qed simp

text \<open>What a decoded dimension says of the number: the reverse of \<open>pulse_index\<close>.\<close>

definition splits_off :: "nat \<Rightarrow> nat \<Rightarrow> int \<Rightarrow> int \<Rightarrow> nat \<Rightarrow> int \<Rightarrow> bool" where
  "splits_off n k i v k' i' = (k = nat \<bar>v\<bar> + k' \<and> 0 \<le> i' \<and> i' < V (n - 1) k'
     \<and> i = i' + U n k' + (if v < 0 then U n (k + 1) else 0))"

lemma splits_offI:
  assumes "0 < n" and "k' \<le> k" and "U n k' \<le> i" and "i < U n (Suc k')" and "neg \<Longrightarrow> k' < k" and "k < 32768"
  shows "splits_off n k (i + (if neg then U n (k + 1) else 0)) (s16 (flip (if neg then - 1 else 0) (int k - int k'))) k' (i - U n k')"
proof -
  obtain m where n: "n = Suc m" using assms(1) gr0_conv_Suc by auto
  have "s16 (flip (if neg then - 1 else 0) (int k - int k')) = (if neg then int k' - int k else int k - int k')"
    using assms(2,6) by (simp add: s16_id)
  then show ?thesis using assms U_step [of m k'] by (auto simp: splits_off_def n simp del: U.simps)
qed

lemma cwrsi_dim_splits:
  assumes n: "2 < n" and tab: "in_table n (k + 1)" and v: "V n k < 4294967296" and i: "0 \<le> i" "i < V n k"
  shows "\<exists>v k' i'. cwrsi_dim n k i = Some (v, k', i') \<and> splits_off n k i v k' i'"
proof -
  define neg where "neg = (i \<ge> U n (k + 1))"
  define j where "j = i - (if neg then U n (k + 1) else 0)"
  have ij: "i = j + (if neg then U n (k + 1) else 0)" by (simp add: j_def)
  have j: "0 \<le> j" "j < U n (Suc k)" "neg \<Longrightarrow> j < U n k" "j < 4294967296"
    using i v U_mono [of n k "Suc k"] n by (auto simp: j_def neg_def V_def simp del: U.simps U_nonneg)
  have k: "k < 32768" using in_table_le [OF tab] by simp
  have iu: "(if i \<ge> U n (k + 1) then u32w (i - U n (k + 1)) else i) = j"
    using j(1,4) i v by (auto simp: j_def neg_def u32w_id)
  have found: "\<exists>v k' i'. map_option (\<lambda>(k', p). (s16 (flip (if i \<ge> U n (k + 1) then - 1 else 0) (int k - int k')), k', u32w (j - p))) r
        = Some (v, k', i') \<and> splits_off n k i v k' i'"
    if "r = Some (k', U n k')" "k' \<le> k" "U n k' \<le> j" "j < U n (Suc k')" "neg \<Longrightarrow> k' < k" for r k'
  proof -
    have "u32w (j - U n k') = j - U n k'" using that(3) j(4) U_nonneg [of n k'] by (intro u32w_id) linarith+
    moreover have "splits_off n k i (s16 (flip (if neg then - 1 else 0) (int k - int k'))) k' (j - U n k')"
      using splits_offI [of n k' k j neg] that n k unfolding ij [symmetric] by simp
    ultimately show ?thesis unfolding neg_def that(1) by (simp del: flip_simps U.simps split del: if_split)
  qed
  show ?thesis
  proof (cases "k \<ge> n")
    case True
    have rows: "CELT_PVQ_U_ROW n (k + 1) = U n (k + 1)" "CELT_PVQ_U_ROW n n = U n n" "in_table n n" "in_table n k"
      using tab True in_table_mono [OF tab] by (auto intro!: row_U)
    have r: "\<exists>k'. (if U n n > j then down_rows n n j else down_row n k j) = Some (k', U n k')
        \<and> k' \<le> k \<and> U n k' \<le> j \<and> j < U n (Suc k') \<and> (neg \<longrightarrow> k' < k)"
    proof (cases "U n n > j")
      case True
      with down_rows [OF rows(3), of j] n j(1) \<open>k \<ge> n\<close> show ?thesis by fastforce
    next
      case False
      then obtain k' where k': "down_row n k j = Some (k', U n k')" "k' \<le> k" "U n k' \<le> j" "j < U n (Suc k')"
        using down_row [OF rows(4) True, of j] n j(2) by (auto simp: not_less)
      moreover have "k' \<noteq> k" if neg using j(3) [OF that] k'(3) by auto
      ultimately show ?thesis using False by auto
    qed
    have "cwrsi_dim n k i = map_option (\<lambda>(k', p). (s16 (flip (if i \<ge> U n (k + 1) then - 1 else 0) (int k - int k')), k', u32w (j - p)))
        (if U n n > j then down_rows n n j else down_row n k j)"
      unfolding cwrsi_dim_def Let_def rows(1,2) iu by (simp only: True if_True)
    moreover obtain k' where "(if U n n > j then down_rows n n j else down_row n k j) = Some (k', U n k')"
      "k' \<le> k" "U n k' \<le> j" "j < U n (Suc k')" "neg \<longrightarrow> k' < k" using r by blast
    ultimately show ?thesis using found by (simp only:)
  next
    case False
    have rows: "CELT_PVQ_U_ROW k n = U n k" "CELT_PVQ_U_ROW (k + 1) n = U n (k + 1)" "in_table n k"
      using tab False in_table_mono [OF tab] by (auto intro!: row_U')
    show ?thesis
    proof (cases "U n k \<le> i \<and> i < U n (k + 1)")
      case True
      then have u: "u32w (i - U n k) = i - U n k" using i v U_nonneg [of n k] by (intro u32w_id) linarith+
      have "cwrsi_dim n k i = Some (0, k, u32w (i - U n k))"
        unfolding cwrsi_dim_def Let_def rows(1,2) by (simp only: True \<open>\<not> k \<ge> n\<close> if_False if_True simp_thms)
      moreover obtain m where "n = Suc m" using n gr0_conv_Suc by auto
      then have "splits_off n k i 0 k (i - U n k)" using True U_step [of m k] by (simp add: splits_off_def del: U.simps)
      ultimately show ?thesis unfolding u by blast
    next
      case no: False
      then have "j < U n k" using j(3) by (auto simp: j_def neg_def)
      with down_rows [OF rows(3)] n j(1) False obtain k' where
        "down_rows n k j = Some (k', U n k')" "k' < k" "U n k' \<le> j" "j < U n (Suc k')" by fastforce
      moreover have "cwrsi_dim n k i = map_option (\<lambda>(k', p). (s16 (flip (if i \<ge> U n (k + 1) then - 1 else 0) (int k - int k')), k', u32w (j - p)))
          (down_rows n k j)"
        unfolding cwrsi_dim_def Let_def rows(1,2) iu by (simp only: False no if_False)
      ultimately show ?thesis using found [of "down_rows n k j" k'] by simp
    qed
  qed
qed

text \<open>The last two dimensions.\<close>

lemma cwrsi_last_index:
  assumes "0 \<le> i" and "i < V 2 k" and "k < 32768"
  shows "case cwrsi_last k i of (v, w) \<Rightarrow> weight [v, w] = k \<and> pulse_index [v, w] = i"
proof -
  define neg where "neg = (i \<ge> 2 * int k + 1)"
  define j where "j = i - (if neg then 2 * int k + 1 else 0)"
  have V: "V 2 k = (if k = 0 then 1 else 4 * int k)"
    by (cases k) (simp_all add: V_def U_2 del: U.simps, simp add: numeral_2_eq_2)
  have j: "0 \<le> j" "j < 2 * int k + 1" "neg \<Longrightarrow> j < 2 * int k - 1" "j < 4294967296"
    using assms V by (auto simp: j_def neg_def split: if_splits)
  have ju: "(if i \<ge> 2 * int k + 1 then u32w (i - (2 * int k + 1)) else i) = j"
    using j(1,4) by (auto simp: j_def neg_def u32w_id)
  define k' where "k' = (j + 1) div 2"
  have k': "0 \<le> k'" "2 * k' - 1 \<le> j" "j < 2 * k' + 1" using j(1) by (simp_all add: k'_def)
  then have kk: "k' \<le> int k" "neg \<Longrightarrow> k' < int k" using j by linarith+
  define w where "w = (if k' \<noteq> 0 then j - (2 * k' - 1) else j)"
  have w: "w = 0 \<or> w = 1" "k' = 0 \<Longrightarrow> w = 0" using k' j(1) by (auto simp: w_def)
  then have w1: "w = 1 \<Longrightarrow> 0 < k'" using k'(1) by force
  have wu: "(if k' \<noteq> 0 then u32w (j - (2 * k' - 1)) else j) = w"
    using k' j(1,4) w by (auto simp: w_def u32w_id)
  let ?v = "if neg then k' - int k else int k - k'" and ?w = "if w = 1 then - k' else k'"
  have last: "cwrsi_last k i = (?v, ?w)"
  proof -
    have "s16 (flip (if neg then - 1 else 0) (int k - k')) = ?v" "s16 (flip (- w) k') = ?w"
      using kk k' w assms(3) by (auto simp: s16_id)
    then show ?thesis unfolding cwrsi_last_def Let_def unfolding ju unfolding k'_def [symmetric] unfolding wu
      unfolding neg_def [symmetric] by (simp only:)
  qed
  have i: "i = j + (if neg then 2 * int k + 1 else 0)" by (simp add: j_def)
  define v where "v = ?v"
  define x where "x = ?w"
  have "v < 0 \<longleftrightarrow> neg" "x < 0 \<longleftrightarrow> w = 1" "nat \<bar>v\<bar> + nat \<bar>x\<bar> = k" "nat \<bar>x\<bar> = nat k'"
    using kk k' w w1 by (auto simp: v_def x_def)
  moreover have "U 2 (nat k') = (if k' = 0 then 0 else 2 * k' - 1)" "U 2 (Suc k) = 2 * int k + 1"
  proof -
    show "U 2 (Suc k) = 2 * int k + 1" by (rule U_2)
    show "U 2 (nat k') = (if k' = 0 then 0 else 2 * k' - 1)"
      using k'(1) U_2 [of "nat k' - 1"] by (cases "k' = 0") (simp_all add: numeral_2_eq_2)
  qed
  moreover have "j = w + (if k' = 0 then 0 else 2 * k' - 1)" by (simp add: w_def)
  ultimately have "weight [v, x] = k \<and> pulse_index [v, x] = i" using w i
    by (auto simp: numeral_2_eq_2 [symmetric] simp del: U.simps)
  then show ?thesis by (simp only: last v_def x_def prod.case)
qed

text \<open>The energy the decoder adds up on the way, and the whole vector.\<close>

definition vector_energy :: "int list \<Rightarrow> int" where
  "vector_energy ys = sum_list (map (\<lambda>v. v * v) ys)"

lemma vector_energy_bounds: "0 \<le> vector_energy ys \<and> vector_energy ys \<le> int (weight ys) * int (weight ys)"
proof (induction ys)
  case (Cons y ys)
  have "int (weight (y # ys)) * int (weight (y # ys)) = y * y + int (weight ys) * int (weight ys) + 2 * \<bar>y\<bar> * int (weight ys)"
    by (simp add: algebra_simps)
  moreover have "0 \<le> 2 * \<bar>y\<bar> * int (weight ys)" "0 \<le> y * y" by simp_all
  moreover have "vector_energy (y # ys) = y * y + vector_energy ys" by (simp add: vector_energy_def)
  ultimately show ?case using Cons by linarith
qed (simp add: vector_energy_def)

lemma cwrsi_from_index:
  assumes "2 \<le> n" and "in_table n (k + 1)" and "V n k < 4294967296" and "0 \<le> i" and "i < V n k"
  shows "\<exists>y. cwrsi_from n k i yy = Some (y, i32 (yy + vector_energy y)) \<and> length y = n \<and> weight y = k \<and> pulse_index y = i"
  using assms
proof (induction n arbitrary: k i yy)
  case (Suc m)
  show ?case
  proof (cases "Suc m > 2")
    case True
    from cwrsi_dim_splits [OF this Suc.prems(2,3,4,5)] obtain v k' i' where
      dim: "cwrsi_dim (Suc m) k i = Some (v, k', i')" and s: "splits_off (Suc m) k i v k' i'" by blast
    from s have k: "k = nat \<bar>v\<bar> + k'" and i: "0 \<le> i'" "i' < V m k'"
      and idx: "i = i' + U (Suc m) k' + (if v < 0 then U (Suc m) (k + 1) else 0)" by (simp_all add: splits_off_def)
    have tab: "in_table m (k' + 1)" using in_table_mono [OF Suc.prems(2)] k by simp
    have "V m k' \<le> V (Suc m) k" using True k by (intro V_mono) simp_all
    then have v: "V m k' < 4294967296" using Suc.prems(3) by simp
    from Suc.IH [OF _ tab v i, of "i32 (yy + v * v)"] True obtain y where
      y: "cwrsi_from m k' i' (i32 (yy + v * v)) = Some (y, i32 (i32 (yy + v * v) + vector_energy y))" "length y = m" "weight y = k'"
        "pulse_index y = i'" by auto
    then have "cwrsi_from (Suc m) k i yy = Some (v # y, i32 (yy + vector_energy (v # y)))"
      using True dim by (subst cwrsi_from.simps) (simp add: i32_add vector_energy_def add.assoc)
    moreover have "length (v # y) = Suc m" "weight (v # y) = k" "pulse_index (v # y) = i"
      using y k idx by (simp_all del: U.simps)
    ultimately show ?thesis by blast
  next
    case False
    with Suc.prems(1) have m: "Suc m = 2" by simp
    have k: "k < 32768" using in_table_le [OF Suc.prems(2)] by simp
    obtain v w where last: "cwrsi_last k i = (v, w)" by force
    with cwrsi_last_index [OF _ _ k, of i] Suc.prems(4,5) have "weight [v, w] = k" "pulse_index [v, w] = i"
      unfolding m by simp_all
    moreover have "cwrsi_from (Suc m) k i yy = Some ([v, w], i32 (yy + vector_energy [v, w]))"
      unfolding m by (subst cwrsi_from.simps) (simp add: last i32_add vector_energy_def add.assoc)
    ultimately show ?thesis unfolding m by (intro exI [of _ "[v, w]"]) simp
  qed
qed simp

lemma cwrsi_decodes:
  assumes "pvq_ok n k" and "0 \<le> i" and "i < V n k"
  shows "\<exists>y. cwrsi n k i = Some (y, vector_energy y) \<and> length y = n \<and> weight y = k \<and> icwrs y = i"
proof -
  from assms(1) have ok: "2 \<le> n" "in_table n (k + 1)" "V n k < 4294967296" by (simp_all add: pvq_ok_def)
  from cwrsi_from_index [OF ok assms(2,3), of 0] obtain y where
    y: "cwrsi n k i = Some (y, i32 (vector_energy y))" "length y = n" "weight y = k" "pulse_index y = i" by (auto simp: cwrsi_def)
  have "k \<le> 175" using in_table_le [OF ok(2)] by simp
  then have "int (weight y) * int (weight y) \<le> 175 * 175" unfolding y(3) by (intro mult_mono) simp_all
  then have "i32 (vector_energy y) = vector_energy y" using vector_energy_bounds [of y] by (intro i32_id) linarith+
  with y icwrs_index [of y k] assms(1) show ?thesis by auto
qed

lemma cwrsi_icwrs:
  assumes "pvq_ok (length y) k" and "weight y = k"
  shows "cwrsi (length y) k (icwrs y) = Some (y, vector_energy y)"
proof -
  have i: "icwrs y = pulse_index y" by (rule icwrs_index [OF assms])
  have b: "0 \<le> pulse_index y" "pulse_index y < V (length y) k" using pulse_index_bounds [of y] assms(2) by auto
  from cwrsi_decodes [OF assms(1) b] obtain z where
    z: "cwrsi (length y) k (pulse_index y) = Some (z, vector_energy z)" "length z = length y" "weight z = k" "icwrs z = pulse_index y"
    by blast
  then have "pulse_index z = pulse_index y" using icwrs_index [of z k] assms(1) by simp
  then have "z = y" using z(2,3) assms(2) by (intro pulse_index_inj) simp_all
  with z(1) i show ?thesis by simp
qed

section \<open>Both ways\<close>

lemma pulse_bij:
  assumes "pvq_ok n k"
  shows "bij_betw icwrs {y. length y = n \<and> weight y = k} {0..<CELT_PVQ_V n k}"
  unfolding PVQ_V [OF assms]
proof (rule bij_betwI')
  fix x y assume "x \<in> {y. length y = n \<and> weight y = k}" "y \<in> {y. length y = n \<and> weight y = k}"
  then show "(icwrs x = icwrs y) = (x = y)"
    using icwrs_index [of x k] icwrs_index [of y k] pulse_index_inj [of x y] assms by auto
next
  fix y assume "y \<in> {y. length y = n \<and> weight y = k}"
  then show "icwrs y \<in> {0..<V n k}" using icwrs_index [of y k] pulse_index_bounds [of y] assms by auto
next
  fix i assume "i \<in> {0..<V n k}"
  then show "\<exists>y \<in> {y. length y = n \<and> weight y = k}. i = icwrs y" using cwrsi_decodes [OF assms, of i] by auto
qed

text \<open>
  C12: The numbering of pulse vectors is exact. For every band that the table covers, \<open>icwrs\<close> maps the vectors
  of \<open>n\<close> entries whose absolute values sum to \<open>k\<close> one to one onto the numbers below \<open>CELT_PVQ_V n k\<close>, so no
  code is wasted and none is out of range; \<open>cwrsi\<close>, which searches the table, finds the vector of each number again and
  with it the sum of the squares of its entries.
\<close>

theorem pulse_numbering:
  assumes "pvq_ok n k"
  shows "bij_betw icwrs {y. length y = n \<and> weight y = k} {0..<CELT_PVQ_V n k}
    \<and> (\<forall>y. length y = n \<and> weight y = k \<longrightarrow> cwrsi n k (icwrs y) = Some (y, vector_energy y))"
  using pulse_bij [OF assms] cwrsi_icwrs assms by blast

lemma pulse_numbering_witness:
  "icwrs [1, 0, - 2, 0] = 17 \<and> cwrsi 4 3 (icwrs [1, 0, - 2, 0]) = Some ([1, 0, - 2, 0], 5) \<and> CELT_PVQ_V 4 3 = 88"
proof -
  have "pvq_ok 4 3" by code_simp
  from conjunct2 [OF pulse_numbering [OF this], rule_format, of "[1, 0, - 2, 0]"]
  have "cwrsi 4 3 (icwrs [1, 0, - 2, 0]) = Some ([1, 0, - 2, 0], 5)" by (simp add: vector_energy_def)
  moreover have "icwrs [1, 0, - 2, 0] = 17 \<and> CELT_PVQ_V 4 3 = 88" by code_simp
  ultimately show ?thesis by blast
qed

section \<open>In the stream\<close>

lemma pulses_lockstep:
  assumes "pvq_ok (length y) k" and "weight y = k"
  shows "lockstep (encode_pulses y (length y) k) (decode_pulses (length y) k) (y, vector_energy y)"
proof -
  have i: "0 \<le> icwrs y" "icwrs y < V (length y) k"
    using icwrs_index [OF assms] pulse_index_bounds [of y] assms(2) by auto
  have "V 2 1 \<le> V (length y) k" using assms by (intro V_mono) (simp_all add: pvq_ok_def)
  then have "2 \<le> V (length y) k" by (simp add: V_def numeral_2_eq_2)
  then have "lockstep (ec_enc_uint (icwrs y) (V (length y) k)) (ec_dec_uint (V (length y) k)) (icwrs y)"
    using i assms(1) by (intro uint_lockstep) (simp_all add: pvq_ok_def)
  then have "lockstep (ec_enc_uint (icwrs y) (V (length y) k)) (decode_pulses (length y) k) (y, vector_energy y)"
    by (rule lockstep_decoder) (simp add: decode_pulses_def PVQ_V [OF assms(1)] cwrsi_icwrs [OF assms])
  then show ?thesis by (simp add: encode_pulses_def [abs_def] PVQ_V [OF assms(1)])
qed

end
