(* ===== verification/Laplace.thy ===== *)
theory Laplace
  imports Range_Codec
begin

text \<open>
  The coding of an energy delta (\<open>celt/laplace.c\<close>): zero has probability \<open>fs\<close> out of 32768, the
  others share the rest, halved for the sign and decaying, down to a tail of single units.
\<close>

section \<open>The encoder and the decoder (laplace.c)\<close>

definition LAPLACE_MINP :: int where "LAPLACE_MINP = 1"
definition LAPLACE_NMIN :: int where "LAPLACE_NMIN = 16"

definition ec_laplace_get_freq1 :: "int \<Rightarrow> int \<Rightarrow> int" where
  "ec_laplace_get_freq1 fs0 decay =
     (let ft = u32w (32768 - LAPLACE_MINP * (2 * LAPLACE_NMIN) - fs0) in u32w (ft * (16384 - decay)) div 2 ^ 15)"

text \<open>The search of the decaying part, from delta \<open>i\<close> up to \<open>val\<close>: where it ends.\<close>

function enc_decay :: "int \<Rightarrow> nat \<Rightarrow> nat \<Rightarrow> int \<Rightarrow> int \<Rightarrow> nat \<times> int \<times> int" where
  "enc_decay decay val i fl fs =
     (if fs > 0 \<and> i < val
      then let fs = u32w (fs * 2); fl = u32w (fl + (fs + 2 * LAPLACE_MINP)); fs = u32w (fs * decay) div 2 ^ 15
        in enc_decay decay val (i + 1) fl fs
      else (i, fl, fs))"
  by pat_completeness auto
termination by (relation "measure (\<lambda>(decay, val, i, fl, fs). val - i)") auto

declare enc_decay.simps [simp del]

text \<open>The interval of a delta, and the delta that it stands for: a far one is moved into the tail.\<close>

definition laplace_interval :: "int \<Rightarrow> int \<Rightarrow> int \<Rightarrow> int \<times> int \<times> int" where
  "laplace_interval value fs decay =
     (if value = 0 then (0, 0, fs)
      else let s = (if value < 0 then - 1 else 0);
               (i, fl, fs) = enc_decay decay (nat \<bar>value\<bar>) 1 fs (ec_laplace_get_freq1 fs decay)
        in if fs = 0
           then let ndi_max = (i32 (u32w (32768 - fl + LAPLACE_MINP - 1)) - s) div 2;
                    di = min (\<bar>value\<bar> - int i) (ndi_max - 1); fl = u32w (fl + (2 * di + 1 + s) * LAPLACE_MINP)
             in ((if s < 0 then - (int i + di) else int i + di), fl, min LAPLACE_MINP (u32w (32768 - fl)))
           else let fs = fs + LAPLACE_MINP in (value, (if s < 0 then fl else u32w (fl + fs)), fs))"

definition ec_laplace_encode :: "int \<Rightarrow> int \<Rightarrow> int \<Rightarrow> ec_ctx \<Rightarrow> (int \<times> ec_ctx) option" where
  "ec_laplace_encode value fs decay enc =
     (case laplace_interval value fs decay of (value, fl, fs) \<Rightarrow>
        map_option (Pair value) (ec_encode_bin fl (u32w (fl + fs)) 15 enc))"

partial_function (option) dec_decay :: "int \<Rightarrow> int \<Rightarrow> int \<Rightarrow> int \<Rightarrow> int \<Rightarrow> (int \<times> int \<times> int) option" where
  "dec_decay decay fm val fl fs =
     (if fs > LAPLACE_MINP \<and> fm \<ge> u32w (fl + u32w (2 * fs))
      then let fs = u32w (fs * 2); fl = u32w (fl + fs)
        in dec_decay decay fm (val + 1) fl (u32w (u32w ((fs - 2 * LAPLACE_MINP) * decay) div 2 ^ 15 + LAPLACE_MINP))
      else Some (val, fl, fs))"

declare dec_decay.simps [code]

text \<open>The delta a point stands for, with its interval.\<close>

definition laplace_lookup :: "int \<Rightarrow> int \<Rightarrow> int \<Rightarrow> (int \<times> int \<times> int) option" where
  "laplace_lookup fm fs decay =
     (if fm < fs then Some (0, 0, min fs 32768)
      else Option.bind (dec_decay decay fm 1 fs (u32w (ec_laplace_get_freq1 fs decay + LAPLACE_MINP))) (\<lambda>(val, fl, fs).
        let di = (if fs \<le> LAPLACE_MINP then u32w (fm - fl) div 2 else 0); val = val + di; fl = u32w (fl + 2 * di * LAPLACE_MINP)
        in if fm < u32w (fl + fs) then Some (- val, fl, min (u32w (fl + fs)) 32768)
           else let fl = u32w (fl + fs) in Some (val, fl, min (u32w (fl + fs)) 32768)))"

definition ec_laplace_decode :: "int \<Rightarrow> int \<Rightarrow> ec_ctx \<Rightarrow> (int \<times> ec_ctx) option" where
  "ec_laplace_decode fs decay dec =
     (let (fm, dec) = ec_decode_bin 15 dec
      in Option.bind (laplace_lookup fm fs decay) (\<lambda>(val, fl, fh). map_option (Pair val) (ec_dec_update fl fh 32768 dec)))"

section \<open>The two searches agree\<close>

definition decayed :: "int \<Rightarrow> int \<Rightarrow> int" where
  "decayed decay f = (2 * f * decay) div 2 ^ 15"

lemma decay_step:
  assumes "0 < f" and "f \<le> 16384" and "0 < decay" and "decay \<le> 16384"
  shows "u32w (f * 2) = 2 * f" and "u32w (2 * f * decay) = 2 * f * decay" and "0 \<le> decayed decay f" and "decayed decay f \<le> f"
proof -
  have b: "f * decay \<le> f * 16384" "0 < f * decay" using assms by simp_all
  with assms(2) have u: "0 \<le> 2 * f * decay" "2 * f * decay \<le> f * 32768" "2 * f * decay < 4294967296" by linarith+
  from assms show "u32w (f * 2) = 2 * f" by (simp add: u32w_id)
  from u(1,3) show "u32w (2 * f * decay) = 2 * f * decay" by (rule u32w_id)
  from zdiv_mono1 [OF u(1), of 32768] zdiv_mono1 [OF u(2), of 32768]
  show "0 \<le> decayed decay f" "decayed decay f \<le> f" unfolding decayed_def by simp_all
qed

lemma enc_decay_step:
  assumes "0 < f" and "f \<le> 16384" and "0 < decay" and "decay \<le> 16384" and "0 \<le> fl" and "fl \<le> 4000000" and "i < val"
  shows "enc_decay decay val i fl f = enc_decay decay val (i + 1) (fl + 2 * f + 2) (decayed decay f)"
proof -
  have "u32w (fl + (2 * f + 2 * LAPLACE_MINP)) = fl + 2 * f + 2"
    using assms by (subst u32w_id) (simp_all add: LAPLACE_MINP_def)
  then show ?thesis using assms(1,7) unfolding enc_decay.simps [of decay val i fl f] Let_def decay_step [OF assms(1-4)] decayed_def
    by simp
qed

lemma dec_decay_step:
  assumes "0 < f" and "f \<le> 16384" and "0 < decay" and "decay \<le> 16384" and "0 \<le> fl" and "fl \<le> 4000000"
  shows "dec_decay decay fm val fl (f + 1) =
    (if fl + 2 * (f + 1) \<le> fm then dec_decay decay fm (val + 1) (fl + 2 * f + 2) (decayed decay f + 1)
     else Some (val, fl, f + 1))"
proof -
  note d = decay_step [OF assms(1-4)]
  have u: "u32w (2 * (f + 1)) = 2 * (f + 1)" "u32w ((f + 1) * 2) = 2 * (f + 1)" "u32w (fl + 2 * f + 2) = fl + 2 * f + 2"
    "u32w (decayed decay f + LAPLACE_MINP) = decayed decay f + 1"
    using assms d(3,4) by (subst u32w_id; simp add: LAPLACE_MINP_def)+
  have e: "2 * (f + 1) - 2 * LAPLACE_MINP = 2 * f" "fl + 2 * (f + 1) = fl + 2 * f + 2" by (simp_all add: LAPLACE_MINP_def)
  have "f + 1 > LAPLACE_MINP" using assms(1) by (simp add: LAPLACE_MINP_def)
  then show ?thesis unfolding dec_decay.simps [of decay fm val fl "f + 1"] Let_def u e d(2) decayed_def [symmetric] by simp
qed

lemma dec_decay_stop: "f \<le> 0 \<Longrightarrow> dec_decay decay fm val fl (f + 1) = Some (val, fl, f + 1)"
  by (simp add: dec_decay.simps LAPLACE_MINP_def)

text \<open>
  For every delta the encoder ends its search inside the run that goes down to the tail, and the
  decoder, given any point of the pair of intervals found, stops at the same place.
\<close>

definition search_agrees :: "int \<Rightarrow> nat \<Rightarrow> nat \<Rightarrow> int \<Rightarrow> int \<Rightarrow> nat \<Rightarrow> int \<Rightarrow> nat \<Rightarrow> int \<Rightarrow> int \<Rightarrow> bool" where
  "search_agrees decay val i fl f iT flT i' fl' f' =
     (enc_decay decay val i fl f = (i', fl', f') \<and> fl \<le> fl' \<and> fl' \<le> flT \<and> 0 \<le> f' \<and> i \<le> i' \<and> i' \<le> val \<and> i' \<le> iT
     \<and> (f' = 0 \<longrightarrow> fl' = flT \<and> i' = iT) \<and> (0 < f' \<longrightarrow> i' = val \<and> fl' + 2 * (f' + 1) \<le> flT)
     \<and> (\<forall>fm \<ge> fl'. f' = 0 \<or> fm < fl' + 2 * (f' + 1) \<longrightarrow> dec_decay decay fm (int i) fl (f + 1) = Some (int i', fl', f' + 1)))"

lemma decay_agrees:
  assumes "enc_decay decay n i fl f = (iT, flT, 0)" and "i \<le> n" and "n \<le> 100" and "0 \<le> f" and "f \<le> 16384"
    and "0 \<le> fl" and "fl \<le> 40000 * int i" and "0 < decay" and "decay \<le> 16384" and "i \<le> val"
  shows "\<exists>i' fl' f'. search_agrees decay val i fl f iT flT i' fl' f'"
  using assms
proof (induction "n - i" arbitrary: i fl f val rule: less_induct)
  case less
  show ?case
  proof (cases "f = 0")
    case True
    with less.prems(1) have "iT = i" "flT = fl" by (simp_all add: enc_decay.simps)
    then have "search_agrees decay val i fl f iT flT i fl 0"
      using True less.prems(10) dec_decay_stop [of 0] by (simp add: search_agrees_def enc_decay.simps)
    then show ?thesis by blast
  next
    case False
    with less.prems(4) have f: "0 < f" by simp
    have in_: "i < n" using less.prems(1,2) f by (cases "i = n") (simp_all add: enc_decay.simps)
    then have fl: "fl \<le> 4000000" using less.prems(3,7) by simp
    note dec = dec_decay_step [OF f less.prems(5,8,9,6) fl]
    note enc = enc_decay_step [OF f less.prems(5,8,9,6) fl]
    note s = decay_step [OF f less.prems(5,8,9)]
    let ?f = "decayed decay f" and ?fl = "fl + 2 * f + 2"
    have next_: "\<exists>i' fl' f'. search_agrees decay v (i + 1) ?fl ?f iT flT i' fl' f'" if "i + 1 \<le> v" for v
      using less.prems enc [OF in_] in_ s(3,4) f that by (intro less.hyps) simp_all
    show ?thesis
    proof (cases "i = val")
      case True
      from next_ [of "i + 1"] have "?fl \<le> flT" "i \<le> iT" by (auto simp: search_agrees_def)
      then have "search_agrees decay val i fl f iT flT i fl f"
        using True f dec by (simp add: search_agrees_def enc_decay.simps)
      then show ?thesis by blast
    next
      case False
      with less.prems(10) have i: "i < val" by simp
      with next_ [of val] obtain i' fl' f' where "search_agrees decay val (i + 1) ?fl ?f iT flT i' fl' f'" by auto
      then have "search_agrees decay val i fl f iT flT i' fl' f'"
        using enc [OF i] dec f unfolding search_agrees_def by (auto simp: add.commute)
      then show ?thesis by blast
    qed
  qed
qed

section \<open>Intervals\<close>

text \<open>
  Where the run ends: the first delta of the tail and its low end. A model is usable when that is below 32767,
  which leaves each sign a unit; the deltas up to \<open>laplace_reach\<close> have one of their own.
\<close>

definition laplace_tail :: "int \<Rightarrow> int \<Rightarrow> nat \<times> int \<times> int" where
  "laplace_tail fs decay = enc_decay decay 100 1 fs (ec_laplace_get_freq1 fs decay)"

definition laplace_valid :: "int \<Rightarrow> int \<Rightarrow> bool" where
  "laplace_valid fs decay = (0 < fs \<and> fs \<le> 32736 \<and> 0 < decay \<and> decay \<le> 16384
     \<and> (case laplace_tail fs decay of (i, fl, f) \<Rightarrow> f = 0 \<and> fl \<le> 32766))"

definition laplace_reach :: "int \<Rightarrow> int \<Rightarrow> int" where
  "laplace_reach fs decay = (case laplace_tail fs decay of (i, fl, f) \<Rightarrow> int i + (32768 - fl) div 2 - 1)"

lemma freq1_bounds:
  assumes "0 < fs" and "fs \<le> 32736" and "0 < decay" and "decay \<le> 16384"
  shows "0 \<le> ec_laplace_get_freq1 fs decay" and "ec_laplace_get_freq1 fs decay \<le> 16384"
proof -
  have b: "0 \<le> (32736 - fs) * (16384 - decay)" "(32736 - fs) * (16384 - decay) \<le> 32736 * 16384"
    using assms by (simp, intro mult_mono) simp_all
  then have "ec_laplace_get_freq1 fs decay = (32736 - fs) * (16384 - decay) div 2 ^ 15"
    using assms by (simp add: ec_laplace_get_freq1_def LAPLACE_MINP_def LAPLACE_NMIN_def Let_def u32w_id)
  then show "0 \<le> ec_laplace_get_freq1 fs decay" "ec_laplace_get_freq1 fs decay \<le> 16384"
    using b zdiv_mono1 [OF b(2), of "2 ^ 15"] by (simp_all add: pos_imp_zdiv_nonneg_iff)
qed

definition stands_for :: "int \<Rightarrow> int \<Rightarrow> int \<Rightarrow> int \<Rightarrow> int \<Rightarrow> bool" where
  "stands_for fs decay value fl f = (0 \<le> fl \<and> 0 < f \<and> fl + f \<le> 32768
     \<and> (\<forall>fm. fl \<le> fm \<and> fm < fl + f \<longrightarrow> laplace_lookup fm fs decay = Some (value, fl, fl + f)))"

lemma lookup_found:
  assumes "fs \<le> fl" and "fl \<le> fm" and "fm < 32768" and "0 < fs"
    and "dec_decay decay fm 1 fs (u32w (ec_laplace_get_freq1 fs decay + LAPLACE_MINP)) = Some (int i, fl, f + 1)"
    and "0 \<le> f" and "f \<le> 32768" and "0 < f \<Longrightarrow> di = 0" and "f = 0 \<Longrightarrow> di = (fm - fl) div 2"
  shows "laplace_lookup fm fs decay = (if fm < fl + 2 * di + f + 1 then Some (- (int i + di), fl + 2 * di, min (fl + 2 * di + f + 1) 32768)
    else Some (int i + di, fl + 2 * di + f + 1, min (fl + 2 * di + 2 * (f + 1)) 32768))"
proof -
  have di: "0 \<le> di" "2 * di \<le> fm - fl" using assms(2,6,8,9) by (cases "f = 0"; simp)+
  have "(if f + 1 \<le> LAPLACE_MINP then u32w (fm - fl) div 2 else 0) = di"
    using assms by (auto simp: LAPLACE_MINP_def u32w_id)
  moreover have "u32w (fl + 2 * di * LAPLACE_MINP) = fl + 2 * di" "u32w (fl + 2 * di + (f + 1)) = fl + 2 * di + f + 1"
    "u32w (fl + 2 * di + f + 1 + (f + 1)) = fl + 2 * di + 2 * (f + 1)"
    using assms(1-4,6,7) di by (subst u32w_id; simp add: LAPLACE_MINP_def)+
  ultimately show ?thesis using assms(1,2,5) by (simp add: laplace_lookup_def Let_def)
qed

lemma stands_for_unit:
  "laplace_lookup fl fs decay = Some (value, fl, fl + 1) \<Longrightarrow> 0 \<le> fl \<Longrightarrow> fl < 32768 \<Longrightarrow> stands_for fs decay value fl 1"
  by (auto simp: stands_for_def zless_add1_eq)

lemma tail_stands:
  assumes "0 < fs" and "fs \<le> fl" and "s = 0 \<or> s = - 1" and "0 \<le> di" and "fl + (2 * di + 1 + s) < 32768"
    and dec: "\<And>fm. fl \<le> fm \<Longrightarrow> dec_decay decay fm 1 fs (u32w (ec_laplace_get_freq1 fs decay + LAPLACE_MINP)) = Some (int i, fl, 1)"
  shows "stands_for fs decay (if s < 0 then - (int i + di) else int i + di) (fl + (2 * di + 1 + s)) 1"
proof -
  let ?fm = "fl + (2 * di + 1 + s)"
  have fm: "fl \<le> ?fm" using assms(3,4) by auto
  have "di = (?fm - fl) div 2" using assms(3) by auto
  then have "laplace_lookup ?fm fs decay = Some ((if s < 0 then - (int i + di) else int i + di), ?fm, ?fm + 1)"
    using lookup_found [OF assms(2) fm assms(5,1), of decay i 0 di] dec [OF fm] assms(3,5) by auto
  with fm assms(1,2,5) show ?thesis by (intro stands_for_unit) simp_all
qed

lemma pair_stands:
  assumes "0 < fs" and "fs \<le> fl" and "0 < f" and "fl + 2 * (f + 1) \<le> 32768"
    and dec: "\<And>fm. fl \<le> fm \<Longrightarrow> fm < fl + 2 * (f + 1)
      \<Longrightarrow> dec_decay decay fm 1 fs (u32w (ec_laplace_get_freq1 fs decay + LAPLACE_MINP)) = Some (int i, fl, f + 1)"
  shows "stands_for fs decay (- int i) fl (f + 1)" and "stands_for fs decay (int i) (fl + f + 1) (f + 1)"
proof -
  have "laplace_lookup fm fs decay = (if fm < fl + f + 1 then Some (- int i, fl, fl + (f + 1))
      else Some (int i, fl + f + 1, fl + f + 1 + (f + 1)))" if "fl \<le> fm" "fm < fl + 2 * (f + 1)" for fm
    using lookup_found [OF assms(2) that(1) _ assms(1) dec [OF that], of 0] that assms(1-4) by auto
  with assms(1-4) show "stands_for fs decay (- int i) fl (f + 1)" "stands_for fs decay (int i) (fl + f + 1) (f + 1)"
    by (auto simp: stands_for_def)
qed

lemma laplace_interval_stands:
  assumes valid: "laplace_valid fs decay"
  shows "case laplace_interval value fs decay of (value', fl, f) \<Rightarrow>
    stands_for fs decay value' fl f \<and> (\<bar>value\<bar> \<le> laplace_reach fs decay \<longrightarrow> value' = value)"
proof (cases "value = 0")
  case True
  with valid show ?thesis by (simp add: laplace_interval_def stands_for_def laplace_valid_def laplace_lookup_def)
next
  case False
  let ?f1 = "ec_laplace_get_freq1 fs decay" and ?v = "nat \<bar>value\<bar>"
  obtain iT flT where tail: "enc_decay decay 100 1 fs ?f1 = (iT, flT, 0)" and flT: "flT \<le> 32766"
    using valid by (auto simp: laplace_valid_def laplace_tail_def)
  from valid have p: "0 < fs" "fs \<le> 32736" "0 < decay" "decay \<le> 16384" by (simp_all add: laplace_valid_def)
  note f1 = freq1_bounds [OF p]
  have "1 \<le> ?v" using False by linarith
  with decay_agrees [OF tail _ _ f1, of ?v] p obtain i fl f where
    agree: "search_agrees decay ?v 1 fs ?f1 iT flT i fl f" by auto
  then have enc: "enc_decay decay ?v 1 fs ?f1 = (i, fl, f)" and b: "fs \<le> fl" "fl \<le> flT" "0 \<le> f" "i \<le> ?v"
    and z: "f = 0 \<Longrightarrow> fl = flT \<and> i = iT" and nz: "0 < f \<Longrightarrow> i = ?v \<and> fl + 2 * (f + 1) \<le> flT"
    by (auto simp: search_agrees_def)
  have dec: "dec_decay decay fm 1 fs (u32w (?f1 + LAPLACE_MINP)) = Some (int i, fl, f + 1)"
    if "fl \<le> fm" "f = 0 \<or> fm < fl + 2 * (f + 1)" for fm
    using agree that f1 by (auto simp: search_agrees_def LAPLACE_MINP_def u32w_id)
  have flr: "0 \<le> fl" "fl \<le> 32766" using b p flT by simp_all
  define s where "s = (if value < 0 then - 1 else 0 :: int)"
  have s: "s = 0 \<or> s = - 1" by (simp add: s_def)
  show ?thesis
  proof (cases "f = 0")
    case True
    define ndi where "ndi = (32768 - fl - s) div 2"
    define di where "di = min (\<bar>value\<bar> - int i) (ndi - 1)"
    have ndi: "1 \<le> ndi" "2 * ndi \<le> 32768 - fl - s" using flr s by (auto simp: ndi_def)
    have "di \<le> ndi - 1" "0 \<le> di" using ndi(1) b(4) by (simp_all add: di_def)
    with ndi(2) s flr have di: "0 \<le> di" "fl + (2 * di + 1 + s) < 32768" "0 \<le> fl + (2 * di + 1 + s)" by auto
    have u: "i32 (u32w (32768 - fl + LAPLACE_MINP - 1)) = 32768 - fl" "u32w (fl + (2 * di + 1 + s)) = fl + (2 * di + 1 + s)"
      "u32w (32768 - (fl + (2 * di + 1 + s))) = 32768 - (fl + (2 * di + 1 + s))"
      using flr di by (simp_all add: LAPLACE_MINP_def u32w_id i32_id)
    let ?w = "if s < 0 then - (int i + di) else int i + di"
    have "laplace_interval value fs decay = (?w, fl + (2 * di + 1 + s), 1)"
      using False True u di(2) unfolding laplace_interval_def Let_def enc s_def [symmetric]
      by (simp add: ndi_def [symmetric] di_def [symmetric] LAPLACE_MINP_def)
    moreover have "stands_for fs decay ?w (fl + (2 * di + 1 + s)) 1"
      using dec True by (intro tail_stands p(1) b(1) s di) simp
    moreover have "?w = value" if "\<bar>value\<bar> \<le> laplace_reach fs decay"
    proof -
      have "\<bar>value\<bar> - int i \<le> (32768 - fl) div 2 - 1" using that z [OF True] tail
        by (simp add: laplace_reach_def laplace_tail_def)
      also have "\<dots> \<le> ndi - 1" using s by (auto simp: ndi_def intro: zdiv_mono1)
      finally show ?thesis by (auto simp: di_def s_def)
    qed
    ultimately show ?thesis by simp
  next
    case f: False
    with b nz have i: "i = ?v" "fl + 2 * (f + 1) \<le> flT" "0 < f" by auto
    have "u32w (fl + (f + 1)) = fl + f + 1" using flr i(2) flT b(3) by (subst u32w_id) simp_all
    then have "laplace_interval value fs decay = (value, (if s < 0 then fl else fl + f + 1), f + 1)"
      using False f unfolding laplace_interval_def Let_def enc s_def [symmetric] by (simp add: LAPLACE_MINP_def)
    moreover note pair_stands [OF p(1) b(1) i(3) _ dec, simplified i(1)]
    ultimately show ?thesis using i(2) flT by (auto simp: s_def)
  qed
qed

section \<open>Lockstep\<close>

lemma laplace_lockstep:
  assumes valid: "laplace_valid fs decay" and iv: "laplace_interval value fs decay = (w, fl, f)"
  shows "0 \<le> fl" and "0 < f" and "fl + f \<le> 32768" and "u32w (fl + f) = fl + f"
    and "lockstep (ec_encode_bin fl (u32w (fl + f)) 15) (ec_laplace_decode fs decay) w"
    and "\<bar>value\<bar> \<le> laplace_reach fs decay \<Longrightarrow> w = value"
proof -
  from laplace_interval_stands [OF valid, of "value"] iv
  have st: "stands_for fs decay w fl f" and r: "\<bar>value\<bar> \<le> laplace_reach fs decay \<Longrightarrow> w = value" by simp_all
  show "\<bar>value\<bar> \<le> laplace_reach fs decay \<Longrightarrow> w = value" by (rule r)
  from st show b: "0 \<le> fl" "0 < f" "fl + f \<le> 32768" by (simp_all add: stands_for_def)
  then show u: "u32w (fl + f) = fl + f" by (simp add: u32w_id)
  have "lockstep (ec_encode fl (fl + f) 32768) (ec_laplace_decode fs decay) w"
  proof (rule lockstep_decoder)
    show "lockstep (ec_encode fl (fl + f) 32768) (dec_symbol fl (fl + f) 32768) ()"
      using b by (intro symbol_lockstep) simp_all
    fix d d' assume "dec_symbol fl (fl + f) 32768 d = Some ((), d')"
    with st show "ec_laplace_decode fs decay d = Some (w, d')"
      by (auto simp: dec_symbol_def ec_laplace_decode_def ec_decode_bin_eq split_beta stands_for_def split: if_splits)
  qed
  then show "lockstep (ec_encode_bin fl (u32w (fl + f)) 15) (ec_laplace_decode fs decay) w"
    by (simp add: u ec_encode_bin_eq)
qed

end
