(* ===== verification/Celt_Symbols.thy ===== *)
theory Celt_Symbols
  imports Pulse_Coding Laplace Range_Roundtrip
begin

text \<open>
  The symbols of a CELT frame: those of the entropy coder, the pulse vector of a band and a Laplace-coded delta. They are
  one more codec over the same coder, so whole messages of them are read back.
\<close>

datatype celt_op = Entropy ec_op | Pulses nat nat | Delta int int

datatype celt_value = Plain ec_value | Vector "int list" | Step int

fun enc_celt :: "celt_op \<Rightarrow> celt_value \<Rightarrow> ec_ctx \<Rightarrow> ec_ctx option" where
  "enc_celt (Entropy q) (Plain v) c = enc_op q v c"
| "enc_celt (Pulses n k) (Vector y) c = encode_pulses y n k c"
| "enc_celt (Delta fs decay) (Step v) c = map_option snd (ec_laplace_encode v fs decay c)"
| "enc_celt _ _ c = None"

fun dec_celt :: "celt_op \<Rightarrow> ec_ctx \<Rightarrow> (celt_value \<times> ec_ctx) option" where
  "dec_celt (Entropy q) d = map_option (\<lambda>(v, d). (Plain v, d)) (dec_op q d)"
| "dec_celt (Pulses n k) d = map_option (\<lambda>((y, _), d). (Vector y, d)) (decode_pulses n k d)"
| "dec_celt (Delta fs decay) d = map_option (\<lambda>(v, d). (Step v, d)) (ec_laplace_decode fs decay d)"

fun celt_codes :: "celt_op \<Rightarrow> celt_value \<Rightarrow> bool" where
  "celt_codes (Entropy q) (Plain v) = op_codes q v"
| "celt_codes (Pulses n k) (Vector y) = (pvq_ok n k \<and> length y = n \<and> weight y = k)"
| "celt_codes (Delta fs decay) (Step v) = (laplace_valid fs decay \<and> \<bar>v\<bar> \<le> laplace_reach fs decay)"
| "celt_codes _ _ = False"

lemma celt_lockstep: "celt_codes q v \<Longrightarrow> lockstep (enc_celt q v) (dec_celt q) v"
proof (induction q v rule: celt_codes.induct)
  case (1 q v)
  then have "lockstep (enc_op q v) (dec_celt (Entropy q)) (Plain v)" by (intro lockstep_decoder [OF op_lockstep]) simp_all
  then show ?case by (rule lockstep_cong) simp
next
  case (2 n k y)
  then have p: "pvq_ok (length y) k" "weight y = k" and n: "n = length y" by auto
  have "lockstep (encode_pulses y n k) (dec_celt (Pulses n k)) (Vector y)"
    unfolding n by (rule lockstep_decoder [OF pulses_lockstep [OF p]]) simp
  then show ?case by (rule lockstep_cong) simp
next
  case (3 fs decay v)
  obtain w fl f where iv: "laplace_interval v fs decay = (w, fl, f)" by (metis prod_cases3)
  from 3 laplace_lockstep [OF _ iv] have l: "lockstep (ec_encode_bin fl (u32w (fl + f)) 15) (ec_laplace_decode fs decay) v"
    by auto
  have "lockstep (ec_encode_bin fl (u32w (fl + f)) 15) (dec_celt (Delta fs decay)) (Step v)"
    by (rule lockstep_decoder [OF l]) simp
  then show ?case by (rule lockstep_cong) (simp add: ec_laplace_encode_def iv option.map_comp comp_def option.map_ident)
qed simp_all

interpretation celt: symbol_codec enc_celt dec_celt celt_codes
  by unfold_locales (rule celt_lockstep)

definition sample_celt_op :: "celt_value list \<Rightarrow> celt_op" where
  "sample_celt_op past = [Delta 9216 8128, Pulses 4 3, Entropy (Code_Uint 300), Delta 9216 8128] ! length past"

definition sample_celt_values :: "celt_value list" where
  "sample_celt_values = [Step 3, Vector [1, 0, - 2, 0], Plain (Number 77), Step (- 15)]"

text \<open>
  C13: What a CELT frame is made of is read back: a message of entropy-coded symbols, pulse vectors and Laplace-coded
  deltas (each within the reach of its model), in any order and each chosen by the values before it, is decoded
  from the closed packet to exactly the message, with as many bits spent and no error.
\<close>

theorem celt_roundtrip:
  assumes "codable_from celt_codes op [] vs" and "encode_from enc_celt op [] vs (ec_enc_init buf) = Some c"
    and "ec_error (ec_enc_done c) = 0"
  shows "\<exists>d d'. ec_dec_init (ec_buf (ec_enc_done c)) = Some d
    \<and> decode_from dec_celt op [] (length vs) d = Some (vs, d')
    \<and> ec_tell d' = ec_tell c \<and> ec_tell_frac d' = ec_tell_frac c \<and> ec_error d' = 0"
  using assms by (rule celt.roundtrip)

lemma celt_roundtrip_witness:
  "\<exists>c d d'. encode_from enc_celt sample_celt_op [] sample_celt_values (ec_enc_init (replicate 8 0)) = Some c
    \<and> ec_dec_init (ec_buf (ec_enc_done c)) = Some d
    \<and> decode_from dec_celt sample_celt_op [] 4 d = Some (sample_celt_values, d')"
proof -
  have "encode_from enc_celt sample_celt_op [] sample_celt_values (ec_enc_init (replicate 8 0)) \<noteq> None" by code_simp
  moreover have "ec_error (ec_enc_done (the (encode_from enc_celt sample_celt_op [] sample_celt_values
      (ec_enc_init (replicate 8 0))))) = 0" by code_simp
  moreover have "codable_from celt_codes sample_celt_op [] sample_celt_values" by code_simp
  moreover have "length sample_celt_values = 4" by (simp add: sample_celt_values_def)
  ultimately show ?thesis
    using celt_roundtrip [of sample_celt_op sample_celt_values "replicate 8 0"] by fastforce
qed

end
