(* ===== verification/Band_Energy.thy ===== *)
theory Band_Energy
  imports Coding_Run Celt_Symbols
begin

text \<open>
  The quantiser of the band energies (\<open>celt/quant_bands.c\<close>, fixed point): the coarse step, predicted from the
  previous frame and the previous band, the fine step and the use of the bits left, each with its decoder. Signed
  sums are kept at their width by \<open>i32\<close>, stores to \<open>opus_val16\<close> by \<open>s16\<close>.
\<close>

unbundle bit_operations_syntax

section \<open>Arithmetic (fixed_generic.h)\<close>

definition DB_SHIFT :: nat where "DB_SHIFT = 10"
definition MAX_FINE_BITS :: int where "MAX_FINE_BITS = 8"

definition MULT16_16 :: "int \<Rightarrow> int \<Rightarrow> int" where
  "MULT16_16 a b = i32 (s16 a * s16 b)"

definition SHL32 :: "int \<Rightarrow> nat \<Rightarrow> int" where
  "SHL32 a n = i32 (a * 2 ^ n)"

definition SHL16 :: "int \<Rightarrow> nat \<Rightarrow> int" where
  "SHL16 a n = s16 (a * 2 ^ n)"

definition PSHR32 :: "int \<Rightarrow> nat \<Rightarrow> int" where
  "PSHR32 a n = i32 (a + 2 ^ n div 2) div 2 ^ n"

section \<open>Tables (quant_bands.c)\<close>

definition pred_coef :: "int list" where "pred_coef = [29440, 26112, 21248, 16384]"
definition beta_coef :: "int list" where "beta_coef = [30147, 22282, 12124, 6554]"
definition beta_intra :: int where "beta_intra = 4915"

definition e_prob_model :: "int list list list" where
  "e_prob_model = [
    [[72, 127, 65, 129, 66, 128, 65, 128, 64, 128, 62, 128, 64, 128,
      64, 128, 92, 78, 92, 79, 92, 78, 90, 79, 116, 41, 115, 40,
      114, 40, 132, 26, 132, 26, 145, 17, 161, 12, 176, 10, 177, 11],
     [24, 179, 48, 138, 54, 135, 54, 132, 53, 134, 56, 133, 55, 132,
      55, 132, 61, 114, 70, 96, 74, 88, 75, 88, 87, 74, 89, 66,
      91, 67, 100, 59, 108, 50, 120, 40, 122, 37, 97, 43, 78, 50]],
    [[83, 78, 84, 81, 88, 75, 86, 74, 87, 71, 90, 73, 93, 74,
      93, 74, 109, 40, 114, 36, 117, 34, 117, 34, 143, 17, 145, 18,
      146, 19, 162, 12, 165, 10, 178, 7, 189, 6, 190, 8, 177, 9],
     [23, 178, 54, 115, 63, 102, 66, 98, 69, 99, 74, 89, 71, 91,
      73, 91, 78, 89, 86, 80, 92, 66, 93, 64, 102, 59, 103, 60,
      104, 60, 117, 52, 123, 44, 138, 35, 133, 31, 97, 38, 77, 45]],
    [[61, 90, 93, 60, 105, 42, 107, 41, 110, 45, 116, 38, 113, 38,
      112, 38, 124, 26, 132, 27, 136, 19, 140, 20, 155, 14, 159, 16,
      158, 18, 170, 13, 177, 10, 187, 8, 192, 6, 175, 9, 159, 10],
     [21, 178, 59, 110, 71, 86, 75, 85, 84, 83, 91, 66, 88, 73,
      87, 72, 92, 75, 98, 72, 105, 58, 107, 54, 115, 52, 114, 55,
      112, 56, 129, 51, 132, 40, 150, 33, 140, 29, 98, 35, 77, 42]],
    [[42, 121, 96, 66, 108, 43, 111, 40, 117, 44, 123, 32, 120, 36,
      119, 33, 127, 33, 134, 34, 139, 21, 147, 23, 152, 20, 158, 25,
      154, 26, 166, 21, 173, 16, 184, 13, 184, 10, 150, 13, 139, 15],
     [22, 178, 63, 114, 74, 82, 84, 83, 92, 82, 103, 62, 96, 72,
      96, 67, 101, 73, 107, 72, 113, 55, 118, 52, 125, 52, 118, 52,
      117, 55, 135, 49, 137, 39, 157, 32, 145, 29, 97, 33, 77, 40]]]"

definition small_energy_icdf :: "int list" where "small_energy_icdf = [2, 1, 0]"

section \<open>The coarse step of the encoder\<close>

text \<open>
  The energies of a channel follow those of the one before in the arrays, \<open>nb\<close> (\<open>m->nbEBands\<close>) apart. What
  the loops over the bands keep: the energies, the errors, the prediction of each channel and the badness.
\<close>

record coarse =
  old_bands :: "int list"
  band_error :: "int list"
  band_prev :: "int list"
  badness :: int

text \<open>The step \<open>f\<close> from the prediction and its rounding, kept from going down too quickly.\<close>

definition coarse_target :: "int \<Rightarrow> int \<Rightarrow> int \<Rightarrow> int \<Rightarrow> int \<Rightarrow> int \<times> int" where
  "coarse_target coef max_decay x old prev =
     (let f = i32 (i32 (SHL32 x 7 - PSHR32 (MULT16_16 coef (max (- 9216) old)) 8) - prev);
          qi = i32 (f + 65536) div 2 ^ (DB_SHIFT + 7);
          decay_bound = s16 (max (- 28672) (i32 (old - max_decay)));
          qi = (if qi < 0 \<and> x < decay_bound then min (qi + (decay_bound - x) div 2 ^ DB_SHIFT) 0 else qi)
      in (f, qi))"

text \<open>The step that the bits left allow.\<close>

definition coarse_limit :: "nat \<Rightarrow> nat \<Rightarrow> int \<Rightarrow> bool \<Rightarrow> nat \<Rightarrow> int \<Rightarrow> int" where
  "coarse_limit start i bits_left lfe C qi =
     (let qi = (if i \<noteq> start \<and> bits_left < 30
                then let qi = (if bits_left < 24 then min 1 qi else qi) in if bits_left < 16 then max (- 1) qi else qi
                else qi)
      in if lfe \<and> i \<ge> 2 then min qi 0 else qi)"

text \<open>The coding of the step, by what is left of the budget; the step coded. A small step has the index \<open>2 * qi ^ -(qi < 0)\<close>.\<close>

definition small_index :: "int \<Rightarrow> nat" where
  "small_index qi = nat ((2 * qi) XOR (if qi < 0 then - 1 else 0))"

definition coarse_code :: "int \<Rightarrow> int list \<Rightarrow> nat \<Rightarrow> int \<Rightarrow> ec_ctx \<Rightarrow> (int \<times> ec_ctx) option" where
  "coarse_code budget prob i qi enc =
     (let tell = ec_tell enc
      in if budget - tell \<ge> 15
         then let pi = 2 * min i 20 in ec_laplace_encode qi (prob ! pi * 2 ^ 7) (prob ! (pi + 1) * 2 ^ 6) enc
         else if budget - tell \<ge> 2
         then let qi = max (- 1) (min qi 1)
           in map_option (Pair qi) (ec_enc_icdf (small_index qi) small_energy_icdf 2 enc)
         else if budget - tell \<ge> 1
         then let qi = min 0 qi in map_option (Pair qi) (ec_enc_bit_logp (- qi \<noteq> 0) 1 enc)
         else Some (- 1, enc))"

text \<open>The energy that a step gives, and the prediction for the next band.\<close>

definition coarse_energy :: "int \<Rightarrow> int \<Rightarrow> int \<Rightarrow> int \<Rightarrow> int" where
  "coarse_energy coef old prev qi =
     (let tmp = i32 (i32 (PSHR32 (MULT16_16 coef (max (- 9216) old)) 8 + prev) + SHL32 (SHL32 qi DB_SHIFT) 7)
      in s16 (PSHR32 (max (- 3670016) tmp) 7))"

definition coarse_prev :: "int \<Rightarrow> int \<Rightarrow> int \<Rightarrow> int" where
  "coarse_prev beta prev qi =
     (let q = SHL32 qi DB_SHIFT in i32 (i32 (prev + SHL32 q 7) - MULT16_16 beta (PSHR32 q 8)))"

text \<open>The arguments that stay the same over the bands.\<close>

record coarse_args =
  nbEBands :: nat
  arg_start :: nat
  arg_end :: nat
  arg_C :: nat
  arg_LM :: nat
  intra :: bool

definition coarse_coef :: "coarse_args \<Rightarrow> int" where
  "coarse_coef a = (if intra a then 0 else pred_coef ! arg_LM a)"

definition coarse_beta :: "coarse_args \<Rightarrow> int" where
  "coarse_beta a = (if intra a then beta_intra else beta_coef ! arg_LM a)"

definition positions :: "coarse_args \<Rightarrow> (nat \<times> nat) list" where
  "positions a = [(i, c). i \<leftarrow> [arg_start a..<arg_end a], c \<leftarrow> [0..<max 1 (arg_C a)]]"

definition quant_coarse_band ::
  "coarse_args \<Rightarrow> int \<Rightarrow> int list \<Rightarrow> int \<Rightarrow> bool \<Rightarrow> int list \<Rightarrow> nat \<times> nat \<Rightarrow> coarse \<Rightarrow> ec_ctx \<Rightarrow> (coarse \<times> ec_ctx) option" where
  "quant_coarse_band a budget prob max_decay lfe eBands ic st enc =
     (case ic of (i, c) \<Rightarrow>
        let j = i + c * nbEBands a; old = old_bands st ! j; prev = band_prev st ! c;
            (f, qi0) = coarse_target (coarse_coef a) max_decay (eBands ! j) old prev;
            bits_left = budget - ec_tell enc - 3 * int (arg_C a) * (int (arg_end a) - int i);
            qi = coarse_limit (arg_start a) i bits_left lfe (arg_C a) qi0
        in map_option (\<lambda>(qi, enc).
             (st\<lparr>old_bands := (old_bands st)[j := coarse_energy (coarse_coef a) old prev qi],
                 band_error := (band_error st)[j := s16 (PSHR32 f 7 - SHL16 qi DB_SHIFT)],
                 band_prev := (band_prev st)[c := coarse_prev (coarse_beta a) prev qi],
                 badness := i32 (badness st + \<bar>qi0 - qi\<bar>)\<rparr>, enc))
           (coarse_code budget prob i qi enc))"

definition quant_coarse_energy_impl ::
  "coarse_args \<Rightarrow> int \<Rightarrow> int \<Rightarrow> int list \<Rightarrow> int \<Rightarrow> bool \<Rightarrow> int list \<Rightarrow> int list \<Rightarrow> int list \<Rightarrow> ec_ctx \<Rightarrow> (coarse \<times> ec_ctx) option" where
  "quant_coarse_energy_impl a budget tell prob max_decay lfe eBands oldEBands err enc =
     Option.bind (if tell + 3 \<le> budget then ec_enc_bit_logp (intra a) 3 enc else Some enc)
       (\<lambda>enc. map_option (\<lambda>(st, enc). (st\<lparr>badness := (if lfe then 0 else badness st)\<rparr>, enc))
         (each (quant_coarse_band a budget prob max_decay lfe eBands) (positions a)
           \<lparr>old_bands = oldEBands, band_error = err, band_prev = [0, 0], badness = 0\<rparr> enc))"

section \<open>The coarse step of the decoder\<close>

definition coarse_decode :: "int \<Rightarrow> int list \<Rightarrow> nat \<Rightarrow> ec_ctx \<Rightarrow> (int \<times> ec_ctx) option" where
  "coarse_decode budget prob i dec =
     (let tell = ec_tell dec
      in if budget - tell \<ge> 15
         then let pi = 2 * min i 20 in ec_laplace_decode (prob ! pi * 2 ^ 7) (prob ! (pi + 1) * 2 ^ 6) dec
         else if budget - tell \<ge> 2
         then map_option (\<lambda>(s, dec). ((int s div 2) XOR (- (int s mod 2)), dec)) (ec_dec_icdf small_energy_icdf 2 dec)
         else if budget - tell \<ge> 1
         then map_option (\<lambda>(b, dec). (if b then - 1 else 0, dec)) (ec_dec_bit_logp 1 dec)
         else Some (- 1, dec))"

text \<open>What its loop keeps: the energies and the predictions.\<close>

definition unquant_coarse_band :: "coarse_args \<Rightarrow> int \<Rightarrow> nat \<times> nat \<Rightarrow> int list \<times> int list \<Rightarrow> ec_ctx
    \<Rightarrow> ((int list \<times> int list) \<times> ec_ctx) option" where
  "unquant_coarse_band a budget ic st dec =
     (case ic of (i, c) \<Rightarrow> case st of (bands, prevs) \<Rightarrow>
        let j = i + c * nbEBands a; prev = prevs ! c
        in map_option (\<lambda>(qi, dec).
             ((bands[j := coarse_energy (coarse_coef a) (bands ! j) prev qi], prevs[c := coarse_prev (coarse_beta a) prev qi]), dec))
           (coarse_decode budget (e_prob_model ! arg_LM a ! of_bool (intra a)) i dec))"

definition unquant_coarse_energy :: "coarse_args \<Rightarrow> int list \<Rightarrow> ec_ctx \<Rightarrow> (int list \<times> ec_ctx) option" where
  "unquant_coarse_energy a oldEBands dec =
     (let budget = int (ec_storage dec) * 8
      in map_option (\<lambda>((bands, _), dec). (bands, dec))
           (each (unquant_coarse_band a budget) (positions a) (oldEBands, [0, 0]) dec))"

text \<open>The decoder reads the flag for the prediction first (\<open>celt_decode_with_ec\<close>).\<close>

definition decode_coarse :: "coarse_args \<Rightarrow> int list \<Rightarrow> ec_ctx \<Rightarrow> (int list \<times> ec_ctx) option" where
  "decode_coarse a oldEBands dec =
     Option.bind (if ec_tell dec + 3 \<le> int (ec_storage dec) * 8 then ec_dec_bit_logp 3 dec else Some (False, dec))
       (\<lambda>(intra_ener, dec). unquant_coarse_energy (a\<lparr>intra := intra_ener\<rparr>) oldEBands dec)"

section \<open>The fine step and the bits left\<close>

text \<open>The energies and the errors.\<close>

definition fine_offset :: "int \<Rightarrow> nat \<Rightarrow> int" where
  "fine_offset q2 bits = s16 (s16 (i32 (SHL32 q2 DB_SHIFT + 512) div 2 ^ bits) - 512)"

definition quant_fine_band :: "coarse_args \<Rightarrow> int list \<Rightarrow> nat \<times> nat \<Rightarrow> int list \<times> int list \<Rightarrow> ec_ctx
    \<Rightarrow> ((int list \<times> int list) \<times> ec_ctx) option" where
  "quant_fine_band a fine_quant ic st enc =
     (case ic of (i, c) \<Rightarrow> case st of (bands, err) \<Rightarrow>
        if fine_quant ! i \<le> 0 then Some (st, enc)
        else let bits = nat (fine_quant ! i); frac = s16 (2 ^ bits); j = i + c * nbEBands a;
                 q2 = i32 (err ! j + 512) div 2 ^ (DB_SHIFT - bits);
                 q2 = (if q2 > frac - 1 then frac - 1 else q2); q2 = (if q2 < 0 then 0 else q2);
                 offset = fine_offset q2 bits
          in Some ((bands[j := s16 (bands ! j + offset)], err[j := s16 (err ! j - offset)]), ec_enc_bits q2 bits enc))"

definition quant_fine_energy :: "coarse_args \<Rightarrow> int list \<Rightarrow> int list \<Rightarrow> int list \<Rightarrow> ec_ctx \<Rightarrow> ((int list \<times> int list) \<times> ec_ctx) option" where
  "quant_fine_energy a fine_quant oldEBands err enc = each (quant_fine_band a fine_quant) (positions a) (oldEBands, err) enc"

definition unquant_fine_band :: "coarse_args \<Rightarrow> int list \<Rightarrow> nat \<times> nat \<Rightarrow> int list \<Rightarrow> ec_ctx \<Rightarrow> (int list \<times> ec_ctx) option" where
  "unquant_fine_band a fine_quant ic bands dec =
     (case ic of (i, c) \<Rightarrow>
        if fine_quant ! i \<le> 0 then Some (bands, dec)
        else let bits = nat (fine_quant ! i); j = i + c * nbEBands a; (q2, dec) = ec_dec_bits bits dec
          in Some (bands[j := s16 (bands ! j + fine_offset q2 bits)], dec))"

definition unquant_fine_energy :: "coarse_args \<Rightarrow> int list \<Rightarrow> int list \<Rightarrow> ec_ctx \<Rightarrow> (int list \<times> ec_ctx) option" where
  "unquant_fine_energy a fine_quant oldEBands dec = each (unquant_fine_band a fine_quant) (positions a) oldEBands dec"

text \<open>
  One more bit for each band that has room for it, by priority. The loop over the bands ends when fewer bits are left
  than there are channels; they do not grow again, so a band after that is left as it is.
\<close>

definition final_offset :: "int \<Rightarrow> nat \<Rightarrow> int" where
  "final_offset q2 bits = s16 ((SHL16 q2 DB_SHIFT - 512) div 2 ^ (bits + 1))"

definition finalise_skips :: "int list \<Rightarrow> int list \<Rightarrow> int \<Rightarrow> nat \<Rightarrow> nat \<Rightarrow> int \<Rightarrow> bool" where
  "finalise_skips fine_quant fine_priority prio i C bits_left =
     (bits_left < int C \<or> fine_quant ! i \<ge> MAX_FINE_BITS \<or> fine_priority ! i \<noteq> prio)"

definition quant_final_channel :: "coarse_args \<Rightarrow> nat \<Rightarrow> nat \<Rightarrow> nat \<Rightarrow> int list \<times> int list \<times> int \<Rightarrow> ec_ctx
    \<Rightarrow> ((int list \<times> int list \<times> int) \<times> ec_ctx) option" where
  "quant_final_channel a bits i c st enc =
     (case st of (bands, err, bits_left) \<Rightarrow>
        let j = i + c * nbEBands a; q2 = (if err ! j < 0 then 0 else 1); offset = final_offset q2 bits
        in Some ((bands[j := s16 (bands ! j + offset)], err[j := s16 (err ! j - offset)], bits_left - 1), ec_enc_bits q2 1 enc))"

definition quant_final_band :: "coarse_args \<Rightarrow> int list \<Rightarrow> int list \<Rightarrow> int \<times> nat \<Rightarrow> int list \<times> int list \<times> int \<Rightarrow> ec_ctx
    \<Rightarrow> ((int list \<times> int list \<times> int) \<times> ec_ctx) option" where
  "quant_final_band a fine_quant fine_priority pi st enc =
     (case pi of (prio, i) \<Rightarrow>
        if finalise_skips fine_quant fine_priority prio i (arg_C a) (snd (snd st)) then Some (st, enc)
        else each (quant_final_channel a (nat (fine_quant ! i)) i) [0..<max 1 (arg_C a)] st enc)"

definition final_order :: "coarse_args \<Rightarrow> (int \<times> nat) list" where
  "final_order a = [(prio, i). prio \<leftarrow> [0, 1], i \<leftarrow> [arg_start a..<arg_end a]]"

definition quant_energy_finalise :: "coarse_args \<Rightarrow> int list \<Rightarrow> int list \<Rightarrow> int \<Rightarrow> int list \<Rightarrow> int list \<Rightarrow> ec_ctx
    \<Rightarrow> ((int list \<times> int list \<times> int) \<times> ec_ctx) option" where
  "quant_energy_finalise a fine_quant fine_priority bits_left oldEBands err enc =
     each (quant_final_band a fine_quant fine_priority) (final_order a) (oldEBands, err, bits_left) enc"

definition unquant_final_channel :: "coarse_args \<Rightarrow> nat \<Rightarrow> nat \<Rightarrow> nat \<Rightarrow> int list \<times> int \<Rightarrow> ec_ctx
    \<Rightarrow> ((int list \<times> int) \<times> ec_ctx) option" where
  "unquant_final_channel a bits i c st dec =
     (case st of (bands, bits_left) \<Rightarrow>
        let j = i + c * nbEBands a; (q2, dec) = ec_dec_bits 1 dec
        in Some ((bands[j := s16 (bands ! j + final_offset q2 bits)], bits_left - 1), dec))"

definition unquant_final_band :: "coarse_args \<Rightarrow> int list \<Rightarrow> int list \<Rightarrow> int \<times> nat \<Rightarrow> int list \<times> int \<Rightarrow> ec_ctx
    \<Rightarrow> ((int list \<times> int) \<times> ec_ctx) option" where
  "unquant_final_band a fine_quant fine_priority pi st dec =
     (case pi of (prio, i) \<Rightarrow>
        if finalise_skips fine_quant fine_priority prio i (arg_C a) (snd st) then Some (st, dec)
        else each (unquant_final_channel a (nat (fine_quant ! i)) i) [0..<max 1 (arg_C a)] st dec)"

definition unquant_energy_finalise :: "coarse_args \<Rightarrow> int list \<Rightarrow> int list \<Rightarrow> int \<Rightarrow> int list \<Rightarrow> ec_ctx
    \<Rightarrow> ((int list \<times> int) \<times> ec_ctx) option" where
  "unquant_energy_finalise a fine_quant fine_priority bits_left oldEBands dec =
     each (unquant_final_band a fine_quant fine_priority) (final_order a) (oldEBands, bits_left) dec"

section \<open>The energies of a frame\<close>

text \<open>
  The calls of \<open>celt_encode_with_ec\<close> and \<open>celt_decode_with_ec\<close> on the energies. What else they code before, between and after
  (flags, the allocation, the bands themselves) are messages, given by the operations and the values; the
  decoder is told the operations.
\<close>

definition enc_message :: "(celt_value list \<Rightarrow> celt_op) \<times> celt_value list \<Rightarrow> ec_ctx \<Rightarrow> (celt_value list \<times> ec_ctx) option" where
  "enc_message m enc = map_option (Pair (snd m)) (encode_from enc_celt (fst m) [] (snd m) enc)"

definition dec_message :: "(celt_value list \<Rightarrow> celt_op) \<times> nat \<Rightarrow> ec_ctx \<Rightarrow> (celt_value list \<times> ec_ctx) option" where
  "dec_message m dec = decode_from dec_celt (fst m) [] (snd m) dec"

definition encode_energies ::
  "coarse_args \<Rightarrow> int \<Rightarrow> int \<Rightarrow> bool \<Rightarrow> int list \<Rightarrow> int list \<Rightarrow> int list \<Rightarrow> int list \<Rightarrow> int list
    \<Rightarrow> (celt_value list \<Rightarrow> celt_op) \<times> celt_value list \<Rightarrow> (celt_value list \<Rightarrow> celt_op) \<times> celt_value list
    \<Rightarrow> ec_ctx \<Rightarrow> ((int list \<times> int list \<times> int) \<times> ec_ctx) option" where
  "encode_energies a budget max_decay lfe eBands oldEBands err fine_quant fine_priority m1 m2 enc =
     Option.bind (quant_coarse_energy_impl a budget (ec_tell enc) (e_prob_model ! arg_LM a ! of_bool (intra a))
         max_decay lfe eBands oldEBands err enc) (\<lambda>(st, enc).
     Option.bind (enc_message m1 enc) (\<lambda>(_, enc).
     Option.bind (quant_fine_energy a fine_quant (old_bands st) (band_error st) enc) (\<lambda>((bands, err), enc).
     Option.bind (enc_message m2 enc) (\<lambda>(_, enc).
       quant_energy_finalise a fine_quant fine_priority (budget - ec_tell enc) bands err enc))))"

definition decode_energies ::
  "coarse_args \<Rightarrow> int list \<Rightarrow> int list \<Rightarrow> int list \<Rightarrow> (celt_value list \<Rightarrow> celt_op) \<times> nat \<Rightarrow> (celt_value list \<Rightarrow> celt_op) \<times> nat
    \<Rightarrow> ec_ctx \<Rightarrow> ((int list \<times> int) \<times> ec_ctx) option" where
  "decode_energies a oldEBands fine_quant fine_priority m1 m2 dec =
     Option.bind (decode_coarse a oldEBands dec) (\<lambda>(bands, dec).
     Option.bind (dec_message m1 dec) (\<lambda>(_, dec).
     Option.bind (unquant_fine_energy a fine_quant bands dec) (\<lambda>(bands, dec).
     Option.bind (dec_message m2 dec) (\<lambda>(_, dec).
       unquant_energy_finalise a fine_quant fine_priority (int (ec_storage dec) * 8 - ec_tell dec) bands dec))))"

end
