(* ===== verification/Band_Energy_Laws.thy ===== *)
theory Band_Energy_Laws
  imports Band_Energy
begin

text \<open>
  The decoder's band energies are the encoder's: what the quantiser of \<open>Band_Energy\<close> writes, the decoder reads
  back, step by step, and both add the same offsets.
\<close>

unbundle bit_operations_syntax

section \<open>The probability models\<close>

text \<open>
  Every model of the table leaves the tail some room, and gives each of the deltas from -16 to 16 (\<open>LAPLACE_NMIN\<close>)
  an interval of its own.
\<close>

definition model_ok :: "int list \<Rightarrow> bool" where
  "model_ok prob = list_all (\<lambda>b. laplace_valid (prob ! (2 * b) * 2 ^ 7) (prob ! (2 * b + 1) * 2 ^ 6)
     \<and> LAPLACE_NMIN \<le> laplace_reach (prob ! (2 * b) * 2 ^ 7) (prob ! (2 * b + 1) * 2 ^ 6)) [0..<21]"

lemma prob_models_ok: "list_all (list_all model_ok) e_prob_model"
  by code_simp

definition codes_ok :: "int list \<Rightarrow> bool" where
  "codes_ok prob = (\<forall>b \<le> 20. laplace_valid (prob ! (2 * b) * 2 ^ 7) (prob ! (2 * b + 1) * 2 ^ 6))"

lemma prob_model:
  assumes "LM < 4"
  shows "codes_ok (e_prob_model ! LM ! of_bool i)"
proof -
  have l: "length e_prob_model = 4" "\<And>m. m \<in> set e_prob_model \<Longrightarrow> length m = 2" by (auto simp: e_prob_model_def)
  then have m: "e_prob_model ! LM \<in> set e_prob_model" using assms by simp
  then have "e_prob_model ! LM ! of_bool i \<in> set (e_prob_model ! LM)" using l(2) by simp
  then have "model_ok (e_prob_model ! LM ! of_bool i)" using prob_models_ok m unfolding list_all_iff by blast
  then show ?thesis unfolding model_ok_def codes_ok_def list_all_iff by auto
qed

section \<open>The coarse step\<close>

lemma small_energy_valid: "s \<le> 2 \<Longrightarrow> icdf_valid s small_energy_icdf 2"
proof -
  assume "s \<le> 2"
  then have "s = 0 \<or> s = 1 \<or> s = 2" by arith
  then show ?thesis by (auto simp: icdf_valid_def small_energy_icdf_def less_Suc_eq numeral_2_eq_2)
qed

lemma laplace_coded:
  assumes "laplace_valid fs decay"
  shows "coded n c (ec_laplace_encode qi fs decay c) (\<lambda>q. q) (ec_laplace_decode fs decay)"
proof -
  obtain w fl f where i: "laplace_interval qi fs decay = (w, fl, f)" by (metis prod_cases3)
  show ?thesis unfolding ec_laplace_encode_def i prod.case
    by (rule coded_lockstep) (rule laplace_lockstep(5) [OF assms i])
qed

text \<open>The index of a small step and back.\<close>

lemma small_index:
  assumes "- 1 \<le> qi" and "qi \<le> 1"
  shows "small_index qi \<le> 2" and "(int (small_index qi) div 2) XOR (- (int (small_index qi) mod 2)) = qi"
proof -
  have "qi = - 1 \<or> qi = 0 \<or> qi = 1" using assms by arith
  then show "small_index qi \<le> 2" "(int (small_index qi) div 2) XOR (- (int (small_index qi) mod 2)) = qi"
    by (auto simp: small_index_def)
qed

text \<open>Except for a step below -1 when a single bit is left, the decoder finds the step coded.\<close>

lemma coarse_code_coded:
  assumes "codes_ok prob" and "budget - ec_tell c = 1 \<Longrightarrow> - 1 \<le> qi"
  shows "coded n c (coarse_code budget prob i qi c) (\<lambda>q. q) (coarse_decode budget prob i)"
proof -
  let ?tell = "ec_tell c"
  let ?small = "\<lambda>d. map_option (\<lambda>(s, d). ((int s div 2) XOR (- (int s mod 2)), d)) (ec_dec_icdf small_energy_icdf 2 d)"
  let ?bit = "\<lambda>d. map_option (\<lambda>(b, d). (if b then - 1 else 0 :: int, d)) (ec_dec_bit_logp 1 d)"
  let ?g = "\<lambda>tell d. if budget - tell \<ge> 15
      then ec_laplace_decode (prob ! (2 * min i 20) * 2 ^ 7) (prob ! (2 * min i 20 + 1) * 2 ^ 6) d
      else if budget - tell \<ge> 2 then ?small d else if budget - tell \<ge> 1 then ?bit d else Some (- 1, d)"
  have "coded n c (coarse_code budget prob i qi c) (\<lambda>q. q) (?g ?tell)"
  proof (cases "budget - ?tell \<ge> 15")
    case True
    then show ?thesis using laplace_coded [of "prob ! (2 * min i 20) * 2 ^ 7" "prob ! (2 * min i 20 + 1) * 2 ^ 6"] assms(1)
      by (simp add: coarse_code_def Let_def codes_ok_def)
  next
    case le: False
    consider "budget - ?tell \<ge> 2" | "budget - ?tell = 1" | "budget - ?tell < 1" by linarith
    then show ?thesis
    proof cases
      case 1
      let ?q = "max (- 1) (min qi 1)"
      note s = small_index [of ?q, simplified]
      have "lockstep (ec_enc_icdf (small_index ?q) small_energy_icdf 2) ?small ?q"
        by (rule lockstep_decoder [OF icdf_lockstep]) (simp_all add: small_energy_valid s)
      from coded_lockstep [where p = "\<lambda>q. q", OF this, of n c] 1 le show ?thesis
        by (simp add: coarse_code_def Let_def)
    next
      case 2
      then have q: "min 0 qi = - 1 \<or> min 0 qi = 0" using assms(2) by auto
      have "lockstep (ec_enc_bit_logp (- min 0 qi \<noteq> 0) 1) ?bit (min 0 qi)"
        by (rule lockstep_decoder [OF bit_logp_lockstep]) (use q in auto)
      from coded_lockstep [where p = "\<lambda>q. q", OF this, of n c] 2 show ?thesis
        by (simp add: coarse_code_def Let_def)
    next
      case 3
      with coded_return [of n c "- 1" "\<lambda>q. q"] show ?thesis by (simp add: coarse_code_def Let_def)
    qed
  qed
  moreover have "coarse_decode budget prob i = (\<lambda>d. ?g (ec_tell d) d)"
    by (simp add: coarse_decode_def Let_def fun_eq_iff)
  ultimately show ?thesis using coded_tell [of n c _ _ "\<lambda>tell _. ?g tell"] by simp
qed

text \<open>No step costs more than 15 bits.\<close>

lemma coarse_code_cost:
  assumes "codes_ok prob" and "alive c" and "coarse_code budget prob i qi c = Some (q, c')"
  shows "ec_tell c' \<le> ec_tell c + 15"
proof -
  consider "budget - ec_tell c \<ge> 15" | "budget - ec_tell c < 15" "budget - ec_tell c \<ge> 2" | "budget - ec_tell c = 1"
    | "budget - ec_tell c < 1" by linarith
  then show ?thesis
  proof cases
    case 1
    let ?fs = "prob ! (2 * min i 20) * 2 ^ 7" and ?decay = "prob ! (2 * min i 20 + 1) * 2 ^ 6"
    obtain w fl f where iv: "laplace_interval qi ?fs ?decay = (w, fl, f)" by (metis prod_cases3)
    have "laplace_valid ?fs ?decay" using assms(1) by (simp add: codes_ok_def)
    note l = laplace_lockstep [OF this iv]
    have "ec_encode fl (fl + f) (2 ^ 15) c = Some c'"
      using assms(3) 1 iv l(4) by (auto simp: coarse_code_def Let_def ec_laplace_encode_def ec_encode_bin_eq)
    with encode_cost [OF assms(2) l(1) _ _ _ this] l(2,3) show ?thesis by simp
  next
    case 2
    let ?q = "max (- 1) (min qi 1)"
    let ?s = "small_index ?q"
    have s: "?s \<le> 2" by (rule small_index) simp_all
    note v = icdf_bounds [OF small_energy_valid [OF s]]
    have eq: "coarse_code budget prob i qi c = map_option (Pair ?q) (ec_enc_icdf ?s small_energy_icdf 2 c)"
      using 2 by (simp add: coarse_code_def Let_def)
    have "ec_encode (icdf_fl ?s small_energy_icdf 2) (2 ^ 2 - small_energy_icdf ! ?s) (2 ^ 2) c = Some c'"
      using assms(3) unfolding eq v(5) by auto
    from encode_cost [OF assms(2) _ _ _ _ this] v(1-3) show ?thesis by simp
  next
    case 3
    then have "ec_enc_bit_logp (- min 0 qi \<noteq> 0) 1 c = Some c'" using assms(3) by (auto simp: coarse_code_def Let_def)
    from bit_logp_cost [OF assms(2) _ _ this] show ?thesis by simp
  next
    case 4
    with assms(3) show ?thesis by (simp add: coarse_code_def Let_def)
  qed
qed

section \<open>A band\<close>

lemma coarse_band_coded:
  assumes "arg_LM a < 4" and "budget - ec_tell c = 1 \<Longrightarrow> fst ic \<noteq> arg_start a \<and> fst ic < arg_end a \<and> 0 < arg_C a"
  shows "coded n c (quant_coarse_band a budget (e_prob_model ! arg_LM a ! of_bool (intra a)) max_decay lfe eBands ic st c)
    (\<lambda>st. (old_bands st, band_prev st)) (unquant_coarse_band a budget ic (old_bands st, band_prev st))"
proof -
  obtain i ch where ic: "ic = (i, ch)" by (cases ic)
  define prob where "prob = e_prob_model ! arg_LM a ! of_bool (intra a)"
  let ?j = "i + ch * nbEBands a"
  let ?old = "old_bands st ! ?j" and ?prev = "band_prev st ! ch"
  obtain f qi0 where t: "coarse_target (coarse_coef a) max_decay (eBands ! ?j) ?old ?prev = (f, qi0)" by force
  define bits_left where "bits_left = budget - ec_tell c - 3 * int (arg_C a) * (int (arg_end a) - int i)"
  let ?qi = "coarse_limit (arg_start a) i bits_left lfe (arg_C a) qi0"
  let ?F = "\<lambda>qi. st\<lparr>old_bands := (old_bands st)[?j := coarse_energy (coarse_coef a) ?old ?prev qi],
      band_error := (band_error st)[?j := s16 (PSHR32 f 7 - SHL16 qi DB_SHIFT)],
      band_prev := (band_prev st)[ch := coarse_prev (coarse_beta a) ?prev qi], badness := i32 (badness st + \<bar>qi0 - qi\<bar>)\<rparr>"
  let ?G = "\<lambda>qi. ((old_bands st)[?j := coarse_energy (coarse_coef a) ?old ?prev qi],
      (band_prev st)[ch := coarse_prev (coarse_beta a) ?prev qi])"
  have "- 1 \<le> ?qi" if one: "budget - ec_tell c = 1"
  proof -
    have "1 * 1 \<le> int (arg_C a) * (int (arg_end a) - int i)" using assms(2) [OF one] by (intro mult_mono) (simp_all add: ic)
    then have "bits_left < 16" using one by (simp add: bits_left_def)
    then show ?thesis using assms(2) [OF one] by (auto simp: coarse_limit_def ic Let_def)
  qed
  from coarse_code_coded [OF prob_model [OF assms(1), of "intra a", folded prob_def] this]
  have "coded n c (coarse_code budget prob i ?qi c) (\<lambda>q. q) (coarse_decode budget prob i)" .
  from coded_decoder [where q = ?G and p' = ?G, OF this]
  have "coded n c (coarse_code budget prob i ?qi c) ?G (\<lambda>d. map_option (\<lambda>(v, d). (?G v, d)) (coarse_decode budget prob i d))"
    by simp
  from coded_values [where f = ?F and p' = "\<lambda>st. (old_bands st, band_prev st)", OF this]
  moreover have "unquant_coarse_band a budget ic (old_bands st, band_prev st)
      = (\<lambda>d. map_option (\<lambda>(v, d). (?G v, d)) (coarse_decode budget prob i d))"
    by (simp add: fun_eq_iff unquant_coarse_band_def ic Let_def prob_def)
  ultimately show ?thesis unfolding prob_def [symmetric]
    by (simp add: quant_coarse_band_def ic Let_def t bits_left_def [symmetric] case_prod_unfold)
qed

text \<open>The first band may be coded with care only when each of its channels is left two bits; 15 bits for each before it are enough.\<close>

definition first_left :: "coarse_args \<Rightarrow> int \<Rightarrow> (nat \<times> nat) list \<Rightarrow> coarse \<Rightarrow> ec_ctx \<Rightarrow> bool" where
  "first_left a budget ps st c = (sorted (map fst ps) \<and> (\<forall>p \<in> set ps. arg_start a \<le> fst p \<and> fst p < arg_end a)
     \<and> (let m = length (filter (\<lambda>p. fst p = arg_start a) ps) in 0 < m \<longrightarrow> 15 * int m - 13 \<le> budget - ec_tell c))"

lemma first_left_step:
  assumes "arg_LM a < 4" and "first_left a budget (ic # ps) st c" and "alive c"
    and "quant_coarse_band a budget (e_prob_model ! arg_LM a ! of_bool (intra a)) max_decay lfe eBands ic st c = Some (st', c')"
  shows "first_left a budget ps st' c'"
proof -
  obtain i ch where ic: "ic = (i, ch)" by (cases ic)
  obtain qi q where "coarse_code budget (e_prob_model ! arg_LM a ! of_bool (intra a)) i qi c = Some (q, c')"
    using assms(4) by (auto simp: quant_coarse_band_def ic Let_def split: prod.splits)
  from coarse_code_cost [OF prob_model [OF assms(1)] assms(3) this] have cost: "ec_tell c' \<le> ec_tell c + 15" .
  show ?thesis
  proof (cases "i = arg_start a")
    case True
    with assms(2) cost show ?thesis by (auto simp: first_left_def ic Let_def)
  next
    case False
    with assms(2) have "filter (\<lambda>p. fst p = arg_start a) ps = []" by (force simp: first_left_def ic filter_empty_conv)
    with assms(2) show ?thesis by (simp add: first_left_def)
  qed
qed

lemma coarse_bands_coded:
  assumes "arg_LM a < 4" and "0 < arg_C a" and "first_left a budget ps st c"
  shows "coded n c (each (quant_coarse_band a budget (e_prob_model ! arg_LM a ! of_bool (intra a)) max_decay lfe eBands) ps st c)
    (\<lambda>st. (old_bands st, band_prev st)) (each (unquant_coarse_band a budget) ps (old_bands st, band_prev st))"
  using assms(3)
proof (rule coded_each [where I = "first_left a budget"])
  fix ic ps st c assume left: "first_left a budget (ic # ps) st c"
  show "coded n c (quant_coarse_band a budget (e_prob_model ! arg_LM a ! of_bool (intra a)) max_decay lfe eBands ic st c)
      (\<lambda>st. (old_bands st, band_prev st)) (unquant_coarse_band a budget ic (old_bands st, band_prev st))"
    by (rule coarse_band_coded [OF assms(1)]) (use left assms(2) in \<open>auto simp: first_left_def Let_def split: if_splits\<close>)
qed (rule first_left_step [OF assms(1)])

lemma positions_first:
  assumes "0 < arg_C a" and "15 * int (arg_C a) - 13 \<le> budget - ec_tell c"
  shows "first_left a budget (positions a) st c"
proof -
  have "0 < n \<Longrightarrow> sorted (map fst [(i, c). i \<leftarrow> [x..<b], c \<leftarrow> [0..<n]])" for n x b :: nat
  proof (induction "b - x" arbitrary: x)
    case (Suc k)
    have "sorted (map fst [(i, c). i \<leftarrow> [Suc x..<b], c \<leftarrow> [0..<n]])" using Suc by simp
    moreover have "map fst (map (Pair x) [0..<n]) = replicate n x" by (rule nth_equalityI) simp_all
    ultimately show ?case using Suc.hyps(2) by (auto simp: upt_conv_Cons sorted_append simp del: map_map)
  qed simp
  moreover have cnt: "length (filter (\<lambda>p. fst p = x) [(i, c). i \<leftarrow> [x..<b], c \<leftarrow> [0..<n]]) \<le> n" for n x b :: nat
  proof (cases "x < b")
    case True
    have "filter (\<lambda>p. fst p = x) [(i, c). i \<leftarrow> [Suc x..<b], c \<leftarrow> [0..<n]] = []" by (auto simp: filter_empty_conv)
    with True show ?thesis by (simp add: upt_conv_Cons)
  qed simp
  moreover have "15 * int (length (filter (\<lambda>p. fst p = arg_start a) (positions a))) - 13 \<le> budget - ec_tell c"
    using cnt [of "arg_start a" "arg_C a" "arg_end a"] assms by (simp add: positions_def max_def)
  moreover have "\<forall>p \<in> set (positions a). arg_start a \<le> fst p \<and> fst p < arg_end a" by (auto simp: positions_def)
  ultimately show ?thesis using assms(1) by (simp add: first_left_def Let_def) (simp add: positions_def max_def)
qed

text \<open>The whole coarse step, with the flag that both sides code first.\<close>

lemma coarse_coded:
  assumes "arg_LM a < 4" and "0 < arg_C a" and "budget = int n * 8" and "15 * int (arg_C a) - 10 \<le> budget - ec_tell c"
  shows "coded n c (quant_coarse_energy_impl a budget (ec_tell c) (e_prob_model ! arg_LM a ! of_bool (intra a))
      max_decay lfe eBands oldEBands err c) old_bands (decode_coarse (a\<lparr>intra := x\<rparr>) oldEBands)"
proof (cases "alive c")
  case True
  let ?st = "\<lparr>old_bands = oldEBands, band_error = err, band_prev = [0, 0], badness = 0\<rparr>"
  let ?E = "each (quant_coarse_band a budget (e_prob_model ! arg_LM a ! of_bool (intra a)) max_decay lfe eBands) (positions a)"
  let ?F = "\<lambda>st. st\<lparr>badness := (if lfe then 0 else badness st)\<rparr>"
  let ?D = "\<lambda>flag. unquant_coarse_energy (a\<lparr>intra := flag\<rparr>) oldEBands"
  have flag: "coded n c (map_option (Pair (intra a)) (ec_enc_bit_logp (intra a) 3 c)) (\<lambda>v. v) (ec_dec_bit_logp 3)"
    by (rule coded_lockstep) (simp add: bit_logp_lockstep)
  have "coded n c' (map_option (\<lambda>(st, c). (?F st, c)) (?E ?st c')) old_bands (?D (intra a))"
    if "ec_enc_bit_logp (intra a) 3 c = Some c'" for c'
  proof -
    let ?g = "\<lambda>n d. map_option (\<lambda>((bands, _), d). (bands, d)) (each (unquant_coarse_band a (int n * 8)) (positions a) (oldEBands, [0, 0]) d)"
    have "ec_tell c' \<le> ec_tell c + 3" using bit_logp_cost [OF True _ _ that] by simp
    then have "first_left a budget (positions a) ?st c'" using assms(2,4) by (intro positions_first) simp_all
    from coarse_bands_coded [OF assms(1,2) this, where max_decay = max_decay and lfe = lfe and eBands = eBands]
    have "coded n c' (?E ?st c') (\<lambda>st. (old_bands st, band_prev st)) (each (unquant_coarse_band a budget) (positions a) (oldEBands, [0, 0]))"
      by simp
    from coded_decoder [where q = fst and p' = old_bands, OF this]
    have "coded n c' (map_option (\<lambda>(st, c). (?F st, c)) (?E ?st c')) old_bands (?g n)"
      by (intro coded_values [where p = old_bands]) (simp_all add: assms(3) case_prod_unfold)
    then have "coded n c' (map_option (\<lambda>(st, c). (?F st, c)) (?E ?st c')) old_bands (\<lambda>d. ?g (ec_storage d) d)" by (rule coded_tell)
    moreover have "?D (intra a) = (\<lambda>d. ?g (ec_storage d) d)" by (simp add: fun_eq_iff unquant_coarse_energy_def)
    ultimately show ?thesis by simp
  qed
  then have "coded n c (Option.bind (map_option (Pair (intra a)) (ec_enc_bit_logp (intra a) 3 c))
        (\<lambda>(_, c). map_option (\<lambda>(st, c). (?F st, c)) (?E ?st c))) old_bands
      (\<lambda>d. Option.bind (ec_dec_bit_logp 3 d) (\<lambda>(flag, d). ?D flag d))"
    by (intro coded_bind [OF flag]) auto
  moreover have "Option.bind (map_option (Pair (intra a)) (ec_enc_bit_logp (intra a) 3 c)) (\<lambda>(_, c). map_option (\<lambda>(st, c). (?F st, c)) (?E ?st c))
      = quant_coarse_energy_impl a budget (ec_tell c) (e_prob_model ! arg_LM a ! of_bool (intra a)) max_decay lfe eBands oldEBands err c"
    using assms(2,4) by (simp add: quant_coarse_energy_impl_def bind_map_option comp_def)
  moreover let ?g = "\<lambda>tell n d. Option.bind (if tell + 3 \<le> int n * 8 then ec_dec_bit_logp 3 d else Some (False, d)) (\<lambda>(flag, d). ?D flag d)"
  have "?g (ec_tell c) n = (\<lambda>d. Option.bind (ec_dec_bit_logp 3 d) (\<lambda>(flag, d). ?D flag d))"
    using assms(2-4) by (simp add: fun_eq_iff)
  ultimately have "coded n c (quant_coarse_energy_impl a budget (ec_tell c) (e_prob_model ! arg_LM a ! of_bool (intra a))
      max_decay lfe eBands oldEBands err c) old_bands (?g (ec_tell c) n)" by (simp only:)
  from coded_tell [where g = ?g, OF this]
  show ?thesis by (simp add: decode_coarse_def [abs_def])
qed (simp add: coded_def)

section \<open>The fine step and the bits left\<close>

lemma bits_coded:
  assumes "0 < bits" and "bits \<le> 25" and "0 \<le> q" and "q < 2 ^ bits" and "p x = f q"
  shows "coded n c (Some (x, ec_enc_bits q bits c)) p (\<lambda>d. let (q, d) = ec_dec_bits bits d in Some (f q, d))"
proof -
  have "lockstep (\<lambda>c. Some (ec_enc_bits q bits c)) (\<lambda>d. let (q, d) = ec_dec_bits bits d in Some (f q, d)) (p x)"
    by (rule lockstep_decoder [OF bits_lockstep]) (use assms in simp_all)
  then have "coded n c (map_option (Pair x) ((\<lambda>c. Some (ec_enc_bits q bits c)) c)) p
      (\<lambda>d. let (q, d) = ec_dec_bits bits d in Some (f q, d))" by (rule coded_lockstep)
  then show ?thesis by simp
qed

lemma fine_band_coded:
  assumes "fine_quant ! fst ic \<le> MAX_FINE_BITS"
  shows "coded n c (quant_fine_band a fine_quant ic st c) fst (unquant_fine_band a fine_quant ic (fst st))"
proof (cases "fine_quant ! fst ic \<le> 0")
  case True
  then have "unquant_fine_band a fine_quant ic (fst st) = (\<lambda>d. Some (fst st, d))"
    by (simp add: fun_eq_iff unquant_fine_band_def case_prod_unfold)
  with True coded_return [of n c st fst] show ?thesis by (simp add: quant_fine_band_def case_prod_unfold)
next
  case False
  obtain i ch bands err where ic: "ic = (i, ch)" "st = (bands, err)" by (cases ic, cases st)
  define bits where "bits = nat (fine_quant ! i)"
  have bits: "0 < bits" "bits \<le> 8" using False assms by (simp_all add: bits_def ic MAX_FINE_BITS_def)
  have "(2 :: int) ^ bits \<le> 2 ^ 8" using bits(2) by (intro power_increasing) simp_all
  then have frac: "s16 (2 ^ bits) = 2 ^ bits" by (intro s16_id) (simp_all add: order_trans [of _ 0])
  define q where "q = (let q2 = i32 (err ! (i + ch * nbEBands a) + 512) div 2 ^ (DB_SHIFT - bits);
      q2 = (if q2 > 2 ^ bits - 1 then 2 ^ bits - 1 else q2) in if q2 < 0 then 0 else q2)"
  have q: "0 \<le> q" "q < 2 ^ bits" by (auto simp: q_def Let_def)
  have "quant_fine_band a fine_quant ic st c = Some ((bands[i + ch * nbEBands a := s16 (bands ! (i + ch * nbEBands a) + fine_offset q bits)],
      err[i + ch * nbEBands a := s16 (err ! (i + ch * nbEBands a) - fine_offset q bits)]), ec_enc_bits q bits c)"
    using False by (simp add: quant_fine_band_def ic bits_def [symmetric] frac Let_def q_def)
  moreover have "unquant_fine_band a fine_quant ic (fst st) = (\<lambda>d. let (q, d) = ec_dec_bits bits d
      in Some (bands[i + ch * nbEBands a := s16 (bands ! (i + ch * nbEBands a) + fine_offset q bits)], d))"
    using False by (simp add: fun_eq_iff unquant_fine_band_def ic bits_def [symmetric] Let_def)
  ultimately show ?thesis using bits q by (simp only:) (rule bits_coded; simp)
qed

lemma fine_coded:
  assumes "\<forall>i. arg_start a \<le> i \<and> i < arg_end a \<longrightarrow> fine_quant ! i \<le> MAX_FINE_BITS"
  shows "coded n c (quant_fine_energy a fine_quant bands err c) fst (unquant_fine_energy a fine_quant bands)"
proof -
  have "coded n c (each (quant_fine_band a fine_quant) (positions a) (bands, err) c) fst
      (each (unquant_fine_band a fine_quant) (positions a) (fst (bands, err)))"
    by (rule coded_each [where I = "\<lambda>ps st c. \<forall>p \<in> set ps. fine_quant ! fst p \<le> MAX_FINE_BITS"])
      (use assms in \<open>auto simp: positions_def intro: fine_band_coded\<close>)
  moreover have "unquant_fine_energy a fine_quant bands = each (unquant_fine_band a fine_quant) (positions a) bands"
    by (simp add: fun_eq_iff unquant_fine_energy_def)
  ultimately show ?thesis by (simp add: quant_fine_energy_def)
qed

definition final_part :: "int list \<times> int list \<times> int \<Rightarrow> int list \<times> int" where
  "final_part st = (fst st, snd (snd st))"

lemma final_channel_coded:
  "coded n c (quant_final_channel a bits i ch st c) final_part (unquant_final_channel a bits i ch (final_part st))"
proof -
  obtain bands err left where st: "st = (bands, err, left)" by (cases st)
  let ?j = "i + ch * nbEBands a"
  let ?q = "if err ! ?j < 0 then 0 else 1 :: int"
  have "unquant_final_channel a bits i ch (final_part st)
      = (\<lambda>d. let (q, d) = ec_dec_bits 1 d in Some ((bands[?j := s16 (bands ! ?j + final_offset q bits)], left - 1), d))"
    by (simp add: fun_eq_iff unquant_final_channel_def st final_part_def Let_def)
  moreover have "coded n c (Some ((bands[?j := s16 (bands ! ?j + final_offset ?q bits)], err[?j := s16 (err ! ?j - final_offset ?q bits)], left - 1),
      ec_enc_bits ?q 1 c)) final_part (\<lambda>d. let (q, d) = ec_dec_bits 1 d in Some ((bands[?j := s16 (bands ! ?j + final_offset q bits)], left - 1), d))"
    by (rule bits_coded) (simp_all add: final_part_def)
  ultimately show ?thesis by (simp add: quant_final_channel_def st Let_def)
qed

lemma final_band_coded:
  "coded n c (quant_final_band a fine_quant fine_priority pi st c) final_part (unquant_final_band a fine_quant fine_priority pi (final_part st))"
proof -
  obtain prio i where pi: "pi = (prio, i)" by (cases pi)
  let ?C = "[0..<max 1 (arg_C a)]" and ?bits = "nat (fine_quant ! i)"
  have "coded n c (each (quant_final_channel a ?bits i) ?C st c) final_part (each (unquant_final_channel a ?bits i) ?C (final_part st))"
    by (rule coded_each [where I = "\<lambda>_ _ _. True"]) (simp_all add: final_channel_coded)
  moreover have "unquant_final_band a fine_quant fine_priority pi (final_part st)
      = (if finalise_skips fine_quant fine_priority prio i (arg_C a) (snd (snd st)) then (\<lambda>d. Some (final_part st, d))
         else each (unquant_final_channel a ?bits i) ?C (final_part st))"
    by (simp add: fun_eq_iff unquant_final_band_def pi final_part_def)
  ultimately show ?thesis using coded_return [of n c st final_part] by (simp add: quant_final_band_def pi)
qed

lemma finalise_coded:
  "coded n c (quant_energy_finalise a fine_quant fine_priority left bands err c) final_part
    (unquant_energy_finalise a fine_quant fine_priority left bands)"
proof -
  have "coded n c (each (quant_final_band a fine_quant fine_priority) (final_order a) (bands, err, left) c) final_part
      (each (unquant_final_band a fine_quant fine_priority) (final_order a) (final_part (bands, err, left)))"
    by (rule coded_each [where I = "\<lambda>_ _ _. True"]) (simp_all add: final_band_coded)
  moreover have "unquant_energy_finalise a fine_quant fine_priority left bands
      = each (unquant_final_band a fine_quant fine_priority) (final_order a) (bands, left)"
    by (simp add: fun_eq_iff unquant_energy_finalise_def)
  ultimately show ?thesis by (simp add: quant_energy_finalise_def final_part_def)
qed

section \<open>One bit left\<close>

text \<open>
  The case that \<open>coarse_code_coded\<close> leaves out: with a single bit left at the first band the step is only bounded above.
  The encoder goes on with a step of -4, of which the bit says no more than that it is negative, and the decoder with -1;
  neither flags an error.
\<close>

definition tight_args :: coarse_args where
  "tight_args = \<lparr>nbEBands = 1, arg_start = 0, arg_end = 1, arg_C = 1, arg_LM = 3, intra = False\<rparr>"

definition tight_start :: ec_ctx where
  "tight_start = ec_enc_bits 0 6 (ec_enc_init [0])"

lemma last_bit_drifts:
  "8 - ec_tell tight_start = 1
   \<and> map_option (\<lambda>(st, c). (old_bands st, ec_buf (ec_enc_done c), ec_error (ec_enc_done c)))
       (quant_coarse_energy_impl tight_args 8 7 (e_prob_model ! 3 ! 0) 16384 False [- 4000] [0] [0] tight_start)
     = Some ([- 4096], [128], 0)
   \<and> map_option fst (Option.bind (ec_dec_init [128]) (\<lambda>d. decode_coarse tight_args [0] (snd (ec_dec_bits 6 d)))) = Some [- 1024]"
  by code_simp
section \<open>A frame\<close>

lemma message_coded:
  assumes "codable_from celt_codes (fst m) [] (snd m)"
  shows "coded n c (enc_message m c) (\<lambda>vs. vs) (dec_message (fst m, length (snd m)))"
  unfolding enc_message_def dec_message_def [abs_def] fst_conv snd_conv
  by (rule coded_lockstep) (rule celt.message_lockstep [OF assms])

lemma energies_coded:
  assumes "arg_LM a < 4" and "0 < arg_C a" and "budget = int n * 8" and "15 * int (arg_C a) - 10 \<le> budget - ec_tell c"
    and "\<forall>i. arg_start a \<le> i \<and> i < arg_end a \<longrightarrow> fine_quant ! i \<le> MAX_FINE_BITS"
    and "codable_from celt_codes (fst m1) [] (snd m1)" and "codable_from celt_codes (fst m2) [] (snd m2)"
  shows "coded n c (encode_energies a budget max_decay lfe eBands oldEBands err fine_quant fine_priority m1 m2 c) final_part
    (decode_energies (a\<lparr>intra := x\<rparr>) oldEBands fine_quant fine_priority (fst m1, length (snd m1)) (fst m2, length (snd m2)))"
proof -
  let ?a = "a\<lparr>intra := x\<rparr>"
  have step: "unquant_fine_band ?a = unquant_fine_band a" "unquant_final_channel ?a = unquant_final_channel a"
    by (auto simp: fun_eq_iff unquant_fine_band_def unquant_final_channel_def)
  from step(2) have final: "unquant_final_band ?a = unquant_final_band a"
    by (intro ext) (simp add: unquant_final_band_def split: prod.split)
  have order: "positions ?a = positions a" "final_order ?a = final_order a" by (simp_all add: positions_def final_order_def)
  have same: "unquant_fine_energy ?a = unquant_fine_energy a" "unquant_energy_finalise ?a = unquant_energy_finalise a"
    by (intro ext, simp only: unquant_fine_energy_def unquant_energy_finalise_def step final order)+
  have last: "coded n c (quant_energy_finalise a fine_quant fine_priority (budget - ec_tell c) bands err c) final_part
      (\<lambda>d. unquant_energy_finalise a fine_quant fine_priority (int (ec_storage d) * 8 - ec_tell d) bands d)" for bands err c
    unfolding assms(3)
    by (rule coded_tell [where g = "\<lambda>tell n. unquant_energy_finalise a fine_quant fine_priority (int n * 8 - tell) bands"])
      (rule finalise_coded)
  note fin = coded_bind [OF message_coded [OF assms(7)] last]
  have fine: "coded n c (Option.bind (quant_fine_energy a fine_quant bands err c) (\<lambda>((bands, err), c).
        Option.bind (enc_message m2 c) (\<lambda>(_, c). quant_energy_finalise a fine_quant fine_priority (budget - ec_tell c) bands err c))) final_part
      (\<lambda>d. Option.bind (unquant_fine_energy a fine_quant bands d) (\<lambda>(bands, d).
        Option.bind (dec_message (fst m2, length (snd m2)) d)
          (\<lambda>(_, d). unquant_energy_finalise a fine_quant fine_priority (int (ec_storage d) * 8 - ec_tell d) bands d)))" for bands err c
  proof (rule coded_bind [OF fine_coded [OF assms(5)]])
    fix st c'
    show "coded n c' ((case st of (bands, err) \<Rightarrow> \<lambda>c. Option.bind (enc_message m2 c)
          (\<lambda>(_, c). quant_energy_finalise a fine_quant fine_priority (budget - ec_tell c) bands err c)) c') final_part
        (\<lambda>d. Option.bind (dec_message (fst m2, length (snd m2)) d)
          (\<lambda>(_, d). unquant_energy_finalise a fine_quant fine_priority (int (ec_storage d) * 8 - ec_tell d) (fst st) d))"
      using fin by (cases st) simp
  qed
  note mid = coded_bind [OF message_coded [OF assms(6)] fine]
  show ?thesis unfolding encode_energies_def decode_energies_def [abs_def] same
    by (rule coded_bind [OF coarse_coded [OF assms(1-4)]]) (rule mid)
qed

text \<open>
  C11: The decoder's band energies are the encoder's, bit for bit. An encoder codes any message, then the
  energies of a frame (coarse step, fine step, last bits, with messages of other symbols between them), and closes a packet of as many
  bytes as its budget says without an error. A decoder that is given only the packet, the energies of the frame
  before, the kinds of the symbols between and the allocation returns the same energies, and has spent as many bits.
  The energies predict those of the next frame, so the two sides do not drift apart. The budget must leave each channel of
  the first band its 15 bits.
\<close>

theorem energies_decoded:
  assumes "arg_LM a < 4" and "0 < arg_C a"
    and "\<forall>i. arg_start a \<le> i \<and> i < arg_end a \<longrightarrow> fine_quant ! i \<le> MAX_FINE_BITS"
    and "codable_from celt_codes (fst m) [] (snd m)" and "codable_from celt_codes (fst m1) [] (snd m1)"
    and "codable_from celt_codes (fst m2) [] (snd m2)"
    and "enc_message m (ec_enc_init buf) = Some (snd m, c0)" and "15 * int (arg_C a) - 10 \<le> budget - ec_tell c0"
    and "encode_energies a budget max_decay lfe eBands oldEBands err fine_quant fine_priority m1 m2 c0 = Some ((bands, err', left), c)"
    and "ec_error (ec_enc_done c) = 0" and "budget = int (length (ec_buf (ec_enc_done c))) * 8"
  shows "\<exists>d d0 d'. ec_dec_init (ec_buf (ec_enc_done c)) = Some d
    \<and> dec_message (fst m, length (snd m)) d = Some (snd m, d0)
    \<and> decode_energies (a\<lparr>intra := x\<rparr>) oldEBands fine_quant fine_priority (fst m1, length (snd m1)) (fst m2, length (snd m2)) d0
        = Some ((bands, left), d')
    \<and> ec_tell d' = ec_tell c \<and> ec_error d' = 0"
proof -
  let ?buf = "ec_buf (ec_enc_done c)"
  let ?n = "length ?buf"
  note run0 = message_coded [OF assms(4), of ?n "ec_enc_init buf"]
    and run = energies_coded [OF assms(1,2,11,8,3,5,6), of max_decay lfe eBands oldEBands err fine_priority x]
  have ready: "ready (ec_enc_init buf)" by (rule enc_init_ready)
  have alive: "alive c0" using run0 assms(7) ready by (simp add: coded_def ready_def)
  with run assms(9) done_error [OF assms(10)] have e0: "ec_error c0 = 0" by (simp add: coded_def)
  with run0 assms(7) ready have f0: "finds ?n (ec_enc_init buf) c0 (dec_message (fst m, length (snd m))) (snd m)"
    by (simp add: coded_def ready_def)
  then have "ready c0" by (simp add: finds_def)
  with run assms(9) done_error [OF assms(10)] alive have f: "finds ?n c0 c (decode_energies (a\<lparr>intra := x\<rparr>) oldEBands fine_quant
      fine_priority (fst m1, length (snd m1)) (fst m2, length (snd m2))) (bands, left)"
    by (simp add: coded_def final_part_def)
  then have h: "holds ?buf c" using done_holds [OF _ assms(10)] by (simp add: finds_def)
  obtain d where d: "ec_dec_init ?buf = Some d" "sync ?buf (ec_enc_init buf) d" using dec_init_sync by blast
  from h f have h0: "holds ?buf c0" by (simp add: finds_def)
  with f0 d(2) obtain d0 where d0: "dec_message (fst m, length (snd m)) d = Some (snd m, d0)" "sync ?buf c0 d0"
    unfolding finds_def by blast
  with f h obtain d' where "decode_energies (a\<lparr>intra := x\<rparr>) oldEBands fine_quant fine_priority
      (fst m1, length (snd m1)) (fst m2, length (snd m2)) d0 = Some ((bands, left), d')" "sync ?buf c d'"
    unfolding finds_def by blast
  with d(1) d0(1) show ?thesis by (auto simp: sync_def ec_tell_def)
qed

definition sample_args :: coarse_args where
  "sample_args = \<lparr>nbEBands = 3, arg_start = 0, arg_end = 3, arg_C = 1, arg_LM = 3, intra = True\<rparr>"

definition sample_header :: "(celt_value list \<Rightarrow> celt_op) \<times> celt_value list" where
  "sample_header = (\<lambda>past. Entropy (Code_Bit_Logp 1), [Plain (Flag True)])"

definition sample_spread :: "(celt_value list \<Rightarrow> celt_op) \<times> celt_value list" where
  "sample_spread = (\<lambda>past. Entropy (Code_Icdf [25, 23, 2, 0] 5), [Plain (Index 2)])"

definition sample_pulses :: "(celt_value list \<Rightarrow> celt_op) \<times> celt_value list" where
  "sample_pulses = (\<lambda>past. Pulses 4 3, [Vector [1, 0, - 2, 0]])"

definition sample_frame :: "ec_ctx \<Rightarrow> ((int list \<times> int list \<times> int) \<times> ec_ctx) option" where
  "sample_frame = encode_energies sample_args 96 16384 False [5000, -3000, 100] [0, 0, 0] [0, 0, 0] [1, 0, 3] [0, 1, 0]
     sample_spread sample_pulses"

definition sample_start :: ec_ctx where
  "sample_start = snd (the (enc_message sample_header (ec_enc_init (replicate 12 0))))"

lemma energies_decoded_witness:
  "\<exists>bands err left c d d0 d'. sample_frame sample_start = Some ((bands, err, left), c)
    \<and> ec_dec_init (ec_buf (ec_enc_done c)) = Some d \<and> dec_message (fst sample_header, 1) d = Some (snd sample_header, d0)
    \<and> decode_energies (sample_args\<lparr>intra := False\<rparr>) [0, 0, 0] [1, 0, 3] [0, 1, 0] (fst sample_spread, 1) (fst sample_pulses, 1) d0
        = Some ((bands, left), d')"
proof -
  let ?r = "sample_frame sample_start"
  have "?r \<noteq> None" by code_simp
  then obtain bands err left c where r: "?r = Some ((bands, err, left), c)" by (cases ?r) auto
  have "ec_error (ec_enc_done (snd (the ?r))) = 0 \<and> length (ec_buf (ec_enc_done (snd (the ?r)))) = 12" by code_simp
  then have closed: "ec_error (ec_enc_done c) = 0" "length (ec_buf (ec_enc_done c)) = 12" using r by simp_all
  have start: "enc_message sample_header (ec_enc_init (replicate 12 0)) \<noteq> None" by code_simp
  then have header: "enc_message sample_header (ec_enc_init (replicate 12 0)) = Some (snd sample_header, sample_start)"
    by (auto simp: sample_start_def enc_message_def)
  have tell: "15 * int (arg_C sample_args) - 10 \<le> 96 - ec_tell sample_start" by code_simp
  have codable: "codable_from celt_codes (fst sample_header) [] (snd sample_header)"
    "codable_from celt_codes (fst sample_spread) [] (snd sample_spread)"
    "codable_from celt_codes (fst sample_pulses) [] (snd sample_pulses)" by code_simp+
  have "i = 0 \<or> i = 1 \<or> i = 2" if "i < 3" for i :: nat using that by arith
  then have fine: "\<forall>i. arg_start sample_args \<le> i \<and> i < arg_end sample_args \<longrightarrow> [1, 0, 3 :: int] ! i \<le> MAX_FINE_BITS"
    by (fastforce simp: sample_args_def MAX_FINE_BITS_def)
  from energies_decoded [of sample_args, OF _ _ fine codable header tell r [unfolded sample_frame_def] closed(1), of False] r closed(2)
  show ?thesis by (auto simp: sample_args_def sample_header_def sample_spread_def sample_pulses_def)
qed

end
