(* ===== verification/Spec2Isabelle.thy ===== *)
theory Spec2Isabelle
  imports Ble_Replay Button Dsp Vad Audio_Task Executor_Core Commands Provisioning Media_Index
    Sd_Store Snapshot Video Ble_Link Gatt Wifi_Transfer Battery Executor App_Main Selftest Range_Tell Range_Decoder
    Repacketizer_Laws Band_Energy_Laws
begin

text \<open>
  OpenRecall is a wearable recorder: an ESP32-S3 captures speech and pictures, keeps the last minute
  of audio in a ring, streams it over BLE to a phone, stores photos and clips on an SD card, hands
  them over through a WiFi access point, and obeys commands signed by a server. This development
  models the C firmware (\<open>src/firmware/openrecall_sensor/main\<close>), the hardware self-test
  (\<open>src/firmware/openrecall_selftest/main\<close>), the entropy coder, what CELT writes with it and the packet
  framing of the Opus library the firmware carries (\<open>components/opus/opus-1.5.2\<close>: \<open>celt/ent*.c\<close>,
  \<open>celt/cwrs.c\<close>, \<open>celt/laplace.c\<close>, \<open>celt/quant_bands.c\<close>, \<open>src/opus.c\<close>, \<open>src/extensions.c\<close>,
  \<open>src/repacketizer.c\<close>) and the two pieces of the Python server the firmware must
  agree with (\<open>ingest/audio_packet.py\<close> and \<open>agent/validator_command.py\<close>).

  The parts and their theories.
  \<^item> \<open>Prelude\<close>: C integers (32-bit and 64-bit wrap-around, arithmetic shift, saturation), byte copies,
    string comparison, little-endian fields, \<open>esp_err_t\<close>. \<open>Config\<close>: every constant of \<open>config.h\<close>.
  \<^item> Audio path: \<open>Dsp\<close> (gain, DC blocker, high-pass, noise canceller), \<open>Vad\<close> (the three detectors),
    \<open>Audio_Task\<close> (\<open>audio_task\<close>, \<open>audio_capture.c\<close>, \<open>opus_stream.c\<close>) and \<open>Ring_Buffer\<close>: the audio
    task pushes one entry per 20 ms frame into the ring.
  \<^item> Streaming: \<open>C6_Packet\<close> (the packet format, both ends), \<open>Ble_Drain\<close> (the live part of
    \<open>ble_drain.c\<close>: preroll, batches, packets, retries) and \<open>Ble_Replay\<close> (\<open>drain_replay\<close> and the
    replay queue): the drainer reads the ring and hands packets to the link.
  \<^item> Link: \<open>Ble_Link\<close> (GAP events, advertising, notification, suspension) and \<open>Gatt\<close> (the attribute
    table and the accesses of a phone).
  \<^item> Control: \<open>Executor_Core\<close> (parsing of a command's parameters), \<open>Commands\<close> (signature,
    deduplication, acknowledgement), \<open>Provisioning\<close> (the trusted key and its store), \<open>Executor\<close> (the
    queue, the dispatch of each command, the audio gate and the button's dispatch), \<open>Button\<close> (the
    gesture classifier).
  \<^item> Pictures: \<open>Media_Index\<close> (file names and manifest lines), \<open>Sd_Store\<close> (the card), \<open>Snapshot\<close>
    (camera, activation counter, ambient photos), \<open>Video\<close> (clips), \<open>Wifi_Transfer\<close> (the HTTP
    handlers and the transfer window).
  \<^item> \<open>Battery\<close> (reading and telemetry), \<open>App_Main\<close> (the boot) and \<open>Selftest\<close>.
  \<^item> Entropy coder: \<open>Range_Coder\<close> (every operation of \<open>entcode.h\<close>, \<open>entcode.c\<close>, \<open>entenc.c\<close> and
    \<open>entdec.c\<close>), \<open>Range_Coding\<close> (the interval the written bytes stand for, carries included),
    \<open>Range_Raw\<close> (the raw bits at the other end of the buffer), \<open>Range_Codec\<close> (encoder and decoder in
    lockstep, symbol by symbol), \<open>Range_Roundtrip\<close> (whole messages), \<open>Range_Tell\<close> (the counts of
    bits used) and \<open>Range_Decoder\<close> (the decoder on bytes nobody encoded).
  \<^item> What CELT codes: \<open>Pulse_Table\<close> and \<open>Pulse_Coding\<close> (\<open>cwrs.c\<close>: the number of a pulse vector and back),
    \<open>Laplace\<close> (\<open>laplace.c\<close>), \<open>Celt_Symbols\<close> (messages of these and the coder's own symbols), \<open>Coding_Run\<close>
    (runs that look at the bits spent), \<open>Band_Energy\<close> (\<open>quant_bands.c\<close>: the coarse, fine and last steps of the
    band energies, both sides) and \<open>Band_Energy_Laws\<close> (the decoder's energies are the encoder's).
  \<^item> Packet framing: \<open>Opus_Packet\<close> (the parser of \<open>opus.c\<close> and the queries of \<open>opus_decoder.c\<close>),
    \<open>Opus_Extensions\<close> (\<open>extensions.c\<close>), \<open>Opus_Repacketizer\<close> (\<open>repacketizer.c\<close>, and the parser on
    what it writes) and \<open>Repacketizer_Laws\<close> (invariant, round trip, padding, unpadding).

  How the code is represented. A module's static variables are a record with the source's names, a
  function is a definition on that record that returns it updated, an error code is a value, and an
  enum is a datatype. Integers whose width matters are words or \<open>int\<close> brought back to their width
  after every operation. What is outside the repository is an argument: ESP-IDF calls and file
  operations by their results, libsodium and the Opus codec by a function, NVS by a record of functions with
  the laws \<open>nvs_laws\<close>, cJSON by a record of accessors, the NimBLE stack by an oracle of return codes
  and the callbacks it can make. Tasks that interleave (video task, \<open>video_start\<close>, \<open>video_stop\<close>, the
  snapshot worker's lines; BLE
  callbacks and the transfer task; accesses of a phone) are inductive step relations in which every
  step is one access to shared variables or one callback.

  Interfaces are locales, interpreted on the model: \<open>message_queue\<close> (\<open>Executor\<close>: the command and the
  replay queue), \<open>file_store\<close> (\<open>Sd_Store\<close>: what a lookup returns after a write, an append and a
  delete; used by \<open>Snapshot\<close>, \<open>Video\<close> and \<open>Wifi_Transfer\<close>), the frame window of the ring
  (\<open>Ring_Buffer\<close>; used by the drainer), the sample-wise filters (\<open>Dsp\<close>), and \<open>symbol_codec\<close>
  (\<open>Range_Codec\<close>: a pair of operations in lockstep gives whole messages in lockstep and, in \<open>Range_Roundtrip\<close>, the
  round trip of closed packets; interpreted on the coder's operations and on CELT's symbols).

  What the lemmas show.
  \<^item> Refinement and functional correctness: the ring reads as the list of its last 3000 frames; live
    batches and replays put the audible frames on the air, in order, in packets the server parses;
    the audio task keeps the ring contiguous; photos are on the card and listed once, and so are clips
    while starts do not overlap; accepted commands have their effect, once and in order.
  \<^item> Equivalence: the C writer and the Python encoder; the C parser and the Python validator; filters
    per frame and on the whole stream.
  \<^item> Invariants and safety: the device advertises whenever it should and never during a transfer; the
    key it checks commands against is always the provisioned one; the detector's arithmetic never
    wraps; item requests stay on the card.
  \<^item> Round trips and bounds: packets, manifest lines, consumed names, command parameters; what the
    range coder and the raw bits write, for every message whose symbols may depend on those before;
    extensions; packets out of the repacketizer; pulse vectors, numbered one to one by the table that is
    shown to be the counting function; Laplace-coded deltas, whose searches agree on both sides.
  \<^item> No drift: the band energies that predict the next frame are the same in encoder and decoder, bit for
    bit, whatever else is coded between, when the first band has its bits (one bit left is a fault).
  \<^item> Safety on any bytes: the parser of Opus packets and the range decoder read nothing outside their
    buffer and answer within the limits of the format; unpadding a valid packet never fails.
  \<^item> Termination: the transfer window, the button test, the loops of the drainer and the handlers (by
    the measures of their functions).
  \<^item> Faults of the code, as theorems on the same definitions: the overflow of the replay arrays, the
    drainer that stays at one cursor, the energies that drift on a last bit, the recording cut by its predecessor, the clip listed
    twice by overlapping starts, the lost manifest line,
    the overflow of the self-test's sums, and others that are lemmas of their theories.

  Bounds. Counters that the properties need not to wrap are bounded in their hypotheses (2^32 frames
  are 2.7 years). No definition uses fuel: every loop of the code is a
  structural recursion or a \<open>function\<close> with its measure (the rounds of a replay decrease the frames
  left, the polls of the button test the time left); the wait for the button's release, which may
  not end, is a \<open>partial_function\<close>, as are the renormalisations of the range coder and the search of the Laplace decoder,
  which are shown to return. The pulse table covers 15 rows up to 176; the laws hold for the bands inside it whose
  count fits 32 bits (\<open>pvq_ok\<close>). Of a Laplace model they ask that its tail starts below 32767, which is evaluated
  for all 168 models of \<open>quant_bands.c\<close>.

  Idealised: in the context of the range coder the count of waiting carry bytes and the count of bits
  are unbounded (the C's wrap after 2^32 bytes); the flush of stale frames before a photo leaves no
  trace, as the camera is an argument; a submission before \<open>executor_init\<close> succeeded (a NULL queue) is
  not a step; the executor runs a start of video to its end (its interleavings are in \<open>Video\<close>);
  the decoding of the energies has no loss-recovery branch; the drainer reads the ring at one moment
  per iteration; an append that tears a manifest line is excluded where a property says so.

  Not modelled: log output, delays and stack sizes; the printed details and the LED pin set-up of the
  self-test; the rounding of the double-precision variance in its camera test; of the vendored Opus
  library the signal processing (SILK, the transforms and band shapes of CELT, the soft clipper), the mode decisions
  (the choice between two codings of the energies among them) and the rate control, which are numeric code whose meaning is a listening quality, not a contract; round trips
  in self-delimited framing; the SD throughput spike; the Android application and the rest of the server.
\<close>

section \<open>From the microphones to the server\<close>

text \<open>
  C5: Speech reaches the server: with an encoder that does not fail, after any run of the audio task
  an iteration of the drainer in mid-speech, at a cursor the ring still holds, sends LIVE packets
  that the server parses, with consecutive sequence numbers, and together they hold, in order, what
  the encoder made of the voiced frames among those ten (without those too large for any packet).
\<close>

theorem speech_reaches_server:
  assumes "encodes enc" and "ring_buffer_init True = Some r" and "length fs < 4294967296"
    and "c + C6_FRAMES_PER_CHUNK \<le> length fs" and "length fs \<le> c + RING_FRAMES"
    and "cursor s = of_nat c" and "in_speech s"
    and "filter audible (span (recorded enc dc_blocker_init hpf_init (configured_vad v) e 0 fs)
          c C6_FRAMES_PER_CHUNK) = batch" and "batch \<noteq> []"
  shows "\<exists>ps qs s'. (let ring = a_ring (audio_run enc fs (audio_task_init v e r))
        in drain_live (\<lambda>i. ring_buffer_get i ring) (ring_buffer_write_index ring) mtu ntf s air)
      = (s', foldl (\<lambda>a p. send_packet ntf p a) air ps)
    \<and> cursor s' = of_nat (c + C6_FRAMES_PER_CHUNK)
    \<and> map parse ps = map Inr qs \<and> (\<forall>q \<in> set qs. ap_ptype q = LIVE)
    \<and> map ap_chunk_seq qs = map (\<lambda>i. uint (chunk_seq s + of_nat i)) [0..<length ps]
    \<and> concat (map ap_frames qs)
        = filter (\<lambda>b. 1 + length b \<le> body_budget mtu) (map fr_bytes batch)"
proof -
  let ?hs = "recorded enc dc_blocker_init hpf_init (configured_vad v) e 0 fs"
  have rel: "ring_rel (a_ring (audio_task_init v e r)) []"
    using ring_rel_init [OF assms(2)] by (simp add: audio_task_init_def)
  have ring: "ring_rel (a_ring (audio_run enc fs (audio_task_init v e r))) ?hs"
    using audio_run_recorded [OF assms(1) rel, of fs] assms(3)
    by (simp add: audio_task_init_def configured_vad_def)
  have len: "length ?hs = length fs"
    using arg_cong [OF recorded_times [of enc _ _ _ _ 0 fs], of length] by simp
  have vad: "\<forall>f \<in> set ?hs. fr_vad f < 4"
    using recorded_gaps [OF assms(1), of dc_blocker_init hpf_init "configured_vad v" e 0 fs]
    by (auto simp: config_simps)
  from drain_live_delivers [OF ring _ _ assms(6) _ vad assms(8,9), of mtu ntf air] assms(4,5,7)
  show ?thesis unfolding len Let_def by fastforce
qed

lemma loud_frame_audible:
  "\<exists>f hs. recorded one_byte dc_blocker_init hpf_init (configured_vad zero_vad) () 0
      ((False, [20000], ref) # fs) = f # hs \<and> audible f"
proof -
  have dc: "dc_blocker_process dc_blocker_init [20000] = ([20000], \<lparr>x_prev = 20000, y_prev = 20000\<rparr>)"
    by (simp add: dc_blocker_step_def dc_blocker_init_def Let_def DC_BLOCKER_R_Q15_def asr_def i32_id
        sat_int16_id sat_int16_def)
  have hp: "hpf_process hpf_init [20000]
      = ([19025], \<lparr>x1 = 20000, x2 = 0, y1_q14 = 311700000, y2_q14 = 0\<rparr>)"
    by (simp add: hpf_step_def hpf_acc_def hpf_init_def Let_def config_simps asr_def i32_id i64_id
        sat_int16_def)
  have "fst (vad_process_single_adaptive (configured_vad zero_vad) [19025]) = C6_SPEECH"
    by (simp add: vad_process_single_adaptive_def frame_energy_def sum_squares_def vad_threshold_def
        configured_vad_def vad_init_adaptive_def zero_vad_def config_simps vad_tail_def Let_def)
  then obtain v' where "vad_process_single_adaptive (configured_vad zero_vad) [19025] = (C6_SPEECH, v')"
    by (metis prod.collapse)
  with dc hp show ?thesis by (simp add: one_byte_def audible_def config_simps)
qed

lemma speech_reaches_server_witness:
  "\<exists>r ps qs s'. ring_buffer_init True = Some r
    \<and> (let ring = a_ring (audio_run one_byte (replicate 10 (False, [20000], [0])) (audio_task_init zero_vad () r))
       in drain_live (\<lambda>i. ring_buffer_get i ring) (ring_buffer_write_index ring) 247
            (\<lambda>p a. (0, a @ [p])) \<lparr>cursor = 0, chunk_seq = 7, in_speech = True\<rparr> [])
      = (s', foldl (\<lambda>a p. send_packet (\<lambda>p a. (0, a @ [p])) p a) [] ps)
    \<and> cursor s' = 10 \<and> map parse ps = map Inr qs"
proof -
  obtain r where r: "ring_buffer_init True = Some r" by (simp add: ring_buffer_init_def)
  let ?fs = "replicate 10 (False, [20000 :: i16], [0 :: i16])"
  let ?hs = "recorded one_byte dc_blocker_init hpf_init (configured_vad zero_vad) () 0 ?fs"
  have "\<exists>f hs. ?hs = f # hs \<and> audible f"
    using loud_frame_audible [of "[0]" "replicate 9 (False, [20000], [0])"]
    by (simp add: eval_nat_numeral)
  then have ne: "filter audible (span ?hs 0 C6_FRAMES_PER_CHUNK) \<noteq> []"
    by (auto simp: span_def C6_FRAMES_PER_CHUNK_def)
  show ?thesis
    using speech_reaches_server [OF one_byte_encodes r _ _ _ _ _ refl ne, where mtu = 247 and air = "[]"
        and s = "\<lparr>cursor = 0, chunk_seq = 7, in_speech = True\<rparr>" and ntf = "\<lambda>p a. (0, a @ [p])"] r
    by (simp add: C6_FRAMES_PER_CHUNK_def RING_FRAMES_val) blast
qed

section \<open>From the server to the drainer\<close>

text \<open>
  C6: A signed replay request is served: on a provisioned device a frame under its key that asks for
  a number of seconds within the bounds, not seen before, is acknowledged and queued, and the round
  of the executor that takes it hands exactly that many whole seconds to the drainer.
\<close>

theorem signed_replay_request_served:
  assumes "command_frame verify cj (s_pubkey s) data cid ''request_buffer'' doc"
    and "\<not> already_seen cid s" and "GetObjectItem cj doc ''params'' = Some params"
    and "represents cj params [(''seconds'', PyNumber v)]" and "1 \<le> v" and "v \<le> 60"
    and "dv_replay d = Some rq" and "length rq < DRAIN_REPLAY_QUEUE_DEPTH"
  shows "\<exists>req. commands_handle verify cj (queue_send EXECUTOR_QUEUE_DEPTH) data s []
        = (ack (remember cid s) cid, remember cid s, [req])
    \<and> dv_replay (executor_dispatch x req d) = Some (rq @ [of_int \<lfloor>v\<rfloor>])"
proof -
  let ?req = "(request0 CMD_REQUEST_BUFFER EXEC_OK)\<lparr>cr_seconds := of_int \<lfloor>v\<rfloor>\<rparr>"
  have "get_number cj (Some params) ''seconds'' = Some (Finite v)"
    using represents_get [OF assms(4)] by simp
  moreover have "params_only_allowed cj (Some params) [''seconds'']"
    using represents_allowed [OF assms(4)] by simp
  ultimately have "executor_parse_and_validate cj ''request_buffer'' (Some params) = ?req"
    using assms(5,6)
    by (simp add: executor_parse_and_validate_def parse_number_def double_lt_def double_gt_def
        double_to_u32_def config_simps)
  then have "commands_handle verify cj (queue_send EXECUTOR_QUEUE_DEPTH) data s []
      = (ack (remember cid s) cid, remember cid s, [?req])"
    using assms(2,3)
    by (simp add: handle_frame [OF assms(1)] execute_def executor_submit_def queue_send_def
        EXECUTOR_QUEUE_DEPTH_def)
  moreover have "dv_replay (executor_dispatch x ?req d) = Some (rq @ [of_int \<lfloor>v\<rfloor>])"
    using assms(7,8) by (simp add: executor_dispatch_def request0_def queue_send_def)
  ultimately show ?thesis by blast
qed

text \<open>A document with an id, a type and one number as its parameter, for the witness.\<close>

definition replay_doc :: "rat \<Rightarrow> nat cjson" where
  "replay_doc v = \<lparr>
     IsObject = (\<lambda>n. n = 0 \<or> n = 1),
     child_keys = (\<lambda>n. if n = 1 then [''seconds''] else [''command_id'', ''type'', ''params'']),
     GetObjectItem = (\<lambda>n k. if n = 0 then [''params'' \<mapsto> 1, ''command_id'' \<mapsto> 2, ''type'' \<mapsto> 3] k
       else if n = 1 then [''seconds'' \<mapsto> 4] k else None),
     IsNumber = (\<lambda>n. n = 4), valuedouble = (\<lambda>n. Finite v),
     IsString = (\<lambda>n. n = 2 \<or> n = 3), valuestring = (\<lambda>n. if n = 2 then ''c1'' else ''request_buffer''),
     ParseWithLength = (\<lambda>bs. Some 0)\<rparr>"

lemma signed_replay_request_served_witness:
  "\<exists>req. commands_handle (\<lambda>sig payload key. True) (replay_doc (25 / 2)) (queue_send EXECUTOR_QUEUE_DEPTH)
        (replicate 70 0) start_state []
      = (ack (remember ''c1'' start_state) ''c1'', remember ''c1'' start_state, [req])
    \<and> dv_replay (executor_dispatch exec_io_ok req (device_boot\<lparr>dv_replay := Some []\<rparr>)) = Some [12]"
proof -
  have frame: "command_frame (\<lambda>sig payload key. True) (replay_doc (25 / 2)) (s_pubkey start_state)
      (replicate 70 0) ''c1'' ''request_buffer'' 0"
    by (simp add: command_frame_def replay_doc_def string_item_def ED25519_SIG_LEN_def)
  have new: "\<not> already_seen ''c1'' start_state"
    by (simp add: start_state_def already_seen_def strncmp_eq_def CMD_ID_MAX_def list_ex_iff)
  have params: "GetObjectItem (replay_doc (25 / 2)) 0 ''params'' = Some 1"
    "represents (replay_doc (25 / 2)) 1 [(''seconds'', PyNumber (25 / 2))]"
    by (simp_all add: replay_doc_def represents_def)
  have "\<lfloor>25 / 2 :: rat\<rfloor> = 12" by (rule floor_unique) simp_all
  with signed_replay_request_served [OF frame new params, of "device_boot\<lparr>dv_replay := Some []\<rparr>" "[]" exec_io_ok]
  show ?thesis by (simp add: DRAIN_REPLAY_QUEUE_DEPTH_def)
qed

section \<open>From the camera to the phone\<close>

lemma strstr_dots_count: "strstr_dots s \<Longrightarrow> 2 \<le> count_list s (CHR ''.'')"
  by (induction s rule: strstr_dots.induct) (auto split: if_splits)

lemma count_dot_digits: "count_list (dec n) (CHR ''.'') = 0" "count_list (pad10 n) (CHR ''.'') = 0"
  by (simp_all add: count_list_0_iff)

text \<open>The handler takes a snapshot's own name as a path of the card.\<close>

lemma item_path_snapshot:
  "item_path (''/item/'' @ snapshot_path NAME_MAX_LEN boot ts seq)
    = Inr (snapshot_path NAME_MAX_LEN boot ts seq)"
proof -
  let ?p = "snapshot_path NAME_MAX_LEN boot ts seq"
  have "count_list ?p (CHR ''.'') = 1"
    by (simp add: snapshot_path_full(1) count_dot_digits)
  then have "\<not> strstr_dots ?p" using strstr_dots_count [of ?p] by linarith
  moreover have "\<not> is_digit (CHR ''?'')" by (simp add: is_digit_def digits10_def)
  then have "CHR ''?'' \<notin> set ?p" by (simp add: snapshot_path_full(1))
  then have name: "takeWhile (\<lambda>c. c \<noteq> CHR ''?'') ?p = ?p" by (auto simp: takeWhile_eq_all_conv)
  moreover have "take 8 ?p = ''/sdcard/''" "hd ?p = CHR ''/''" by (simp_all add: snapshot_path_full(1))
  ultimately show ?thesis
    using media_paths_plain(3,4) [of boot ts seq] by (simp add: item_path_def name Let_def del: takeWhile_eq_all_conv)
qed

lemma content_type_snapshot: "content_type (snapshot_path NAME_MAX_LEN boot ts seq) = ''image/jpeg''"
  by (simp add: content_type_def extension_def snapshot_path_full(1))

text \<open>
  C7: A photo can be fetched: on a mounted card, a capture whose JPEG and manifest line were written
  whole adds one entry to the manifest, and a request for the path in that entry is answered with
  exactly the JPEG, as an image, when the file can be read and every chunk be sent.
\<close>

theorem photo_can_be_fetched:
  assumes "s_mounted c" and "whole_lines (contents c SD_MANIFEST)"
    and "jpeg_of ci = Some data" and "written (ci_write ci) data" and "ci_append ci = io_good"
    and "snapshot_capture_one ci boot ts (c, seq) = (err, c', seq')"
  shows "\<exists>path. manifest_entries (contents c' SD_MANIFEST)
        = manifest_entries (contents c SD_MANIFEST) @ [(path, ts, boot, CHR ''s'')]
    \<and> item_handler True io_good (\<lambda>k. True) (''/item/'' @ path) c' = Resp ''image/jpeg'' data"
proof -
  let ?p = "snapshot_path NAME_MAX_LEN boot ts seq"
  obtain e d where cap: "snapshot_capture_one ci boot ts (c, seq) = (e, d, seq + 1)"
    "sd_files d ?p = Some data" "sd_files d SD_MANIFEST = Some (contents c SD_MANIFEST
       @ manifest_line (NAME_MAX_LEN + 32) ?p ts boot (CHR ''s''))"
    by (rule capture_jpeg [OF assms(1,3), of boot ts seq]) (use assms(4,5) that in blast)
  with assms(6) have files: "sd_files c' ?p = Some data" "contents c' SD_MANIFEST
      = contents c SD_MANIFEST @ manifest_line (NAME_MAX_LEN + 32) ?p ts boot (CHR ''s'')"
    by (simp_all add: contents_def [of c'])
  then have "manifest_entries (contents c' SD_MANIFEST)
      = manifest_entries (contents c SD_MANIFEST) @ [(?p, ts, boot, CHR ''s'')]"
    using manifest_entries_line [OF assms(2) media_paths_plain(3,1,2,4)] by simp
  moreover have "item_handler True io_good (\<lambda>k. True) (''/item/'' @ ?p) c' = Resp ''image/jpeg'' data"
    unfolding item_handler_def item_path_snapshot
    by (simp add: files(1) content_type_snapshot concat_item_chunks)
  ultimately show ?thesis by blast
qed

lemma photo_can_be_fetched_witness:
  "\<exists>path. item_handler True io_good (\<lambda>k. True) (''/item/'' @ path)
      (fst (snd (snapshot_capture_one (good_capture ''abc'' io_good) 7 40
         ((card_at_boot Map.empty)\<lparr>s_mounted := True\<rparr>, 0)))) = Resp ''image/jpeg'' ''abc''"
proof -
  let ?c = "(card_at_boot Map.empty)\<lparr>s_mounted := True\<rparr>"
  obtain err c' seq' where r: "snapshot_capture_one (good_capture ''abc'' io_good) 7 40 (?c, 0) = (err, c', seq')"
    by (metis prod_cases3)
  have "s_mounted ?c" "whole_lines (contents ?c SD_MANIFEST)"
    "jpeg_of (good_capture ''abc'' io_good) = Some ''abc''"
    "written (ci_write (good_capture ''abc'' io_good)) ''abc''" "ci_append (good_capture ''abc'' io_good) = io_good"
    by (simp_all add: card_at_boot_def contents_def whole_lines_def jpeg_of_def good_capture_def
        camera_capture_jpeg_def written_def transferred_def)
  from photo_can_be_fetched [OF this r] show ?thesis by (auto simp: r)
qed

end
